(* ===== verification/SCDK_Prelude.thy ===== *)
theory SCDK_Prelude
  imports Main "HOL-Library.Word"
begin

text \<open>
  Shared vocabulary of the development: the C integer types as words, the
  status codes of \<^verbatim>\<open>include/scdk/status.h\<close>, the first-free-slot scan every
  static table of the kernel is searched with, the generation counter of the
  object and capability tables, and lemmas on words that the components share.
  The named collections are \<open>kconst\<close> (numeric constants of the headers),
  \<open>kframe\<close> (what an operation leaves unchanged) and \<open>scan_facts\<close>.
\<close>

unbundle bit_operations_syntax

named_theorems kconst
named_theorems kframe
named_theorems scan_facts

type_synonym u8 = "8 word"
type_synonym u16 = "16 word"
type_synonym u32 = "32 word"
type_synonym u64 = "64 word"

section \<open>Status codes\<close>

datatype scdk_status =
    SCDK_OK
  | SCDK_ERR_INVAL
  | SCDK_ERR_NOMEM
  | SCDK_ERR_NOENT
  | SCDK_ERR_PERM
  | SCDK_ERR_BOUNDS
  | SCDK_ERR_BUSY
  | SCDK_ERR_NOTSUP

text \<open>The cast \<^verbatim>\<open>(uint64_t)status\<close> of the \<^verbatim>\<open>int64_t\<close> codes.\<close>

fun status_word :: "scdk_status \<Rightarrow> u64" where
  "status_word SCDK_OK = 0"
| "status_word SCDK_ERR_INVAL = - 1"
| "status_word SCDK_ERR_NOMEM = - 2"
| "status_word SCDK_ERR_NOENT = - 3"
| "status_word SCDK_ERR_PERM = - 4"
| "status_word SCDK_ERR_BOUNDS = - 5"
| "status_word SCDK_ERR_BUSY = - 6"
| "status_word SCDK_ERR_NOTSUP = - 7"

lemma status_word_inj [simp]: "status_word a = status_word b \<longleftrightarrow> a = b"
  by (cases a; cases b) simp_all

text \<open>
  A call that writes a value through an out-pointer and returns a status is
  modelled as a sum: \<open>Inl e\<close> is the early return with code \<open>e\<close>, \<open>Inr v\<close> is
  \<^verbatim>\<open>SCDK_OK\<close> with \<open>v\<close> written through the pointer.
\<close>

type_synonym 'a res = "scdk_status + 'a"

fun res_status :: "'a res \<Rightarrow> scdk_status" where
  "res_status (Inl e) = e"
| "res_status (Inr v) = SCDK_OK"

fun res_opt :: "'a res \<Rightarrow> 'a option" where
  "res_opt (Inl e) = None"
| "res_opt (Inr v) = Some v"

lemma res_opt_Some [simp]: "res_opt r = Some v \<longleftrightarrow> r = Inr v"
  by (cases r) simp_all

lemma res_opt_None [simp]: "res_opt r = None \<longleftrightarrow> (\<exists>e. r = Inl e)"
  by (cases r) simp_all

section \<open>Scanning a static table\<close>

text \<open>
  \<^verbatim>\<open>for (i = 0; i < n; i++) { if (!p(i)) continue; ...; return; }\<close>: the first
  index that satisfies \<open>p\<close>, or none.
\<close>

function scan :: "(nat \<Rightarrow> bool) \<Rightarrow> nat \<Rightarrow> nat \<Rightarrow> nat option" where
  "scan p i n = (if i < n then if p i then Some i else scan p (Suc i) n else None)"
  by pat_completeness auto
termination
  by (relation "measure (\<lambda>(p, i, n). n - i)") auto

declare scan.simps [simp del]

abbreviation first_slot :: "(nat \<Rightarrow> bool) \<Rightarrow> nat \<Rightarrow> nat option" where
  "first_slot p n \<equiv> scan p 0 n"

lemma scan_SomeD:
  "scan p i n = Some k \<Longrightarrow> i \<le> k \<and> k < n \<and> p k \<and> (\<forall>j. i \<le> j \<and> j < k \<longrightarrow> \<not> p j)"
proof (induction p i n rule: scan.induct)
  case (1 p i n)
  show ?case
  proof (cases "i < n \<and> \<not> p i")
    case True
    with 1 have "Suc i \<le> k \<and> k < n \<and> p k \<and> (\<forall>j. Suc i \<le> j \<and> j < k \<longrightarrow> \<not> p j)"
      by (simp add: scan.simps [of p i n])
    with True show ?thesis
      by (metis Suc_leD le_antisym not_less_eq_eq)
  next
    case False
    with "1.prems" show ?thesis
      by (auto simp: scan.simps [of p i n] split: if_splits)
  qed
qed

lemma scan_NoneD: "scan p i n = None \<Longrightarrow> i \<le> j \<Longrightarrow> j < n \<Longrightarrow> \<not> p j"
proof (induction p i n rule: scan.induct)
  case (1 p i n)
  show ?case
  proof (cases "j = i")
    case True
    with "1.prems" show ?thesis
      by (auto simp: scan.simps [of p i n] split: if_splits)
  next
    case False
    with "1.prems" have "Suc i \<le> j" "scan p (Suc i) n = None" "i < n" "\<not> p i"
      by (auto simp: scan.simps [of p i n] split: if_splits)
    with "1.IH" "1.prems"(3) show ?thesis by blast
  qed
qed

lemma first_slot_None [scan_facts]: "first_slot p n = None \<longleftrightarrow> (\<forall>j<n. \<not> p j)"
proof
  assume "\<forall>j<n. \<not> p j"
  then show "first_slot p n = None"
    using scan_SomeD [of p 0 n] by (cases "first_slot p n") auto
qed (use scan_NoneD in blast)

lemma first_slot_Some [scan_facts]:
  "first_slot p n = Some k \<longleftrightarrow> k < n \<and> p k \<and> (\<forall>j<k. \<not> p j)"
proof
  assume k: "k < n \<and> p k \<and> (\<forall>j<k. \<not> p j)"
  then have "first_slot p n \<noteq> None"
    unfolding first_slot_None by blast
  then obtain k' where k': "first_slot p n = Some k'" by blast
  then have "k' < n \<and> p k' \<and> (\<forall>j<k'. \<not> p j)"
    using scan_SomeD [of p 0 n k'] by auto
  with k have "k' = k" by (metis linorder_neqE_nat)
  with k' show "first_slot p n = Some k" by simp
qed (use scan_SomeD [of p 0 n k] in auto)

lemma first_slot_never [simp]: "first_slot (\<lambda>i. False) n = None"
  by (simp add: first_slot_None)

lemma first_slot_hit: "p 0 \<Longrightarrow> 0 < n \<Longrightarrow> first_slot p n = Some 0"
  by (simp add: first_slot_Some)

lemma comp_fun_upd: "f \<circ> g(x := y) = (f \<circ> g)(x := f y)"
  by (simp add: fun_eq_iff)

section \<open>Words\<close>

lemma mod_shift_neq: "a < m \<Longrightarrow> 0 < n \<Longrightarrow> n < m \<Longrightarrow> (a + n) mod m \<noteq> (a :: nat)"
  by (cases "a + n < m") (auto simp: mod_if)

lemma unat_Suc_word:
  fixes x :: "'a::len word"
  assumes "x + 1 \<noteq> 0"
  shows "unat (x + 1) = Suc (unat x)"
proof -
  have m: "unat (x + 1) = Suc (unat x) mod 2 ^ LENGTH('a)"
    by (simp add: unat_word_ariths mod_Suc_eq)
  have "unat x < 2 ^ LENGTH('a)" by (rule unsigned_less)
  moreover have "Suc (unat x) \<noteq> 2 ^ LENGTH('a)"
  proof
    assume "Suc (unat x) = 2 ^ LENGTH('a)"
    with m have "unat (x + 1) = 0" by simp
    with assms show False by (simp add: unat_eq_0)
  qed
  ultimately have "Suc (unat x) < 2 ^ LENGTH('a)" by linarith
  with m show ?thesis by simp
qed

lemma unat_u32_less: "unat (x :: u32) < 2 ^ 32"
  using unsigned_less [of x] by simp

lemma unat_u64_less: "unat (x :: u64) < 2 ^ 64"
  using unsigned_less [of x] by simp

lemma mask32: "(0xffffffff :: u64) = mask 32"
  by (simp add: mask_eq_exp_minus_1)

text \<open>
  Packing two 32-bit halves into a 64-bit token, as \<^verbatim>\<open>object_make_id\<close>,
  \<^verbatim>\<open>cap_make_token\<close>, \<^verbatim>\<open>scdk_tty_pack_event\<close> and \<^verbatim>\<open>console_handle_get_info\<close> do.
\<close>

lemma pack_low [simp]:
  "(ucast ((push_bit 32 (ucast (g::u32)) OR ucast (i::u32)) AND (mask 32 :: u64)) :: u32) = i"
  by (rule bit_word_eqI) (auto simp: bit_simps)

lemma pack_high [simp]:
  "(ucast (drop_bit 32 (push_bit 32 (ucast (g::u32)) OR ucast (i::u32) :: u64)) :: u32) = g"
proof (rule bit_word_eqI)
  fix n
  assume "n < LENGTH(32)"
  moreover have "\<not> bit i (32 + n)"
    using bit_imp_le_length [of i "32 + n"] by auto
  ultimately show "bit (ucast (drop_bit 32 (push_bit 32 (ucast g) OR ucast i :: u64)) :: u32) n = bit g n"
    by (auto simp: bit_simps)
qed

end
