(* ===== verification/SCDK_Interfaces.thy ===== *)
theory SCDK_Interfaces
  imports SCDK_Prelude
begin

text \<open>
  The contracts several components of the kernel share, as locales.

  \<^item> \<open>token_space\<close>: a table that mints tokens (object ids, capabilities).
  \<^item> \<open>revocable_space\<close>: a token space whose tokens can be killed.
  \<^item> \<open>bounded_fifo\<close>: a bounded queue (submission and completion rings, the
    run queue, the keyboard queue).
  \<^item> \<open>page_source\<close>: an allocator that hands out units and takes them back.
  \<^item> \<open>block_store\<close>: an allocator of disjoint memory blocks with contents.

  Each is interpreted on the model's own definitions in the theory of the
  component that provides it.
\<close>

section \<open>Token spaces\<close>

text \<open>Minting for a list of requests; a refused request yields no token.\<close>

fun mint_all :: "('s \<Rightarrow> 'a \<Rightarrow> 'k res \<times> 's) \<Rightarrow> 's \<Rightarrow> 'a list \<Rightarrow> 'k list \<times> 's" where
  "mint_all mint s [] = ([], s)"
| "mint_all mint s (a # as) =
     (case mint s a of
        (Inl e, s1) \<Rightarrow> mint_all mint s1 as
      | (Inr k, s1) \<Rightarrow> (case mint_all mint s1 as of (ks, s2) \<Rightarrow> (k # ks, s2)))"

locale token_space =
  fixes inv :: "'s \<Rightarrow> bool"
    and look :: "'s \<Rightarrow> 'k \<Rightarrow> 'v option"
    and mint :: "'s \<Rightarrow> 'a \<Rightarrow> 'k res \<times> 's"
    and designates :: "'s \<Rightarrow> 'a \<Rightarrow> 'v \<Rightarrow> bool"
  assumes mint_inv: "inv s \<Longrightarrow> mint s a = (r, s') \<Longrightarrow> inv s'"
    and mint_fresh: "inv s \<Longrightarrow> mint s a = (Inr k, s') \<Longrightarrow> look s k = None"
    and mint_look: "inv s \<Longrightarrow> mint s a = (Inr k, s') \<Longrightarrow> \<exists>v. look s' k = Some v \<and> designates s a v"
    and mint_other: "inv s \<Longrightarrow> mint s a = (Inr k, s') \<Longrightarrow> k' \<noteq> k \<Longrightarrow> look s' k' = look s k'"
    and mint_refused: "inv s \<Longrightarrow> mint s a = (Inl e, s') \<Longrightarrow> look s' k' = look s k'"
begin

lemma mint_keeps:
  assumes "inv s" and "mint s a = (r, s')" and "look s k = Some v"
  shows "look s' k = Some v"
proof (cases r)
  case (Inl e)
  with assms show ?thesis using mint_refused by simp
next
  case (Inr t)
  have "t \<noteq> k" using mint_fresh [of s a t s'] assms Inr by auto
  with assms Inr show ?thesis using mint_other by simp
qed

lemma mint_all_keeps:
  "inv s \<Longrightarrow> mint_all mint s as = (ks, s') \<Longrightarrow> look s k = Some v \<Longrightarrow> look s' k = Some v"
proof (induction as arbitrary: s ks)
  case (Cons a as)
  obtain r s1 where m: "mint s a = (r, s1)" by fastforce
  then have "inv s1" "look s1 k = Some v"
    using Cons.prems mint_inv mint_keeps by blast+
  with Cons m show ?case by (auto split: sum.splits prod.splits)
qed simp

text \<open>A whole sequence of requests never yields the same token twice.\<close>

lemma mint_all_distinct:
  "inv s \<Longrightarrow> mint_all mint s as = (ks, s') \<Longrightarrow>
     inv s' \<and> distinct ks \<and> (\<forall>k\<in>set ks. look s k = None \<and> look s' k \<noteq> None)"
proof (induction as arbitrary: s ks)
  case (Cons a as)
  obtain r s1 where m: "mint s a = (r, s1)" by fastforce
  with Cons.prems(1) have i1: "inv s1" using mint_inv by blast
  show ?case
  proof (cases r)
    case (Inl e)
    have same: "look s1 k = look s k" for k
      using mint_refused [of s a e s1] Cons.prems(1) m Inl by simp
    from Cons.prems(2) m Inl have "mint_all mint s1 as = (ks, s')" by simp
    from Cons.IH [OF i1 this] show ?thesis by (simp add: same)
  next
    case (Inr k)
    with Cons.prems m obtain ks2 where ks2: "mint_all mint s1 as = (ks2, s')" "ks = k # ks2"
      by (auto split: prod.splits)
    note ih = Cons.IH [OF i1 ks2(1)]
    obtain v where v: "look s1 k = Some v"
      using mint_look [of s a k s1] Cons.prems(1) m Inr by blast
    then have "k \<notin> set ks2" using ih by auto
    moreover have "look s' k = Some v" using mint_all_keeps [OF i1 ks2(1) v] .
    moreover have "look s k = None" using mint_fresh [of s a k s1] Cons.prems(1) m Inr by blast
    moreover have "look s k' = None" if "k' \<in> set ks2" for k'
      using that ih mint_other [of s a k s1 k'] Cons.prems(1) m Inr \<open>k \<notin> set ks2\<close> by metis
    ultimately show ?thesis using ih ks2(2) by auto
  qed
qed simp

end

locale revocable_space = token_space inv look mint designates
  for inv :: "'s \<Rightarrow> bool"
    and look :: "'s \<Rightarrow> 'k \<Rightarrow> 'v option"
    and mint :: "'s \<Rightarrow> 'a \<Rightarrow> 'k res \<times> 's"
    and designates :: "'s \<Rightarrow> 'a \<Rightarrow> 'v \<Rightarrow> bool" +
  fixes kill :: "'s \<Rightarrow> 'k \<Rightarrow> scdk_status \<times> 's"
  assumes kill_inv: "inv s \<Longrightarrow> kill s k = (r, s') \<Longrightarrow> inv s'"
    and kill_live: "inv s \<Longrightarrow> look s k \<noteq> None \<Longrightarrow> fst (kill s k) = SCDK_OK"
    and kill_dead: "inv s \<Longrightarrow> kill s k = (SCDK_OK, s') \<Longrightarrow> look s' k = None"
    and kill_other: "inv s \<Longrightarrow> kill s k = (r, s') \<Longrightarrow> k' \<noteq> k \<Longrightarrow> look s' k' = look s k'"
    and kill_refused: "inv s \<Longrightarrow> look s k = None \<Longrightarrow> kill s k = (r, s') \<Longrightarrow> r \<noteq> SCDK_OK \<and> s' = s"
begin

text \<open>Revocation is precise and takes effect at once; doing it twice is an error.\<close>

lemma kill_exact:
  assumes "inv s" and "look s k \<noteq> None"
  shows "\<exists>s'. kill s k = (SCDK_OK, s') \<and> inv s' \<and> look s' = (look s)(k := None)"
proof -
  obtain r s' where k: "kill s k = (r, s')" by fastforce
  with assms kill_live have r: "r = SCDK_OK" by fastforce
  have "look s' = (look s)(k := None)"
    using kill_other [OF assms(1) k] kill_dead [OF assms(1)] k r by (auto simp: fun_eq_iff)
  with k r kill_inv [OF assms(1) k] show ?thesis by blast
qed

lemma kill_twice:
  assumes "inv s" and "kill s k = (SCDK_OK, s1)" and "kill s1 k = (r, s2)"
  shows "r \<noteq> SCDK_OK \<and> s2 = s1"
  using assms kill_inv kill_dead kill_refused by metis

end

section \<open>Bounded first-in first-out queues\<close>

datatype 'a qop = Enq 'a | Deq

text \<open>
  A run of queue operations: the values accepted by the enqueues and the values
  returned by the dequeues, in order. Operations refused by the queue (full,
  empty) change nothing.
\<close>

fun qrun :: "('q \<Rightarrow> 'a \<Rightarrow> 'q option) \<Rightarrow> ('q \<Rightarrow> ('a \<times> 'q) option) \<Rightarrow> 'q \<Rightarrow> 'a qop list
    \<Rightarrow> 'a list \<times> 'a list \<times> 'q" where
  "qrun enq deq q [] = ([], [], q)"
| "qrun enq deq q (Enq x # ops) =
     (case enq q x of
        None \<Rightarrow> qrun enq deq q ops
      | Some q1 \<Rightarrow> (case qrun enq deq q1 ops of (acc, out, q2) \<Rightarrow> (x # acc, out, q2)))"
| "qrun enq deq q (Deq # ops) =
     (case deq q of
        None \<Rightarrow> qrun enq deq q ops
      | Some (x, q1) \<Rightarrow> (case qrun enq deq q1 ops of (acc, out, q2) \<Rightarrow> (acc, x # out, q2)))"

locale bounded_fifo =
  fixes inv :: "'q \<Rightarrow> bool"
    and room :: "'q \<Rightarrow> nat"
    and items :: "'q \<Rightarrow> 'a list"
    and enq :: "'q \<Rightarrow> 'a \<Rightarrow> 'q option"
    and deq :: "'q \<Rightarrow> ('a \<times> 'q) option"
  assumes len: "inv q \<Longrightarrow> length (items q) \<le> room q"
    and enq_full: "inv q \<Longrightarrow> enq q x = None \<longleftrightarrow> length (items q) = room q"
    and enq_ok: "inv q \<Longrightarrow> enq q x = Some q' \<Longrightarrow> inv q' \<and> room q' = room q \<and> items q' = items q @ [x]"
    and deq_empty: "inv q \<Longrightarrow> deq q = None \<longleftrightarrow> items q = []"
    and deq_ok: "inv q \<Longrightarrow> deq q = Some (x, q') \<Longrightarrow> inv q' \<and> room q' = room q \<and> items q = x # items q'"
begin

text \<open>No value is lost, duplicated or reordered by any run of operations.\<close>

lemma qrun_fifo:
  "inv q \<Longrightarrow> qrun enq deq q ops = (acc, out, q') \<Longrightarrow>
     inv q' \<and> room q' = room q \<and> items q @ acc = out @ items q'"
proof (induction ops arbitrary: q acc out)
  case (Cons p ops)
  show ?case
  proof (cases p)
    case (Enq x)
    with Cons show ?thesis
      using enq_ok [of q x] by (fastforce split: option.splits prod.splits)
  next
    case Deq
    with Cons show ?thesis
      using deq_ok [of q] by (fastforce split: option.splits prod.splits)
  qed
qed simp

lemma qrun_bounded:
  "inv q \<Longrightarrow> qrun enq deq q ops = (acc, out, q') \<Longrightarrow>
     length (items q') \<le> room q \<and> length acc \<le> length out + room q"
proof -
  assume i: "inv q" and r: "qrun enq deq q ops = (acc, out, q')"
  note f = qrun_fifo [OF i r]
  then have "length (items q) + length acc = length out + length (items q')"
    by (metis length_append)
  with f len [of q'] show ?thesis by linarith
qed

text \<open>A batch that fits is accepted whole and comes out in the order it went in.\<close>

lemma enq_batch:
  "inv q \<Longrightarrow> length (items q) + length xs \<le> room q \<Longrightarrow>
     \<exists>q'. qrun enq deq q (map Enq xs) = (xs, [], q') \<and> inv q' \<and> items q' = items q @ xs"
proof (induction xs arbitrary: q)
  case (Cons x xs)
  then have "enq q x \<noteq> None" using enq_full by auto
  then obtain q1 where q1: "enq q x = Some q1" by blast
  with Cons.prems(1) have i: "inv q1 \<and> room q1 = room q \<and> items q1 = items q @ [x]"
    using enq_ok by blast
  with Cons.prems(2) obtain q' where
    "qrun enq deq q1 (map Enq xs) = (xs, [], q')" "inv q'" "items q' = items q1 @ xs"
    using Cons.IH [of q1] by auto
  with q1 i show ?case by simp
qed simp

lemma deq_batch:
  "inv q \<Longrightarrow> \<exists>q'. qrun enq deq q (replicate (length (items q)) Deq) = ([], items q, q') \<and> inv q' \<and> items q' = []"
proof (induction "items q" arbitrary: q)
  case Nil
  then show ?case by simp
next
  case (Cons x xs)
  then have "deq q \<noteq> None" using deq_empty by auto
  then obtain y q1 where d: "deq q = Some (y, q1)" by auto
  with Cons.prems have i: "inv q1 \<and> items q = y # items q1" using deq_ok by blast
  with Cons.hyps obtain q' where
    "qrun enq deq q1 (replicate (length (items q1)) Deq) = ([], items q1, q')" "inv q'" "items q' = []"
    by (metis list.inject)
  with d i show ?case by simp
qed

end

section \<open>Allocators of identical units\<close>

locale page_source =
  fixes inv :: "'s \<Rightarrow> bool"
    and free :: "'s \<Rightarrow> 'p set"
    and owned :: "'s \<Rightarrow> 'p set"
    and alloc :: "'s \<Rightarrow> 'p res \<times> 's"
    and release :: "'s \<Rightarrow> 'p \<Rightarrow> scdk_status \<times> 's"
  assumes disj: "inv s \<Longrightarrow> free s \<inter> owned s = {}"
    and alloc_ok: "inv s \<Longrightarrow> alloc s = (Inr p, s') \<Longrightarrow>
          inv s' \<and> p \<in> free s \<and> free s' = free s - {p} \<and> owned s' = insert p (owned s)"
    and alloc_err: "inv s \<Longrightarrow> alloc s = (Inl e, s') \<Longrightarrow> s' = s \<and> free s = {}"
    and release_ok: "inv s \<Longrightarrow> p \<in> owned s \<Longrightarrow> release s p = (r, s') \<Longrightarrow>
          r = SCDK_OK \<and> inv s' \<and> free s' = insert p (free s) \<and> owned s' = owned s - {p}"
begin

lemma alloc_not_owned: "inv s \<Longrightarrow> alloc s = (Inr p, s') \<Longrightarrow> p \<notin> owned s"
  using disj alloc_ok by blast

text \<open>Two units that are out at the same time are different.\<close>

lemma alloc_twice:
  assumes "inv s" and "alloc s = (Inr p, s1)" and "alloc s1 = (Inr q, s2)"
  shows "p \<noteq> q"
  using alloc_ok [OF assms(1,2)] alloc_ok [of s1 q s2] assms(3) by auto

lemma alloc_release:
  assumes "inv s" and "alloc s = (Inr p, s1)" and "release s1 p = (r, s2)"
  shows "r = SCDK_OK \<and> inv s2 \<and> free s2 = free s \<and> owned s2 = owned s"
  using alloc_ok [OF assms(1,2)] release_ok [of s1 p r s2] assms(3) alloc_not_owned [OF assms(1,2)]
  by auto

end

section \<open>A store of memory blocks\<close>

text \<open>
  A client of an allocator asks for blocks and gives them back; it may only
  release what is live. \<open>0\<close> is the null pointer.
\<close>

datatype store_op = SAlloc u64 | SRelease u64

fun store_run :: "('s \<Rightarrow> u64 \<Rightarrow> u64 \<times> 's) \<Rightarrow> ('s \<Rightarrow> u64 \<Rightarrow> 's) \<Rightarrow> 's \<Rightarrow> store_op list \<Rightarrow> 's" where
  "store_run alloc release s [] = s"
| "store_run alloc release s (SAlloc n # ops) = store_run alloc release (snd (alloc s n)) ops"
| "store_run alloc release s (SRelease p # ops) = store_run alloc release (release s p) ops"

fun store_legal :: "('s \<Rightarrow> (u64 \<times> u64) set) \<Rightarrow> ('s \<Rightarrow> u64 \<Rightarrow> u64 \<times> 's) \<Rightarrow> ('s \<Rightarrow> u64 \<Rightarrow> 's) \<Rightarrow> 's \<Rightarrow> store_op list \<Rightarrow> bool" where
  "store_legal live alloc release s [] \<longleftrightarrow> True"
| "store_legal live alloc release s (SAlloc n # ops) \<longleftrightarrow> store_legal live alloc release (snd (alloc s n)) ops"
| "store_legal live alloc release s (SRelease p # ops) \<longleftrightarrow>
     (\<exists>n. (p, n) \<in> live s) \<and> store_legal live alloc release (release s p) ops"

abbreviation span :: "u64 \<Rightarrow> u64 \<Rightarrow> nat set" where
  "span p n \<equiv> {unat p ..< unat p + unat n}"

locale block_store =
  fixes inv :: "'s \<Rightarrow> bool"
    and live :: "'s \<Rightarrow> (u64 \<times> u64) set"
    and data :: "'s \<Rightarrow> u64 \<Rightarrow> u64"
    and alloc :: "'s \<Rightarrow> u64 \<Rightarrow> u64 \<times> 's"
    and release :: "'s \<Rightarrow> u64 \<Rightarrow> 's"
  assumes apart: "inv s \<Longrightarrow> (p, n) \<in> live s \<Longrightarrow> (q, k) \<in> live s \<Longrightarrow> (p, n) \<noteq> (q, k) \<Longrightarrow> p \<noteq> q \<and> span p n \<inter> span q k = {}"
    and alloc_null: "inv s \<Longrightarrow> alloc s z = (0, s') \<Longrightarrow> inv s' \<and> live s' = live s"
    and alloc_block: "inv s \<Longrightarrow> alloc s z = (p, s') \<Longrightarrow> p \<noteq> 0 \<Longrightarrow>
          inv s' \<and> (\<exists>n. z \<le> n \<and> (p, n) \<notin> live s \<and> live s' = insert (p, n) (live s))"
    and alloc_data: "inv s \<Longrightarrow> alloc s z = (q, s') \<Longrightarrow> (p, n) \<in> live s \<Longrightarrow> unat x \<in> span p n \<Longrightarrow> data s' x = data s x"
    and release_live: "inv s \<Longrightarrow> (p, n) \<in> live s \<Longrightarrow> inv (release s p) \<and> live (release s p) = live s - {(p, n)}"
    and release_data: "inv s \<Longrightarrow> (q, k) \<in> live s \<Longrightarrow> (p, n) \<in> live s \<Longrightarrow> p \<noteq> q \<Longrightarrow> unat x \<in> span p n \<Longrightarrow>
          data (release s q) x = data s x"
begin

lemma alloc_inv: "inv s \<Longrightarrow> inv (snd (alloc s z)) \<and> live s \<subseteq> live (snd (alloc s z))"
proof -
  assume i: "inv s"
  obtain p s' where a: "alloc s z = (p, s')" by fastforce
  show ?thesis using alloc_null [OF i, of z s'] alloc_block [OF i a] a by (cases "p = 0") auto
qed

text \<open>A block its owner keeps stays live with its data, whatever the other clients do.\<close>

lemma kept_block:
  "inv s \<Longrightarrow> (p, n) \<in> live s \<Longrightarrow> store_legal live alloc release s ops \<Longrightarrow> SRelease p \<notin> set ops \<Longrightarrow>
     inv (store_run alloc release s ops) \<and> (p, n) \<in> live (store_run alloc release s ops) \<and>
     (\<forall>x. unat x \<in> span p n \<longrightarrow> data (store_run alloc release s ops) x = data s x)"
proof (induction ops arbitrary: s)
  case (Cons a ops)
  show ?case
  proof (cases a)
    case (SAlloc z)
    obtain q s' where a: "alloc s z = (q, s')" by fastforce
    have "inv s' \<and> (p, n) \<in> live s'" using alloc_inv [OF Cons.prems(1), of z] Cons.prems(2) a by auto
    moreover have "\<forall>x. unat x \<in> span p n \<longrightarrow> data s' x = data s x"
      using alloc_data [OF Cons.prems(1) a Cons.prems(2)] by blast
    ultimately show ?thesis using Cons.IH [of s'] Cons.prems(3,4) by (simp add: a SAlloc)
  next
    case (SRelease q)
    obtain k where k: "(q, k) \<in> live s" using Cons.prems(3) by (auto simp: SRelease)
    have pq: "p \<noteq> q" using Cons.prems(4) by (auto simp: SRelease)
    have "inv (release s q) \<and> (p, n) \<in> live (release s q)"
      using release_live [OF Cons.prems(1) k] Cons.prems(2) pq by auto
    moreover have "\<forall>x. unat x \<in> span p n \<longrightarrow> data (release s q) x = data s x"
      using release_data [OF Cons.prems(1) k Cons.prems(2) pq] by blast
    ultimately show ?thesis using Cons.IH [of "release s q"] Cons.prems(3,4) by (simp add: SRelease)
  qed
qed simp

end

end
