(* ===== verification/SCDK_Object.thy ===== *)
theory SCDK_Object
  imports SCDK_Interfaces
begin

text \<open>
  The object manager, \<^verbatim>\<open>src/core/object.c\<close>: a static table of object metadata
  with a generation counter per slot. An id is the slot index in the low and
  the generation in the high 32 bits. Objects are never destroyed in this
  version, so a slot is used at most once; the generation check guards the
  slot reuse a later version may add. The type of an object is the datatype of the
  enumerators of \<^verbatim>\<open>object.h\<close>: the 32-bit field could hold other values, but every
  call of \<^verbatim>\<open>scdk_object_create\<close> in the kernel passes an enumerator.
\<close>

section \<open>Data\<close>

datatype scdk_object_type =
    SCDK_OBJ_NONE
  | SCDK_OBJ_FRAME
  | SCDK_OBJ_ADDRESS_SPACE
  | SCDK_OBJ_TASK
  | SCDK_OBJ_THREAD
  | SCDK_OBJ_ENDPOINT
  | SCDK_OBJ_RING
  | SCDK_OBJ_GRANT
  | SCDK_OBJ_SERVICE
  | SCDK_OBJ_FILE
  | SCDK_OBJ_DEVICE
  | SCDK_OBJ_DEVICE_QUEUE

text \<open>
  The \<^verbatim>\<open>void *payload\<close> of an object: null, a pointer to a slot of one of the
  kernel's static tables, or (address spaces) a pointer into the kernel heap.
\<close>

datatype payload =
    PNull
  | PEndpoint nat
  | PRing nat
  | PGrant nat
  | PUserGrant nat
  | PTask nat
  | PThread nat
  | PFile nat
  | PDevice nat
  | PQueue nat
  | PHeap u64

record scdk_object =
  obj_id :: u64
  obj_type :: scdk_object_type
  obj_generation :: u32
  obj_owner_core :: u32
  obj_flags :: u32
  obj_payload :: payload

definition SCDK_MAX_OBJECTS :: nat where
  [kconst]: "SCDK_MAX_OBJECTS = 4096"

definition SCDK_MAX_CORES :: u32 where
  [kconst]: "SCDK_MAX_CORES = 1"

definition SCDK_BOOT_CORE :: u32 where
  [kconst]: "SCDK_BOOT_CORE = 0"

text \<open>
  The state of a component is a record; the record of a component that uses
  another one extends it, so every operation below runs on the state of its
  clients too. A static table is a function from the slot index; the bounds
  checks are those of the code.
\<close>

record obj_state =
  object_table :: "nat \<Rightarrow> scdk_object"
  object_generations :: "nat \<Rightarrow> u32"

definition null_object :: scdk_object where
  "null_object = \<lparr>obj_id = 0, obj_type = SCDK_OBJ_NONE, obj_generation = 0,
     obj_owner_core = 0, obj_flags = 0, obj_payload = PNull\<rparr>"

section \<open>Operations\<close>

definition object_make_id :: "u32 \<Rightarrow> u32 \<Rightarrow> u64" where
  "object_make_id index generation = push_bit 32 (ucast generation) OR ucast index"

definition object_id_index :: "u64 \<Rightarrow> u32" where
  "object_id_index i = ucast (i AND 0xffffffff)"

definition object_id_generation :: "u64 \<Rightarrow> u32" where
  "object_id_generation i = ucast (drop_bit 32 i)"

text \<open>The increment that skips generation 0.\<close>

definition bump_generation :: "u32 \<Rightarrow> u32" where
  "bump_generation g = (let generation = g + 1 in if generation = 0 then 1 else generation)"

definition next_generation :: "'a obj_state_scheme \<Rightarrow> nat \<Rightarrow> u32 \<times> 'a obj_state_scheme" where
  "next_generation s i =
     (let generation = bump_generation (object_generations s i)
      in (generation, s\<lparr>object_generations := (object_generations s)(i := generation)\<rparr>))"

definition scdk_object_create ::
  "'a obj_state_scheme \<Rightarrow> scdk_object_type \<Rightarrow> u32 \<Rightarrow> u32 \<Rightarrow> payload \<Rightarrow> u64 res \<times> 'a obj_state_scheme"
where
  "scdk_object_create s type owner_core flags payload =
     (if type = SCDK_OBJ_NONE \<or> owner_core \<ge> SCDK_MAX_CORES then (Inl SCDK_ERR_INVAL, s)
      else case first_slot (\<lambda>i. obj_type (object_table s i) = SCDK_OBJ_NONE) SCDK_MAX_OBJECTS of
        None \<Rightarrow> (Inl SCDK_ERR_NOMEM, s)
      | Some i \<Rightarrow>
          (let (generation, s1) = next_generation s i;
               oid = object_make_id (of_nat i) generation
           in (Inr oid,
               s1\<lparr>object_table := (object_table s1)(i :=
                 \<lparr>obj_id = oid, obj_type = type, obj_generation = generation,
                  obj_owner_core = owner_core, obj_flags = flags, obj_payload = payload\<rparr>)\<rparr>)))"

definition scdk_object_lookup :: "'a obj_state_scheme \<Rightarrow> u64 \<Rightarrow> scdk_object res" where
  "scdk_object_lookup s oid =
     (if oid = 0 then Inl SCDK_ERR_INVAL
      else
        (let index = unat (object_id_index oid);
             generation = object_id_generation oid
         in if index \<ge> SCDK_MAX_OBJECTS \<or> generation = 0 then Inl SCDK_ERR_NOENT
            else
              (let object = object_table s index
               in if obj_type object = SCDK_OBJ_NONE \<or> obj_generation object \<noteq> generation \<or>
                     obj_id object \<noteq> oid
                  then Inl SCDK_ERR_NOENT
                  else Inr object)))"

section \<open>Identifiers and generations\<close>

lemma id_index_make [simp]: "object_id_index (object_make_id i g) = i"
  by (simp add: object_id_index_def object_make_id_def mask32)

lemma id_generation_make [simp]: "object_id_generation (object_make_id i g) = g"
  by (simp only: object_id_generation_def object_make_id_def pack_high)

lemma make_id_inj [simp]: "object_make_id i g = object_make_id j h \<longleftrightarrow> i = j \<and> g = h"
  by (metis id_index_make id_generation_make)

lemma make_id_nonzero [simp]: "g \<noteq> 0 \<Longrightarrow> object_make_id i g \<noteq> 0"
  using id_generation_make [of i g] by (auto simp: object_id_generation_def)

lemma bump_nonzero [simp]: "bump_generation g \<noteq> 0"
  by (simp add: bump_generation_def Let_def)

lemma unat_bump:
  "unat (bump_generation g) = (if unat g = 2 ^ 32 - 1 then 1 else Suc (unat g))"
proof (cases "g + 1 = 0")
  case True
  then have "g = - 1" by (simp add: eq_neg_iff_add_eq_0)
  then show ?thesis
    by (simp add: bump_generation_def unsigned_minus_1_eq_mask mask_eq_exp_minus_1)
next
  case False
  then have "unat (g + 1) = Suc (unat g)" by (rule unat_Suc_word)
  moreover have "unat g \<noteq> 2 ^ 32 - 1"
  proof
    assume "unat g = 2 ^ 32 - 1"
    with \<open>unat (g + 1) = Suc (unat g)\<close> have "unat (g + 1) = 2 ^ 32" by simp
    moreover have "unat (g + 1) < 2 ^ 32" by (rule unat_u32_less)
    ultimately show False by simp
  qed
  ultimately show ?thesis using False by (simp add: bump_generation_def)
qed

lemma bump_neq [simp]: "bump_generation g \<noteq> g"
proof
  assume "bump_generation g = g"
  then have "unat (bump_generation g) = unat g" by simp
  then show False by (simp add: unat_bump split: if_splits)
qed

text \<open>
  The generations of a slot run through \<open>1 .. 2\<^sup>32 - 1\<close> and wrap: after \<open>n\<close> increments
  a generation returns exactly when \<open>2\<^sup>32 - 1\<close> divides \<open>n\<close>.
\<close>

lemma unat_bump_mod:
  assumes "g \<noteq> 0"
  shows "unat (bump_generation g) = unat g mod (2 ^ 32 - 1) + 1"
proof -
  have lt: "unat g < 2 ^ 32" by (rule unat_u32_less)
  have "unat g \<noteq> 0" using assms by (simp add: unat_eq_0)
  with lt show ?thesis by (cases "unat g = 2 ^ 32 - 1") (auto simp: unat_bump)
qed

lemma unat_bump_funpow:
  assumes "g \<noteq> 0"
  shows "unat ((bump_generation ^^ n) g) = (unat g - 1 + n) mod (2 ^ 32 - 1) + 1"
proof (induction n)
  case 0
  have "unat g < 2 ^ 32" by (rule unat_u32_less)
  moreover have "unat g \<noteq> 0" using assms by (simp add: unat_eq_0)
  ultimately show ?case by (simp add: mod_less)
next
  case (Suc n)
  let ?h = "(bump_generation ^^ n) g"
  have "unat ?h \<noteq> 0" using Suc.IH by simp
  then have "?h \<noteq> 0" by (metis unat_0)
  then have "unat (bump_generation ?h) = unat ?h mod (2 ^ 32 - 1) + 1" by (rule unat_bump_mod)
  also have "\<dots> = (unat g - 1 + Suc n) mod (2 ^ 32 - 1) + 1"
    unfolding Suc.IH by (simp add: mod_Suc_eq)
  finally show ?case by simp
qed

lemma bump_funpow_neq:
  assumes "g \<noteq> 0" and "0 < n" and "n < 2 ^ 32 - 1"
  shows "(bump_generation ^^ n) g \<noteq> g"
proof
  assume eq: "(bump_generation ^^ n) g = g"
  have lt: "unat g < 2 ^ 32" by (rule unat_u32_less)
  have nz: "unat g \<noteq> 0" using assms(1) by (simp add: unat_eq_0)
  have "unat g = (unat g - 1 + n) mod (2 ^ 32 - 1) + 1"
    using unat_bump_funpow [OF assms(1), of n] eq by metis
  then have "unat g - 1 = (unat g - 1 + n) mod (2 ^ 32 - 1)"
    by (metis add_diff_cancel_right')
  moreover have "unat g - 1 < 2 ^ 32 - 1" using lt nz by simp
  ultimately show False using mod_shift_neq assms(2,3) by metis
qed

section \<open>Invariant\<close>

definition obj_inv :: "'a obj_state_scheme \<Rightarrow> bool" where
  "obj_inv s \<longleftrightarrow>
     (\<forall>i<SCDK_MAX_OBJECTS. obj_type (object_table s i) \<noteq> SCDK_OBJ_NONE \<longrightarrow>
        obj_generation (object_table s i) \<noteq> 0 \<and>
        obj_generation (object_table s i) = object_generations s i \<and>
        obj_id (object_table s i) = object_make_id (of_nat i) (obj_generation (object_table s i)) \<and>
        obj_owner_core (object_table s i) < SCDK_MAX_CORES)"

lemma slot_unat [simp]: "i < SCDK_MAX_OBJECTS \<Longrightarrow> unat (of_nat i :: u32) = i"
  by (simp add: kconst unat_of_nat)

lemma object_lookup_id: "scdk_object_lookup s oid = Inr ob \<Longrightarrow> obj_id ob = oid"
  by (auto simp: scdk_object_lookup_def Let_def split: if_splits)

lemma object_lookup_typed: "scdk_object_lookup s oid = Inr ob \<Longrightarrow> obj_type ob \<noteq> SCDK_OBJ_NONE"
  by (auto simp: scdk_object_lookup_def Let_def split: if_splits)

lemma object_lookup_generation:
  "scdk_object_lookup s oid = Inr ob \<Longrightarrow> obj_generation ob = object_id_generation oid"
  by (auto simp: scdk_object_lookup_def Let_def split: if_splits)

lemma object_lookup_frame:
  "object_table s' = object_table s \<Longrightarrow> scdk_object_lookup s' = scdk_object_lookup s"
  by (rule ext) (simp add: scdk_object_lookup_def Let_def)

lemma obj_inv_frame:
  "object_table s' = object_table s \<Longrightarrow> object_generations s' = object_generations s \<Longrightarrow>
     obj_inv s' = obj_inv s"
  by (simp add: obj_inv_def)

lemma object_create_cases:
  assumes "scdk_object_create s type core flags p = (r, s')"
  obtains (refused) e where "r = Inl e" "s' = s" "e \<in> {SCDK_ERR_INVAL, SCDK_ERR_NOMEM}"
  | (created) i g where "type \<noteq> SCDK_OBJ_NONE" "core < SCDK_MAX_CORES"
      "i < SCDK_MAX_OBJECTS" "obj_type (object_table s i) = SCDK_OBJ_NONE"
      "\<forall>j<i. obj_type (object_table s j) \<noteq> SCDK_OBJ_NONE"
      "g = bump_generation (object_generations s i)"
      "r = Inr (object_make_id (of_nat i) g)"
      "s' = s\<lparr>object_generations := (object_generations s)(i := g),
              object_table := (object_table s)(i :=
                \<lparr>obj_id = object_make_id (of_nat i) g, obj_type = type, obj_generation = g,
                 obj_owner_core = core, obj_flags = flags, obj_payload = p\<rparr>)\<rparr>"
proof (cases "first_slot (\<lambda>i. obj_type (object_table s i) = SCDK_OBJ_NONE) SCDK_MAX_OBJECTS")
  case None
  with assms show ?thesis
    by (auto simp: scdk_object_create_def intro: refused split: if_splits)
next
  case (Some i)
  then have i: "i < SCDK_MAX_OBJECTS" "obj_type (object_table s i) = SCDK_OBJ_NONE"
    "\<forall>j<i. obj_type (object_table s j) \<noteq> SCDK_OBJ_NONE"
    by (auto simp: scan_facts)
  show ?thesis
  proof (cases "type = SCDK_OBJ_NONE \<or> core \<ge> SCDK_MAX_CORES")
    case True
    with assms show ?thesis by (auto simp: scdk_object_create_def intro: refused)
  next
    case False
    with assms Some i show ?thesis
      by (intro created [of i "bump_generation (object_generations s i)"])
         (auto simp: scdk_object_create_def next_generation_def Let_def)
  qed
qed

lemma object_create_inv:
  "obj_inv s \<Longrightarrow> scdk_object_create s type core flags p = (r, s') \<Longrightarrow> obj_inv s'"
  by (erule object_create_cases) (auto simp: obj_inv_def)

lemma object_create_look:
  assumes "scdk_object_create s type core flags p = (Inr oid, s')"
  shows "\<exists>ob. scdk_object_lookup s' oid = Inr ob \<and> obj_id ob = oid \<and> obj_type ob = type \<and>
           obj_owner_core ob = core \<and> obj_flags ob = flags \<and> obj_payload ob = p"
  using assms by (cases rule: object_create_cases) (auto simp: scdk_object_lookup_def Let_def)

lemma object_create_fresh:
  assumes "scdk_object_create s type core flags p = (Inr oid, s')"
  shows "scdk_object_lookup s oid = Inl SCDK_ERR_NOENT"
  using assms by (cases rule: object_create_cases) (auto simp: scdk_object_lookup_def Let_def)

lemma object_create_nonzero:
  assumes "scdk_object_create s type core flags p = (Inr oid, s')"
  shows "oid \<noteq> 0"
  using assms by (cases rule: object_create_cases) auto

text \<open>Creating an object changes the lookup of no other id.\<close>

lemma object_create_other:
  assumes inv: "obj_inv s" and c: "scdk_object_create s type core flags p = (Inr oid, s')"
    and ne: "oid' \<noteq> oid"
  shows "scdk_object_lookup s' oid' = scdk_object_lookup s oid'"
  using c
proof (cases rule: object_create_cases)
  case (created i g)
  show ?thesis
  proof (cases "unat (object_id_index oid') = i")
    case True
    moreover from c created have "oid = object_make_id (of_nat i) g" by simp
    ultimately show ?thesis
      using created ne by (auto simp: scdk_object_lookup_def Let_def)
  next
    case False
    with created show ?thesis by (simp add: scdk_object_lookup_def Let_def)
  qed
qed auto

lemma object_create_refused:
  "scdk_object_create s type core flags p = (Inl e, s') \<Longrightarrow> s' = s"
  by (erule object_create_cases) auto

lemma object_create_keeps:
  assumes "obj_inv s" and "scdk_object_create s type core flags p = (r, s')"
    and "scdk_object_lookup s oid = Inr ob"
  shows "scdk_object_lookup s' oid = Inr ob"
proof (cases r)
  case (Inl e)
  with assms show ?thesis using object_create_refused by blast
next
  case (Inr oid')
  moreover have "oid \<noteq> oid'" using object_create_fresh assms Inr by fastforce
  ultimately show ?thesis using object_create_other assms by metis
qed

section \<open>The object table as a token space\<close>

abbreviation object_mint ::
  "'a obj_state_scheme \<Rightarrow> scdk_object_type \<times> u32 \<times> u32 \<times> payload \<Rightarrow> u64 res \<times> 'a obj_state_scheme"
where
  "object_mint s a \<equiv> (case a of (type, core, flags, p) \<Rightarrow> scdk_object_create s type core flags p)"

interpretation ospace: token_space
  obj_inv
  "\<lambda>s i. res_opt (scdk_object_lookup s i)"
  object_mint
  "\<lambda>s a ob. case a of (type, core, flags, p) \<Rightarrow>
     obj_type ob = type \<and> obj_owner_core ob = core \<and> obj_flags ob = flags \<and> obj_payload ob = p"
proof unfold_locales
  fix s :: "'a obj_state_scheme" and a :: "scdk_object_type \<times> u32 \<times> u32 \<times> payload" and r s'
  assume i: "obj_inv s"
  obtain t c f p where a: "a = (t, c, f, p)" by (cases a)
  show "obj_inv s'" if "object_mint s a = (r, s')"
    using object_create_inv [OF i, of t c f p r s'] that a by simp
  show "res_opt (scdk_object_lookup s k) = None" if "object_mint s a = (Inr k, s')" for k
    using object_create_fresh [of s t c f p k s'] that a by simp
  show "\<exists>v. res_opt (scdk_object_lookup s' k) = Some v \<and>
      (case a of (t, c, f, p) \<Rightarrow> obj_type v = t \<and> obj_owner_core v = c \<and> obj_flags v = f \<and> obj_payload v = p)"
    if "object_mint s a = (Inr k, s')" for k
    using object_create_look [of s t c f p k s'] that a by auto
  show "res_opt (scdk_object_lookup s' k') = res_opt (scdk_object_lookup s k')"
    if "object_mint s a = (Inr k, s')" "k' \<noteq> k" for k k'
    using object_create_other [OF i, of t c f p k s' k'] that a by simp
  show "res_opt (scdk_object_lookup s' k') = res_opt (scdk_object_lookup s k')"
    if "object_mint s a = (Inl e, s')" for e k'
    using object_create_refused [of s t c f p e s'] that a by simp
qed

definition obj_boot :: obj_state where
  "obj_boot = \<lparr>object_table = (\<lambda>_. null_object), object_generations = (\<lambda>_. 0)\<rparr>"

lemma obj_inv_boot: "obj_inv obj_boot"
  by (simp add: obj_inv_def obj_boot_def null_object_def)

section \<open>Slots of static tables behind objects\<close>

text \<open>
  Endpoints, rings, grants, tasks, threads, files and devices are slots of static
  tables that store the id of the object whose payload points back at them.
  The type of an object tells which table its payload points into;
  \<open>payload_ok\<close> is that typing, with the sizes of the tables.
\<close>

definition SCDK_MAX_ENDPOINTS :: nat where [kconst]: "SCDK_MAX_ENDPOINTS = 64"
definition SCDK_MAX_RINGS :: nat where [kconst]: "SCDK_MAX_RINGS = 64"
definition SCDK_MAX_GRANTS :: nat where [kconst]: "SCDK_MAX_GRANTS = 128"
definition SCDK_MAX_USER_GRANTS :: nat where [kconst]: "SCDK_MAX_USER_GRANTS = 128"
definition SCDK_MAX_TASKS :: nat where [kconst]: "SCDK_MAX_TASKS = 64"
definition SCDK_MAX_THREADS :: nat where [kconst]: "SCDK_MAX_THREADS = 128"
definition SCDK_TMPFS_MAX_OPEN_FILES :: nat where [kconst]: "SCDK_TMPFS_MAX_OPEN_FILES = 32"
definition SCDK_DEVMGR_MAX_DEVICES :: nat where [kconst]: "SCDK_DEVMGR_MAX_DEVICES = 8"
definition SCDK_DEVMGR_MAX_QUEUES :: nat where [kconst]: "SCDK_DEVMGR_MAX_QUEUES = 16"

fun payload_ok :: "scdk_object_type \<Rightarrow> payload \<Rightarrow> bool" where
  "payload_ok SCDK_OBJ_ENDPOINT p = (case p of PEndpoint i \<Rightarrow> i < SCDK_MAX_ENDPOINTS | _ \<Rightarrow> False)"
| "payload_ok SCDK_OBJ_RING p = (case p of PRing i \<Rightarrow> i < SCDK_MAX_RINGS | _ \<Rightarrow> False)"
| "payload_ok SCDK_OBJ_GRANT p = (case p of PGrant i \<Rightarrow> i < SCDK_MAX_GRANTS
     | PUserGrant i \<Rightarrow> i < SCDK_MAX_USER_GRANTS | _ \<Rightarrow> False)"
| "payload_ok SCDK_OBJ_TASK p = (case p of PTask i \<Rightarrow> i < SCDK_MAX_TASKS | _ \<Rightarrow> False)"
| "payload_ok SCDK_OBJ_THREAD p = (case p of PThread i \<Rightarrow> i < SCDK_MAX_THREADS | _ \<Rightarrow> False)"
| "payload_ok SCDK_OBJ_FILE p = (case p of PFile i \<Rightarrow> i < SCDK_TMPFS_MAX_OPEN_FILES | _ \<Rightarrow> False)"
| "payload_ok SCDK_OBJ_DEVICE p = (case p of PDevice i \<Rightarrow> i < SCDK_DEVMGR_MAX_DEVICES | _ \<Rightarrow> False)"
| "payload_ok SCDK_OBJ_DEVICE_QUEUE p = (case p of PQueue i \<Rightarrow> i < SCDK_DEVMGR_MAX_QUEUES | _ \<Rightarrow> False)"
| "payload_ok SCDK_OBJ_ADDRESS_SPACE p = (case p of PHeap a \<Rightarrow> True | _ \<Rightarrow> False)"
| "payload_ok _ p = True"

definition objs_ok :: "'a obj_state_scheme \<Rightarrow> bool" where
  "objs_ok s \<longleftrightarrow> (\<forall>x ob. scdk_object_lookup s x = Inr ob \<longrightarrow> payload_ok (obj_type ob) (obj_payload ob))"

lemma objs_okD: "objs_ok s \<Longrightarrow> scdk_object_lookup s x = Inr ob \<Longrightarrow> payload_ok (obj_type ob) (obj_payload ob)"
  by (simp add: objs_ok_def)

lemma objs_ok_frame: "object_table s' = object_table s \<Longrightarrow> objs_ok s' = objs_ok s"
  using object_lookup_frame [of s' s] by (simp add: objs_ok_def)

lemma objs_ok_create:
  assumes ok: "objs_ok s" and inv: "obj_inv s" and p: "payload_ok type p"
    and c: "scdk_object_create s type core flags p = (r, s')"
  shows "objs_ok s'"
proof (cases r)
  case (Inl e)
  with c ok show ?thesis using object_create_refused by blast
next
  case (Inr oid)
  have "payload_ok (obj_type ob) (obj_payload ob)" if x: "scdk_object_lookup s' x = Inr ob" for x ob
  proof (cases "x = oid")
    case True
    with object_create_look [of s type core flags p oid s'] c Inr x p show ?thesis by auto
  next
    case False
    with object_create_other [OF inv, of type core flags p oid s' x] c Inr x
    show ?thesis using objs_okD [OF ok] by simp
  qed
  then show ?thesis by (simp add: objs_ok_def)
qed

text \<open>
  \<open>slot_bound s ty pay n oids\<close>: the occupied slots of a table belong to live objects
  of type \<open>ty\<close> that point back at them.
\<close>

definition slot_bound ::
  "'a obj_state_scheme \<Rightarrow> scdk_object_type \<Rightarrow> (nat \<Rightarrow> payload) \<Rightarrow> nat \<Rightarrow> (nat \<Rightarrow> u64) \<Rightarrow> bool"
where
  "slot_bound s ty pay n oids \<longleftrightarrow>
     (\<forall>i<n. oids i \<noteq> 0 \<longrightarrow>
        (\<exists>ob. scdk_object_lookup s (oids i) = Inr ob \<and> obj_type ob = ty \<and> obj_payload ob = pay i))"

lemma slot_bound_clear: "slot_bound s ty pay n oids \<Longrightarrow> slot_bound s ty pay n (oids(i := 0))"
  by (simp add: slot_bound_def)

lemma slot_boundD:
  assumes "slot_bound s ty pay n oids" and "i < n" and "oids i \<noteq> 0"
  obtains ob where "scdk_object_lookup s (oids i) = Inr ob" "obj_type ob = ty" "obj_payload ob = pay i"
proof -
  note b = assms(1) [unfolded slot_bound_def, rule_format, OF assms(2,3)]
  from b show thesis by (elim exE conjE) (rule that)
qed

lemma slot_bound_keeps:
  assumes "slot_bound s ty pay n oids"
    and "\<And>x ob. scdk_object_lookup s x = Inr ob \<Longrightarrow> scdk_object_lookup s' x = Inr ob"
  shows "slot_bound s' ty pay n oids"
  unfolding slot_bound_def
proof (intro allI impI)
  fix i assume "i < n" "oids i \<noteq> 0"
  with assms(1) show "\<exists>ob. scdk_object_lookup s' (oids i) = Inr ob \<and> obj_type ob = ty \<and> obj_payload ob = pay i"
    by (rule slot_boundD) (use assms(2) in blast)
qed

lemma slot_bound_sub:
  "slot_bound s ty pay n oids \<Longrightarrow> (\<And>j. oids' j \<noteq> 0 \<Longrightarrow> oids' j = oids j) \<Longrightarrow> slot_bound s ty pay n oids'"
  unfolding slot_bound_def by metis

lemma slot_bound_bind:
  assumes b: "slot_bound s ty pay n oids" and inv: "obj_inv s"
    and c: "scdk_object_create s ty core flags (pay i) = (Inr oid, s')"
  shows "slot_bound s' ty pay n (oids(i := oid))"
  using slot_bound_keeps [OF b object_create_keeps [OF inv c]] object_create_look [OF c]
  by (auto simp: slot_bound_def)

section \<open>Properties\<close>

text \<open>
  (C8) Object ids identify: whatever sequence of creation requests runs (valid or
  refused), the ids handed out are pairwise different, none of them was valid
  before, all of them are valid afterwards, and every id that was valid before
  still designates the same object.
\<close>

theorem object_ids_never_repeat:
  assumes "obj_inv s" and "mint_all object_mint s reqs = (ids, s')"
  shows "distinct ids \<and>
    (\<forall>i\<in>set ids. (\<exists>e. scdk_object_lookup s i = Inl e) \<and> (\<exists>ob. scdk_object_lookup s' i = Inr ob)) \<and>
    (\<forall>i ob. scdk_object_lookup s i = Inr ob \<longrightarrow> scdk_object_lookup s' i = Inr ob) \<and> obj_inv s'"
  using ospace.mint_all_distinct [OF assms] ospace.mint_all_keeps [OF assms]
  by (auto simp: not_None_eq) (meson Inr_Inl_False obj_sumE)

lemma object_create_boot:
  "type \<noteq> SCDK_OBJ_NONE \<Longrightarrow> scdk_object_create obj_boot type 0 flags p =
     (Inr 0x100000000, \<lparr>object_table = (\<lambda>_. null_object)(0 :=
        \<lparr>obj_id = 0x100000000, obj_type = type, obj_generation = 1, obj_owner_core = 0,
         obj_flags = flags, obj_payload = p\<rparr>), object_generations = (\<lambda>_. 0)(0 := 1)\<rparr>)"
  by (simp add: scdk_object_create_def obj_boot_def first_slot_hit null_object_def kconst
      next_generation_def bump_generation_def object_make_id_def)

theorem object_ids_never_repeat_witness:
  "let (ids, s') = mint_all object_mint obj_boot
         [(SCDK_OBJ_RING, 0, 0, PNull), (SCDK_OBJ_TASK, 5, 0, PNull)]
   in ids = [0x100000000] \<and> distinct ids \<and> obj_inv s' \<and>
      (\<exists>ob. scdk_object_lookup s' 0x100000000 = Inr ob)"
proof -
  obtain s' where m: "mint_all object_mint obj_boot
      [(SCDK_OBJ_RING, 0, 0, PNull), (SCDK_OBJ_TASK, 5, 0, PNull)] = ([0x100000000], s')"
    by (simp add: object_create_boot) (simp add: scdk_object_create_def kconst)
  from object_ids_never_repeat [OF obj_inv_boot this] m show ?thesis by simp
qed

text \<open>
  The generation counter of a slot has the exact period \<open>2\<^sup>32 - 1\<close>: a generation that
  a slot carried comes back after \<open>n\<close> further increments if and only if that period
  divides \<open>n\<close>, and 0, the mark of an invalid token, is never produced.
\<close>

theorem generation_period:
  assumes "g \<noteq> 0"
  shows "((bump_generation ^^ n) g = g \<longleftrightarrow> (2 ^ 32 - 1) dvd n) \<and> (bump_generation ^^ n) g \<noteq> 0"
proof -
  let ?m = "2 ^ 32 - 1 :: nat"
  have lt: "unat g - 1 < ?m" using unat_u32_less [of g] assms by (simp add: unat_gt_0)
  have pos: "unat g = unat g - 1 + 1" using assms by (simp add: unat_gt_0)
  have "(bump_generation ^^ n) g = g \<longleftrightarrow> unat ((bump_generation ^^ n) g) = unat g"
    by (metis word_unat_eq_iff)
  also have "\<dots> \<longleftrightarrow> (unat g - 1 + n) mod ?m = unat g - 1"
    unfolding unat_bump_funpow [OF assms] using pos by linarith
  also have "\<dots> \<longleftrightarrow> ?m dvd n"
  proof
    assume "(unat g - 1 + n) mod ?m = unat g - 1"
    then have "(unat g - 1 + n mod ?m) mod ?m = unat g - 1" by (simp add: mod_add_right_eq)
    moreover have "n mod ?m < ?m" by simp
    ultimately have "\<not> 0 < n mod ?m" using mod_shift_neq lt by metis
    then show "?m dvd n" by (simp add: dvd_eq_mod_eq_0)
  next
    assume "?m dvd n"
    then have "(unat g - 1 + n) mod ?m = (unat g - 1) mod ?m" by (metis mod_add_right_eq dvd_eq_mod_eq_0 add_0_right)
    with lt show "(unat g - 1 + n) mod ?m = unat g - 1" by (metis mod_less)
  qed
  moreover have "(bump_generation ^^ n) g \<noteq> 0"
    using unat_bump_funpow [OF assms, of n] by (metis add_is_0 unat_0 zero_neq_one)
  ultimately show ?thesis by blast
qed

theorem generation_period_witness:
  "(bump_generation ^^ 4294967295) 0xfffffffe = 0xfffffffe \<and> (bump_generation ^^ 7) 0xfffffffe \<noteq> 0xfffffffe"
  using generation_period [of "0xfffffffe" 4294967295] generation_period [of "0xfffffffe" 7] by simp

end
