(* ===== verification/SCDK_Capability.thy ===== *)
theory SCDK_Capability
  imports SCDK_Object
begin

text \<open>
  The capability table, \<^verbatim>\<open>src/core/capability.c\<close> and \<^verbatim>\<open>src/core/revoke.c\<close>. A token is
  the slot index with the slot's capability generation; creation and
  revocation advance the generation, so a token names at most one life of a
  slot. Lookup also re-checks the object the entry points to.
\<close>

section \<open>Data\<close>

definition SCDK_MAX_CAPS :: nat where
  [kconst]: "SCDK_MAX_CAPS = 4096"

definition SCDK_RIGHT_READ :: u64 where [kconst]: "SCDK_RIGHT_READ = 1"
definition SCDK_RIGHT_WRITE :: u64 where [kconst]: "SCDK_RIGHT_WRITE = 2"
definition SCDK_RIGHT_EXEC :: u64 where [kconst]: "SCDK_RIGHT_EXEC = 4"
definition SCDK_RIGHT_MAP :: u64 where [kconst]: "SCDK_RIGHT_MAP = 8"
definition SCDK_RIGHT_SEND :: u64 where [kconst]: "SCDK_RIGHT_SEND = 16"
definition SCDK_RIGHT_RECV :: u64 where [kconst]: "SCDK_RIGHT_RECV = 32"
definition SCDK_RIGHT_BIND :: u64 where [kconst]: "SCDK_RIGHT_BIND = 64"
definition SCDK_RIGHT_REVOKE :: u64 where [kconst]: "SCDK_RIGHT_REVOKE = 128"

record scdk_cap_entry =
  ce_object_id :: u64
  ce_generation :: u32
  ce_object_type :: scdk_object_type
  ce_revoked :: u32
  ce_rights :: u64

record cap_state = obj_state +
  cap_table :: "nat \<Rightarrow> scdk_cap_entry"
  cap_generations :: "nat \<Rightarrow> u32"

definition null_cap_entry :: scdk_cap_entry where
  "null_cap_entry = \<lparr>ce_object_id = 0, ce_generation = 0, ce_object_type = SCDK_OBJ_NONE,
     ce_revoked = 0, ce_rights = 0\<rparr>"

section \<open>Operations\<close>

definition cap_make_token :: "u32 \<Rightarrow> u32 \<Rightarrow> u64" where
  "cap_make_token index generation = push_bit 32 (ucast generation) OR ucast index"

definition cap_index :: "u64 \<Rightarrow> u32" where
  "cap_index cap = ucast (cap AND 0xffffffff)"

definition cap_generation :: "u64 \<Rightarrow> u32" where
  "cap_generation cap = ucast (drop_bit 32 cap)"

definition next_cap_generation :: "'a cap_state_scheme \<Rightarrow> nat \<Rightarrow> u32 \<times> 'a cap_state_scheme" where
  "next_cap_generation s i =
     (let generation = (let g = cap_generations s i + 1 in if g = 0 then 1 else g)
      in (generation, s\<lparr>cap_generations := (cap_generations s)(i := generation)\<rparr>))"

definition validate_cap_slot :: "'a cap_state_scheme \<Rightarrow> u64 \<Rightarrow> scdk_cap_entry res" where
  "validate_cap_slot s cap =
     (if cap = 0 then Inl SCDK_ERR_INVAL
      else
        (let index = unat (cap_index cap);
             generation = cap_generation cap
         in if index \<ge> SCDK_MAX_CAPS \<or> generation = 0 \<or> cap_generations s index \<noteq> generation \<or>
               ce_object_id (cap_table s index) = 0 \<or> ce_revoked (cap_table s index) \<noteq> 0
            then Inl SCDK_ERR_NOENT
            else Inr (cap_table s index)))"

definition scdk_cap_create :: "'a cap_state_scheme \<Rightarrow> u64 \<Rightarrow> u64 \<Rightarrow> u64 res \<times> 'a cap_state_scheme" where
  "scdk_cap_create s object_id rights =
     (if rights = 0 then (Inl SCDK_ERR_INVAL, s)
      else case scdk_object_lookup s object_id of
        Inl e \<Rightarrow> (Inl e, s)
      | Inr object \<Rightarrow>
          (case first_slot (\<lambda>i. \<not> (ce_object_id (cap_table s i) \<noteq> 0 \<and> ce_revoked (cap_table s i) = 0))
                  SCDK_MAX_CAPS of
             None \<Rightarrow> (Inl SCDK_ERR_NOMEM, s)
           | Some i \<Rightarrow>
               (let (cap_gen, s1) = next_cap_generation s i
                in (Inr (cap_make_token (of_nat i) cap_gen),
                    s1\<lparr>cap_table := (cap_table s1)(i :=
                      \<lparr>ce_object_id = obj_id object, ce_generation = obj_generation object,
                       ce_object_type = obj_type object, ce_revoked = 0, ce_rights = rights\<rparr>)\<rparr>))))"

definition scdk_cap_lookup :: "'a cap_state_scheme \<Rightarrow> u64 \<Rightarrow> scdk_cap_entry res" where
  "scdk_cap_lookup s cap =
     (case validate_cap_slot s cap of
        Inl e \<Rightarrow> Inl e
      | Inr entry \<Rightarrow>
          (case scdk_object_lookup s (ce_object_id entry) of
             Inl e \<Rightarrow> Inl e
           | Inr object \<Rightarrow>
               if obj_generation object \<noteq> ce_generation entry \<or> obj_type object \<noteq> ce_object_type entry
               then Inl SCDK_ERR_NOENT
               else Inr entry))"

definition scdk_cap_check ::
  "'a cap_state_scheme \<Rightarrow> u64 \<Rightarrow> u64 \<Rightarrow> scdk_object_type \<Rightarrow> scdk_cap_entry res"
where
  "scdk_cap_check s cap required_rights expected_type =
     (if required_rights = 0 then Inl SCDK_ERR_INVAL
      else case scdk_cap_lookup s cap of
        Inl e \<Rightarrow> Inl e
      | Inr entry \<Rightarrow>
          if expected_type \<noteq> SCDK_OBJ_NONE \<and> ce_object_type entry \<noteq> expected_type
          then Inl SCDK_ERR_PERM
          else if ce_rights entry AND required_rights \<noteq> required_rights then Inl SCDK_ERR_PERM
          else Inr entry)"

definition scdk_cap_revoke :: "'a cap_state_scheme \<Rightarrow> u64 \<Rightarrow> scdk_status \<times> 'a cap_state_scheme" where
  "scdk_cap_revoke s cap =
     (case scdk_cap_lookup s cap of
        Inl e \<Rightarrow> (e, s)
      | Inr entry \<Rightarrow>
          (let index = unat (cap_index cap);
               s1 = s\<lparr>cap_table := (cap_table s)(index := (cap_table s index)\<lparr>ce_revoked := 1\<rparr>)\<rparr>;
               (_, s2) = next_cap_generation s1 index
           in (SCDK_OK, s2)))"

definition scdk_cap_revoke_stub :: "'a cap_state_scheme \<Rightarrow> u64 \<Rightarrow> scdk_status \<times> 'a cap_state_scheme" where
  "scdk_cap_revoke_stub s cap =
     (case scdk_cap_lookup s cap of
        Inl e \<Rightarrow> (e, s)
      | Inr entry \<Rightarrow> scdk_cap_revoke s cap)"

definition scdk_revoke_capability :: "'a cap_state_scheme \<Rightarrow> u64 \<Rightarrow> scdk_status \<times> 'a cap_state_scheme" where
  "scdk_revoke_capability s cap = scdk_cap_revoke s cap"

section \<open>Tokens\<close>

lemma cap_index_make [simp]: "cap_index (cap_make_token i g) = i"
  by (simp add: cap_index_def cap_make_token_def mask32)

lemma cap_generation_make [simp]: "cap_generation (cap_make_token i g) = g"
  by (simp only: cap_generation_def cap_make_token_def pack_high)

lemma cap_token_nonzero [simp]: "g \<noteq> 0 \<Longrightarrow> cap_make_token i g \<noteq> 0"
  using cap_generation_make [of i g] by (auto simp: cap_generation_def)

lemma cap_token_eq:
  "cap_index c = cap_index d \<Longrightarrow> cap_generation c = cap_generation d \<Longrightarrow> c = d"
proof -
  assume i: "cap_index c = cap_index d" and g: "cap_generation c = cap_generation d"
  have split: "bit (x :: u64) n = (if n < 32 then bit (cap_index x) n else bit (cap_generation x) (n - 32))"
    if "n < 64" for x n
    using that by (auto simp: cap_index_def cap_generation_def mask32 bit_simps)
  show "c = d" by (rule bit_word_eqI) (simp add: split i g)
qed

lemma cap_token_eqI:
  "unat (cap_index c) = unat (cap_index d) \<Longrightarrow> cap_generation c = cap_generation d \<Longrightarrow> c = d"
  by (metis cap_token_eq word_unat_eq_iff)

lemma cap_slot_unat [simp]: "i < SCDK_MAX_CAPS \<Longrightarrow> unat (of_nat i :: u32) = i"
  by (simp add: kconst unat_of_nat)

lemma next_cap_generation_bump:
  "next_cap_generation s i =
     (bump_generation (cap_generations s i),
      s\<lparr>cap_generations := (cap_generations s)(i := bump_generation (cap_generations s i))\<rparr>)"
  by (simp add: next_cap_generation_def bump_generation_def Let_def)

section \<open>Invariant\<close>

definition cap_live :: "'a cap_state_scheme \<Rightarrow> nat \<Rightarrow> bool" where
  "cap_live s i \<longleftrightarrow> ce_object_id (cap_table s i) \<noteq> 0 \<and> ce_revoked (cap_table s i) = 0"

definition cap_inv :: "'a cap_state_scheme \<Rightarrow> bool" where
  "cap_inv s \<longleftrightarrow> obj_inv s \<and>
     (\<forall>i<SCDK_MAX_CAPS. cap_live s i \<longrightarrow>
        cap_generations s i \<noteq> 0 \<and> ce_rights (cap_table s i) \<noteq> 0 \<and>
        (\<exists>ob. scdk_object_lookup s (ce_object_id (cap_table s i)) = Inr ob \<and>
              obj_generation ob = ce_generation (cap_table s i) \<and>
              obj_type ob = ce_object_type (cap_table s i)))"

lemma cap_inv_obj: "cap_inv s \<Longrightarrow> obj_inv s"
  by (simp add: cap_inv_def)

lemma validate_cap_slot_Inr:
  "validate_cap_slot s cap = Inr e \<longleftrightarrow>
     cap \<noteq> 0 \<and> unat (cap_index cap) < SCDK_MAX_CAPS \<and> cap_generation cap \<noteq> 0 \<and>
     cap_generations s (unat (cap_index cap)) = cap_generation cap \<and>
     cap_live s (unat (cap_index cap)) \<and> e = cap_table s (unat (cap_index cap))"
  by (auto simp: validate_cap_slot_def cap_live_def Let_def)

text \<open>In a well-formed state the object re-check of \<open>scdk_cap_lookup\<close> never fails.\<close>

lemma cap_lookup_validate:
  assumes "cap_inv s"
  shows "scdk_cap_lookup s cap = validate_cap_slot s cap"
proof (cases "validate_cap_slot s cap")
  case (Inr e)
  then have "cap_live s (unat (cap_index cap))" "unat (cap_index cap) < SCDK_MAX_CAPS"
    "e = cap_table s (unat (cap_index cap))"
    by (simp_all add: validate_cap_slot_Inr)
  with assms obtain ob where "scdk_object_lookup s (ce_object_id e) = Inr ob"
    "obj_generation ob = ce_generation e" "obj_type ob = ce_object_type e"
    by (auto simp: cap_inv_def)
  with Inr show ?thesis by (simp add: scdk_cap_lookup_def)
qed (simp add: scdk_cap_lookup_def)

lemma cap_lookup_Inr:
  "cap_inv s \<Longrightarrow> scdk_cap_lookup s cap = Inr e \<longleftrightarrow>
     cap \<noteq> 0 \<and> unat (cap_index cap) < SCDK_MAX_CAPS \<and> cap_generation cap \<noteq> 0 \<and>
     cap_generations s (unat (cap_index cap)) = cap_generation cap \<and>
     cap_live s (unat (cap_index cap)) \<and> e = cap_table s (unat (cap_index cap))"
  by (simp add: cap_lookup_validate validate_cap_slot_Inr)

lemma cap_lookup_Inl: "scdk_cap_lookup s cap = Inl e \<Longrightarrow> e \<in> {SCDK_ERR_INVAL, SCDK_ERR_NOENT}"
  by (auto simp: scdk_cap_lookup_def validate_cap_slot_def scdk_object_lookup_def Let_def
      split: if_splits sum.splits)

lemma cap_lookup_object:
  assumes "scdk_cap_lookup s cap = Inr e"
  shows "\<exists>ob. scdk_object_lookup s (ce_object_id e) = Inr ob \<and> obj_type ob = ce_object_type e"
  using assms by (auto simp: scdk_cap_lookup_def split: sum.splits if_splits)

lemma cap_check_Inr:
  "scdk_cap_check s cap r ty = Inr e \<longleftrightarrow>
     r \<noteq> 0 \<and> scdk_cap_lookup s cap = Inr e \<and> (ty = SCDK_OBJ_NONE \<or> ce_object_type e = ty) \<and>
     ce_rights e AND r = r"
  by (auto simp: scdk_cap_check_def split: sum.splits if_splits)

lemma cap_check_Inl_OK: "scdk_cap_check s cap r ty \<noteq> Inl SCDK_OK"
  using cap_lookup_Inl [of s cap] by (auto simp: scdk_cap_check_def split: sum.splits if_splits)

lemma cap_check_zero [simp]: "scdk_cap_check s 0 r ty = Inl SCDK_ERR_INVAL"
  by (simp add: scdk_cap_check_def scdk_cap_lookup_def validate_cap_slot_def)

text \<open>The object behind a checked capability exists and has the expected type.\<close>

lemma cap_check_object:
  assumes "scdk_cap_check s cap r ty = Inr e" and "ty \<noteq> SCDK_OBJ_NONE"
  shows "\<exists>ob. scdk_object_lookup s (ce_object_id e) = Inr ob \<and> obj_type ob = ty"
  using assms cap_lookup_object by (auto simp: cap_check_Inr)

section \<open>Creation\<close>

lemma cap_create_cases:
  assumes "scdk_cap_create s oid rights = (r, s')"
  obtains (refused) e where "r = Inl e" "e \<noteq> SCDK_OK" "s' = s"
  | (created) i ob g where "rights \<noteq> 0" "scdk_object_lookup s oid = Inr ob"
      "i < SCDK_MAX_CAPS" "\<not> cap_live s i" "g = bump_generation (cap_generations s i)"
      "r = Inr (cap_make_token (of_nat i) g)"
      "s' = s\<lparr>cap_generations := (cap_generations s)(i := g),
              cap_table := (cap_table s)(i :=
                \<lparr>ce_object_id = oid, ce_generation = obj_generation ob,
                 ce_object_type = obj_type ob, ce_revoked = 0, ce_rights = rights\<rparr>)\<rparr>"
proof (cases "rights = 0")
  case True
  with assms show ?thesis by (auto simp: scdk_cap_create_def intro: refused)
next
  case r: False
  show ?thesis
  proof (cases "scdk_object_lookup s oid")
    case (Inl e)
    then have "e \<noteq> SCDK_OK" by (auto simp: scdk_object_lookup_def Let_def split: if_splits)
    with assms r Inl show ?thesis by (auto simp: scdk_cap_create_def intro: refused)
  next
    case (Inr ob)
    let ?p = "\<lambda>i. \<not> (ce_object_id (cap_table s i) \<noteq> 0 \<and> ce_revoked (cap_table s i) = 0)"
    show ?thesis
    proof (cases "first_slot ?p SCDK_MAX_CAPS")
      case None
      with assms r Inr show ?thesis by (auto simp: scdk_cap_create_def intro: refused)
    next
      case (Some i)
      then have "i < SCDK_MAX_CAPS" "\<not> cap_live s i" by (auto simp: scan_facts cap_live_def)
      moreover have "obj_id ob = oid" using Inr by (rule object_lookup_id)
      ultimately show ?thesis
        using assms r Inr Some
        by (intro created [of ob i "bump_generation (cap_generations s i)"])
           (auto simp: scdk_cap_create_def next_cap_generation_bump)
    qed
  qed
qed

lemma cap_create_fields:
  assumes "scdk_cap_create s oid rights = (Inr cap, s')"
  obtains i ob where "rights \<noteq> 0" "scdk_object_lookup s oid = Inr ob"
    "i < SCDK_MAX_CAPS" "\<not> cap_live s i" "unat (cap_index cap) = i"
    "cap_generation cap = bump_generation (cap_generations s i)"
    "cap_generations s' = (cap_generations s)(i := bump_generation (cap_generations s i))"
    "cap_table s' = (cap_table s)(i := \<lparr>ce_object_id = oid, ce_generation = obj_generation ob,
       ce_object_type = obj_type ob, ce_revoked = 0, ce_rights = rights\<rparr>)"
  using assms
proof (cases rule: cap_create_cases)
  case (created i ob g)
  then show ?thesis by (intro that [of ob i]) auto
qed simp

lemma cap_create_objects:
  assumes "scdk_cap_create s oid rights = (r, s')"
  shows "object_table s' = object_table s" "object_generations s' = object_generations s"
    "scdk_object_lookup s' = scdk_object_lookup s"
proof -
  show o: "object_table s' = object_table s" "object_generations s' = object_generations s"
    using assms by (auto elim: cap_create_cases)
  from o(1) show "scdk_object_lookup s' = scdk_object_lookup s" by (rule object_lookup_frame)
qed

lemma cap_create_inv:
  assumes inv: "cap_inv s" and c: "scdk_cap_create s oid rights = (r, s')"
  shows "cap_inv s'"
proof (cases r)
  case (Inl e)
  with c inv show ?thesis by (auto elim: cap_create_cases)
next
  case (Inr cap)
  have o: "scdk_object_lookup s' = scdk_object_lookup s" "obj_inv s'"
    using cap_create_objects [OF c] obj_inv_frame [of s' s] inv by (blast dest: cap_inv_obj)+
  obtain i ob where f: "rights \<noteq> 0" "scdk_object_lookup s oid = Inr ob"
    "i < SCDK_MAX_CAPS" "\<not> cap_live s i" "unat (cap_index cap) = i"
    "cap_generation cap = bump_generation (cap_generations s i)"
    "cap_generations s' = (cap_generations s)(i := bump_generation (cap_generations s i))"
    "cap_table s' = (cap_table s)(i := \<lparr>ce_object_id = oid, ce_generation = obj_generation ob,
       ce_object_type = obj_type ob, ce_revoked = 0, ce_rights = rights\<rparr>)"
    using c [unfolded Inr] by (rule cap_create_fields)
  show ?thesis
    unfolding cap_inv_def cap_live_def o(1) f(7,8)
    using inv o(2) f(1,2) by (simp add: cap_inv_def cap_live_def)
qed

lemma cap_create_look:
  assumes inv: "cap_inv s" and c: "scdk_cap_create s oid rights = (Inr cap, s')"
  shows "\<exists>e ob. scdk_cap_lookup s' cap = Inr e \<and> scdk_object_lookup s oid = Inr ob \<and>
           ce_object_id e = oid \<and> ce_object_type e = obj_type ob \<and> ce_rights e = rights"
proof -
  obtain i ob where f: "rights \<noteq> 0" "scdk_object_lookup s oid = Inr ob"
    "i < SCDK_MAX_CAPS" "\<not> cap_live s i" "unat (cap_index cap) = i"
    "cap_generation cap = bump_generation (cap_generations s i)"
    "cap_generations s' = (cap_generations s)(i := bump_generation (cap_generations s i))"
    "cap_table s' = (cap_table s)(i := \<lparr>ce_object_id = oid, ce_generation = obj_generation ob,
       ce_object_type = obj_type ob, ce_revoked = 0, ce_rights = rights\<rparr>)"
    using c by (rule cap_create_fields)
  have "oid \<noteq> 0" using f(2) by (auto simp: scdk_object_lookup_def)
  moreover have "cap \<noteq> 0" using f(6) by (auto simp: cap_generation_def)
  moreover have "cap_inv s'" using cap_create_inv inv c by blast
  ultimately show ?thesis using f by (simp add: cap_lookup_Inr cap_live_def)
qed

lemma cap_create_fresh:
  assumes c: "scdk_cap_create s oid rights = (Inr cap, s')"
  shows "scdk_cap_lookup s cap = Inl SCDK_ERR_NOENT"
  using c
proof (rule cap_create_fields)
  fix i
  assume f: "\<not> cap_live s i" "unat (cap_index cap) = i" "cap_generation cap = bump_generation (cap_generations s i)"
  then have "cap \<noteq> 0" by (auto simp: cap_generation_def)
  with f show ?thesis
    by (simp add: scdk_cap_lookup_def validate_cap_slot_def cap_live_def Let_def)
qed

lemma cap_look_eqI:
  "(\<And>e. (scdk_cap_lookup s' c = Inr e) = (scdk_cap_lookup s c = Inr e)) \<Longrightarrow>
     res_opt (scdk_cap_lookup s' c) = res_opt (scdk_cap_lookup s c)"
  by (metis not_None_eq res_opt_Some)

lemma cap_create_other:
  assumes inv: "cap_inv s" and c: "scdk_cap_create s oid rights = (Inr cap, s')" and ne: "cap' \<noteq> cap"
  shows "res_opt (scdk_cap_lookup s' cap') = res_opt (scdk_cap_lookup s cap')"
proof (rule cap_look_eqI)
  fix e
  obtain i ob where f: "rights \<noteq> 0" "scdk_object_lookup s oid = Inr ob"
    "i < SCDK_MAX_CAPS" "\<not> cap_live s i" "unat (cap_index cap) = i"
    "cap_generation cap = bump_generation (cap_generations s i)"
    "cap_generations s' = (cap_generations s)(i := bump_generation (cap_generations s i))"
    "cap_table s' = (cap_table s)(i := \<lparr>ce_object_id = oid, ce_generation = obj_generation ob,
       ce_object_type = obj_type ob, ce_revoked = 0, ce_rights = rights\<rparr>)"
    using c by (rule cap_create_fields)
  have i': "cap_inv s'" using cap_create_inv inv c by blast
  show "(scdk_cap_lookup s' cap' = Inr e) = (scdk_cap_lookup s cap' = Inr e)"
  proof (cases "unat (cap_index cap') = i")
    case True
    then have "cap_generations s' i \<noteq> cap_generation cap'"
      using f(5,6,7) ne cap_token_eqI [of cap' cap] by auto
    then show ?thesis
      unfolding cap_lookup_Inr [OF i'] cap_lookup_Inr [OF inv] True using f(4) by simp
  next
    case False
    then show ?thesis
      unfolding cap_lookup_Inr [OF i'] cap_lookup_Inr [OF inv] by (simp add: f(7,8) cap_live_def)
  qed
qed

lemma cap_create_refused:
  "scdk_cap_create s oid rights = (Inl e, s') \<Longrightarrow> s' = s"
  by (erule cap_create_cases) auto

section \<open>Revocation\<close>

lemma cap_revoke_cases:
  assumes "scdk_cap_revoke s cap = (r, s')"
  obtains (refused) e where "scdk_cap_lookup s cap = Inl e" "r = e" "r \<noteq> SCDK_OK" "s' = s"
  | (revoked) e i g where "scdk_cap_lookup s cap = Inr e" "r = SCDK_OK" "i = unat (cap_index cap)"
      "g = bump_generation (cap_generations s i)"
      "s' = s\<lparr>cap_table := (cap_table s)(i := (cap_table s i)\<lparr>ce_revoked := 1\<rparr>),
              cap_generations := (cap_generations s)(i := g)\<rparr>"
proof (cases "scdk_cap_lookup s cap")
  case (Inl e)
  moreover have "e \<noteq> SCDK_OK" using cap_lookup_Inl [OF Inl] by auto
  ultimately show ?thesis using assms by (intro refused) (auto simp: scdk_cap_revoke_def)
next
  case (Inr e)
  with assms show ?thesis
    by (intro revoked) (auto simp: scdk_cap_revoke_def next_cap_generation_bump Let_def)
qed

lemma cap_revoke_objects:
  assumes "scdk_cap_revoke s cap = (r, s')"
  shows "object_table s' = object_table s" "object_generations s' = object_generations s"
    "scdk_object_lookup s' = scdk_object_lookup s"
proof -
  show o: "object_table s' = object_table s" "object_generations s' = object_generations s"
    using assms by (auto elim: cap_revoke_cases)
  from o(1) show "scdk_object_lookup s' = scdk_object_lookup s" by (rule object_lookup_frame)
qed

lemma cap_revoke_fields:
  assumes "scdk_cap_revoke s cap = (SCDK_OK, s')"
  obtains e i where "scdk_cap_lookup s cap = Inr e" "i = unat (cap_index cap)"
    "cap_generations s' = (cap_generations s)(i := bump_generation (cap_generations s i))"
    "cap_table s' = (cap_table s)(i := (cap_table s i)\<lparr>ce_revoked := 1\<rparr>)"
  using assms
proof (cases rule: cap_revoke_cases)
  case (revoked e i g)
  then show ?thesis by (intro that [of e i]) auto
qed simp

lemma cap_revoke_inv:
  assumes inv: "cap_inv s" and c: "scdk_cap_revoke s cap = (r, s')"
  shows "cap_inv s'"
proof (cases "r = SCDK_OK")
  case False
  with c inv show ?thesis by (auto elim: cap_revoke_cases)
next
  case True
  have o: "scdk_object_lookup s' = scdk_object_lookup s" "obj_inv s'"
    using cap_revoke_objects [OF c] obj_inv_frame [of s' s] inv by (blast dest: cap_inv_obj)+
  obtain e i where f: "scdk_cap_lookup s cap = Inr e" "i = unat (cap_index cap)"
    "cap_generations s' = (cap_generations s)(i := bump_generation (cap_generations s i))"
    "cap_table s' = (cap_table s)(i := (cap_table s i)\<lparr>ce_revoked := 1\<rparr>)"
    using c [unfolded True] by (rule cap_revoke_fields)
  show ?thesis
    unfolding cap_inv_def cap_live_def o(1) f(3,4)
    using inv o(2) by (simp add: cap_inv_def cap_live_def)
qed

lemma cap_revoke_dead:
  assumes c: "scdk_cap_revoke s cap = (SCDK_OK, s')"
  shows "scdk_cap_lookup s' cap = Inl SCDK_ERR_NOENT"
proof -
  obtain e i where f: "scdk_cap_lookup s cap = Inr e" "i = unat (cap_index cap)"
    "cap_generations s' = (cap_generations s)(i := bump_generation (cap_generations s i))"
    "cap_table s' = (cap_table s)(i := (cap_table s i)\<lparr>ce_revoked := 1\<rparr>)"
    using c by (rule cap_revoke_fields)
  from f(1) have "cap \<noteq> 0" by (auto simp: scdk_cap_lookup_def validate_cap_slot_def)
  then show ?thesis
    using f(2,4) by (simp add: scdk_cap_lookup_def validate_cap_slot_def Let_def)
qed

lemma cap_revoke_other:
  assumes inv: "cap_inv s" and c: "scdk_cap_revoke s cap = (r, s')" and ne: "cap' \<noteq> cap"
  shows "res_opt (scdk_cap_lookup s' cap') = res_opt (scdk_cap_lookup s cap')"
proof (cases "r = SCDK_OK")
  case False
  with c show ?thesis by (auto elim: cap_revoke_cases)
next
  case True
  obtain e i where f: "scdk_cap_lookup s cap = Inr e" "i = unat (cap_index cap)"
    "cap_generations s' = (cap_generations s)(i := bump_generation (cap_generations s i))"
    "cap_table s' = (cap_table s)(i := (cap_table s i)\<lparr>ce_revoked := 1\<rparr>)"
    using c [unfolded True] by (rule cap_revoke_fields)
  have i': "cap_inv s'" using cap_revoke_inv inv c by blast
  show ?thesis
  proof (rule cap_look_eqI)
    fix x
    show "(scdk_cap_lookup s' cap' = Inr x) = (scdk_cap_lookup s cap' = Inr x)"
    proof (cases "unat (cap_index cap') = i")
      case same: True
      have "cap_generations s i = cap_generation cap" using f(1,2) inv by (simp add: cap_lookup_Inr)
      then have "cap_generations s i \<noteq> cap_generation cap'"
        using same f(2) ne cap_token_eqI [of cap' cap] by auto
      then show ?thesis
        unfolding cap_lookup_Inr [OF i'] cap_lookup_Inr [OF inv] same by (simp add: f(4) cap_live_def)
    next
      case False
      then show ?thesis
        unfolding cap_lookup_Inr [OF i'] cap_lookup_Inr [OF inv] by (simp add: f(3,4) cap_live_def)
    qed
  qed
qed

section \<open>The capability table as a revocable token space\<close>

lemma object_create_caps [kframe]:
  "scdk_object_create s type core flags p = (r, s') \<Longrightarrow>
     cap_table s' = cap_table s \<and> cap_generations s' = cap_generations s"
  by (erule object_create_cases) auto

lemma object_create_cap_inv:
  assumes inv: "cap_inv s" and c: "scdk_object_create s type core flags p = (r, s')"
  shows "cap_inv s'"
proof -
  have "obj_inv s'" using object_create_inv c inv by (blast dest: cap_inv_obj)
  moreover have "scdk_object_lookup s' x = Inr ob" if "scdk_object_lookup s x = Inr ob" for x ob
    using object_create_keeps [OF cap_inv_obj [OF inv] c that] .
  ultimately show ?thesis
    using inv object_create_caps [OF c] unfolding cap_inv_def cap_live_def by fastforce
qed

lemma object_create_cap_lookup:
  assumes "cap_inv s" and "scdk_object_create s type core flags p = (r, s')"
  shows "scdk_cap_lookup s' cap = scdk_cap_lookup s cap"
  unfolding cap_lookup_validate [OF assms(1)] cap_lookup_validate [OF object_create_cap_inv [OF assms]]
  using object_create_caps [OF assms(2)] by (simp add: validate_cap_slot_def Let_def)

abbreviation cap_look :: "'a cap_state_scheme \<Rightarrow> u64 \<Rightarrow> scdk_cap_entry option" where
  "cap_look s c \<equiv> res_opt (scdk_cap_lookup s c)"

abbreviation cap_mint :: "'a cap_state_scheme \<Rightarrow> u64 \<times> u64 \<Rightarrow> u64 res \<times> 'a cap_state_scheme" where
  "cap_mint s a \<equiv> (case a of (oid, rights) \<Rightarrow> scdk_cap_create s oid rights)"

interpretation cspace: revocable_space
  cap_inv cap_look cap_mint
  "\<lambda>s a e. case a of (oid, rights) \<Rightarrow> ce_object_id e = oid \<and> ce_rights e = rights \<and>
     (\<exists>ob. scdk_object_lookup s oid = Inr ob \<and> ce_object_type e = obj_type ob)"
  scdk_cap_revoke
proof unfold_locales
  fix s :: "'a cap_state_scheme" and a :: "u64 \<times> u64" and r r' s' k k' e
  assume i: "cap_inv s"
  obtain oid rights where a: "a = (oid, rights)" by (cases a)
  show "cap_inv s'" if "cap_mint s a = (r, s')"
    using cap_create_inv i that a by auto
  show "cap_look s k = None" if "cap_mint s a = (Inr k, s')"
    using cap_create_fresh [of s oid rights k s'] that a by simp
  show "\<exists>v. cap_look s' k = Some v \<and> (case a of (oid, rights) \<Rightarrow> ce_object_id v = oid \<and>
          ce_rights v = rights \<and> (\<exists>ob. scdk_object_lookup s oid = Inr ob \<and> ce_object_type v = obj_type ob))"
    if "cap_mint s a = (Inr k, s')"
    using cap_create_look [OF i, of oid rights k s'] that a by auto
  show "cap_look s' k' = cap_look s k'" if "cap_mint s a = (Inr k, s')" "k' \<noteq> k"
    using cap_create_other [OF i, of oid rights k s' k'] that a by simp
  show "cap_look s' k' = cap_look s k'" if "cap_mint s a = (Inl e, s')"
    using cap_create_refused [of s oid rights e s'] that a by simp
  show "cap_inv s'" if "scdk_cap_revoke s k = (r', s')"
    using cap_revoke_inv i that by blast
  show "fst (scdk_cap_revoke s k) = SCDK_OK" if "cap_look s k \<noteq> None"
    using that by (auto simp: scdk_cap_revoke_def Let_def split: sum.splits prod.splits)
  show "cap_look s' k = None" if "scdk_cap_revoke s k = (SCDK_OK, s')"
    using cap_revoke_dead [OF that] by simp
  show "cap_look s' k' = cap_look s k'" if "scdk_cap_revoke s k = (r', s')" "k' \<noteq> k"
    using cap_revoke_other [OF i that] .
  show "r' \<noteq> SCDK_OK \<and> s' = s" if "cap_look s k = None" "scdk_cap_revoke s k = (r', s')"
    using that(2,1) by (cases rule: cap_revoke_cases) simp_all
qed

section \<open>Histories of the capability table\<close>

text \<open>
  \<open>cap_run n s s'\<close>: the kernel went from \<open>s\<close> to \<open>s'\<close> through any interleaving of
  object creations, capability creations and revocations (\<open>n\<close> of the last two)
  and of steps that leave both tables alone.
\<close>

inductive cap_run :: "nat \<Rightarrow> 'a cap_state_scheme \<Rightarrow> 'a cap_state_scheme \<Rightarrow> bool" where
  run_refl: "cap_run 0 s s"
| run_other: "cap_run n s s' \<Longrightarrow> object_table s'' = object_table s' \<Longrightarrow>
    object_generations s'' = object_generations s' \<Longrightarrow> cap_table s'' = cap_table s' \<Longrightarrow>
    cap_generations s'' = cap_generations s' \<Longrightarrow> cap_run n s s''"
| run_object: "cap_run n s s' \<Longrightarrow> scdk_object_create s' type core flags p = (ro, s'') \<Longrightarrow> cap_run n s s''"
| run_create: "cap_run n s s' \<Longrightarrow> scdk_cap_create s' oid rights = (rc, s'') \<Longrightarrow> cap_run (Suc n) s s''"
| run_revoke: "cap_run n s s' \<Longrightarrow> scdk_cap_revoke s' cap = (rr, s'') \<Longrightarrow> cap_run (Suc n) s s''"

lemma cap_inv_frame:
  assumes "object_table s' = object_table s" "object_generations s' = object_generations s"
    "cap_table s' = cap_table s" "cap_generations s' = cap_generations s"
  shows "cap_inv s' = cap_inv s"
  using assms object_lookup_frame [OF assms(1)] by (simp add: cap_inv_def cap_live_def obj_inv_def)

lemma cap_run_trans: "cap_run n s2 s3 \<Longrightarrow> cap_run m s1 s2 \<Longrightarrow> cap_run (m + n) s1 s3"
  by (induction rule: cap_run.induct) (auto intro: cap_run.intros)

lemma cap_run_inv: "cap_run n s s' \<Longrightarrow> cap_inv s \<Longrightarrow> cap_inv s'"
proof (induction rule: cap_run.induct)
  case (run_other n s s' s'')
  then show ?case using cap_inv_frame by blast
qed (use object_create_cap_inv cap_create_inv cap_revoke_inv in blast)+

lemma cap_run_objects:
  "cap_run n s s' \<Longrightarrow> cap_inv s \<Longrightarrow> scdk_object_lookup s oid = Inr ob \<Longrightarrow> scdk_object_lookup s' oid = Inr ob"
proof (induction rule: cap_run.induct)
  case (run_other n s s' s'')
  then show ?case using object_lookup_frame [of s'' s'] by simp
next
  case (run_object n s s' type core flags p ro s'')
  then show ?case using object_create_keeps cap_run_inv cap_inv_obj by metis
next
  case (run_create n s s' oid' rights rc s'')
  then show ?case using cap_create_objects(3) by metis
next
  case (run_revoke n s s' cap rr s'')
  then show ?case using cap_revoke_objects(3) by metis
qed simp

text \<open>
  The generation of a slot only moves forward, by at most one per operation, and
  the entry of a live slot stays as it is until the generation moves.
\<close>

definition slot_moves :: "nat \<Rightarrow> nat \<Rightarrow> 'a cap_state_scheme \<Rightarrow> 'a cap_state_scheme \<Rightarrow> bool" where
  "slot_moves n i s s' \<longleftrightarrow> (\<exists>k\<le>n. cap_generations s' i = (bump_generation ^^ k) (cap_generations s i) \<and>
     (k = 0 \<longrightarrow> cap_live s i \<longrightarrow> cap_table s' i = cap_table s i))"

lemma slot_moves_step:
  assumes "slot_moves n i s s'"
    and "cap_generations s'' i = cap_generations s' i \<and> (cap_live s' i \<longrightarrow> cap_table s'' i = cap_table s' i) \<or>
         cap_generations s'' i = bump_generation (cap_generations s' i)"
  shows "slot_moves (Suc n) i s s''"
proof -
  obtain k where k: "k \<le> n" "cap_generations s' i = (bump_generation ^^ k) (cap_generations s i)"
    "k = 0 \<longrightarrow> cap_live s i \<longrightarrow> cap_table s' i = cap_table s i"
    using assms(1) by (auto simp: slot_moves_def)
  from assms(2) show ?thesis
  proof
    assume same: "cap_generations s'' i = cap_generations s' i \<and>
      (cap_live s' i \<longrightarrow> cap_table s'' i = cap_table s' i)"
    have "k = 0 \<longrightarrow> cap_live s i \<longrightarrow> cap_table s'' i = cap_table s i"
      using same k(3) by (auto simp: cap_live_def)
    with same k(1,2) show ?thesis unfolding slot_moves_def by (intro exI [of _ k]) simp
  next
    assume "cap_generations s'' i = bump_generation (cap_generations s' i)"
    with k(1,2) show ?thesis unfolding slot_moves_def by (intro exI [of _ "Suc k"]) simp
  qed
qed

lemma slot_moves_create:
  assumes "scdk_cap_create s' oid rights = (rc, s'')"
  shows "cap_generations s'' i = cap_generations s' i \<and> (cap_live s' i \<longrightarrow> cap_table s'' i = cap_table s' i) \<or>
         cap_generations s'' i = bump_generation (cap_generations s' i)"
  using assms by (cases rule: cap_create_cases) auto

lemma slot_moves_revoke:
  assumes "scdk_cap_revoke s' cap = (rr, s'')"
  shows "cap_generations s'' i = cap_generations s' i \<and> (cap_live s' i \<longrightarrow> cap_table s'' i = cap_table s' i) \<or>
         cap_generations s'' i = bump_generation (cap_generations s' i)"
  using assms by (cases rule: cap_revoke_cases) auto

lemma cap_run_slot: "cap_run n s s' \<Longrightarrow> slot_moves n i s s'"
proof (induction rule: cap_run.induct)
  case (run_refl s)
  show ?case by (simp add: slot_moves_def)
next
  case (run_other n s s' s'')
  then show ?case by (simp add: slot_moves_def)
next
  case (run_object n s s' type core flags p ro s'')
  with object_create_caps [OF run_object.hyps(2)] show ?case by (simp add: slot_moves_def)
next
  case (run_create n s s' oid rights rc s'')
  show ?case using slot_moves_step [OF run_create.IH slot_moves_create [OF run_create.hyps(2)]] .
next
  case (run_revoke n s s' cap rr s'')
  show ?case using slot_moves_step [OF run_revoke.IH slot_moves_revoke [OF run_revoke.hyps(2)]] .
qed

lemma cap_lookup_stale:
  assumes "cap \<noteq> 0" and "cap_generations s (unat (cap_index cap)) \<noteq> cap_generation cap"
  shows "scdk_cap_lookup s cap = Inl SCDK_ERR_NOENT"
  using assms by (auto simp: scdk_cap_lookup_def validate_cap_slot_def Let_def)

lemma cap_run_token:
  assumes inv: "cap_inv s" and run: "cap_run n s s'" and n: "n < 2 ^ 32 - 1"
    and look: "scdk_cap_lookup s cap = Inr e"
  shows "scdk_cap_lookup s' cap \<in> {Inr e, Inl SCDK_ERR_NOENT}"
proof -
  let ?i = "unat (cap_index cap)"
  have l: "cap \<noteq> 0" "?i < SCDK_MAX_CAPS" "cap_generation cap \<noteq> 0" "cap_generations s ?i = cap_generation cap"
    "cap_live s ?i" "e = cap_table s ?i"
    using look inv by (simp_all add: cap_lookup_Inr)
  obtain k where k: "k \<le> n" "cap_generations s' ?i = (bump_generation ^^ k) (cap_generation cap)"
    "k = 0 \<longrightarrow> cap_table s' ?i = cap_table s ?i"
    using cap_run_slot [OF run, of ?i] l(4,5) by (auto simp: slot_moves_def)
  show ?thesis
  proof (cases "k = 0")
    case True
    then have "scdk_cap_lookup s' cap = Inr e"
      using cap_run_inv [OF run inv] k l by (simp add: cap_lookup_Inr cap_live_def)
    then show ?thesis by simp
  next
    case False
    then have "cap_generations s' ?i \<noteq> cap_generation cap"
      using bump_funpow_neq [OF l(3), of k] k(1,2) n by simp
    with l(1) have "scdk_cap_lookup s' cap = Inl SCDK_ERR_NOENT" by (rule cap_lookup_stale)
    then show ?thesis by simp
  qed
qed

lemma cap_run_revoked:
  assumes inv: "cap_inv s" and rev: "scdk_cap_revoke s cap = (SCDK_OK, s1)"
    and run: "cap_run n s1 s2" and n: "Suc n < 2 ^ 32 - 1"
  shows "scdk_cap_lookup s2 cap = Inl SCDK_ERR_NOENT"
proof -
  let ?i = "unat (cap_index cap)"
  obtain e i where f: "scdk_cap_lookup s cap = Inr e" "i = ?i"
    "cap_generations s1 = (cap_generations s)(i := bump_generation (cap_generations s i))"
    "cap_table s1 = (cap_table s)(i := (cap_table s i)\<lparr>ce_revoked := 1\<rparr>)"
    using rev by (rule cap_revoke_fields)
  have l: "cap \<noteq> 0" "cap_generation cap \<noteq> 0" "cap_generations s ?i = cap_generation cap"
    using f(1) inv by (simp_all add: cap_lookup_Inr)
  obtain k where k: "k \<le> n" "cap_generations s2 ?i = (bump_generation ^^ k) (cap_generations s1 ?i)"
    using cap_run_slot [OF run, of ?i] by (auto simp: slot_moves_def)
  then have "cap_generations s2 ?i = (bump_generation ^^ Suc k) (cap_generation cap)"
    using f(2,3) l(3) by (simp add: funpow_swap1)
  then have "cap_generations s2 ?i \<noteq> cap_generation cap"
    using bump_funpow_neq [OF l(2), of "Suc k"] k(1) n by simp
  with l(1) show ?thesis by (rule cap_lookup_stale)
qed

definition cap_boot :: cap_state where
  "cap_boot = \<lparr>object_table = (\<lambda>i. null_object), object_generations = (\<lambda>i. 0),
     cap_table = (\<lambda>i. null_cap_entry), cap_generations = (\<lambda>i. 0)\<rparr>"

lemma cap_inv_boot: "cap_inv cap_boot"
  by (simp add: cap_boot_def cap_inv_def obj_inv_def cap_live_def null_cap_entry_def null_object_def)

section \<open>Kernel histories\<close>

text \<open>
  The invariant of the object and capability tables every other component rests
  on, and the relation every operation of the kernel moves them along: each
  object is created with a payload of its type. All operations of the later
  theories are shown to be \<open>khist\<close> steps, so they inherit the preservation of
  \<open>kern_inv\<close>, the persistence of objects and the facts on tokens above.
\<close>

definition kern_inv :: "'a cap_state_scheme \<Rightarrow> bool" where
  "kern_inv s \<longleftrightarrow> cap_inv s \<and> objs_ok s"

lemma kern_invD: "kern_inv s \<Longrightarrow> cap_inv s" "kern_inv s \<Longrightarrow> objs_ok s" "kern_inv s \<Longrightarrow> obj_inv s"
  by (simp_all add: kern_inv_def cap_inv_obj)

inductive khist :: "'a cap_state_scheme \<Rightarrow> 'a cap_state_scheme \<Rightarrow> bool" where
  kh_refl: "khist s s"
| kh_other: "khist s s' \<Longrightarrow> object_table s'' = object_table s' \<Longrightarrow>
    object_generations s'' = object_generations s' \<Longrightarrow> cap_table s'' = cap_table s' \<Longrightarrow>
    cap_generations s'' = cap_generations s' \<Longrightarrow> khist s s''"
| kh_object: "khist s s' \<Longrightarrow> scdk_object_create s' type core flags p = (ro, s'') \<Longrightarrow>
    payload_ok type p \<Longrightarrow> khist s s''"
| kh_create: "khist s s' \<Longrightarrow> scdk_cap_create s' oid rights = (rc, s'') \<Longrightarrow> khist s s''"
| kh_revoke: "khist s s' \<Longrightarrow> scdk_cap_revoke s' cap = (rr, s'') \<Longrightarrow> khist s s''"

lemma khist_trans [trans]: "khist s2 s3 \<Longrightarrow> khist s1 s2 \<Longrightarrow> khist s1 s3"
  by (induction rule: khist.induct) (auto intro: khist.intros)

lemma khist_then: "khist s1 s2 \<Longrightarrow> khist s2 s3 \<Longrightarrow> khist s1 s3"
  by (rule khist_trans)

lemma khist_run: "khist s s' \<Longrightarrow> \<exists>n. cap_run n s s'"
  by (induction rule: khist.induct) (blast intro: cap_run.intros)+

lemma khist_objects:
  "khist s s' \<Longrightarrow> kern_inv s \<Longrightarrow> scdk_object_lookup s x = Inr ob \<Longrightarrow> scdk_object_lookup s' x = Inr ob"
  using khist_run cap_run_objects kern_invD(1) by blast

lemma khist_inv: "khist s s' \<Longrightarrow> kern_inv s \<Longrightarrow> kern_inv s'"
proof (induction rule: khist.induct)
  case (kh_other s s' s'')
  then show ?case using cap_inv_frame [of s'' s'] objs_ok_frame [of s'' s'] by (simp add: kern_inv_def)
next
  case (kh_object s s' type core flags p ro s'')
  then have "kern_inv s'" by blast
  then show ?case
    using object_create_cap_inv [OF _ kh_object.hyps(2)] objs_ok_create [OF _ _ kh_object.hyps(3,2)]
    by (simp add: kern_inv_def cap_inv_obj)
next
  case (kh_create s s' oid rights rc s'')
  then have "kern_inv s'" by blast
  then show ?case
    using cap_create_inv [OF _ kh_create.hyps(2)] objs_ok_frame [OF cap_create_objects(1) [OF kh_create.hyps(2)]]
    by (simp add: kern_inv_def)
next
  case (kh_revoke s s' cap rr s'')
  then have "kern_inv s'" by blast
  then show ?case
    using cap_revoke_inv [OF _ kh_revoke.hyps(2)] objs_ok_frame [OF cap_revoke_objects(1) [OF kh_revoke.hyps(2)]]
    by (simp add: kern_inv_def)
qed simp

lemma khist_slot_bound:
  "khist s s' \<Longrightarrow> kern_inv s \<Longrightarrow> slot_bound s ty pay n oids \<Longrightarrow> slot_bound s' ty pay n oids"
  by (rule slot_bound_keeps) (assumption, rule khist_objects)

lemmas khist_steps = kh_refl kh_object [OF kh_refl] kh_create [OF kh_refl] kh_revoke [OF kh_refl]

lemma khist_upd:
  "object_table s' = object_table s \<Longrightarrow> object_generations s' = object_generations s \<Longrightarrow>
     cap_table s' = cap_table s \<Longrightarrow> cap_generations s' = cap_generations s \<Longrightarrow> khist s s'"
  by (rule kh_other [OF kh_refl])

lemma cap_lookup_frame:
  assumes "object_table s' = object_table s" "cap_table s' = cap_table s" "cap_generations s' = cap_generations s"
  shows "scdk_cap_lookup s' = scdk_cap_lookup s"
proof -
  have "validate_cap_slot s' = validate_cap_slot s"
    by (rule ext) (simp add: validate_cap_slot_def assms Let_def)
  then show ?thesis using object_lookup_frame [OF assms(1)]
    by (intro ext) (simp add: scdk_cap_lookup_def cong: sum.case_cong)
qed

lemma cap_check_frame:
  assumes "object_table s' = object_table s" "cap_table s' = cap_table s" "cap_generations s' = cap_generations s"
  shows "scdk_cap_check s' = scdk_cap_check s"
  using cap_lookup_frame [OF assms] by (intro ext) (simp add: scdk_cap_check_def cong: sum.case_cong)

lemma kern_inv_frame:
  assumes "object_table s' = object_table s" "object_generations s' = object_generations s"
    "cap_table s' = cap_table s" "cap_generations s' = cap_generations s"
  shows "kern_inv s' = kern_inv s"
  using cap_inv_frame [OF assms] objs_ok_frame [OF assms(1)] by (simp add: kern_inv_def)

lemmas frame_rules = object_lookup_frame cap_lookup_frame cap_check_frame kern_inv_frame

text \<open>
  The checks every operation on a slot starts with: capability, object, slot. With
  the invariant the second lookup cannot fail.
\<close>

lemma cap_check_lookup:
  assumes "scdk_cap_check s cap r ty = Inr e"
  obtains ob where "scdk_object_lookup s (ce_object_id e) = Inr ob" "obj_type ob = ce_object_type e"
    "obj_id ob = ce_object_id e"
  using assms cap_lookup_object [of s cap e] object_lookup_id by (auto simp: cap_check_Inr)

text \<open>A freshly minted capability passes every check its rights allow.\<close>

lemma cap_create_check:
  assumes inv: "cap_inv s" and c: "scdk_cap_create s oid rights = (Inr cap, s')"
    and ob: "scdk_object_lookup s oid = Inr ob" and r: "r \<noteq> 0" "rights AND r = r"
    and ty: "obj_type ob = ty"
  shows "\<exists>e. scdk_cap_check s' cap r ty = Inr e \<and> ce_object_id e = oid"
  using cap_create_look [OF inv c] ob r ty by (auto simp: cap_check_Inr)

lemma kern_inv_boot: "kern_inv cap_boot"
  using cap_inv_boot
  by (auto simp: kern_inv_def objs_ok_def cap_boot_def scdk_object_lookup_def null_object_def Let_def split: if_splits)

section \<open>Binding a table slot to a new object\<close>

text \<open>
  The tail every constructor of a static table shares (\<^verbatim>\<open>scdk_endpoint_create\<close>,
  \<^verbatim>\<open>scdk_ring_create\<close>, \<^verbatim>\<open>scdk_grant_create\<close>, ...): create the object that points at the slot,
  fill the slot, mint the capability, and empty the slot again when that fails
  (the object stays).
\<close>

definition bind_slot ::
  "'a cap_state_scheme \<Rightarrow> scdk_object_type \<Rightarrow> u32 \<Rightarrow> payload \<Rightarrow> (u64 \<Rightarrow> 'a cap_state_scheme \<Rightarrow> 'a cap_state_scheme)
     \<Rightarrow> ('a cap_state_scheme \<Rightarrow> 'a cap_state_scheme) \<Rightarrow> u64 \<Rightarrow> u64 res \<times> 'a cap_state_scheme"
where
  "bind_slot s type core pay fill undo rights =
     (case scdk_object_create s type core 0 pay of
        (Inl e, s1) \<Rightarrow> (Inl e, s1)
      | (Inr oid, s1) \<Rightarrow>
          (case scdk_cap_create (fill oid s1) oid rights of
             (Inl e, s3) \<Rightarrow> (Inl e, undo s3)
           | (Inr cap, s3) \<Rightarrow> (Inr cap, s3)))"

definition core_same :: "'a cap_state_scheme \<Rightarrow> 'a cap_state_scheme \<Rightarrow> bool" where
  "core_same s s' \<longleftrightarrow> object_table s' = object_table s \<and> object_generations s' = object_generations s \<and>
     cap_table s' = cap_table s \<and> cap_generations s' = cap_generations s"

lemma core_same_khist: "core_same s s' \<Longrightarrow> khist s s'"
  by (simp add: core_same_def khist_upd)

lemma core_same_lookup: "core_same s s' \<Longrightarrow> scdk_object_lookup s' = scdk_object_lookup s"
  by (rule object_lookup_frame) (simp add: core_same_def)

lemma core_same_inv: "core_same s s' \<Longrightarrow> kern_inv s' = kern_inv s"
  by (rule kern_inv_frame) (simp_all add: core_same_def)

lemma bind_slot_cases:
  assumes "bind_slot s type core pay fill undo rights = (r, s')"
  obtains (noobj) e where "r = Inl e" "s' = s"
  | (nocap) oid s1 s3 e where "scdk_object_create s type core 0 pay = (Inr oid, s1)"
      "scdk_cap_create (fill oid s1) oid rights = (Inl e, s3)" "r = Inl e" "s' = undo s3"
  | (created) oid s1 cap where "scdk_object_create s type core 0 pay = (Inr oid, s1)"
      "scdk_cap_create (fill oid s1) oid rights = (Inr cap, s')" "r = Inr cap"
proof -
  obtain ro s1 where o: "scdk_object_create s type core 0 pay = (ro, s1)" by fastforce
  show thesis
  proof (cases ro)
    case (Inl e)
    with o assms object_create_refused [of s type core 0 pay e s1] show thesis
      by (intro noobj [of e]) (simp_all add: bind_slot_def)
  next
    case (Inr oid)
    obtain rc s3 where c: "scdk_cap_create (fill oid s1) oid rights = (rc, s3)" by fastforce
    show thesis
    proof (cases rc)
      case l: (Inl e)
      show thesis by (rule nocap [of oid s1 e s3]) (use o c Inr l assms in \<open>simp_all add: bind_slot_def\<close>)
    next
      case r: (Inr cap)
      show thesis by (rule created [of oid s1 cap]) (use o c Inr r assms in \<open>simp_all add: bind_slot_def\<close>)
    qed
  qed
qed

lemma bind_slot_khist:
  assumes b: "bind_slot s type core pay fill undo rights = (r, s')" and ok: "payload_ok type pay"
    and same: "\<And>oid s. core_same s (fill oid s)" "\<And>s. core_same s (undo s)"
  shows "khist s s'"
  using b
proof (cases rule: bind_slot_cases)
  case (nocap oid s1 s3 e)
  have "khist s s3"
    by (rule kh_create [OF khist_then [OF kh_object [OF kh_refl nocap(1) ok] core_same_khist [OF same(1)]] nocap(2)])
  then show ?thesis unfolding nocap(4) using core_same_khist [OF same(2)] khist_then by blast
next
  case (created oid s1 cap)
  show ?thesis
    by (rule kh_create [OF khist_then [OF kh_object [OF kh_refl created(1) ok] core_same_khist [OF same(1)]] created(2)])
qed (simp add: kh_refl)

text \<open>The slot is bound to the new object, and the capability designates it.\<close>

lemma bind_slot_object:
  assumes o: "scdk_object_create s type core 0 pay = (Inr oid, s1)"
    and c: "scdk_cap_create s2 oid rights = (Inr cap, s')" and same: "core_same s1 s2"
  shows "oid \<noteq> 0 \<and> (\<exists>ob. scdk_object_lookup s' oid = Inr ob \<and> obj_type ob = type \<and> obj_payload ob = pay)"
  using object_create_look [OF o] object_create_nonzero [OF o] core_same_lookup [OF same]
    cap_create_objects(3) [OF c] by auto

lemma bind_slot_cap:
  assumes o: "scdk_object_create s type core 0 pay = (Inr oid, s1)"
    and c: "scdk_cap_create s2 oid rights = (Inr cap, s')" and same: "core_same s1 s2"
    and inv: "kern_inv s" and ok: "payload_ok type pay" and r: "r \<noteq> 0" "rights AND r = r"
  shows "\<exists>e. scdk_cap_check s' cap r type = Inr e \<and> ce_object_id e = oid"
proof -
  obtain ob where ob: "scdk_object_lookup s1 oid = Inr ob" "obj_type ob = type"
    using object_create_look [OF o] by blast
  have i1: "cap_inv s2"
    using khist_inv [OF kh_object [OF kh_refl o ok] inv] core_same_inv [OF same] kern_invD(1) by blast
  have ob1: "scdk_object_lookup s2 oid = Inr ob" using ob(1) core_same_lookup [OF same] by simp
  show ?thesis using cap_create_check [OF i1 c ob1 r ob(2)] .
qed

lemma bind_slot_bound:
  assumes b: "slot_bound s type pay n oids"
    and o: "scdk_object_create s type core 0 (pay i) = (Inr oid, s1)"
    and c: "scdk_cap_create s2 oid rights = (Inr cap, s')" and same: "core_same s1 s2"
    and inv: "kern_inv s"
  shows "slot_bound s' type pay n (oids(i := oid))"
proof -
  have "scdk_object_lookup s' = scdk_object_lookup s1"
    using cap_create_objects(3) [OF c] core_same_lookup [OF same] by simp
  with slot_bound_bind [OF b kern_invD(3) [OF inv] o] show ?thesis by (simp add: slot_bound_def)
qed

section \<open>Properties\<close>

text \<open>
  (C1) Revocation is final: after \<^verbatim>\<open>scdk_cap_revoke\<close> succeeded on a token, every check of
  that token fails, whatever objects and capabilities the kernel creates and
  revokes afterwards (the slot is reused), for the next \<open>2\<^sup>32 - 3\<close> capability
  operations.
\<close>

theorem revoked_capability_stays_dead:
  assumes "cap_inv s" and "scdk_cap_revoke s cap = (SCDK_OK, s1)"
    and "cap_run n s1 s2" and "Suc n < 2 ^ 32 - 1" and "required \<noteq> 0"
  shows "scdk_cap_check s2 cap required expected = Inl SCDK_ERR_NOENT"
  using cap_run_revoked [OF assms(1-4)] assms(5) by (simp add: scdk_cap_check_def)

text \<open>A concrete table with one object and one live capability.\<close>

definition cap_demo :: cap_state where
  "cap_demo = snd (scdk_cap_create (snd (scdk_object_create cap_boot SCDK_OBJ_RING 0 0 PNull))
     0x100000000 SCDK_RIGHT_READ)"

lemma cap_demo_inv: "cap_inv cap_demo"
proof -
  have "cap_inv (snd (scdk_object_create cap_boot SCDK_OBJ_RING 0 0 PNull))"
    using object_create_cap_inv [OF cap_inv_boot] by (metis prod.collapse)
  then show ?thesis unfolding cap_demo_def using cap_create_inv by (metis prod.collapse)
qed

lemma cap_demo_eval:
  "cap_demo = \<lparr>object_table = (\<lambda>_. null_object)(0 :=
        \<lparr>obj_id = 0x100000000, obj_type = SCDK_OBJ_RING, obj_generation = 1, obj_owner_core = 0,
         obj_flags = 0, obj_payload = PNull\<rparr>), object_generations = (\<lambda>_. 0)(0 := 1),
     cap_table = (\<lambda>_. null_cap_entry)(0 := \<lparr>ce_object_id = 0x100000000, ce_generation = 1,
        ce_object_type = SCDK_OBJ_RING, ce_revoked = 0, ce_rights = SCDK_RIGHT_READ\<rparr>),
     cap_generations = (\<lambda>_. 0)(0 := 1)\<rparr>"
  by (simp add: cap_demo_def scdk_object_create_def cap_boot_def first_slot_hit null_object_def kconst
      next_generation_def bump_generation_def object_make_id_def scdk_cap_create_def
      scdk_object_lookup_def object_id_index_def object_id_generation_def null_cap_entry_def
      next_cap_generation_def Let_def)

lemma cap_demo_look:
  "scdk_cap_lookup cap_demo 0x100000000 = Inr \<lparr>ce_object_id = 0x100000000, ce_generation = 1,
        ce_object_type = SCDK_OBJ_RING, ce_revoked = 0, ce_rights = SCDK_RIGHT_READ\<rparr>"
  by (simp add: cap_demo_eval scdk_cap_lookup_def validate_cap_slot_def cap_index_def cap_generation_def
      scdk_object_lookup_def object_id_index_def object_id_generation_def kconst Let_def)

theorem revoked_capability_stays_dead_witness:
  "\<exists>s1. scdk_cap_revoke cap_demo 0x100000000 = (SCDK_OK, s1) \<and>
     scdk_cap_check (snd (scdk_cap_create s1 0x100000000 SCDK_RIGHT_WRITE)) 0x100000000
       SCDK_RIGHT_READ SCDK_OBJ_RING = Inl SCDK_ERR_NOENT"
proof -
  obtain s1 where r: "scdk_cap_revoke cap_demo 0x100000000 = (SCDK_OK, s1)"
    using cspace.kill_exact [OF cap_demo_inv] cap_demo_look by fastforce
  have "cap_run 1 s1 (snd (scdk_cap_create s1 0x100000000 SCDK_RIGHT_WRITE))"
    using run_create [OF run_refl] by (metis One_nat_def prod.collapse)
  from revoked_capability_stays_dead [OF cap_demo_inv r this, of SCDK_RIGHT_READ SCDK_OBJ_RING] r
  show ?thesis by (simp add: kconst)
qed

text \<open>
  (C2) A token never changes its meaning: a token that designates an entry designates
  the same object with the same rights after any history of fewer than
  \<open>2\<^sup>32 - 1\<close> capability operations, or is dead. In particular no operation adds a
  right to an existing capability.
\<close>

theorem capability_meaning_stable:
  assumes "cap_inv s" and "cap_run n s s'" and "n < 2 ^ 32 - 1"
    and "scdk_cap_lookup s cap = Inr e"
  shows "scdk_cap_lookup s' cap = Inl SCDK_ERR_NOENT \<or>
    scdk_cap_lookup s' cap = Inr e \<and>
    (\<forall>r ty. scdk_cap_check s' cap r ty = scdk_cap_check s cap r ty) \<and>
    scdk_object_lookup s' (ce_object_id e) = scdk_object_lookup s (ce_object_id e)"
proof -
  have "scdk_object_lookup s' (ce_object_id e) = scdk_object_lookup s (ce_object_id e)"
    using cap_lookup_object [OF assms(4)] cap_run_objects [OF assms(2,1)] by fastforce
  then show ?thesis
    using cap_run_token [OF assms] assms(4) by (auto simp: scdk_cap_check_def)
qed

theorem capability_meaning_stable_witness:
  "scdk_cap_check (snd (scdk_cap_create cap_demo 0x100000000 SCDK_RIGHT_WRITE)) 0x100000000
     SCDK_RIGHT_WRITE SCDK_OBJ_RING \<in> {Inl SCDK_ERR_PERM, Inl SCDK_ERR_NOENT}"
proof -
  have "cap_run 1 cap_demo (snd (scdk_cap_create cap_demo 0x100000000 SCDK_RIGHT_WRITE))"
    using run_create [OF run_refl] by (metis One_nat_def prod.collapse)
  from capability_meaning_stable [OF cap_demo_inv this _ cap_demo_look]
  show ?thesis by (auto simp: scdk_cap_check_def cap_demo_look kconst)
qed

text \<open>
  What a successful check establishes, and nothing less makes it succeed: in a
  well-formed state \<^verbatim>\<open>scdk_cap_check\<close> accepts exactly a token whose slot is in
  range, carries the token's generation and is neither empty nor revoked, whose
  object still exists with the recorded type and generation, and whose rights
  contain every required right.
\<close>

theorem capability_check_exact:
  assumes "cap_inv s"
  shows "scdk_cap_check s cap required expected = Inr e \<longleftrightarrow>
    required \<noteq> 0 \<and> unat (cap_index cap) < SCDK_MAX_CAPS \<and> cap_generation cap \<noteq> 0 \<and>
    cap_generations s (unat (cap_index cap)) = cap_generation cap \<and>
    e = cap_table s (unat (cap_index cap)) \<and> ce_object_id e \<noteq> 0 \<and> ce_revoked e = 0 \<and>
    ce_rights e AND required = required \<and> (expected = SCDK_OBJ_NONE \<or> ce_object_type e = expected) \<and>
    (\<exists>ob. scdk_object_lookup s (ce_object_id e) = Inr ob \<and> obj_type ob = ce_object_type e \<and>
          obj_generation ob = ce_generation e)"
proof -
  have "\<exists>ob. scdk_object_lookup s (ce_object_id e) = Inr ob \<and> obj_type ob = ce_object_type e \<and>
          obj_generation ob = ce_generation e" if "scdk_cap_lookup s cap = Inr e"
    using that by (auto simp: scdk_cap_lookup_def split: sum.splits if_splits)
  moreover have "cap_generation cap \<noteq> 0 \<Longrightarrow> cap \<noteq> 0" by (auto simp: cap_generation_def)
  ultimately show ?thesis
    unfolding cap_check_Inr cap_lookup_Inr [OF assms] cap_live_def by blast
qed

theorem capability_check_exact_witness:
  "(\<exists>e. scdk_cap_check cap_demo 0x100000000 SCDK_RIGHT_READ SCDK_OBJ_RING = Inr e) \<and>
   \<not> (\<exists>e. scdk_cap_check cap_demo 0x200000000 SCDK_RIGHT_READ SCDK_OBJ_RING = Inr e)"
proof
  show "\<exists>e. scdk_cap_check cap_demo 0x100000000 SCDK_RIGHT_READ SCDK_OBJ_RING = Inr e"
    by (simp add: scdk_cap_check_def cap_demo_look kconst)
  show "\<not> (\<exists>e. scdk_cap_check cap_demo 0x200000000 SCDK_RIGHT_READ SCDK_OBJ_RING = Inr e)"
    unfolding capability_check_exact [OF cap_demo_inv]
    by (simp add: cap_demo_eval cap_index_def cap_generation_def)
qed

text \<open>
  (C7) Revocation is precise: revoking a live token succeeds, kills exactly that token
  and leaves the lookup of every other token as it was; revoking it again is
  refused and changes nothing.
\<close>

theorem capability_revoke_exact:
  assumes "cap_inv s" and "scdk_cap_lookup s cap = Inr e"
  shows "\<exists>s1. scdk_revoke_capability s cap = (SCDK_OK, s1) \<and> cap_inv s1 \<and>
    scdk_cap_lookup s1 cap = Inl SCDK_ERR_NOENT \<and>
    (\<forall>c x. c \<noteq> cap \<longrightarrow> (scdk_cap_lookup s1 c = Inr x \<longleftrightarrow> scdk_cap_lookup s c = Inr x)) \<and>
    scdk_cap_revoke_stub s1 cap = (SCDK_ERR_NOENT, s1)"
proof -
  obtain s1 where s1: "scdk_cap_revoke s cap = (SCDK_OK, s1)" "cap_inv s1"
    "cap_look s1 = (cap_look s)(cap := None)"
    using cspace.kill_exact [OF assms(1), of cap] assms(2) by auto
  have dead: "scdk_cap_lookup s1 cap = Inl SCDK_ERR_NOENT" using s1(1) by (rule cap_revoke_dead)
  have "scdk_cap_lookup s1 c = Inr x \<longleftrightarrow> scdk_cap_lookup s c = Inr x" if "c \<noteq> cap" for c x
    using fun_cong [OF s1(3), of c] that by (metis fun_upd_apply res_opt_Some)
  with s1 dead show ?thesis by (auto simp: scdk_revoke_capability_def scdk_cap_revoke_stub_def)
qed

theorem capability_revoke_exact_witness:
  "\<exists>s1. scdk_revoke_capability cap_demo 0x100000000 = (SCDK_OK, s1) \<and>
     scdk_cap_lookup s1 0x100000000 = Inl SCDK_ERR_NOENT"
  using capability_revoke_exact [OF cap_demo_inv cap_demo_look] by blast

end
