(* ===== verification/SCDK_Endpoint.thy ===== *)
theory SCDK_Endpoint
  imports SCDK_Capability
begin

text \<open>
  Messages (\<^verbatim>\<open>src/ipc/message.c\<close>), endpoints and the service registry
  (\<^verbatim>\<open>src/core/endpoint.c\<close>). A handler is a C function pointer; here it is a name from
  \<open>handler\<close>, and delivery takes the function that runs a named handler as an
  argument, which the theories of the services instantiate.
\<close>

section \<open>Messages\<close>

record scdk_message =
  sender :: u64
  target :: u64
  mtype :: u64
  arg0 :: u64
  arg1 :: u64
  arg2 :: u64
  arg3 :: u64
  mstatus :: u64

definition SCDK_MSG_NONE :: u64 where [kconst]: "SCDK_MSG_NONE = 0"
definition SCDK_MSG_OPEN :: u64 where [kconst]: "SCDK_MSG_OPEN = 1"
definition SCDK_MSG_CLOSE :: u64 where [kconst]: "SCDK_MSG_CLOSE = 2"
definition SCDK_MSG_READ :: u64 where [kconst]: "SCDK_MSG_READ = 3"
definition SCDK_MSG_WRITE :: u64 where [kconst]: "SCDK_MSG_WRITE = 4"
definition SCDK_MSG_DEVICE_REGISTER :: u64 where [kconst]: "SCDK_MSG_DEVICE_REGISTER = 5"
definition SCDK_MSG_DEVICE_QUEUE_BIND :: u64 where [kconst]: "SCDK_MSG_DEVICE_QUEUE_BIND = 6"
definition SCDK_MSG_SERVICE_REGISTER :: u64 where [kconst]: "SCDK_MSG_SERVICE_REGISTER = 7"
definition SCDK_MSG_SERVICE_LOOKUP :: u64 where [kconst]: "SCDK_MSG_SERVICE_LOOKUP = 8"
definition SCDK_MSG_PROCESS_SPAWN :: u64 where [kconst]: "SCDK_MSG_PROCESS_SPAWN = 9"
definition SCDK_MSG_PROCESS_EXIT :: u64 where [kconst]: "SCDK_MSG_PROCESS_EXIT = 10"
definition SCDK_MSG_PROCESS_WAIT_STUB :: u64 where [kconst]: "SCDK_MSG_PROCESS_WAIT_STUB = 11"
definition SCDK_MSG_RING_PROCESS :: u64 where [kconst]: "SCDK_MSG_RING_PROCESS = 12"
definition SCDK_MSG_CONSOLE_WRITE :: u64 where [kconst]: "SCDK_MSG_CONSOLE_WRITE = 0x2000"
definition SCDK_MSG_CONSOLE_CLEAR :: u64 where [kconst]: "SCDK_MSG_CONSOLE_CLEAR = 0x2001"
definition SCDK_MSG_CONSOLE_GET_INFO :: u64 where [kconst]: "SCDK_MSG_CONSOLE_GET_INFO = 0x2002"
definition SCDK_MSG_CONSOLE_BIND_OUTPUT_RING :: u64 where [kconst]: "SCDK_MSG_CONSOLE_BIND_OUTPUT_RING = 0x2003"
definition SCDK_MSG_CONSOLE_SCROLL :: u64 where [kconst]: "SCDK_MSG_CONSOLE_SCROLL = 0x2004"
definition SCDK_MSG_TTY_POLL_EVENT :: u64 where [kconst]: "SCDK_MSG_TTY_POLL_EVENT = 0x2100"
definition SCDK_MSG_TTY_BIND_INPUT_RING :: u64 where [kconst]: "SCDK_MSG_TTY_BIND_INPUT_RING = 0x2101"
definition SCDK_MSG_TTY_GET_INFO :: u64 where [kconst]: "SCDK_MSG_TTY_GET_INFO = 0x2102"
definition SCDK_MSG_STAT :: u64 where [kconst]: "SCDK_MSG_STAT = 0x3000"
definition SCDK_MSG_LISTDIR :: u64 where [kconst]: "SCDK_MSG_LISTDIR = 0x3001"

definition scdk_message_init :: "u64 \<Rightarrow> u64 \<Rightarrow> u64 \<Rightarrow> scdk_message" where
  "scdk_message_init from_cap to_cap ty =
     \<lparr>sender = from_cap, target = to_cap, mtype = ty, arg0 = 0, arg1 = 0, arg2 = 0, arg3 = 0,
      mstatus = status_word SCDK_ERR_INVAL\<rparr>"

definition scdk_message_init_write :: "u64 \<Rightarrow> u64 \<Rightarrow> u64 \<Rightarrow> u64 \<Rightarrow> scdk_message res" where
  "scdk_message_init_write from_cap to_cap buffer len =
     (if buffer = 0 then Inl SCDK_ERR_INVAL
      else Inr ((scdk_message_init from_cap to_cap SCDK_MSG_WRITE)
             \<lparr>arg0 := buffer, arg1 := len, mstatus := status_word SCDK_OK\<rparr>))"

section \<open>Endpoints and services: data\<close>

definition SCDK_MAX_SERVICES :: nat where [kconst]: "SCDK_MAX_SERVICES = 32"

definition SCDK_SERVICE_NONE :: u64 where [kconst]: "SCDK_SERVICE_NONE = 0"
definition SCDK_SERVICE_CONSOLE :: u64 where [kconst]: "SCDK_SERVICE_CONSOLE = 1"
definition SCDK_SERVICE_TMPFS :: u64 where [kconst]: "SCDK_SERVICE_TMPFS = 2"
definition SCDK_SERVICE_VFS :: u64 where [kconst]: "SCDK_SERVICE_VFS = 3"
definition SCDK_SERVICE_PROC :: u64 where [kconst]: "SCDK_SERVICE_PROC = 4"
definition SCDK_SERVICE_GRANT_TEST :: u64 where [kconst]: "SCDK_SERVICE_GRANT_TEST = 5"
definition SCDK_SERVICE_DEVMGR :: u64 where [kconst]: "SCDK_SERVICE_DEVMGR = 6"
definition SCDK_SERVICE_TTY :: u64 where [kconst]: "SCDK_SERVICE_TTY = 7"
definition SCDK_SERVICE_SESSION :: u64 where [kconst]: "SCDK_SERVICE_SESSION = 8"

text \<open>The handlers the kernel's services install; \<open>HOther\<close> is any further one.\<close>

datatype handler =
    HConsole | HTmpfs | HVfs | HProc | HDevmgr | HTty | HSession | HOther nat

record scdk_endpoint =
  ep_object_id :: u64
  ep_handler :: "handler option"
  ep_context :: u64

record scdk_service_slot =
  sv_service_id :: u64
  sv_endpoint :: u64

record ep_state = cap_state +
  endpoint_table :: "nat \<Rightarrow> scdk_endpoint"
  service_table :: "nat \<Rightarrow> scdk_service_slot"

definition null_endpoint :: scdk_endpoint where
  "null_endpoint = \<lparr>ep_object_id = 0, ep_handler = None, ep_context = 0\<rparr>"

definition null_service_slot :: scdk_service_slot where
  "null_service_slot = \<lparr>sv_service_id = 0, sv_endpoint = 0\<rparr>"

section \<open>Operations\<close>

abbreviation set_endpoint :: "'a ep_state_scheme \<Rightarrow> nat \<Rightarrow> scdk_endpoint \<Rightarrow> 'a ep_state_scheme" where
  "set_endpoint s i e \<equiv> s\<lparr>endpoint_table := (endpoint_table s)(i := e)\<rparr>"

definition scdk_endpoint_create ::
  "'a ep_state_scheme \<Rightarrow> u32 \<Rightarrow> handler option \<Rightarrow> u64 \<Rightarrow> u64 res \<times> 'a ep_state_scheme"
where
  "scdk_endpoint_create s owner_core h context =
     (if h = None then (Inl SCDK_ERR_INVAL, s)
      else case first_slot (\<lambda>i. ep_object_id (endpoint_table s i) = 0) SCDK_MAX_ENDPOINTS of
        None \<Rightarrow> (Inl SCDK_ERR_NOMEM, s)
      | Some i \<Rightarrow>
          bind_slot s SCDK_OBJ_ENDPOINT owner_core (PEndpoint i)
            (\<lambda>oid s. set_endpoint s i \<lparr>ep_object_id = oid, ep_handler = h, ep_context = context\<rparr>)
            (\<lambda>s. set_endpoint s i null_endpoint)
            (SCDK_RIGHT_SEND OR SCDK_RIGHT_BIND))"

text \<open>
  The slot behind a checked endpoint capability. Objects of type
  \<^verbatim>\<open>SCDK_OBJ_ENDPOINT\<close> only ever carry a pointer into the endpoint table (part of the
  invariant below).
\<close>

definition endpoint_of :: "'a ep_state_scheme \<Rightarrow> payload \<Rightarrow> u64 \<Rightarrow> (handler \<times> u64) option" where
  "endpoint_of s p oid =
     (case p of
        PEndpoint i \<Rightarrow>
          (let ep = endpoint_table s i
           in if ep_object_id ep \<noteq> oid then None
              else case ep_handler ep of None \<Rightarrow> None | Some h \<Rightarrow> Some (h, ep_context ep))
      | _ \<Rightarrow> None)"

type_synonym 's run_handler =
  "handler \<Rightarrow> u64 \<Rightarrow> scdk_message \<Rightarrow> u64 \<Rightarrow> 's \<Rightarrow> scdk_status \<times> scdk_message \<times> 's"

definition scdk_endpoint_call ::
  "'a ep_state_scheme run_handler \<Rightarrow> 'a ep_state_scheme \<Rightarrow> u64 \<Rightarrow> scdk_message
     \<Rightarrow> scdk_status \<times> scdk_message \<times> 'a ep_state_scheme"
where
  "scdk_endpoint_call run s endpoint msg =
     (case scdk_cap_check s endpoint SCDK_RIGHT_SEND SCDK_OBJ_ENDPOINT of
        Inl e \<Rightarrow> (e, msg\<lparr>mstatus := status_word e\<rparr>, s)
      | Inr entry \<Rightarrow>
          (case scdk_object_lookup s (ce_object_id entry) of
             Inl e \<Rightarrow> (e, msg\<lparr>mstatus := status_word e\<rparr>, s)
           | Inr object \<Rightarrow>
               (case endpoint_of s (obj_payload object) (ce_object_id entry) of
                  None \<Rightarrow> (SCDK_ERR_NOENT, msg\<lparr>mstatus := status_word SCDK_ERR_NOENT\<rparr>, s)
                | Some (h, context) \<Rightarrow>
                    (case run h endpoint (msg\<lparr>target := ce_object_id entry\<rparr>) context s of
                       (status, msg', s') \<Rightarrow> (status, msg'\<lparr>mstatus := status_word status\<rparr>, s')))))"

definition scdk_service_register :: "'a ep_state_scheme \<Rightarrow> u64 \<Rightarrow> u64 \<Rightarrow> scdk_status \<times> 'a ep_state_scheme" where
  "scdk_service_register s service_id endpoint =
     (if service_id = SCDK_SERVICE_NONE then (SCDK_ERR_INVAL, s)
      else case scdk_cap_check s endpoint SCDK_RIGHT_BIND SCDK_OBJ_ENDPOINT of
        Inl e \<Rightarrow> (e, s)
      | Inr _ \<Rightarrow>
          (case first_slot (\<lambda>i. sv_service_id (service_table s i) = service_id) SCDK_MAX_SERVICES of
             Some i \<Rightarrow> (SCDK_ERR_BUSY, s)
           | None \<Rightarrow>
               (case first_slot (\<lambda>i. sv_service_id (service_table s i) = SCDK_SERVICE_NONE) SCDK_MAX_SERVICES of
                  None \<Rightarrow> (SCDK_ERR_NOMEM, s)
                | Some i \<Rightarrow>
                    (SCDK_OK, s\<lparr>service_table := (service_table s)(i :=
                       \<lparr>sv_service_id = service_id, sv_endpoint = endpoint\<rparr>)\<rparr>))))"

definition scdk_service_lookup :: "'a ep_state_scheme \<Rightarrow> u64 \<Rightarrow> u64 res" where
  "scdk_service_lookup s service_id =
     (if service_id = SCDK_SERVICE_NONE then Inl SCDK_ERR_INVAL
      else case first_slot (\<lambda>i. sv_service_id (service_table s i) = service_id) SCDK_MAX_SERVICES of
        None \<Rightarrow> Inl SCDK_ERR_NOENT
      | Some i \<Rightarrow> Inr (sv_endpoint (service_table s i)))"

section \<open>Frames\<close>

lemma ep_upd [simp]:
  "scdk_object_lookup (s\<lparr>endpoint_table := x\<rparr>) = scdk_object_lookup s"
  "scdk_cap_lookup (s\<lparr>endpoint_table := x\<rparr>) = scdk_cap_lookup s"
  "scdk_cap_check (s\<lparr>endpoint_table := x\<rparr>) = scdk_cap_check s"
  "kern_inv (s\<lparr>endpoint_table := x\<rparr>) = kern_inv s"
  "scdk_object_lookup (s\<lparr>service_table := y\<rparr>) = scdk_object_lookup s"
  "scdk_cap_lookup (s\<lparr>service_table := y\<rparr>) = scdk_cap_lookup s"
  "scdk_cap_check (s\<lparr>service_table := y\<rparr>) = scdk_cap_check s"
  "kern_inv (s\<lparr>service_table := y\<rparr>) = kern_inv s"
  by (rule frame_rules; simp)+

lemma ep_low_frame [kframe]:
  "scdk_object_create s ty c f p = (r, s') \<Longrightarrow> endpoint_table s' = endpoint_table s \<and> service_table s' = service_table s"
  "scdk_cap_create s oid rights = (r, s') \<Longrightarrow> endpoint_table s' = endpoint_table s \<and> service_table s' = service_table s"
  "scdk_cap_revoke s cap = (q, s') \<Longrightarrow> endpoint_table s' = endpoint_table s \<and> service_table s' = service_table s"
  by (auto elim: object_create_cases cap_create_cases cap_revoke_cases)

section \<open>Invariant\<close>

definition ep_inv :: "'a ep_state_scheme \<Rightarrow> bool" where
  "ep_inv s \<longleftrightarrow>
     slot_bound s SCDK_OBJ_ENDPOINT PEndpoint SCDK_MAX_ENDPOINTS (ep_object_id \<circ> endpoint_table s) \<and>
     (\<forall>i<SCDK_MAX_ENDPOINTS. ep_object_id (endpoint_table s i) \<noteq> 0 \<longrightarrow> ep_handler (endpoint_table s i) \<noteq> None) \<and>
     (\<forall>i<SCDK_MAX_SERVICES. \<forall>j<SCDK_MAX_SERVICES.
        sv_service_id (service_table s i) = sv_service_id (service_table s j) \<longrightarrow>
        sv_service_id (service_table s i) \<noteq> SCDK_SERVICE_NONE \<longrightarrow> i = j)"

lemma ep_inv_khist:
  assumes "khist s s'" "kern_inv s" "ep_inv s" "endpoint_table s' = endpoint_table s" "service_table s' = service_table s"
  shows "ep_inv s'"
  using assms(3) khist_slot_bound [OF assms(1,2)] by (auto simp: ep_inv_def assms(4,5))

lemma set_endpoint_same [simp]: "core_same s (set_endpoint s i e)"
  by (simp add: core_same_def)

lemma endpoint_create_cases:
  assumes "scdk_endpoint_create s core h ctx = (r, s')"
  obtains (refused) e where "r = Inl e" "s' = s"
  | (slot) i where "h \<noteq> None" "i < SCDK_MAX_ENDPOINTS" "ep_object_id (endpoint_table s i) = 0"
      "bind_slot s SCDK_OBJ_ENDPOINT core (PEndpoint i)
            (\<lambda>oid s. set_endpoint s i \<lparr>ep_object_id = oid, ep_handler = h, ep_context = ctx\<rparr>)
            (\<lambda>s. set_endpoint s i null_endpoint)
            (SCDK_RIGHT_SEND OR SCDK_RIGHT_BIND) = (r, s')"
proof (cases "first_slot (\<lambda>i. ep_object_id (endpoint_table s i) = 0) SCDK_MAX_ENDPOINTS")
  case None
  with assms show ?thesis by (auto simp: scdk_endpoint_create_def intro: refused split: if_splits)
next
  case (Some i)
  then have "i < SCDK_MAX_ENDPOINTS" "ep_object_id (endpoint_table s i) = 0" by (simp_all add: scan_facts)
  with Some assms show ?thesis
    by (cases "h = None") (auto simp: scdk_endpoint_create_def intro: refused slot)
qed

lemma endpoint_create_khist:
  assumes "scdk_endpoint_create s core h ctx = (r, s')"
  shows "khist s s'"
  using assms by (cases rule: endpoint_create_cases) (auto intro: kh_refl bind_slot_khist)

lemma endpoint_create_inv:
  assumes inv: "kern_inv s" "ep_inv s" and c: "scdk_endpoint_create s core h ctx = (r, s')"
  shows "ep_inv s'"
  using c
proof (cases rule: endpoint_create_cases)
  case (slot i)
  from slot(4) show ?thesis
  proof (cases rule: bind_slot_cases)
    case (noobj e)
    with inv show ?thesis by simp
  next
    case (nocap oid s1 s3 e)
    have "endpoint_table s' = (endpoint_table s)(i := null_endpoint)" "service_table s' = service_table s"
      using ep_low_frame(1) [OF nocap(1)] ep_low_frame(2) [OF nocap(2)] nocap(4) by simp_all
    moreover have "slot_bound s' SCDK_OBJ_ENDPOINT PEndpoint SCDK_MAX_ENDPOINTS ((ep_object_id \<circ> endpoint_table s)(i := 0))"
      using khist_slot_bound [OF endpoint_create_khist [OF c] inv(1)] inv(2)
      by (intro slot_bound_clear) (simp add: ep_inv_def)
    ultimately show ?thesis using inv(2) by (auto simp: ep_inv_def comp_fun_upd null_endpoint_def)
  next
    case (created oid s1 cap)
    let ?e = "\<lparr>ep_object_id = oid, ep_handler = h, ep_context = ctx\<rparr>"
    have t: "endpoint_table s' = (endpoint_table s)(i := ?e)" "service_table s' = service_table s"
      using ep_low_frame(1) [OF created(1)] ep_low_frame(2) [OF created(2)] by simp_all
    have "slot_bound s' SCDK_OBJ_ENDPOINT PEndpoint SCDK_MAX_ENDPOINTS ((ep_object_id \<circ> endpoint_table s)(i := oid))"
      using inv(2) by (intro bind_slot_bound [where pay = PEndpoint, OF _ created(1,2) _ inv(1)]) (simp_all add: ep_inv_def)
    then show ?thesis using inv(2) slot(1) by (auto simp: ep_inv_def t comp_fun_upd)
  qed
qed (use inv in simp)

section \<open>Delivery\<close>

text \<open>The handler is reached only through a live capability with the SEND right.\<close>

lemma endpoint_call_refused:
  "scdk_cap_check s ep SCDK_RIGHT_SEND SCDK_OBJ_ENDPOINT = Inl e \<Longrightarrow>
     scdk_endpoint_call run s ep msg = (e, msg\<lparr>mstatus := status_word e\<rparr>, s)"
  by (simp add: scdk_endpoint_call_def)

lemma endpoint_call_status:
  "scdk_endpoint_call run s ep msg = (r, msg', s') \<Longrightarrow> mstatus msg' = status_word r"
  by (auto simp: scdk_endpoint_call_def split: sum.splits option.splits prod.splits)

text \<open>
  In a well-formed state a capability that passes the check designates an occupied
  endpoint slot or a slot that was given up when its capability could not be minted.
\<close>

lemma endpoint_call_cases:
  assumes "scdk_endpoint_call run s ep msg = (r, msg', s')"
  obtains (err) "r \<noteq> SCDK_OK" "s' = s" "msg' = msg\<lparr>mstatus := status_word r\<rparr>"
  | (deliver) e ob i h ctx m where "scdk_cap_check s ep SCDK_RIGHT_SEND SCDK_OBJ_ENDPOINT = Inr e"
      "scdk_object_lookup s (ce_object_id e) = Inr ob" "obj_payload ob = PEndpoint i"
      "ep_object_id (endpoint_table s i) = ce_object_id e" "ep_handler (endpoint_table s i) = Some h"
      "ep_context (endpoint_table s i) = ctx" "run h ep (msg\<lparr>target := ce_object_id e\<rparr>) ctx s = (r, m, s')" "msg' = m\<lparr>mstatus := status_word r\<rparr>"
proof (cases "scdk_cap_check s ep SCDK_RIGHT_SEND SCDK_OBJ_ENDPOINT")
  case (Inl e)
  with assms cap_check_Inl_OK show ?thesis
    by (intro err) (auto simp: scdk_endpoint_call_def)
next
  case (Inr e)
  then obtain ob where ob: "scdk_object_lookup s (ce_object_id e) = Inr ob" by (rule cap_check_lookup)
  show ?thesis
  proof (cases "endpoint_of s (obj_payload ob) (ce_object_id e)")
    case None
    with assms Inr ob show ?thesis by (intro err) (auto simp: scdk_endpoint_call_def)
  next
    case (Some hc)
    then obtain h ctx i where "hc = (h, ctx)" "obj_payload ob = PEndpoint i"
      "ep_object_id (endpoint_table s i) = ce_object_id e" "ep_handler (endpoint_table s i) = Some h"
      "ep_context (endpoint_table s i) = ctx"
      by (cases "obj_payload ob") (auto simp: endpoint_of_def Let_def split: if_splits option.splits)
    moreover obtain st m s2 where "run h ep (msg\<lparr>target := ce_object_id e\<rparr>) ctx s = (st, m, s2)"
      by (cases "run h ep (msg\<lparr>target := ce_object_id e\<rparr>) ctx s") auto
    ultimately show ?thesis using assms Inr ob Some
      by (intro deliver [of e ob i h ctx m]) (auto simp: scdk_endpoint_call_def)
  qed
qed

lemma endpoint_created_call:
  assumes inv: "kern_inv s" and c: "scdk_endpoint_create s core h ctx = (Inr cap, s')"
  shows "\<exists>oid hh. h = Some hh \<and> oid \<noteq> 0 \<and> (\<forall>run msg. scdk_endpoint_call run s' cap msg =
    (case run hh cap (msg\<lparr>target := oid\<rparr>) ctx s' of
       (st, m, s2) \<Rightarrow> (st, m\<lparr>mstatus := status_word st\<rparr>, s2)))"
  using c
proof (cases rule: endpoint_create_cases)
  case (slot i)
  obtain hh where hh: "h = Some hh" using slot(1) by blast
  from slot(4) show ?thesis
  proof (cases rule: bind_slot_cases)
    case (created oid s1 cap')
    obtain ob where ob: "scdk_object_lookup s' oid = Inr ob" "obj_payload ob = PEndpoint i" "oid \<noteq> 0"
      using bind_slot_object [OF created(1,2) set_endpoint_same] by blast
    obtain e where e: "scdk_cap_check s' cap SCDK_RIGHT_SEND SCDK_OBJ_ENDPOINT = Inr e" "ce_object_id e = oid"
      using bind_slot_cap [OF created(1,2) set_endpoint_same inv, of SCDK_RIGHT_SEND] slot(2) created(3)
      by (auto simp: kconst)
    have "endpoint_table s' i = \<lparr>ep_object_id = oid, ep_handler = h, ep_context = ctx\<rparr>"
      using ep_low_frame(2) [OF created(2)] by simp
    then show ?thesis using ob e hh by (auto simp: scdk_endpoint_call_def endpoint_of_def)
  qed simp_all
qed simp

section \<open>The service registry\<close>

lemma service_register_cases:
  assumes "scdk_service_register s sid ep = (r, s')"
  obtains (refused) "r \<noteq> SCDK_OK" "s' = s"
  | (registered) e i where "sid \<noteq> SCDK_SERVICE_NONE" "r = SCDK_OK"
      "scdk_cap_check s ep SCDK_RIGHT_BIND SCDK_OBJ_ENDPOINT = Inr e"
      "\<forall>j<SCDK_MAX_SERVICES. sv_service_id (service_table s j) \<noteq> sid"
      "i < SCDK_MAX_SERVICES" "sv_service_id (service_table s i) = SCDK_SERVICE_NONE"
      "s' = s\<lparr>service_table := (service_table s)(i := \<lparr>sv_service_id = sid, sv_endpoint = ep\<rparr>)\<rparr>"
proof (cases "r = SCDK_OK")
  case False
  with assms show ?thesis
    by (intro refused) (auto simp: scdk_service_register_def split: if_splits sum.splits option.splits)
next
  case True
  with assms obtain e where g: "sid \<noteq> SCDK_SERVICE_NONE" "scdk_cap_check s ep SCDK_RIGHT_BIND SCDK_OBJ_ENDPOINT = Inr e"
    "first_slot (\<lambda>i. sv_service_id (service_table s i) = sid) SCDK_MAX_SERVICES = None"
    using cap_check_Inl_OK [of s ep SCDK_RIGHT_BIND SCDK_OBJ_ENDPOINT]
    by (auto simp: scdk_service_register_def split: if_splits sum.splits option.splits)
  with assms True obtain i where
    "first_slot (\<lambda>i. sv_service_id (service_table s i) = SCDK_SERVICE_NONE) SCDK_MAX_SERVICES = Some i"
    by (auto simp: scdk_service_register_def split: option.splits)
  with assms True g show ?thesis
    by (intro registered [of e i]) (auto simp: scdk_service_register_def scan_facts)
qed

lemma service_register_khist: "scdk_service_register s sid ep = (r, s') \<Longrightarrow> khist s s'"
  by (erule service_register_cases) (auto intro: kh_refl khist_upd)

lemma service_register_inv:
  assumes "ep_inv s" and "scdk_service_register s sid ep = (r, s')"
  shows "ep_inv s'"
  using assms(2)
proof (cases rule: service_register_cases)
  case (registered e i)
  then show ?thesis using assms(1) by (auto simp: ep_inv_def slot_bound_def)
qed (use assms(1) in simp)

lemma service_lookup_Inr:
  assumes "ep_inv s"
  shows "scdk_service_lookup s sid = Inr ep \<longleftrightarrow> sid \<noteq> SCDK_SERVICE_NONE \<and>
    (\<exists>i<SCDK_MAX_SERVICES. service_table s i = \<lparr>sv_service_id = sid, sv_endpoint = ep\<rparr>)"
proof
  assume "scdk_service_lookup s sid = Inr ep"
  then obtain i where "sid \<noteq> SCDK_SERVICE_NONE" "i < SCDK_MAX_SERVICES"
    "sv_service_id (service_table s i) = sid" "sv_endpoint (service_table s i) = ep"
    by (auto simp: scdk_service_lookup_def scan_facts split: if_splits option.splits)
  then show "sid \<noteq> SCDK_SERVICE_NONE \<and>
    (\<exists>i<SCDK_MAX_SERVICES. service_table s i = \<lparr>sv_service_id = sid, sv_endpoint = ep\<rparr>)"
    by auto
next
  assume "sid \<noteq> SCDK_SERVICE_NONE \<and>
    (\<exists>i<SCDK_MAX_SERVICES. service_table s i = \<lparr>sv_service_id = sid, sv_endpoint = ep\<rparr>)"
  then obtain i where i: "sid \<noteq> SCDK_SERVICE_NONE" "i < SCDK_MAX_SERVICES"
    "sv_service_id (service_table s i) = sid" "sv_endpoint (service_table s i) = ep" by auto
  have "sv_service_id (service_table s j) \<noteq> sid" if "j < i" for j
    using assms i that unfolding ep_inv_def by (metis less_trans nat_neq_iff)
  with i have "first_slot (\<lambda>i. sv_service_id (service_table s i) = sid) SCDK_MAX_SERVICES = Some i"
    by (simp add: first_slot_Some)
  with i show "scdk_service_lookup s sid = Inr ep" by (simp add: scdk_service_lookup_def)
qed

section \<open>Properties\<close>

text \<open>
  An endpoint capability works from its creation to its revocation: a message
  sent through the capability \<^verbatim>\<open>scdk_endpoint_create\<close> returned runs exactly the
  handler it was created with, on its context, with \<^verbatim>\<open>target\<close> set to the endpoint
  object, and the status the handler returns is both returned and stored in the
  message.
\<close>

theorem endpoint_create_call:
  assumes "kern_inv s" and "scdk_endpoint_create s core h ctx = (Inr cap, s')"
  shows "\<exists>oid hh. h = Some hh \<and> oid \<noteq> 0 \<and> kern_inv s' \<and>
    (\<forall>run msg. scdk_endpoint_call run s' cap msg =
       (case run hh cap (msg\<lparr>target := oid\<rparr>) ctx s' of
          (st, m, s2) \<Rightarrow> (st, m\<lparr>mstatus := status_word st\<rparr>, s2)))"
  using endpoint_created_call [OF assms] khist_inv [OF endpoint_create_khist [OF assms(2)] assms(1)]
  by blast

definition ep_boot :: ep_state where
  "ep_boot = \<lparr>object_table = (\<lambda>i. null_object), object_generations = (\<lambda>i. 0),
     cap_table = (\<lambda>i. null_cap_entry), cap_generations = (\<lambda>i. 0),
     endpoint_table = (\<lambda>i. null_endpoint), service_table = (\<lambda>i. null_service_slot)\<rparr>"

lemma ep_boot_inv: "kern_inv ep_boot" "ep_inv ep_boot"
  by (auto simp: ep_boot_def kern_inv_def cap_inv_def obj_inv_def objs_ok_def cap_live_def null_cap_entry_def
      null_object_def scdk_object_lookup_def Let_def ep_inv_def slot_bound_def null_endpoint_def
      null_service_slot_def kconst split: if_splits)

lemma ep_boot_create:
  "\<exists>s1. scdk_endpoint_create ep_boot 0 (Some HTty) 0 = (Inr 0x100000000, s1)"
  by (simp add: scdk_endpoint_create_def ep_boot_def first_slot_hit null_endpoint_def kconst bind_slot_def
      scdk_object_create_def null_object_def next_generation_def bump_generation_def object_make_id_def
      scdk_cap_create_def scdk_object_lookup_def object_id_index_def object_id_generation_def
      null_cap_entry_def next_cap_generation_def cap_make_token_def Let_def)

theorem endpoint_create_call_witness:
  "\<exists>s1 oid. scdk_endpoint_create ep_boot 0 (Some HTty) 0 = (Inr 0x100000000, s1) \<and>
     scdk_endpoint_call (\<lambda>h e m c s. (if h = HTty then SCDK_ERR_BUSY else SCDK_OK, m, s)) s1 0x100000000
       (scdk_message_init 0 0 SCDK_MSG_NONE) =
     (SCDK_ERR_BUSY, (scdk_message_init 0 oid SCDK_MSG_NONE)\<lparr>mstatus := - 6\<rparr>, s1)"
proof -
  obtain s1 where c: "scdk_endpoint_create ep_boot 0 (Some HTty) 0 = (Inr 0x100000000, s1)"
    using ep_boot_create by blast
  from endpoint_create_call [OF ep_boot_inv(1) c] c show ?thesis
    by (auto simp: scdk_message_init_def)
qed

text \<open>
  (C27) No message is delivered through a revoked endpoint capability: after the
  successful revocation of the token \<open>ep\<close> and any history of at most \<open>2\<^sup>32 - 3\<close> further
  capability operations (after that many the 32-bit generation of the slot may come
  round), a call through this token returns \<^verbatim>\<open>SCDK_ERR_NOENT\<close> without running any
  handler and without changing the kernel state. Other capabilities of the same endpoint
  are not affected by the revocation.
\<close>

theorem revoked_endpoint_unreachable:
  assumes "kern_inv s" and "scdk_cap_revoke s ep = (SCDK_OK, s1)"
    and "cap_run n s1 s2" and "Suc n < 2 ^ 32 - 1"
  shows "scdk_endpoint_call run s2 ep msg = (SCDK_ERR_NOENT, msg\<lparr>mstatus := - 3\<rparr>, s2)"
proof -
  have "scdk_cap_lookup s2 ep = Inl SCDK_ERR_NOENT"
    using cap_run_revoked [OF kern_invD(1) [OF assms(1)] assms(2-4)] .
  then have "scdk_cap_check s2 ep SCDK_RIGHT_SEND SCDK_OBJ_ENDPOINT = Inl SCDK_ERR_NOENT"
    by (simp add: scdk_cap_check_def kconst)
  then show ?thesis by (simp add: endpoint_call_refused)
qed

theorem revoked_endpoint_unreachable_witness:
  "\<exists>s1 s2. scdk_endpoint_create ep_boot 0 (Some HTty) 0 = (Inr 0x100000000, s1) \<and>
     scdk_cap_revoke s1 0x100000000 = (SCDK_OK, s2) \<and>
     scdk_endpoint_call (\<lambda>h e m c s. (SCDK_OK, m, s)) s2 0x100000000 (scdk_message_init 0 0 0) =
       (SCDK_ERR_NOENT, (scdk_message_init 0 0 0)\<lparr>mstatus := - 3\<rparr>, s2)"
proof -
  obtain s1 where c: "scdk_endpoint_create ep_boot 0 (Some HTty) 0 = (Inr 0x100000000, s1)"
    using ep_boot_create by blast
  have i: "kern_inv s1" using khist_inv [OF endpoint_create_khist [OF c] ep_boot_inv(1)] .
  have "scdk_cap_lookup s1 0x100000000 \<noteq> Inl e" for e
  proof
    assume l: "scdk_cap_lookup s1 0x100000000 = Inl e"
    then have "e \<noteq> SCDK_OK" using cap_lookup_Inl by fastforce
    with l endpoint_created_call [OF ep_boot_inv(1) c]
    show False
      by (auto simp: scdk_endpoint_call_def scdk_cap_check_def kconst
          dest!: spec [of _ "\<lambda>h e m c s. (SCDK_OK, m, s)"] split: if_splits)
  qed
  then obtain s2 where r: "scdk_cap_revoke s1 0x100000000 = (SCDK_OK, s2)"
    using cspace.kill_exact [OF kern_invD(1) [OF i], of "0x100000000"] by auto
  from revoked_endpoint_unreachable [OF i r run_refl] c r show ?thesis by simp
qed

text \<open>The registry as a partial map from service ids to endpoint capabilities.\<close>

definition registry :: "'a ep_state_scheme \<Rightarrow> u64 \<Rightarrow> u64 option" where
  "registry s sid = (case scdk_service_lookup s sid of Inl _ \<Rightarrow> None | Inr ep \<Rightarrow> Some ep)"

lemma registry_Some:
  "ep_inv s \<Longrightarrow> registry s sid = Some ep \<longleftrightarrow> sid \<noteq> SCDK_SERVICE_NONE \<and>
     (\<exists>i<SCDK_MAX_SERVICES. service_table s i = \<lparr>sv_service_id = sid, sv_endpoint = ep\<rparr>)"
  using service_lookup_Inr [of s sid ep] by (auto simp: registry_def split: sum.split)

lemma registry_dom:
  assumes "ep_inv s"
  shows "dom (registry s) = (sv_service_id \<circ> service_table s) ` {i. i < SCDK_MAX_SERVICES \<and> sv_service_id (service_table s i) \<noteq> SCDK_SERVICE_NONE}"
proof (intro set_eqI iffI)
  fix k
  assume "k \<in> dom (registry s)"
  then obtain ep where "registry s k = Some ep" by blast
  then obtain i where "k \<noteq> SCDK_SERVICE_NONE" "i < SCDK_MAX_SERVICES" "service_table s i = \<lparr>sv_service_id = k, sv_endpoint = ep\<rparr>"
    unfolding registry_Some [OF assms] by blast
  then show "k \<in> (sv_service_id \<circ> service_table s) ` {i. i < SCDK_MAX_SERVICES \<and> sv_service_id (service_table s i) \<noteq> SCDK_SERVICE_NONE}"
    by (intro image_eqI [of _ _ i]) simp_all
next
  fix k
  assume "k \<in> (sv_service_id \<circ> service_table s) ` {i. i < SCDK_MAX_SERVICES \<and> sv_service_id (service_table s i) \<noteq> SCDK_SERVICE_NONE}"
  then obtain i where i: "i < SCDK_MAX_SERVICES" "sv_service_id (service_table s i) \<noteq> SCDK_SERVICE_NONE" "k = sv_service_id (service_table s i)"
    by auto
  have "service_table s i = \<lparr>sv_service_id = k, sv_endpoint = sv_endpoint (service_table s i)\<rparr>" using i(3) by simp
  then have "registry s k = Some (sv_endpoint (service_table s i))" unfolding registry_Some [OF assms] using i
    by (intro conjI exI [of _ i]) simp_all
  then show "k \<in> dom (registry s)" by blast
qed

lemma registry_card:
  assumes "ep_inv s"
  shows "card (dom (registry s)) = card {i. i < SCDK_MAX_SERVICES \<and> sv_service_id (service_table s i) \<noteq> SCDK_SERVICE_NONE}"
  unfolding registry_dom [OF assms] using assms by (intro card_image) (auto simp: inj_on_def ep_inv_def)

lemma registry_full:
  assumes "ep_inv s"
  shows "card (dom (registry s)) \<le> SCDK_MAX_SERVICES"
    and "card (dom (registry s)) = SCDK_MAX_SERVICES \<longleftrightarrow> (\<forall>i<SCDK_MAX_SERVICES. sv_service_id (service_table s i) \<noteq> SCDK_SERVICE_NONE)"
proof -
  let ?U = "{i. i < SCDK_MAX_SERVICES \<and> sv_service_id (service_table s i) \<noteq> SCDK_SERVICE_NONE}"
  have u: "?U \<subseteq> {..<SCDK_MAX_SERVICES}" by auto
  show "card (dom (registry s)) \<le> SCDK_MAX_SERVICES"
    unfolding registry_card [OF assms] using card_mono [OF _ u] by simp
  show "card (dom (registry s)) = SCDK_MAX_SERVICES \<longleftrightarrow> (\<forall>i<SCDK_MAX_SERVICES. sv_service_id (service_table s i) \<noteq> SCDK_SERVICE_NONE)"
    unfolding registry_card [OF assms]
  proof
    assume "card ?U = SCDK_MAX_SERVICES"
    then have "?U = {..<SCDK_MAX_SERVICES}" using card_subset_eq [OF _ u] by simp
    then show "\<forall>i<SCDK_MAX_SERVICES. sv_service_id (service_table s i) \<noteq> SCDK_SERVICE_NONE" by auto
  next
    assume "\<forall>i<SCDK_MAX_SERVICES. sv_service_id (service_table s i) \<noteq> SCDK_SERVICE_NONE"
    then have "?U = {..<SCDK_MAX_SERVICES}" by auto
    then show "card ?U = SCDK_MAX_SERVICES" by simp
  qed
qed

text \<open>
  (C28) The registry refines a partial map from service ids to endpoint capabilities with at
  most 32 entries in which an id is registered once and for good. In a
  well-formed state \<^verbatim>\<open>scdk_service_register\<close> succeeds exactly for an id that is not zero
  and not registered, a live BIND capability of an endpoint, and a map with
  fewer than 32 entries; it then adds exactly that pair. Otherwise it returns, in this
  order, \<^verbatim>\<open>SCDK_ERR_INVAL\<close> for the id zero, the error of the capability check,
  \<^verbatim>\<open>SCDK_ERR_BUSY\<close> for a registered id, \<^verbatim>\<open>SCDK_ERR_NOMEM\<close> for a full map, and changes
  nothing. (The map is what \<^verbatim>\<open>scdk_service_lookup\<close> answers.)
\<close>

theorem service_registry_map:
  assumes "ep_inv s" and "scdk_service_register s sid ep = (r, s')"
  shows "ep_inv s' \<and> card (dom (registry s)) \<le> SCDK_MAX_SERVICES \<and>
    r = (if sid = SCDK_SERVICE_NONE then SCDK_ERR_INVAL
         else case scdk_cap_check s ep SCDK_RIGHT_BIND SCDK_OBJ_ENDPOINT of
           Inl e \<Rightarrow> e
         | Inr _ \<Rightarrow> if sid \<in> dom (registry s) then SCDK_ERR_BUSY
                    else if card (dom (registry s)) = SCDK_MAX_SERVICES then SCDK_ERR_NOMEM else SCDK_OK) \<and>
    registry s' = (if r = SCDK_OK then (registry s)(sid \<mapsto> ep) else registry s) \<and>
    (r \<noteq> SCDK_OK \<longrightarrow> s' = s)"
proof -
  note inv' = service_register_inv [OF assms]
  have d: "sid \<in> dom (registry s) \<longleftrightarrow> (\<exists>i<SCDK_MAX_SERVICES. sv_service_id (service_table s i) = sid)" if "sid \<noteq> SCDK_SERVICE_NONE"
    unfolding registry_dom [OF assms(1)] using that by auto
  have f: "card (dom (registry s)) = SCDK_MAX_SERVICES \<longleftrightarrow>
      first_slot (\<lambda>i. sv_service_id (service_table s i) = SCDK_SERVICE_NONE) SCDK_MAX_SERVICES = None"
    unfolding registry_full(2) [OF assms(1)] by (simp add: first_slot_None)
  have r: "r = (if sid = SCDK_SERVICE_NONE then SCDK_ERR_INVAL
         else case scdk_cap_check s ep SCDK_RIGHT_BIND SCDK_OBJ_ENDPOINT of
           Inl e \<Rightarrow> e
         | Inr _ \<Rightarrow> if sid \<in> dom (registry s) then SCDK_ERR_BUSY
                    else if card (dom (registry s)) = SCDK_MAX_SERVICES then SCDK_ERR_NOMEM else SCDK_OK)"
  proof (cases "sid = SCDK_SERVICE_NONE")
    case False
    have "sid \<in> dom (registry s) \<longleftrightarrow> first_slot (\<lambda>i. sv_service_id (service_table s i) = sid) SCDK_MAX_SERVICES \<noteq> None"
      unfolding d [OF False] by (auto simp: first_slot_None)
    then show ?thesis using assms(2) False f by (auto simp: scdk_service_register_def split: sum.splits option.splits)
  qed (use assms(2) in \<open>simp add: scdk_service_register_def\<close>)
  have m: "registry s' = (if r = SCDK_OK then (registry s)(sid \<mapsto> ep) else registry s) \<and> (r \<noteq> SCDK_OK \<longrightarrow> s' = s)"
    using assms(2)
  proof (cases rule: service_register_cases)
    case (registered e i)
    have "registry s' k = Some x \<longleftrightarrow> ((registry s)(sid \<mapsto> ep)) k = Some x" for k x
    proof (cases "k = sid")
      case True
      then show ?thesis unfolding registry_Some [OF inv'] using registered by auto
    next
      case False
      have "(\<exists>j<SCDK_MAX_SERVICES. service_table s' j = \<lparr>sv_service_id = k, sv_endpoint = x\<rparr>) \<longleftrightarrow>
          (\<exists>j<SCDK_MAX_SERVICES. service_table s j = \<lparr>sv_service_id = k, sv_endpoint = x\<rparr>)" if "k \<noteq> SCDK_SERVICE_NONE"
      proof -
        have "service_table s' j = \<lparr>sv_service_id = k, sv_endpoint = x\<rparr> \<longleftrightarrow> service_table s j = \<lparr>sv_service_id = k, sv_endpoint = x\<rparr>" for j
          using registered(6,7) False that by (cases "j = i") auto
        then show ?thesis by simp
      qed
      then show ?thesis using False registry_Some [OF inv', of k x] registry_Some [OF assms(1), of k x] by auto
    qed
    then have "registry s' = (registry s)(sid \<mapsto> ep)" by (intro ext) (metis option.exhaust)
    then show ?thesis using registered by simp
  qed simp
  show ?thesis using inv' registry_full(1) [OF assms(1)] r m by blast
qed

theorem service_registry_map_witness:
  "let s1 = snd (scdk_endpoint_create ep_boot 0 (Some HTty) 0);
       (r, s2) = scdk_service_register s1 SCDK_SERVICE_TTY 0x100000000
   in r = SCDK_OK \<and> scdk_service_lookup s2 SCDK_SERVICE_TTY = Inr 0x100000000 \<and>
      fst (scdk_service_register s2 SCDK_SERVICE_TTY 0x100000000) \<noteq> SCDK_OK"
proof -
  obtain s1 where c: "scdk_endpoint_create ep_boot 0 (Some HTty) 0 = (Inr 0x100000000, s1)"
    using ep_boot_create by blast
  have i: "ep_inv s1" using endpoint_create_inv [OF ep_boot_inv c] .
  obtain r s2 where r: "scdk_service_register s1 SCDK_SERVICE_TTY 0x100000000 = (r, s2)" by fastforce
  have "r = SCDK_OK"
    using c r
    by (auto simp: scdk_endpoint_create_def ep_boot_def first_slot_hit null_endpoint_def kconst bind_slot_def
      scdk_object_create_def null_object_def next_generation_def bump_generation_def object_make_id_def
      scdk_cap_create_def scdk_object_lookup_def object_id_index_def object_id_generation_def
      null_cap_entry_def next_cap_generation_def cap_make_token_def Let_def scdk_service_register_def
      scdk_cap_check_def scdk_cap_lookup_def validate_cap_slot_def cap_index_def cap_generation_def
      null_service_slot_def)
  moreover from this service_registry_map [OF i r] have g: "ep_inv s2" "registry s2 SCDK_SERVICE_TTY = Some 0x100000000" by simp_all
  moreover obtain r3 s3 where r3: "scdk_service_register s2 SCDK_SERVICE_TTY 0x100000000 = (r3, s3)" by fastforce
  moreover have "r3 \<noteq> SCDK_OK" using service_registry_map [OF g(1) r3] g(2) cap_check_Inl_OK [of s2 "0x100000000" SCDK_RIGHT_BIND SCDK_OBJ_ENDPOINT]
    by (auto simp: dom_def split: if_splits sum.splits)
  ultimately show ?thesis using c r by (simp add: registry_def split: sum.splits)
qed

end
