(* ===== verification/SCDK_Ring.thy ===== *)
theory SCDK_Ring
  imports SCDK_Endpoint
begin

text \<open>
  Submission and completion rings, \<^verbatim>\<open>src/core/ring.c\<close>. A ring has free-running 32-bit
  head and tail counters; a slot is addressed by the counter modulo the number
  of entries. The queue between the counters is abstracted to a list
  (\<open>rb_items\<close>), and both queues are instances of \<open>bounded_fifo\<close> when the number of
  entries divides \<open>2\<^sup>32\<close>.
\<close>

section \<open>Data\<close>

definition SCDK_RING_MAX_ENTRIES :: u32 where [kconst]: "SCDK_RING_MAX_ENTRIES = 64"
definition SCDK_RING_OP_NONE :: u64 where [kconst]: "SCDK_RING_OP_NONE = 0"
definition SCDK_RING_OP_CONSOLE_WRITE :: u64 where [kconst]: "SCDK_RING_OP_CONSOLE_WRITE = 1"

record scdk_ring_desc =
  rd_op :: u64
  rd_cap :: u64
  rd_grant :: u64
  rd_offset :: u64
  rd_length :: u64
  rd_flags :: u64

record scdk_completion =
  rc_op :: u64
  rc_status :: u64
  rc_result0 :: u64
  rc_result1 :: u64

record scdk_ring =
  entries :: u32
  submit_head :: u32
  submit_tail :: u32
  complete_head :: u32
  complete_tail :: u32
  sq :: "nat \<Rightarrow> scdk_ring_desc"
  cq :: "nat \<Rightarrow> scdk_completion"
  bound_target :: u64

record scdk_ring_slot =
  rs_object_id :: u64
  rs_ring :: scdk_ring

record ring_state = ep_state +
  ring_table :: "nat \<Rightarrow> scdk_ring_slot"

definition null_desc :: scdk_ring_desc where
  "null_desc = \<lparr>rd_op = 0, rd_cap = 0, rd_grant = 0, rd_offset = 0, rd_length = 0, rd_flags = 0\<rparr>"

definition null_completion :: scdk_completion where
  "null_completion = \<lparr>rc_op = 0, rc_status = 0, rc_result0 = 0, rc_result1 = 0\<rparr>"

definition null_ring_slot :: scdk_ring_slot where
  "null_ring_slot = \<lparr>rs_object_id = 0, rs_ring = \<lparr>entries = 0, submit_head = 0, submit_tail = 0,
     complete_head = 0, complete_tail = 0, sq = (\<lambda>_. null_desc), cq = (\<lambda>_. null_completion), bound_target = 0\<rparr>\<rparr>"

section \<open>Operations\<close>

definition queue_count :: "u32 \<Rightarrow> u32 \<Rightarrow> u32" where
  "queue_count head tail = tail - head"

text \<open>The slot behind a ring capability; the pointer to a slot is its index.\<close>

definition ring_lookup :: "'a ring_state_scheme \<Rightarrow> u64 \<Rightarrow> u64 \<Rightarrow> nat res" where
  "ring_lookup s cap required_rights =
     (case scdk_cap_check s cap required_rights SCDK_OBJ_RING of
        Inl e \<Rightarrow> Inl e
      | Inr entry \<Rightarrow>
          (case scdk_object_lookup s (ce_object_id entry) of
             Inl e \<Rightarrow> Inl e
           | Inr object \<Rightarrow>
               (case obj_payload object of
                  PRing i \<Rightarrow> if rs_object_id (ring_table s i) \<noteq> ce_object_id entry then Inl SCDK_ERR_NOENT else Inr i
                | _ \<Rightarrow> Inl SCDK_ERR_NOENT)))"

abbreviation ring_at :: "'a ring_state_scheme \<Rightarrow> nat \<Rightarrow> scdk_ring" where
  "ring_at s i \<equiv> rs_ring (ring_table s i)"

abbreviation set_ring_slot :: "'a ring_state_scheme \<Rightarrow> nat \<Rightarrow> scdk_ring_slot \<Rightarrow> 'a ring_state_scheme" where
  "set_ring_slot s i sl \<equiv> s\<lparr>ring_table := (ring_table s)(i := sl)\<rparr>"

abbreviation set_ring :: "'a ring_state_scheme \<Rightarrow> nat \<Rightarrow> scdk_ring \<Rightarrow> 'a ring_state_scheme" where
  "set_ring s i r \<equiv> set_ring_slot s i ((ring_table s i)\<lparr>rs_ring := r\<rparr>)"

definition fill_ring :: "nat \<Rightarrow> u32 \<Rightarrow> u64 \<Rightarrow> u64 \<Rightarrow> 'a ring_state_scheme \<Rightarrow> 'a ring_state_scheme" where
  "fill_ring i n tgt oid s =
     set_ring_slot s i \<lparr>rs_object_id = oid, rs_ring = (ring_at s i)\<lparr>entries := n, submit_head := 0,
       submit_tail := 0, complete_head := 0, complete_tail := 0, bound_target := tgt\<rparr>\<rparr>"

definition scdk_ring_create ::
  "'a ring_state_scheme \<Rightarrow> u32 \<Rightarrow> u32 \<Rightarrow> u64 \<Rightarrow> u64 res \<times> 'a ring_state_scheme"
where
  "scdk_ring_create s owner_core n tgt =
     (if n = 0 \<or> n > SCDK_RING_MAX_ENTRIES then (Inl SCDK_ERR_INVAL, s)
      else
        (let status = (if tgt \<noteq> 0 then res_status (scdk_cap_check s tgt SCDK_RIGHT_SEND SCDK_OBJ_ENDPOINT) else SCDK_OK)
         in if status \<noteq> SCDK_OK then (Inl status, s)
            else case first_slot (\<lambda>i. rs_object_id (ring_table s i) = 0) SCDK_MAX_RINGS of
              None \<Rightarrow> (Inl SCDK_ERR_NOMEM, s)
            | Some i \<Rightarrow>
                bind_slot s SCDK_OBJ_RING owner_core (PRing i) (fill_ring i n tgt)
                  (\<lambda>s. set_ring_slot s i ((ring_table s i)\<lparr>rs_object_id := 0\<rparr>))
                  (SCDK_RIGHT_READ OR SCDK_RIGHT_WRITE OR SCDK_RIGHT_BIND)))"

definition scdk_ring_bind_target :: "'a ring_state_scheme \<Rightarrow> u64 \<Rightarrow> u64 \<Rightarrow> scdk_status \<times> 'a ring_state_scheme" where
  "scdk_ring_bind_target s ring tgt =
     (if tgt = 0 then (SCDK_ERR_INVAL, s)
      else case scdk_cap_check s tgt SCDK_RIGHT_SEND SCDK_OBJ_ENDPOINT of
        Inl e \<Rightarrow> (e, s)
      | Inr _ \<Rightarrow>
          (case ring_lookup s ring SCDK_RIGHT_BIND of
             Inl e \<Rightarrow> (e, s)
           | Inr i \<Rightarrow> (SCDK_OK, set_ring s i ((ring_at s i)\<lparr>bound_target := tgt\<rparr>))))"

definition scdk_ring_bound_target :: "'a ring_state_scheme \<Rightarrow> u64 \<Rightarrow> u64 res" where
  "scdk_ring_bound_target s ring =
     (case ring_lookup s ring SCDK_RIGHT_READ of
        Inl e \<Rightarrow> Inl e
      | Inr i \<Rightarrow>
          (let tgt = bound_target (ring_at s i)
           in if tgt \<noteq> 0
              then (case scdk_cap_check s tgt SCDK_RIGHT_SEND SCDK_OBJ_ENDPOINT of
                      Inl e \<Rightarrow> Inl e
                    | Inr _ \<Rightarrow> Inr tgt)
              else Inr tgt))"

text \<open>The queue steps on the ring itself: refused when full or empty.\<close>

definition sq_push :: "scdk_ring \<Rightarrow> scdk_ring_desc \<Rightarrow> scdk_ring option" where
  "sq_push t d =
     (if queue_count (submit_head t) (submit_tail t) \<ge> entries t then None
      else Some (t\<lparr>sq := (sq t)(unat (submit_tail t mod entries t) := d), submit_tail := submit_tail t + 1\<rparr>))"

definition sq_pop :: "scdk_ring \<Rightarrow> (scdk_ring_desc \<times> scdk_ring) option" where
  "sq_pop t =
     (if submit_head t = submit_tail t then None
      else Some (sq t (unat (submit_head t mod entries t)), t\<lparr>submit_head := submit_head t + 1\<rparr>))"

definition cq_push :: "scdk_ring \<Rightarrow> scdk_completion \<Rightarrow> scdk_ring option" where
  "cq_push t c =
     (if queue_count (complete_head t) (complete_tail t) \<ge> entries t then None
      else Some (t\<lparr>cq := (cq t)(unat (complete_tail t mod entries t) := c), complete_tail := complete_tail t + 1\<rparr>))"

definition cq_pop :: "scdk_ring \<Rightarrow> (scdk_completion \<times> scdk_ring) option" where
  "cq_pop t =
     (if complete_head t = complete_tail t then None
      else Some (cq t (unat (complete_head t mod entries t)), t\<lparr>complete_head := complete_head t + 1\<rparr>))"

definition scdk_ring_submit :: "'a ring_state_scheme \<Rightarrow> u64 \<Rightarrow> scdk_ring_desc \<Rightarrow> scdk_status \<times> 'a ring_state_scheme" where
  "scdk_ring_submit s ring d =
     (case ring_lookup s ring SCDK_RIGHT_WRITE of
        Inl e \<Rightarrow> (e, s)
      | Inr i \<Rightarrow>
          (case sq_push (ring_at s i) d of
             None \<Rightarrow> (SCDK_ERR_BUSY, s)
           | Some t \<Rightarrow> (SCDK_OK, set_ring s i t)))"

definition scdk_ring_consume :: "'a ring_state_scheme \<Rightarrow> u64 \<Rightarrow> scdk_ring_desc res \<times> 'a ring_state_scheme" where
  "scdk_ring_consume s ring =
     (case ring_lookup s ring SCDK_RIGHT_READ of
        Inl e \<Rightarrow> (Inl e, s)
      | Inr i \<Rightarrow>
          (case sq_pop (ring_at s i) of
             None \<Rightarrow> (Inl SCDK_ERR_NOENT, s)
           | Some (d, t) \<Rightarrow> (Inr d, set_ring s i t)))"

definition scdk_ring_complete :: "'a ring_state_scheme \<Rightarrow> u64 \<Rightarrow> scdk_completion \<Rightarrow> scdk_status \<times> 'a ring_state_scheme" where
  "scdk_ring_complete s ring c =
     (case ring_lookup s ring SCDK_RIGHT_WRITE of
        Inl e \<Rightarrow> (e, s)
      | Inr i \<Rightarrow>
          (case cq_push (ring_at s i) c of
             None \<Rightarrow> (SCDK_ERR_BUSY, s)
           | Some t \<Rightarrow> (SCDK_OK, set_ring s i t)))"

definition scdk_ring_poll :: "'a ring_state_scheme \<Rightarrow> u64 \<Rightarrow> scdk_completion res \<times> 'a ring_state_scheme" where
  "scdk_ring_poll s ring =
     (case ring_lookup s ring SCDK_RIGHT_READ of
        Inl e \<Rightarrow> (Inl e, s)
      | Inr i \<Rightarrow>
          (case cq_pop (ring_at s i) of
             None \<Rightarrow> (Inl SCDK_ERR_NOENT, s)
           | Some (c, t) \<Rightarrow> (Inr c, set_ring s i t)))"

section \<open>The queue between two counters\<close>

definition rb_items :: "(nat \<Rightarrow> 'a) \<Rightarrow> u32 \<Rightarrow> u32 \<Rightarrow> u32 \<Rightarrow> 'a list" where
  "rb_items st e h t = map (\<lambda>k. st (unat ((h + of_nat k) mod e))) [0..<unat (t - h)]"

definition rb_ok :: "u32 \<Rightarrow> u32 \<Rightarrow> u32 \<Rightarrow> bool" where
  "rb_ok e h t \<longleftrightarrow> e \<noteq> 0 \<and> t - h \<le> e"

text \<open>The slot addresses do not jump when the counter wraps: no wrap near by, or harmless.\<close>

definition rb_smooth :: "u32 \<Rightarrow> u32 \<Rightarrow> bool" where
  "rb_smooth e h \<longleftrightarrow> unat e dvd 2 ^ 32 \<or> unat h + unat e < 2 ^ 32"

lemma rb_index:
  assumes "rb_smooth e h" and "k \<le> unat e"
  shows "unat ((h + of_nat k) mod e) = (unat h + k) mod unat e"
proof -
  have k: "unat (of_nat k :: u32) = k"
    using assms(2) unat_u32_less [of e] by (simp add: unat_of_nat)
  then have sum: "unat (h + of_nat k) = (unat h + k) mod 2 ^ 32" by (simp add: unat_word_ariths)
  have "unat ((h + of_nat k) mod e) = (unat h + k) mod 2 ^ 32 mod unat e"
    by (simp only: unat_mod_distrib sum)
  moreover have "(unat h + k) mod 2 ^ 32 mod unat e = (unat h + k) mod unat e"
    using assms by (auto simp: rb_smooth_def mod_mod_cancel)
  ultimately show ?thesis by simp
qed

lemma rb_len [simp]: "length (rb_items st e h t) = unat (t - h)"
  by (simp add: rb_items_def)

lemma mod_add_inj:
  fixes a k n m :: nat
  assumes "(a + k) mod m = (a + n) mod m" and "k < m" and "n < m"
  shows "k = n"
proof -
  have less: "i = j" if "(a + i) mod m = (a + j) mod m" "i \<le> j" "j < m" for i j
  proof -
    from that have "m dvd j - i"
      using mod_eq_dvd_iff_nat [of "a + i" "a + j" m] by simp
    with that show ?thesis using dvd_imp_le [of m "j - i"] by linarith
  qed
  show ?thesis using less [of k n] less [of n k] assms by (cases "k \<le> n") auto
qed

lemma unat_diff_plus_1: "t - h \<noteq> (- 1 :: u32) \<Longrightarrow> unat (t + 1 - h) = Suc (unat (t - h))"
proof -
  assume "t - h \<noteq> - 1"
  then have "t - h + 1 \<noteq> 0" by (simp add: eq_neg_iff_add_eq_0)
  then show ?thesis using unat_Suc_word [of "t - h"] by (simp add: algebra_simps)
qed

lemma rb_push:
  assumes ok: "rb_ok e h t" and sm: "rb_smooth e h" and room: "\<not> t - h \<ge> e"
  shows "rb_items (st(unat (t mod e) := x)) e h (t + 1) = rb_items st e h t @ [x] \<and> rb_ok e h (t + 1)"
proof -
  let ?n = "unat (t - h)"
  have n: "?n < unat e" using room by (simp add: word_le_nat_alt not_le)
  have "t - h \<noteq> - 1"
    using n unat_u32_less [of e] by (auto simp: unsigned_minus_1_eq_mask mask_eq_exp_minus_1)
  then have suc: "unat (t + 1 - h) = Suc ?n" by (rule unat_diff_plus_1)
  have tt: "h + of_nat ?n = t" by simp
  have idx: "unat (t mod e) = (unat h + ?n) mod unat e"
    using rb_index [OF sm, of ?n] n tt by simp
  have "unat ((h + of_nat k) mod e) \<noteq> unat (t mod e)" if "k < ?n" for k
    using that n mod_add_inj [of "unat h" k "unat e" ?n] by (auto simp: rb_index [OF sm] idx)
  then have "map (\<lambda>k. (st(unat (t mod e) := x)) (unat ((h + of_nat k) mod e))) [0..<?n] = rb_items st e h t"
    by (simp add: rb_items_def)
  moreover have "(st(unat (t mod e) := x)) (unat ((h + of_nat ?n) mod e)) = x" by (simp only: tt fun_upd_same)
  moreover have "rb_ok e h (t + 1)" using ok n suc by (simp add: rb_ok_def word_le_nat_alt)
  ultimately show ?thesis unfolding rb_items_def [of _ e h "t + 1"] suc by simp
qed

lemma rb_pop:
  assumes ok: "rb_ok e h t" and ne: "h \<noteq> t"
  shows "rb_items st e h t = st (unat (h mod e)) # rb_items st e (h + 1) t \<and> rb_ok e (h + 1) t"
proof -
  have "t - h \<noteq> 0" using ne by simp
  then have pos: "0 < unat (t - h)" by (simp add: unat_gt_0)
  have "t - (h + 1) + 1 \<noteq> 0" using ne by simp
  from unat_Suc_word [OF this] have suc: "unat (t - h) = Suc (unat (t - (h + 1)))" by (simp add: algebra_simps)
  have "rb_items st e h t = map (\<lambda>k. st (unat ((h + of_nat k) mod e))) (0 # map Suc [0..<unat (t - (h + 1))])"
    unfolding rb_items_def suc by (simp only: upt_conv_Cons [of 0 "Suc _"] zero_less_Suc map_Suc_upt)
  also have "\<dots> = st (unat (h mod e)) # rb_items st e (h + 1) t"
    by (simp add: rb_items_def algebra_simps)
  finally show ?thesis using ok suc by (simp add: rb_ok_def word_le_nat_alt)
qed

section \<open>Rings as bounded queues\<close>

definition ring_ok :: "scdk_ring \<Rightarrow> bool" where
  "ring_ok t \<longleftrightarrow> entries t \<le> SCDK_RING_MAX_ENTRIES \<and>
     rb_ok (entries t) (submit_head t) (submit_tail t) \<and>
     rb_ok (entries t) (complete_head t) (complete_tail t)"

definition sq_items :: "scdk_ring \<Rightarrow> scdk_ring_desc list" where
  "sq_items t = rb_items (sq t) (entries t) (submit_head t) (submit_tail t)"

definition cq_items :: "scdk_ring \<Rightarrow> scdk_completion list" where
  "cq_items t = rb_items (cq t) (entries t) (complete_head t) (complete_tail t)"

lemma sq_push_ok:
  assumes "ring_ok t" and "rb_smooth (entries t) (submit_head t)" and "sq_push t d = Some t'"
  shows "ring_ok t' \<and> entries t' = entries t \<and> sq_items t' = sq_items t @ [d] \<and> cq_items t' = cq_items t \<and>
    bound_target t' = bound_target t"
  using assms rb_push [of "entries t" "submit_head t" "submit_tail t" "sq t" d]
  by (auto simp: sq_push_def queue_count_def ring_ok_def sq_items_def cq_items_def split: if_splits)

lemma sq_push_full: "ring_ok t \<Longrightarrow> sq_push t d = None \<longleftrightarrow> length (sq_items t) = unat (entries t)"
  by (auto simp: sq_push_def queue_count_def ring_ok_def sq_items_def rb_ok_def word_le_nat_alt split: if_splits)

lemma sq_push_keeps:
  "ring_ok t \<Longrightarrow> sq_push t d = Some t' \<Longrightarrow> ring_ok t' \<and> entries t' = entries t \<and> submit_head t' = submit_head t"
proof -
  assume ok: "ring_ok t" and p: "sq_push t d = Some t'"
  then have "\<not> submit_tail t - submit_head t \<ge> entries t"
    by (auto simp: sq_push_def queue_count_def split: if_splits)
  then have n: "unat (submit_tail t - submit_head t) < unat (entries t)" by (simp add: word_le_nat_alt not_le)
  then have "submit_tail t - submit_head t \<noteq> - 1"
    using unat_u32_less [of "entries t"] by (auto simp: unsigned_minus_1_eq_mask mask_eq_exp_minus_1)
  then have "unat (submit_tail t + 1 - submit_head t) = Suc (unat (submit_tail t - submit_head t))"
    by (rule unat_diff_plus_1)
  with ok p n show ?thesis
    by (auto simp: sq_push_def ring_ok_def rb_ok_def word_le_nat_alt split: if_splits)
qed

lemma sq_pop_ok:
  assumes "ring_ok t" and "sq_pop t = Some (d, t')"
  shows "ring_ok t' \<and> entries t' = entries t \<and> sq_items t = d # sq_items t' \<and> cq_items t' = cq_items t \<and>
    bound_target t' = bound_target t"
  using assms rb_pop [of "entries t" "submit_head t" "submit_tail t" "sq t"]
  by (auto simp: sq_pop_def ring_ok_def sq_items_def cq_items_def split: if_splits)

lemma sq_pop_empty: "sq_pop t = None \<longleftrightarrow> sq_items t = []"
proof -
  have "sq_items t = [] \<longleftrightarrow> unat (submit_tail t - submit_head t) = 0"
    by (simp add: sq_items_def rb_items_def)
  then show ?thesis by (auto simp: sq_pop_def unat_eq_0)
qed

lemma cq_push_ok:
  assumes "ring_ok t" and "rb_smooth (entries t) (complete_head t)" and "cq_push t c = Some t'"
  shows "ring_ok t' \<and> entries t' = entries t \<and> cq_items t' = cq_items t @ [c] \<and> sq_items t' = sq_items t \<and>
    bound_target t' = bound_target t"
  using assms rb_push [of "entries t" "complete_head t" "complete_tail t" "cq t" c]
  by (auto simp: cq_push_def queue_count_def ring_ok_def sq_items_def cq_items_def split: if_splits)

lemma cq_push_full: "ring_ok t \<Longrightarrow> cq_push t c = None \<longleftrightarrow> length (cq_items t) = unat (entries t)"
  by (auto simp: cq_push_def queue_count_def ring_ok_def cq_items_def rb_ok_def word_le_nat_alt split: if_splits)

lemma cq_push_keeps:
  "ring_ok t \<Longrightarrow> cq_push t c = Some t' \<Longrightarrow> ring_ok t' \<and> entries t' = entries t \<and> complete_head t' = complete_head t"
proof -
  assume ok: "ring_ok t" and p: "cq_push t c = Some t'"
  then have "\<not> complete_tail t - complete_head t \<ge> entries t"
    by (auto simp: cq_push_def queue_count_def split: if_splits)
  then have n: "unat (complete_tail t - complete_head t) < unat (entries t)" by (simp add: word_le_nat_alt not_le)
  then have "complete_tail t - complete_head t \<noteq> - 1"
    using unat_u32_less [of "entries t"] by (auto simp: unsigned_minus_1_eq_mask mask_eq_exp_minus_1)
  then have "unat (complete_tail t + 1 - complete_head t) = Suc (unat (complete_tail t - complete_head t))"
    by (rule unat_diff_plus_1)
  with ok p n show ?thesis
    by (auto simp: cq_push_def ring_ok_def rb_ok_def word_le_nat_alt split: if_splits)
qed

lemma cq_pop_ok:
  assumes "ring_ok t" and "cq_pop t = Some (c, t')"
  shows "ring_ok t' \<and> entries t' = entries t \<and> cq_items t = c # cq_items t' \<and> sq_items t' = sq_items t \<and>
    bound_target t' = bound_target t"
  using assms rb_pop [of "entries t" "complete_head t" "complete_tail t" "cq t"]
  by (auto simp: cq_pop_def ring_ok_def sq_items_def cq_items_def split: if_splits)

lemma cq_pop_empty: "cq_pop t = None \<longleftrightarrow> cq_items t = []"
proof -
  have "cq_items t = [] \<longleftrightarrow> unat (complete_tail t - complete_head t) = 0"
    by (simp add: cq_items_def rb_items_def)
  then show ?thesis by (auto simp: cq_pop_def unat_eq_0)
qed

lemma sq_items_bound: "ring_ok t \<Longrightarrow> length (sq_items t) \<le> unat (entries t)"
  by (simp add: sq_items_def ring_ok_def rb_ok_def word_le_nat_alt)

lemma cq_items_bound: "ring_ok t \<Longrightarrow> length (cq_items t) \<le> unat (entries t)"
  by (simp add: cq_items_def ring_ok_def rb_ok_def word_le_nat_alt)

definition pow2_ring :: "scdk_ring \<Rightarrow> bool" where
  "pow2_ring t \<longleftrightarrow> ring_ok t \<and> unat (entries t) dvd 2 ^ 32"

interpretation subq: bounded_fifo pow2_ring "\<lambda>t. unat (entries t)" sq_items sq_push sq_pop
proof unfold_locales
  fix t t' d
  assume t: "pow2_ring t"
  then have ok: "ring_ok t" and sm: "rb_smooth (entries t) (submit_head t)"
    by (simp_all add: pow2_ring_def rb_smooth_def)
  show "length (sq_items t) \<le> unat (entries t)" using ok by (rule sq_items_bound)
  show "sq_push t d = None \<longleftrightarrow> length (sq_items t) = unat (entries t)" using ok by (rule sq_push_full)
  show "pow2_ring t' \<and> unat (entries t') = unat (entries t) \<and> sq_items t' = sq_items t @ [d]" if "sq_push t d = Some t'"
    using sq_push_ok [OF ok sm that] t by (simp add: pow2_ring_def)
  show "sq_pop t = None \<longleftrightarrow> sq_items t = []" by (rule sq_pop_empty)
  show "pow2_ring t' \<and> unat (entries t') = unat (entries t) \<and> sq_items t = d # sq_items t'" if "sq_pop t = Some (d, t')"
    using sq_pop_ok [OF ok that] t by (simp add: pow2_ring_def)
qed

interpretation compq: bounded_fifo pow2_ring "\<lambda>t. unat (entries t)" cq_items cq_push cq_pop
proof unfold_locales
  fix t t' c
  assume t: "pow2_ring t"
  then have ok: "ring_ok t" and sm: "rb_smooth (entries t) (complete_head t)"
    by (simp_all add: pow2_ring_def rb_smooth_def)
  show "length (cq_items t) \<le> unat (entries t)" using ok by (rule cq_items_bound)
  show "cq_push t c = None \<longleftrightarrow> length (cq_items t) = unat (entries t)" using ok by (rule cq_push_full)
  show "pow2_ring t' \<and> unat (entries t') = unat (entries t) \<and> cq_items t' = cq_items t @ [c]" if "cq_push t c = Some t'"
    using cq_push_ok [OF ok sm that] t by (simp add: pow2_ring_def)
  show "cq_pop t = None \<longleftrightarrow> cq_items t = []" by (rule cq_pop_empty)
  show "pow2_ring t' \<and> unat (entries t') = unat (entries t) \<and> cq_items t = c # cq_items t'" if "cq_pop t = Some (c, t')"
    using cq_pop_ok [OF ok that] t by (simp add: pow2_ring_def)
qed

section \<open>Frames and invariant\<close>

lemma ring_upd [simp]:
  "scdk_object_lookup (s\<lparr>ring_table := x\<rparr>) = scdk_object_lookup s"
  "scdk_cap_lookup (s\<lparr>ring_table := x\<rparr>) = scdk_cap_lookup s"
  "scdk_cap_check (s\<lparr>ring_table := x\<rparr>) = scdk_cap_check s"
  "kern_inv (s\<lparr>ring_table := x\<rparr>) = kern_inv s"
  by (rule frame_rules; simp)+

lemma ring_upd_same [simp]: "core_same s (s\<lparr>ring_table := x\<rparr>)" "core_same s (fill_ring i n tgt oid s)"
  by (simp_all add: core_same_def fill_ring_def)

lemma ep_inv_ring [simp]: "ep_inv (s\<lparr>ring_table := x\<rparr>) = ep_inv s"
  by (simp add: ep_inv_def slot_bound_def)

lemma ring_low_frame [kframe]:
  "scdk_object_create s ty c f p = (r, s') \<Longrightarrow> ring_table s' = ring_table s"
  "scdk_cap_create s oid rights = (r, s') \<Longrightarrow> ring_table s' = ring_table s"
  "scdk_cap_revoke s cap = (q, s') \<Longrightarrow> ring_table s' = ring_table s"
  by (auto elim: object_create_cases cap_create_cases cap_revoke_cases)

definition ring_inv :: "'a ring_state_scheme \<Rightarrow> bool" where
  "ring_inv s \<longleftrightarrow>
     slot_bound s SCDK_OBJ_RING PRing SCDK_MAX_RINGS (rs_object_id \<circ> ring_table s) \<and>
     (\<forall>i<SCDK_MAX_RINGS. rs_object_id (ring_table s i) \<noteq> 0 \<longrightarrow> ring_ok (ring_at s i))"

lemma ring_inv_khist:
  "khist s s' \<Longrightarrow> kern_inv s \<Longrightarrow> ring_inv s \<Longrightarrow> ring_table s' = ring_table s \<Longrightarrow> ring_inv s'"
  using khist_slot_bound [of s s' SCDK_OBJ_RING PRing] by (simp add: ring_inv_def)

lemma ring_lookup_Inr:
  "ring_lookup s cap r = Inr i \<longleftrightarrow> (\<exists>e ob. scdk_cap_check s cap r SCDK_OBJ_RING = Inr e \<and>
     scdk_object_lookup s (ce_object_id e) = Inr ob \<and> obj_payload ob = PRing i \<and>
     rs_object_id (ring_table s i) = ce_object_id e)"
  by (auto simp: ring_lookup_def split: sum.splits payload.splits)

lemma ring_lookup_slot:
  assumes "kern_inv s" and "ring_inv s" and "ring_lookup s cap r = Inr i"
  shows "i < SCDK_MAX_RINGS \<and> rs_object_id (ring_table s i) \<noteq> 0 \<and> ring_ok (ring_at s i)"
proof -
  obtain e ob where l: "scdk_cap_check s cap r SCDK_OBJ_RING = Inr e" "scdk_object_lookup s (ce_object_id e) = Inr ob"
    "obj_payload ob = PRing i" "rs_object_id (ring_table s i) = ce_object_id e"
    using assms(3) by (auto simp: ring_lookup_Inr)
  have "obj_type ob = SCDK_OBJ_RING" using cap_check_object [OF l(1)] l(2) by simp
  then have "i < SCDK_MAX_RINGS" using objs_okD [OF kern_invD(2) [OF assms(1)] l(2)] l(3) by simp
  moreover have "ce_object_id e \<noteq> 0" using l(2) by (auto simp: scdk_object_lookup_def)
  ultimately show ?thesis using assms(2) l(4) by (simp add: ring_inv_def)
qed

lemma ring_lookup_Inl_OK: "ring_lookup s cap r \<noteq> Inl SCDK_OK"
proof (cases "scdk_cap_check s cap r SCDK_OBJ_RING")
  case (Inl e)
  then show ?thesis using cap_check_Inl_OK [of s cap r SCDK_OBJ_RING] by (simp add: ring_lookup_def)
next
  case (Inr e)
  then obtain ob where "scdk_object_lookup s (ce_object_id e) = Inr ob" by (rule cap_check_lookup)
  with Inr show ?thesis by (simp add: ring_lookup_def split: payload.splits)
qed

lemma ring_lookup_set [simp]: "ring_lookup (set_ring s i t) = ring_lookup s"
  by (intro ext) (simp add: ring_lookup_def split: sum.split payload.split)

lemma ring_inv_set:
  "ring_inv s \<Longrightarrow> ring_ok t \<Longrightarrow> ring_inv (set_ring s i t)"
  by (simp add: ring_inv_def slot_bound_def)

section \<open>Every operation keeps the invariant\<close>

lemma ring_submit_cases:
  assumes "scdk_ring_submit s ring d = (r, s')"
  obtains (err) "r \<noteq> SCDK_OK" "s' = s"
  | (ok) i t where "ring_lookup s ring SCDK_RIGHT_WRITE = Inr i" "sq_push (ring_at s i) d = Some t"
      "r = SCDK_OK" "s' = set_ring s i t"
proof (cases "ring_lookup s ring SCDK_RIGHT_WRITE")
  case (Inl e)
  with assms ring_lookup_Inl_OK [of s ring SCDK_RIGHT_WRITE] show ?thesis by (intro err) (auto simp: scdk_ring_submit_def)
next
  case (Inr i)
  show ?thesis
    by (cases "sq_push (ring_at s i) d") (use assms Inr in \<open>auto simp: scdk_ring_submit_def intro: err ok\<close>)
qed

lemma ring_consume_cases:
  assumes "scdk_ring_consume s ring = (r, s')"
  obtains (err) e where "r = Inl e" "s' = s"
  | (ok) i d t where "ring_lookup s ring SCDK_RIGHT_READ = Inr i" "sq_pop (ring_at s i) = Some (d, t)"
      "r = Inr d" "s' = set_ring s i t"
proof (cases "ring_lookup s ring SCDK_RIGHT_READ")
  case (Inl e)
  with assms show ?thesis by (intro err [of e]) (auto simp: scdk_ring_consume_def)
next
  case (Inr i)
  show ?thesis
    by (cases "sq_pop (ring_at s i)") (use assms Inr in \<open>auto simp: scdk_ring_consume_def intro: err ok\<close>)
qed

lemma ring_complete_cases:
  assumes "scdk_ring_complete s ring c = (r, s')"
  obtains (err) "r \<noteq> SCDK_OK" "s' = s"
  | (ok) i t where "ring_lookup s ring SCDK_RIGHT_WRITE = Inr i" "cq_push (ring_at s i) c = Some t"
      "r = SCDK_OK" "s' = set_ring s i t"
proof (cases "ring_lookup s ring SCDK_RIGHT_WRITE")
  case (Inl e)
  with assms ring_lookup_Inl_OK [of s ring SCDK_RIGHT_WRITE] show ?thesis by (intro err) (auto simp: scdk_ring_complete_def)
next
  case (Inr i)
  show ?thesis
    by (cases "cq_push (ring_at s i) c") (use assms Inr in \<open>auto simp: scdk_ring_complete_def intro: err ok\<close>)
qed

lemma ring_poll_cases:
  assumes "scdk_ring_poll s ring = (r, s')"
  obtains (err) e where "r = Inl e" "s' = s"
  | (ok) i c t where "ring_lookup s ring SCDK_RIGHT_READ = Inr i" "cq_pop (ring_at s i) = Some (c, t)"
      "r = Inr c" "s' = set_ring s i t"
proof (cases "ring_lookup s ring SCDK_RIGHT_READ")
  case (Inl e)
  with assms show ?thesis by (intro err [of e]) (auto simp: scdk_ring_poll_def)
next
  case (Inr i)
  show ?thesis
    by (cases "cq_pop (ring_at s i)") (use assms Inr in \<open>auto simp: scdk_ring_poll_def intro: err ok\<close>)
qed

lemma ring_bind_cases:
  assumes "scdk_ring_bind_target s ring tgt = (r, s')"
  obtains (err) "r \<noteq> SCDK_OK" "s' = s"
  | (ok) i e where "tgt \<noteq> 0" "scdk_cap_check s tgt SCDK_RIGHT_SEND SCDK_OBJ_ENDPOINT = Inr e"
      "ring_lookup s ring SCDK_RIGHT_BIND = Inr i" "r = SCDK_OK"
      "s' = set_ring s i ((ring_at s i)\<lparr>bound_target := tgt\<rparr>)"
proof (cases "tgt = 0")
  case True
  with assms show ?thesis by (intro err) (auto simp: scdk_ring_bind_target_def)
next
  case t: False
  show ?thesis
  proof (cases "scdk_cap_check s tgt SCDK_RIGHT_SEND SCDK_OBJ_ENDPOINT")
    case (Inl e)
    with assms t cap_check_Inl_OK [of s tgt SCDK_RIGHT_SEND SCDK_OBJ_ENDPOINT] show ?thesis
      by (intro err) (auto simp: scdk_ring_bind_target_def)
  next
    case c: (Inr e)
    show ?thesis
    proof (cases "ring_lookup s ring SCDK_RIGHT_BIND")
      case (Inl e)
      with assms t c ring_lookup_Inl_OK [of s ring SCDK_RIGHT_BIND] show ?thesis
        by (intro err) (auto simp: scdk_ring_bind_target_def)
    next
      case (Inr i)
      with assms t c show ?thesis by (intro ok [of e i]) (auto simp: scdk_ring_bind_target_def)
    qed
  qed
qed

lemmas ring_op_cases = ring_submit_cases ring_consume_cases ring_complete_cases ring_poll_cases ring_bind_cases

lemma ring_op_khist:
  "scdk_ring_submit s ring d = (r, s') \<Longrightarrow> khist s s'"
  "scdk_ring_consume s ring = (rd, s') \<Longrightarrow> khist s s'"
  "scdk_ring_complete s ring c = (r, s') \<Longrightarrow> khist s s'"
  "scdk_ring_poll s ring = (rc, s') \<Longrightarrow> khist s s'"
  "scdk_ring_bind_target s ring tgt = (r, s') \<Longrightarrow> khist s s'"
  by (auto elim!: ring_op_cases intro: kh_refl core_same_khist)

lemma ring_op_inv:
  assumes "kern_inv s" and "ring_inv s"
  shows "scdk_ring_submit s ring d = (r, s') \<Longrightarrow> ring_inv s'"
    and "scdk_ring_consume s ring = (rd, s') \<Longrightarrow> ring_inv s'"
    and "scdk_ring_complete s ring c = (r, s') \<Longrightarrow> ring_inv s'"
    and "scdk_ring_poll s ring = (rc, s') \<Longrightarrow> ring_inv s'"
    and "scdk_ring_bind_target s ring tgt = (r, s') \<Longrightarrow> ring_inv s'"
proof -
  note slot = ring_lookup_slot [OF assms]
  show "scdk_ring_submit s ring d = (r, s') \<Longrightarrow> ring_inv s'"
    by (erule ring_submit_cases) (use slot sq_push_keeps ring_inv_set [OF assms(2)] assms(2) in blast)+
  show "scdk_ring_consume s ring = (rd, s') \<Longrightarrow> ring_inv s'"
    by (erule ring_consume_cases) (use slot sq_pop_ok ring_inv_set [OF assms(2)] assms(2) in blast)+
  show "scdk_ring_complete s ring c = (r, s') \<Longrightarrow> ring_inv s'"
    by (erule ring_complete_cases) (use slot cq_push_keeps ring_inv_set [OF assms(2)] assms(2) in blast)+
  show "scdk_ring_poll s ring = (rc, s') \<Longrightarrow> ring_inv s'"
    by (erule ring_poll_cases) (use slot cq_pop_ok ring_inv_set [OF assms(2)] assms(2) in blast)+
  show "scdk_ring_bind_target s ring tgt = (r, s') \<Longrightarrow> ring_inv s'"
    by (erule ring_bind_cases) (use slot ring_inv_set [OF assms(2)] assms(2) in \<open>auto simp: ring_ok_def\<close>)
qed

lemma ring_create_cases:
  assumes "scdk_ring_create s core n tgt = (r, s')"
  obtains (refused) e where "r = Inl e" "s' = s"
  | (slot) i where "n \<noteq> 0" "n \<le> SCDK_RING_MAX_ENTRIES" "i < SCDK_MAX_RINGS" "rs_object_id (ring_table s i) = 0"
      "tgt \<noteq> 0 \<Longrightarrow> \<exists>e. scdk_cap_check s tgt SCDK_RIGHT_SEND SCDK_OBJ_ENDPOINT = Inr e"
      "bind_slot s SCDK_OBJ_RING core (PRing i) (fill_ring i n tgt)
         (\<lambda>s. set_ring_slot s i ((ring_table s i)\<lparr>rs_object_id := 0\<rparr>))
         (SCDK_RIGHT_READ OR SCDK_RIGHT_WRITE OR SCDK_RIGHT_BIND) = (r, s')"
proof -
  let ?st = "if tgt \<noteq> 0 then res_status (scdk_cap_check s tgt SCDK_RIGHT_SEND SCDK_OBJ_ENDPOINT) else SCDK_OK"
  let ?f = "first_slot (\<lambda>i. rs_object_id (ring_table s i) = 0) SCDK_MAX_RINGS"
  show thesis
  proof (cases "n = 0 \<or> n > SCDK_RING_MAX_ENTRIES \<or> ?st \<noteq> SCDK_OK \<or> ?f = None")
    case True
    with assms show thesis
      by (intro refused [of "case r of Inl e \<Rightarrow> e | Inr _ \<Rightarrow> SCDK_OK"]) (auto simp: scdk_ring_create_def Let_def split: if_splits)
  next
    case False
    then obtain i where f: "?f = Some i" by blast
    then have "i < SCDK_MAX_RINGS" "rs_object_id (ring_table s i) = 0" by (simp_all add: scan_facts)
    moreover have "\<exists>e. scdk_cap_check s tgt SCDK_RIGHT_SEND SCDK_OBJ_ENDPOINT = Inr e" if "tgt \<noteq> 0"
      using False that cap_check_Inl_OK [of s tgt SCDK_RIGHT_SEND SCDK_OBJ_ENDPOINT]
      by (cases "scdk_cap_check s tgt SCDK_RIGHT_SEND SCDK_OBJ_ENDPOINT") auto
    moreover have "bind_slot s SCDK_OBJ_RING core (PRing i) (fill_ring i n tgt)
         (\<lambda>s. set_ring_slot s i ((ring_table s i)\<lparr>rs_object_id := 0\<rparr>))
         (SCDK_RIGHT_READ OR SCDK_RIGHT_WRITE OR SCDK_RIGHT_BIND) = (r, s')"
      using assms False f by (simp add: scdk_ring_create_def Let_def split: if_splits)
    ultimately show thesis using False by (intro slot [of i]) auto
  qed
qed

lemma ring_create_khist: "scdk_ring_create s core n tgt = (r, s') \<Longrightarrow> khist s s'"
  by (erule ring_create_cases) (auto intro: kh_refl bind_slot_khist)

lemma ring_create_created:
  assumes inv: "kern_inv s" and c: "scdk_ring_create s core n tgt = (Inr cap, s')"
  obtains i where "i < SCDK_MAX_RINGS" "n \<noteq> 0" "n \<le> SCDK_RING_MAX_ENTRIES"
    "\<And>r. r \<noteq> 0 \<Longrightarrow> (SCDK_RIGHT_READ OR SCDK_RIGHT_WRITE OR SCDK_RIGHT_BIND) AND r = r \<Longrightarrow> ring_lookup s' cap r = Inr i"
    "ring_at s' i = (ring_at s i)\<lparr>entries := n, submit_head := 0, submit_tail := 0,
       complete_head := 0, complete_tail := 0, bound_target := tgt\<rparr>"
  using c
proof (cases rule: ring_create_cases)
  case (slot i)
  from slot(6) show ?thesis
  proof (cases rule: bind_slot_cases)
    case (created oid s1 cap')
    obtain ob where ob: "scdk_object_lookup s' oid = Inr ob" "obj_payload ob = PRing i"
      using bind_slot_object [OF created(1,2) ring_upd_same(2)] by blast
    have tab: "ring_table s' = ring_table (fill_ring i n tgt oid s)"
      using ring_low_frame(1) [OF created(1)] ring_low_frame(2) [OF created(2)] by (simp add: fill_ring_def)
    have "ring_lookup s' cap r = Inr i"
      if "r \<noteq> 0" "(SCDK_RIGHT_READ OR SCDK_RIGHT_WRITE OR SCDK_RIGHT_BIND) AND r = r" for r
      using bind_slot_cap [OF created(1,2) ring_upd_same(2) inv _ that] slot(3) created(3) ob tab
      by (auto simp: ring_lookup_Inr fill_ring_def)
    with slot tab show ?thesis by (intro that [of i]) (auto simp: fill_ring_def)
  qed simp_all
qed simp

lemma ring_create_inv:
  assumes inv: "kern_inv s" "ring_inv s" and c: "scdk_ring_create s core n tgt = (r, s')"
  shows "ring_inv s'"
  using c
proof (cases rule: ring_create_cases)
  case (slot i)
  from slot(6) show ?thesis
  proof (cases rule: bind_slot_cases)
    case (nocap oid s1 s3 e)
    have "ring_table s' i = \<lparr>rs_object_id = 0, rs_ring = rs_ring (ring_table s' i)\<rparr>"
      "\<And>j. j \<noteq> i \<Longrightarrow> ring_table s' j = ring_table s j"
      using ring_low_frame(1) [OF nocap(1)] ring_low_frame(2) [OF nocap(2)] nocap(4) by (simp_all add: fill_ring_def)
    then have same: "\<And>j. rs_object_id (ring_table s' j) \<noteq> 0 \<Longrightarrow> ring_table s' j = ring_table s j"
      by (metis scdk_ring_slot.select_convs(1))
    have "slot_bound s' SCDK_OBJ_RING PRing SCDK_MAX_RINGS (rs_object_id \<circ> ring_table s')"
      by (rule slot_bound_sub [of _ _ _ _ "rs_object_id \<circ> ring_table s"])
        (use inv(2) same khist_slot_bound [OF ring_create_khist [OF c] inv(1)] in \<open>auto simp: ring_inv_def\<close>)
    moreover have "ring_ok (ring_at s' j)" if "j < SCDK_MAX_RINGS" "rs_object_id (ring_table s' j) \<noteq> 0" for j
      using inv(2) that same [OF that(2)] by (simp add: ring_inv_def)
    ultimately show ?thesis by (simp add: ring_inv_def)
  next
    case (created oid s1 cap)
    have t: "ring_table s' = ring_table (fill_ring i n tgt oid s)"
      using ring_low_frame(1) [OF created(1)] ring_low_frame(2) [OF created(2)] by (simp add: fill_ring_def)
    have "slot_bound s' SCDK_OBJ_RING PRing SCDK_MAX_RINGS ((rs_object_id \<circ> ring_table s)(i := oid))"
      using inv(2) by (intro bind_slot_bound [where pay = PRing, OF _ created(1,2) _ inv(1)]) (simp_all add: ring_inv_def)
    then show ?thesis using inv(2) slot(1,2) by (auto simp: ring_inv_def t fill_ring_def comp_fun_upd ring_ok_def rb_ok_def)
  qed (use inv in simp)
qed (use inv in simp)

section \<open>The queues through capabilities\<close>

text \<open>
  A producer with a WRITE capability \<open>w\<close> and a consumer with a READ capability \<open>r\<close> on
  ring \<open>i\<close>: the capability-checked operations are a bounded queue of the kernel state.
\<close>

definition ring_session :: "u64 \<Rightarrow> u64 \<Rightarrow> nat \<Rightarrow> 'a ring_state_scheme \<Rightarrow> bool" where
  "ring_session w r i s \<longleftrightarrow> ring_lookup s w SCDK_RIGHT_WRITE = Inr i \<and> ring_lookup s r SCDK_RIGHT_READ = Inr i \<and>
     pow2_ring (ring_at s i)"

definition submit_op :: "u64 \<Rightarrow> 'a ring_state_scheme \<Rightarrow> scdk_ring_desc \<Rightarrow> 'a ring_state_scheme option" where
  "submit_op w s d = (case scdk_ring_submit s w d of (st, s') \<Rightarrow> if st = SCDK_OK then Some s' else None)"

definition consume_op :: "u64 \<Rightarrow> 'a ring_state_scheme \<Rightarrow> (scdk_ring_desc \<times> 'a ring_state_scheme) option" where
  "consume_op r s = (case scdk_ring_consume s r of (Inl e, s') \<Rightarrow> None | (Inr d, s') \<Rightarrow> Some (d, s'))"

definition complete_op :: "u64 \<Rightarrow> 'a ring_state_scheme \<Rightarrow> scdk_completion \<Rightarrow> 'a ring_state_scheme option" where
  "complete_op w s c = (case scdk_ring_complete s w c of (st, s') \<Rightarrow> if st = SCDK_OK then Some s' else None)"

definition poll_op :: "u64 \<Rightarrow> 'a ring_state_scheme \<Rightarrow> (scdk_completion \<times> 'a ring_state_scheme) option" where
  "poll_op r s = (case scdk_ring_poll s r of (Inl e, s') \<Rightarrow> None | (Inr c, s') \<Rightarrow> Some (c, s'))"

interpretation ksubmit: bounded_fifo "ring_session w r i" "\<lambda>s. unat (entries (ring_at s i))"
  "\<lambda>s. sq_items (ring_at s i)" "submit_op w" "consume_op r"
  for w r :: u64 and i :: nat
proof unfold_locales
  fix s s' :: "'a ring_state_scheme" and d
  assume s: "ring_session w r i s"
  note q = subq.len subq.enq_full subq.enq_ok subq.deq_empty subq.deq_ok
  from s have l: "ring_lookup s w SCDK_RIGHT_WRITE = Inr i" "ring_lookup s r SCDK_RIGHT_READ = Inr i"
    "pow2_ring (ring_at s i)" by (simp_all add: ring_session_def)
  show "length (sq_items (ring_at s i)) \<le> unat (entries (ring_at s i))" using l(3) by (rule q(1))
  show "submit_op w s d = None \<longleftrightarrow> length (sq_items (ring_at s i)) = unat (entries (ring_at s i))"
    using q(2) [OF l(3), of d] l(1) by (auto simp: submit_op_def scdk_ring_submit_def split: option.splits)
  show "ring_session w r i s' \<and> unat (entries (ring_at s' i)) = unat (entries (ring_at s i)) \<and>
      sq_items (ring_at s' i) = sq_items (ring_at s i) @ [d]" if "submit_op w s d = Some s'"
    using that q(3) [OF l(3), of d] l
    by (auto simp: submit_op_def scdk_ring_submit_def ring_session_def split: option.splits)
  show "consume_op r s = None \<longleftrightarrow> sq_items (ring_at s i) = []"
    using q(4) [OF l(3)] l(2) by (auto simp: consume_op_def scdk_ring_consume_def split: option.splits)
  show "ring_session w r i s' \<and> unat (entries (ring_at s' i)) = unat (entries (ring_at s i)) \<and>
      sq_items (ring_at s i) = d # sq_items (ring_at s' i)" if "consume_op r s = Some (d, s')"
    using that q(5) [OF l(3), of d] l
    by (auto simp: consume_op_def scdk_ring_consume_def ring_session_def split: option.splits)
qed

interpretation kcomplete: bounded_fifo "ring_session w r i" "\<lambda>s. unat (entries (ring_at s i))"
  "\<lambda>s. cq_items (ring_at s i)" "complete_op w" "poll_op r"
  for w r :: u64 and i :: nat
proof unfold_locales
  fix s s' :: "'a ring_state_scheme" and c
  assume s: "ring_session w r i s"
  note q = compq.len compq.enq_full compq.enq_ok compq.deq_empty compq.deq_ok
  from s have l: "ring_lookup s w SCDK_RIGHT_WRITE = Inr i" "ring_lookup s r SCDK_RIGHT_READ = Inr i"
    "pow2_ring (ring_at s i)" by (simp_all add: ring_session_def)
  show "length (cq_items (ring_at s i)) \<le> unat (entries (ring_at s i))" using l(3) by (rule q(1))
  show "complete_op w s c = None \<longleftrightarrow> length (cq_items (ring_at s i)) = unat (entries (ring_at s i))"
    using q(2) [OF l(3), of c] l(1) by (auto simp: complete_op_def scdk_ring_complete_def split: option.splits)
  show "ring_session w r i s' \<and> unat (entries (ring_at s' i)) = unat (entries (ring_at s i)) \<and>
      cq_items (ring_at s' i) = cq_items (ring_at s i) @ [c]" if "complete_op w s c = Some s'"
    using that q(3) [OF l(3), of c] l
    by (auto simp: complete_op_def scdk_ring_complete_def ring_session_def split: option.splits)
  show "poll_op r s = None \<longleftrightarrow> cq_items (ring_at s i) = []"
    using q(4) [OF l(3)] l(2) by (auto simp: poll_op_def scdk_ring_poll_def split: option.splits)
  show "ring_session w r i s' \<and> unat (entries (ring_at s' i)) = unat (entries (ring_at s i)) \<and>
      cq_items (ring_at s i) = c # cq_items (ring_at s' i)" if "poll_op r s = Some (c, s')"
    using that q(5) [OF l(3), of c] l
    by (auto simp: poll_op_def scdk_ring_poll_def ring_session_def split: option.splits)
qed

section \<open>Properties\<close>

text \<open>
  (C13) A ring is a first-in first-out queue: for a ring whose number of entries
  divides \<open>2\<^sup>32\<close>, take any interleaving of \<^verbatim>\<open>scdk_ring_submit\<close> through a WRITE
  capability and \<^verbatim>\<open>scdk_ring_consume\<close> through a READ capability, including the calls
  refused because the ring is full or empty, and any number of wraps of the
  32-bit counters. The descriptors queued at the start followed by the accepted
  ones are exactly the consumed ones followed by those still queued, and never
  more than \<^verbatim>\<open>entries\<close> are outstanding.
\<close>

theorem ring_submission_fifo:
  assumes "ring_session w r i s" and "qrun (submit_op w) (consume_op r) s ops = (accepted, consumed, s')"
  shows "sq_items (ring_at s i) @ accepted = consumed @ sq_items (ring_at s' i) \<and>
    length accepted \<le> length consumed + unat (entries (ring_at s i)) \<and> ring_session w r i s'"
  using ksubmit.qrun_fifo [OF assms] ksubmit.qrun_bounded [OF assms] by simp

text \<open>
  Completions are delivered in order: the same for \<^verbatim>\<open>scdk_ring_complete\<close> and
  \<^verbatim>\<open>scdk_ring_poll\<close>; in particular a full batch of completions is accepted whole
  and polled back unchanged.
\<close>

theorem ring_completion_fifo:
  assumes "ring_session w r i s"
  shows "(\<forall>ops done polled s'. qrun (complete_op w) (poll_op r) s ops = (done, polled, s') \<longrightarrow>
            cq_items (ring_at s i) @ done = polled @ cq_items (ring_at s' i)) \<and>
    (cq_items (ring_at s i) = [] \<longrightarrow> length batch = unat (entries (ring_at s i)) \<longrightarrow>
       (\<exists>s1 s2. qrun (complete_op w) (poll_op r) s (map Enq batch) = (batch, [], s1) \<and>
          qrun (complete_op w) (poll_op r) s1 (replicate (length batch) Deq) = ([], batch, s2)))"
proof (intro conjI allI impI)
  show "cq_items (ring_at s i) @ done = polled @ cq_items (ring_at s' i)"
    if "qrun (complete_op w) (poll_op r) s ops = (done, polled, s')" for ops "done" polled s'
    using kcomplete.qrun_fifo [OF assms that] by simp
  assume e: "cq_items (ring_at s i) = []" and len: "length batch = unat (entries (ring_at s i))"
  obtain s1 where s1: "qrun (complete_op w) (poll_op r) s (map Enq batch) = (batch, [], s1)"
    "ring_session w r i s1" "cq_items (ring_at s1 i) = batch"
    using kcomplete.enq_batch [OF assms, of batch] e len by auto
  from kcomplete.deq_batch [OF s1(2)] s1(1,3)
  show "\<exists>s1 s2. qrun (complete_op w) (poll_op r) s (map Enq batch) = (batch, [], s1) \<and>
          qrun (complete_op w) (poll_op r) s1 (replicate (length batch) Deq) = ([], batch, s2)"
    by fastforce
qed

text \<open>A concrete kernel with one ring of two entries.\<close>

definition ring_boot :: ring_state where
  "ring_boot = \<lparr>object_table = (\<lambda>i. null_object), object_generations = (\<lambda>i. 0),
     cap_table = (\<lambda>i. null_cap_entry), cap_generations = (\<lambda>i. 0),
     endpoint_table = (\<lambda>i. null_endpoint), service_table = (\<lambda>i. null_service_slot),
     ring_table = (\<lambda>i. null_ring_slot)\<rparr>"

lemma ring_boot_inv: "kern_inv ring_boot" "ring_inv ring_boot"
  by (auto simp: ring_boot_def kern_inv_def cap_inv_def obj_inv_def objs_ok_def cap_live_def null_cap_entry_def
      null_object_def scdk_object_lookup_def Let_def ring_inv_def slot_bound_def null_ring_slot_def split: if_splits)

lemma ring_boot_create:
  assumes "n \<noteq> 0" and "n \<le> SCDK_RING_MAX_ENTRIES"
  shows "\<exists>s1. scdk_ring_create ring_boot 0 n 0 = (Inr 0x100000000, s1)"
  using assms
  by (simp add: scdk_ring_create_def ring_boot_def first_slot_hit null_ring_slot_def kconst bind_slot_def
      scdk_object_create_def null_object_def next_generation_def bump_generation_def object_make_id_def
      scdk_cap_create_def scdk_object_lookup_def object_id_index_def object_id_generation_def
      null_cap_entry_def next_cap_generation_def cap_make_token_def fill_ring_def Let_def not_less)

lemma ring_boot_session:
  obtains s1 i where "scdk_ring_create ring_boot 0 2 0 = (Inr 0x100000000, s1)"
    "ring_session 0x100000000 0x100000000 i s1" "entries (ring_at s1 i) = 2"
    "sq_items (ring_at s1 i) = []" "cq_items (ring_at s1 i) = []"
proof -
  obtain s1 where c: "scdk_ring_create ring_boot 0 2 0 = (Inr 0x100000000, s1)"
    using ring_boot_create [of 2] by (auto simp: kconst)
  obtain i where i: "\<And>r. r \<noteq> 0 \<Longrightarrow> (SCDK_RIGHT_READ OR SCDK_RIGHT_WRITE OR SCDK_RIGHT_BIND) AND r = r \<Longrightarrow>
      ring_lookup s1 0x100000000 r = Inr i"
    "ring_at s1 i = (ring_at ring_boot i)\<lparr>entries := 2, submit_head := 0, submit_tail := 0,
       complete_head := 0, complete_tail := 0, bound_target := 0\<rparr>"
    using ring_create_created [OF ring_boot_inv(1) c] by metis
  have "ring_session 0x100000000 0x100000000 i s1"
    using i(1) [of SCDK_RIGHT_READ] i(1) [of SCDK_RIGHT_WRITE]
    by (simp add: ring_session_def kconst i(2) pow2_ring_def ring_ok_def rb_ok_def)
  then show thesis
    by (intro that [of s1 i]) (use c in \<open>simp_all add: i(2) sq_items_def cq_items_def rb_items_def\<close>)
qed

theorem ring_submission_fifo_witness:
  "\<exists>s1 i s2. scdk_ring_create ring_boot 0 2 0 = (Inr 0x100000000, s1) \<and>
     qrun (submit_op 0x100000000) (consume_op 0x100000000) s1 [Enq null_desc, Deq, Deq] = ([null_desc], [null_desc], s2) \<and>
     sq_items (ring_at s2 i) = []"
proof -
  obtain s1 i where s: "scdk_ring_create ring_boot 0 2 0 = (Inr 0x100000000, s1)"
    "ring_session 0x100000000 0x100000000 i s1" "entries (ring_at s1 i) = 2" "sq_items (ring_at s1 i) = []"
    by (rule ring_boot_session)
  obtain a c s2 where q: "qrun (submit_op 0x100000000) (consume_op 0x100000000) s1 [Enq null_desc, Deq, Deq] = (a, c, s2)"
    by (cases "qrun (submit_op 0x100000000) (consume_op 0x100000000) s1 [Enq null_desc, Deq, Deq]") auto
  obtain t where t: "submit_op 0x100000000 s1 null_desc = Some t" "sq_items (ring_at t i) = [null_desc]"
    "ring_session 0x100000000 0x100000000 i t"
    using ksubmit.enq_full [OF s(2), of null_desc] ksubmit.enq_ok [OF s(2), of null_desc] s(3,4)
    by (cases "submit_op 0x100000000 s1 null_desc") auto
  have "a = [null_desc]"
    using q t(1) by (auto split: option.splits prod.splits)
  moreover have "c \<noteq> []"
    using q t ksubmit.deq_empty [OF t(3)] by (auto split: option.splits prod.splits)
  ultimately have "c = [null_desc]" "sq_items (ring_at s2 i) = []"
    using ring_submission_fifo [OF s(2) q] s(4) by (cases c; simp)+
  with s(1) q \<open>a = [null_desc]\<close> show ?thesis by blast
qed

theorem ring_completion_fifo_witness:
  "\<exists>s1 s2 s3. scdk_ring_create ring_boot 0 2 0 = (Inr 0x100000000, s1) \<and>
     qrun (complete_op 0x100000000) (poll_op 0x100000000) s1 [Enq null_completion, Enq (null_completion\<lparr>rc_op := 7\<rparr>)] =
       ([null_completion, null_completion\<lparr>rc_op := 7\<rparr>], [], s2) \<and>
     qrun (complete_op 0x100000000) (poll_op 0x100000000) s2 [Deq, Deq] =
       ([], [null_completion, null_completion\<lparr>rc_op := 7\<rparr>], s3)"
proof -
  obtain s1 i where s: "scdk_ring_create ring_boot 0 2 0 = (Inr 0x100000000, s1)"
    "ring_session 0x100000000 0x100000000 i s1" "entries (ring_at s1 i) = 2" "cq_items (ring_at s1 i) = []"
    by (rule ring_boot_session)
  let ?b = "[null_completion, null_completion\<lparr>rc_op := 7\<rparr>]"
  from ring_completion_fifo [OF s(2), of ?b] s show ?thesis
    by (auto simp del: qrun.simps)
qed

text \<open>One submit and consume pair.\<close>

definition pair_step :: "scdk_ring_desc \<Rightarrow> scdk_ring \<Rightarrow> scdk_ring" where
  "pair_step d t = (case sq_push t d of None \<Rightarrow> t | Some t1 \<Rightarrow> (case sq_pop t1 of None \<Rightarrow> t1 | Some (_, t2) \<Rightarrow> t2))"

lemma pair_step_counters:
  "entries t = 3 \<Longrightarrow> submit_head t = submit_tail t \<Longrightarrow>
     entries (pair_step d t) = 3 \<and> submit_head (pair_step d t) = submit_head t + 1 \<and>
     submit_tail (pair_step d t) = submit_tail t + 1"
  by (simp add: pair_step_def sq_push_def sq_pop_def queue_count_def)

lemma pair_steps_counters:
  "entries t = 3 \<Longrightarrow> submit_head t = 0 \<Longrightarrow> submit_tail t = 0 \<Longrightarrow>
     entries ((pair_step d ^^ n) t) = 3 \<and> submit_head ((pair_step d ^^ n) t) = of_nat n \<and>
     submit_tail ((pair_step d ^^ n) t) = of_nat n"
proof (induction n)
  case (Suc n)
  then show ?case using pair_step_counters [of "(pair_step d ^^ n) t" d] by (simp add: add.commute)
qed simp

text \<open>
  The FIFO promise breaks for a ring whose number of entries does not divide
  \<open>2\<^sup>32\<close>: on a new ring of 3 entries, after \<open>2\<^sup>32 - 1\<close> submit/consume pairs, two
  descriptors submitted to the empty ring land in the same slot, and the first
  \<^verbatim>\<open>consume\<close> returns the second one.
\<close>

theorem ring_wrap_reorders:
  "\<exists>t t1 t2 t3. t = (pair_step null_desc ^^ (2 ^ 32 - 1)) ((rs_ring null_ring_slot)\<lparr>entries := 3\<rparr>) \<and>
     sq_items t = [] \<and> sq_push t a = Some t1 \<and> sq_push t1 b = Some t2 \<and> sq_pop t2 = Some (b, t3)"
proof -
  define t where "t = (pair_step null_desc ^^ (2 ^ 32 - 1)) ((rs_ring null_ring_slot)\<lparr>entries := 3\<rparr>)"
  have "entries t = 3 \<and> submit_head t = of_nat (2 ^ 32 - 1) \<and> submit_tail t = of_nat (2 ^ 32 - 1)"
    unfolding t_def by (rule pair_steps_counters) (simp_all add: null_ring_slot_def)
  then have c: "entries t = 3" "submit_head t = - 1" "submit_tail t = - 1" by simp_all
  have m: "(- 1 :: u32) mod 3 = 0" by code_simp
  have "sq_items t = []" by (simp add: sq_items_def rb_items_def c)
  moreover have p1: "sq_push t a = Some (t\<lparr>sq := (sq t)(0 := a), submit_tail := 0\<rparr>)" (is "_ = Some ?t1")
    by (simp add: sq_push_def queue_count_def c m)
  moreover have p2: "sq_push ?t1 b = Some (?t1\<lparr>sq := (sq ?t1)(0 := b), submit_tail := 1\<rparr>)" (is "_ = Some ?t2")
    by (simp add: sq_push_def queue_count_def c word_le_nat_alt)
  moreover have "sq_pop ?t2 = Some (b, ?t2\<lparr>submit_head := 0\<rparr>)"
    by (simp add: sq_pop_def c m)
  ultimately show ?thesis unfolding t_def [symmetric] by blast
qed

text \<open>
  A bound target is always usable: \<^verbatim>\<open>scdk_ring_bind_target\<close> followed by
  \<^verbatim>\<open>scdk_ring_bound_target\<close> gives the endpoint back, and whenever the latter returns
  a target at all, that target is a live SEND capability at that moment; once it
  is revoked the query fails instead.
\<close>

theorem ring_target_live:
  fixes s :: "'a ring_state_scheme"
  assumes "kern_inv s" and "scdk_ring_bind_target s ring tgt = (SCDK_OK, s')"
    and "ring_lookup s rd SCDK_RIGHT_READ = ring_lookup s ring SCDK_RIGHT_BIND"
  shows "scdk_ring_bound_target s' rd = Inr tgt \<and>
    (\<forall>(s2 :: 'a ring_state_scheme) x. scdk_ring_bound_target s2 rd = Inr x \<longrightarrow> x = 0 \<or> (\<exists>e. scdk_cap_check s2 x SCDK_RIGHT_SEND SCDK_OBJ_ENDPOINT = Inr e)) \<and>
    (\<forall>s2. scdk_cap_revoke s' tgt = (SCDK_OK, s2) \<longrightarrow> scdk_ring_bound_target s2 rd \<noteq> Inr tgt)"
proof (intro conjI allI impI)
  show "scdk_ring_bound_target s' rd = Inr tgt"
    using assms(2) by (cases rule: ring_bind_cases) (use assms(3) in \<open>auto simp: scdk_ring_bound_target_def\<close>)
  show live: "x = 0 \<or> (\<exists>e. scdk_cap_check s2 x SCDK_RIGHT_SEND SCDK_OBJ_ENDPOINT = Inr e)"
    if "scdk_ring_bound_target s2 rd = Inr x" for s2 :: "'a ring_state_scheme" and x
    using that by (auto simp: scdk_ring_bound_target_def Let_def split: sum.splits if_splits)
  fix s2
  assume "scdk_cap_revoke s' tgt = (SCDK_OK, s2)"
  then have "scdk_cap_lookup s2 tgt = Inl SCDK_ERR_NOENT" by (rule cap_revoke_dead)
  moreover have "tgt \<noteq> 0" using assms(2) by (cases rule: ring_bind_cases) auto
  ultimately show "scdk_ring_bound_target s2 rd \<noteq> Inr tgt"
    using live [of s2 tgt] by (auto simp: scdk_cap_check_def split: if_splits)
qed

text \<open>A kernel with the console endpoint and a ring of two entries.\<close>

definition ring_demo :: ring_state where
  "ring_demo = snd (scdk_ring_create (snd (scdk_endpoint_create ring_boot 0 (Some HConsole) 0)) 0 2 0)"

lemma ring_demo_inv: "kern_inv ring_demo"
proof -
  have "khist ring_boot (snd (scdk_endpoint_create ring_boot 0 (Some HConsole) 0))"
    using endpoint_create_khist by (metis prod.collapse)
  moreover have "khist (snd (scdk_endpoint_create ring_boot 0 (Some HConsole) 0)) ring_demo"
    unfolding ring_demo_def using ring_create_khist by (metis prod.collapse)
  ultimately show ?thesis using ring_boot_inv(1) khist_inv by blast
qed

theorem ring_target_live_witness:
  "\<exists>s'. scdk_ring_bind_target ring_demo 0x100000001 0x100000000 = (SCDK_OK, s') \<and>
     scdk_ring_bound_target s' 0x100000001 = Inr 0x100000000"
proof -
  have "fst (scdk_ring_bind_target ring_demo 0x100000001 0x100000000) = SCDK_OK" by code_simp
  then obtain s' where b: "scdk_ring_bind_target ring_demo 0x100000001 0x100000000 = (SCDK_OK, s')"
    by (metis prod.collapse)
  have "ring_lookup ring_demo 0x100000001 SCDK_RIGHT_READ = ring_lookup ring_demo 0x100000001 SCDK_RIGHT_BIND"
    by code_simp
  from ring_target_live [OF ring_demo_inv b this] b show ?thesis by blast
qed

end
