(* ===== verification/SCDK_Grant.thy ===== *)
theory SCDK_Grant
  imports SCDK_Ring
begin

text \<open>
  Kernel grants, \<^verbatim>\<open>src/core/grant.c\<close>: a capability for a range of memory with READ, WRITE
  and MAP rights. The table of user grants (\<^verbatim>\<open>src/core/user_grant.c\<close>, operations in
  \<open>SCDK_UserGrant\<close>) is declared here too: both kinds share \<^verbatim>\<open>SCDK_OBJ_GRANT\<close>, so a
  kernel lookup can meet a user slot and reads it through its own struct. The
  two structs have the same layout, and \<open>grant_view\<close> is that reinterpretation.
\<close>

section \<open>Data\<close>

record scdk_grant =
  g_frame_cap :: u64
  g_base :: u64
  g_offset :: u64
  g_length :: u64
  g_rights :: u64
  g_lifetime :: u32
  g_refcount :: u32

record scdk_grant_slot =
  gs_object_id :: u64
  gs_grant :: scdk_grant

record scdk_user_grant_slot =
  ug_object_id :: u64
  ug_source_task :: u64
  ug_target_endpoint :: u64
  ug_user_base :: u64
  ug_length :: u64
  ug_rights :: u64
  ug_lifetime :: u32
  ug_revoked :: bool

record grant_state = ring_state +
  grant_table :: "nat \<Rightarrow> scdk_grant_slot"
  user_grants :: "nat \<Rightarrow> scdk_user_grant_slot"

definition null_grant_slot :: scdk_grant_slot where
  "null_grant_slot = \<lparr>gs_object_id = 0, gs_grant = \<lparr>g_frame_cap = 0, g_base = 0, g_offset = 0, g_length = 0,
     g_rights = 0, g_lifetime = 0, g_refcount = 0\<rparr>\<rparr>"

definition null_user_grant :: scdk_user_grant_slot where
  "null_user_grant = \<lparr>ug_object_id = 0, ug_source_task = 0, ug_target_endpoint = 0, ug_user_base = 0,
     ug_length = 0, ug_rights = 0, ug_lifetime = 0, ug_revoked = False\<rparr>"

definition SCDK_GRANT_RIGHTS_MASK :: u64 where
  [kconst]: "SCDK_GRANT_RIGHTS_MASK = SCDK_RIGHT_READ OR SCDK_RIGHT_WRITE OR SCDK_RIGHT_MAP"

text \<open>A user slot read as a kernel slot: offsets 8, 16, ..., 48, 52 coincide.\<close>

definition user_slot_as_grant :: "scdk_user_grant_slot \<Rightarrow> scdk_grant_slot" where
  "user_slot_as_grant u = \<lparr>gs_object_id = ug_object_id u, gs_grant = \<lparr>g_frame_cap = ug_source_task u,
     g_base = ug_target_endpoint u, g_offset = ug_user_base u, g_length = ug_length u, g_rights = ug_rights u,
     g_lifetime = ug_lifetime u, g_refcount = (if ug_revoked u then 1 else 0)\<rparr>\<rparr>"

definition grant_view :: "'a grant_state_scheme \<Rightarrow> payload \<Rightarrow> scdk_grant_slot option" where
  "grant_view s p =
     (case p of
        PGrant i \<Rightarrow> Some (grant_table s i)
      | PUserGrant i \<Rightarrow> Some (user_slot_as_grant (user_grants s i))
      | _ \<Rightarrow> None)"

section \<open>Operations\<close>

definition grant_lookup :: "'a grant_state_scheme \<Rightarrow> u64 \<Rightarrow> u64 \<Rightarrow> scdk_grant res" where
  "grant_lookup s cap required_rights =
     (case scdk_cap_check s cap required_rights SCDK_OBJ_GRANT of
        Inl e \<Rightarrow> Inl e
      | Inr entry \<Rightarrow>
          (case scdk_object_lookup s (ce_object_id entry) of
             Inl e \<Rightarrow> Inl e
           | Inr object \<Rightarrow>
               (case grant_view s (obj_payload object) of
                  None \<Rightarrow> Inl SCDK_ERR_NOENT
                | Some slot \<Rightarrow>
                    if gs_object_id slot \<noteq> ce_object_id entry then Inl SCDK_ERR_NOENT else Inr (gs_grant slot))))"

definition grant_check_range :: "scdk_grant \<Rightarrow> u64 \<Rightarrow> u64 \<Rightarrow> u64 \<Rightarrow> scdk_status" where
  "grant_check_range g required_rights offset len =
     (if required_rights = 0 \<or> required_rights AND NOT SCDK_GRANT_RIGHTS_MASK \<noteq> 0 \<or> len = 0 then SCDK_ERR_INVAL
      else if g_rights g AND required_rights \<noteq> required_rights then SCDK_ERR_PERM
      else if offset < g_offset g then SCDK_ERR_BOUNDS
      else
        (let relative_offset = offset - g_offset g
         in if relative_offset > g_length g \<or> len > g_length g - relative_offset then SCDK_ERR_BOUNDS
            else SCDK_OK))"

abbreviation set_grant_slot :: "'a grant_state_scheme \<Rightarrow> nat \<Rightarrow> scdk_grant_slot \<Rightarrow> 'a grant_state_scheme" where
  "set_grant_slot s i sl \<equiv> s\<lparr>grant_table := (grant_table s)(i := sl)\<rparr>"

definition scdk_grant_create ::
  "'a grant_state_scheme \<Rightarrow> u64 \<Rightarrow> u64 \<Rightarrow> u64 \<Rightarrow> u32 \<Rightarrow> u64 res \<times> 'a grant_state_scheme"
where
  "scdk_grant_create s base len rights lifetime =
     (if base = 0 \<or> len = 0 \<or> rights = 0 \<or> rights AND NOT SCDK_GRANT_RIGHTS_MASK \<noteq> 0 then (Inl SCDK_ERR_INVAL, s)
      else case first_slot (\<lambda>i. gs_object_id (grant_table s i) = 0) SCDK_MAX_GRANTS of
        None \<Rightarrow> (Inl SCDK_ERR_NOMEM, s)
      | Some i \<Rightarrow>
          bind_slot s SCDK_OBJ_GRANT SCDK_BOOT_CORE (PGrant i)
            (\<lambda>oid s. set_grant_slot s i \<lparr>gs_object_id = oid, gs_grant = \<lparr>g_frame_cap = 0, g_base = base, g_offset = 0,
               g_length = len, g_rights = rights, g_lifetime = lifetime, g_refcount = 1\<rparr>\<rparr>)
            (\<lambda>s. set_grant_slot s i ((grant_table s i)\<lparr>gs_object_id := 0\<rparr>))
            rights)"

definition scdk_grant_check :: "'a grant_state_scheme \<Rightarrow> u64 \<Rightarrow> u64 \<Rightarrow> u64 \<Rightarrow> u64 \<Rightarrow> scdk_status" where
  "scdk_grant_check s grant required_rights offset len =
     (case grant_lookup s grant required_rights of
        Inl e \<Rightarrow> e
      | Inr g \<Rightarrow> grant_check_range g required_rights offset len)"

definition scdk_grant_resolve :: "'a grant_state_scheme \<Rightarrow> u64 \<Rightarrow> u64 \<Rightarrow> u64 \<Rightarrow> u64 \<Rightarrow> u64 res" where
  "scdk_grant_resolve s grant required_rights offset len =
     (case grant_lookup s grant required_rights of
        Inl e \<Rightarrow> Inl e
      | Inr g \<Rightarrow>
          (let status = grant_check_range g required_rights offset len
           in if status \<noteq> SCDK_OK then Inl status
              else Inr (g_base g + (offset - g_offset g))))"

section \<open>Range checks\<close>

text \<open>The check accepts exactly the non-empty sub-ranges, with no wrap-around.\<close>

lemma grant_check_range_OK:
  "grant_check_range g r off len = SCDK_OK \<longleftrightarrow>
     r \<noteq> 0 \<and> r AND NOT SCDK_GRANT_RIGHTS_MASK = 0 \<and> g_rights g AND r = r \<and> len \<noteq> 0 \<and>
     unat (g_offset g) \<le> unat off \<and> unat off + unat len \<le> unat (g_offset g) + unat (g_length g)"
proof -
  have "(\<not> off - g_offset g > g_length g \<and> \<not> len > g_length g - (off - g_offset g)) \<longleftrightarrow>
      unat off + unat len \<le> unat (g_offset g) + unat (g_length g)" if "g_offset g \<le> off" "len \<noteq> 0"
  proof -
    have d: "unat (off - g_offset g) = unat off - unat (g_offset g)" "unat (g_offset g) \<le> unat off"
      using that(1) by (simp_all add: unat_sub word_le_nat_alt)
    show ?thesis
    proof (cases "off - g_offset g \<le> g_length g")
      case True
      then have "unat (g_length g - (off - g_offset g)) = unat (g_length g) - (unat off - unat (g_offset g))"
        by (simp add: unat_sub d)
      with True d show ?thesis by (auto simp: word_le_nat_alt not_less)
    next
      case False
      with d show ?thesis by (auto simp: word_le_nat_alt not_less)
    qed
  qed
  moreover have "off < g_offset g \<longleftrightarrow> \<not> unat (g_offset g) \<le> unat off" by (simp add: word_less_nat_alt not_le)
  ultimately show ?thesis
    unfolding grant_check_range_def Let_def by (auto simp: word_le_nat_alt)
qed

section \<open>Frames and invariant\<close>

lemma grant_upd [simp]:
  "scdk_object_lookup (s\<lparr>grant_table := x\<rparr>) = scdk_object_lookup s"
  "scdk_cap_lookup (s\<lparr>grant_table := x\<rparr>) = scdk_cap_lookup s"
  "scdk_cap_check (s\<lparr>grant_table := x\<rparr>) = scdk_cap_check s"
  "kern_inv (s\<lparr>grant_table := x\<rparr>) = kern_inv s"
  "scdk_object_lookup (s\<lparr>user_grants := y\<rparr>) = scdk_object_lookup s"
  "scdk_cap_lookup (s\<lparr>user_grants := y\<rparr>) = scdk_cap_lookup s"
  "scdk_cap_check (s\<lparr>user_grants := y\<rparr>) = scdk_cap_check s"
  "kern_inv (s\<lparr>user_grants := y\<rparr>) = kern_inv s"
  by (rule frame_rules; simp)+

lemma grant_upd_same [simp]: "core_same s (s\<lparr>grant_table := x\<rparr>)" "core_same s (s\<lparr>user_grants := y\<rparr>)"
  by (simp_all add: core_same_def)

lemma grant_low_frame [kframe]:
  "scdk_object_create s ty c f p = (r, s') \<Longrightarrow> grant_table s' = grant_table s \<and> user_grants s' = user_grants s"
  "scdk_cap_create s oid rights = (r, s') \<Longrightarrow> grant_table s' = grant_table s \<and> user_grants s' = user_grants s"
  "scdk_cap_revoke s cap = (q, s') \<Longrightarrow> grant_table s' = grant_table s \<and> user_grants s' = user_grants s"
  by (auto elim: object_create_cases cap_create_cases cap_revoke_cases)

definition grant_inv :: "'a grant_state_scheme \<Rightarrow> bool" where
  "grant_inv s \<longleftrightarrow>
     slot_bound s SCDK_OBJ_GRANT PGrant SCDK_MAX_GRANTS (gs_object_id \<circ> grant_table s) \<and>
     slot_bound s SCDK_OBJ_GRANT PUserGrant SCDK_MAX_USER_GRANTS (ug_object_id \<circ> user_grants s)"

lemma grant_inv_khist:
  "khist s s' \<Longrightarrow> kern_inv s \<Longrightarrow> grant_inv s \<Longrightarrow> grant_table s' = grant_table s \<Longrightarrow> user_grants s' = user_grants s \<Longrightarrow> grant_inv s'"
  using khist_slot_bound [of s s' SCDK_OBJ_GRANT PGrant] khist_slot_bound [of s s' SCDK_OBJ_GRANT PUserGrant]
  by (simp add: grant_inv_def)

lemma grant_lookup_Inr:
  "grant_lookup s cap r = Inr g \<longleftrightarrow> (\<exists>e ob slot. scdk_cap_check s cap r SCDK_OBJ_GRANT = Inr e \<and>
     scdk_object_lookup s (ce_object_id e) = Inr ob \<and> grant_view s (obj_payload ob) = Some slot \<and>
     gs_object_id slot = ce_object_id e \<and> g = gs_grant slot)"
  by (auto simp: grant_lookup_def split: sum.splits option.splits)

lemma grant_create_cases:
  assumes "scdk_grant_create s base len rights lifetime = (r, s')"
  obtains (refused) e where "r = Inl e" "s' = s"
  | (slot) i where "base \<noteq> 0" "len \<noteq> 0" "rights \<noteq> 0" "rights AND NOT SCDK_GRANT_RIGHTS_MASK = 0"
      "i < SCDK_MAX_GRANTS" "gs_object_id (grant_table s i) = 0"
      "bind_slot s SCDK_OBJ_GRANT SCDK_BOOT_CORE (PGrant i)
            (\<lambda>oid s. set_grant_slot s i \<lparr>gs_object_id = oid, gs_grant = \<lparr>g_frame_cap = 0, g_base = base, g_offset = 0,
               g_length = len, g_rights = rights, g_lifetime = lifetime, g_refcount = 1\<rparr>\<rparr>)
            (\<lambda>s. set_grant_slot s i ((grant_table s i)\<lparr>gs_object_id := 0\<rparr>)) rights = (r, s')"
proof (cases "first_slot (\<lambda>i. gs_object_id (grant_table s i) = 0) SCDK_MAX_GRANTS")
  case None
  with assms show ?thesis by (auto simp: scdk_grant_create_def intro: refused split: if_splits)
next
  case (Some i)
  then have "i < SCDK_MAX_GRANTS" "gs_object_id (grant_table s i) = 0" by (simp_all add: scan_facts)
  with Some assms show ?thesis
    by (cases "base = 0 \<or> len = 0 \<or> rights = 0 \<or> rights AND NOT SCDK_GRANT_RIGHTS_MASK \<noteq> 0")
      (auto simp: scdk_grant_create_def intro: refused slot)
qed

lemma grant_create_khist: "scdk_grant_create s base len rights lifetime = (r, s') \<Longrightarrow> khist s s'"
  by (erule grant_create_cases) (auto intro: kh_refl bind_slot_khist)

lemma grant_create_inv:
  assumes inv: "kern_inv s" "grant_inv s" and c: "scdk_grant_create s base len rights lifetime = (r, s')"
  shows "grant_inv s'"
  using c
proof (cases rule: grant_create_cases)
  case (slot i)
  note kh = grant_create_khist [OF c]
  from slot(7) show ?thesis
  proof (cases rule: bind_slot_cases)
    case (nocap oid s1 s3 e)
    have t: "grant_table s' = (grant_table s)(i := (grant_table s' i)\<lparr>gs_object_id := 0\<rparr>)" "user_grants s' = user_grants s"
      using grant_low_frame(1) [OF nocap(1)] grant_low_frame(2) [OF nocap(2)] nocap(4) by simp_all
    have "slot_bound s' SCDK_OBJ_GRANT PGrant SCDK_MAX_GRANTS ((gs_object_id \<circ> grant_table s)(i := 0))"
      using khist_slot_bound [OF kh inv(1)] inv(2) by (intro slot_bound_clear) (simp add: grant_inv_def)
    moreover have "gs_object_id \<circ> grant_table s' = (gs_object_id \<circ> grant_table s)(i := 0)"
      by (subst t(1)) (simp add: comp_fun_upd)
    ultimately show ?thesis
      using khist_slot_bound [OF kh inv(1), of SCDK_OBJ_GRANT PUserGrant] inv(2) t(2) by (simp add: grant_inv_def)
  next
    case (created oid s1 cap)
    have "slot_bound s' SCDK_OBJ_GRANT PGrant SCDK_MAX_GRANTS ((gs_object_id \<circ> grant_table s)(i := oid))"
      using inv(2) by (intro bind_slot_bound [where pay = PGrant, OF _ created(1,2) _ inv(1)]) (simp_all add: grant_inv_def)
    then show ?thesis
      using grant_low_frame(1) [OF created(1)] grant_low_frame(2) [OF created(2)]
        khist_slot_bound [OF kh inv(1), of SCDK_OBJ_GRANT PUserGrant] inv(2)
      by (simp add: grant_inv_def comp_fun_upd)
  qed (use inv in simp)
qed (use inv in simp)

section \<open>Properties\<close>

text \<open>
  (C26) Access through a kernel grant is confined: whenever \<^verbatim>\<open>scdk_grant_resolve\<close> yields a
  pointer for a capability of a kernel grant, the whole requested range lies
  inside the granted memory (for a grant that does not wrap around the end of
  the address space), and the grant carries the required rights.
\<close>

theorem grant_resolve_confined:
  assumes "scdk_grant_resolve s cap r off len = Inr ptr"
    and "scdk_cap_lookup s cap = Inr e" and "scdk_object_lookup s (ce_object_id e) = Inr ob"
    and "obj_payload ob = PGrant i" and "g = gs_grant (grant_table s i)"
    and "unat (g_base g) + unat (g_length g) \<le> 2 ^ 64"
  shows "unat (g_base g) \<le> unat ptr \<and> unat ptr + unat len \<le> unat (g_base g) + unat (g_length g) \<and>
    g_rights g AND r = r \<and> ce_rights e AND r = r \<and> ce_object_type e = SCDK_OBJ_GRANT"
proof -
  have c: "scdk_cap_check s cap r SCDK_OBJ_GRANT = Inr e" and l: "grant_lookup s cap r = Inr g"
    and ok: "grant_check_range g r off len = SCDK_OK" and p: "ptr = g_base g + (off - g_offset g)"
    using assms(1-5) by (auto simp: scdk_grant_resolve_def grant_lookup_Inr grant_view_def cap_check_Inr Let_def
        split: sum.splits if_splits)
  from ok have b: "unat (g_offset g) \<le> unat off" "unat off + unat len \<le> unat (g_offset g) + unat (g_length g)"
    "len \<noteq> 0" by (simp_all add: grant_check_range_OK)
  have "unat (off - g_offset g) = unat off - unat (g_offset g)" using b(1) by (simp add: unat_sub word_le_nat_alt)
  moreover have "0 < unat len" using b(3) by (simp add: unat_gt_0)
  ultimately have "unat ptr = unat (g_base g) + (unat off - unat (g_offset g))"
    using b assms(6) by (simp add: p unat_word_ariths)
  moreover have "g_rights g AND r = r \<and> ce_rights e AND r = r \<and> ce_object_type e = SCDK_OBJ_GRANT"
    using ok c by (simp add: grant_check_range_OK cap_check_Inr)
  ultimately show ?thesis using b by linarith
qed

text \<open>
  A grant gives exactly what it was created with: through the capability that
  \<^verbatim>\<open>scdk_grant_create\<close> returned, an access with rights contained in the grant's
  rights resolves to the address at the offset when it lies inside the range, and
  is refused otherwise, and an access with any further right is refused.
\<close>

theorem grant_create_resolve:
  assumes "kern_inv s" and "scdk_grant_create s base glen rights lifetime = (Inr cap, s')"
    and "r \<noteq> 0" and "len \<noteq> 0"
  shows "scdk_grant_resolve s' cap r off len =
    (if rights AND r \<noteq> r then Inl SCDK_ERR_PERM
     else if unat off + unat len \<le> unat glen then Inr (base + off) else Inl SCDK_ERR_BOUNDS)"
  using assms(2)
proof (cases rule: grant_create_cases)
  case (slot i)
  let ?g = "\<lparr>g_frame_cap = 0, g_base = base, g_offset = 0, g_length = glen, g_rights = rights,
    g_lifetime = lifetime, g_refcount = 1\<rparr>"
  from slot(7) show ?thesis
  proof (cases rule: bind_slot_cases)
    case (created oid s1 cap')
    have ok: "payload_ok SCDK_OBJ_GRANT (PGrant i)" using slot(5) by simp
    obtain ob where ob: "scdk_object_lookup s' oid = Inr ob" "obj_payload ob = PGrant i"
      using bind_slot_object [OF created(1,2) grant_upd_same(1)] by blast
    obtain e where e: "scdk_cap_check s' cap rights SCDK_OBJ_GRANT = Inr e" "ce_object_id e = oid"
      using bind_slot_cap [OF created(1,2) grant_upd_same(1) assms(1) ok, of rights] slot(3) created(3) by auto
    have re: "ce_rights e = rights"
    proof -
      have "cap_inv (set_grant_slot s1 i \<lparr>gs_object_id = oid, gs_grant = ?g\<rparr>)"
        using khist_inv [OF kh_object [OF kh_refl created(1) ok] assms(1)] core_same_inv [OF grant_upd_same(1)]
          kern_invD(1) by blast
      from cap_create_look [OF this created(2)] e(1) created(3) show ?thesis by (auto simp: cap_check_Inr)
    qed
    have t: "grant_table s' i = \<lparr>gs_object_id = oid, gs_grant = ?g\<rparr>"
      using grant_low_frame(2) [OF created(2)] by simp
    show ?thesis
    proof (cases "rights AND r = r")
      case False
      then have "scdk_cap_check s' cap r SCDK_OBJ_GRANT = Inl SCDK_ERR_PERM"
        using e(1) [unfolded cap_check_Inr] re assms(3) by (auto simp: scdk_cap_check_def)
      with False show ?thesis by (simp add: scdk_grant_resolve_def grant_lookup_def)
    next
      case True
      then have "scdk_cap_check s' cap r SCDK_OBJ_GRANT = Inr e"
        using e re assms(3) by (auto simp: cap_check_Inr)
      then have l: "grant_lookup s' cap r = Inr ?g"
        using e ob t by (simp add: grant_lookup_def grant_view_def)
      have "(rights AND r) AND NOT SCDK_GRANT_RIGHTS_MASK = (rights AND NOT SCDK_GRANT_RIGHTS_MASK) AND r"
        by (simp only: ac_simps)
      then have sub: "r AND NOT SCDK_GRANT_RIGHTS_MASK = 0" using True slot(4) by simp
      show ?thesis
      proof (cases "unat off + unat len \<le> unat glen")
        case fits: True
        then have "grant_check_range ?g r off len = SCDK_OK"
          using True sub assms(3,4) by (simp add: grant_check_range_OK)
        with l fits True show ?thesis by (simp add: scdk_grant_resolve_def)
      next
        case nofit: False
        then have "grant_check_range ?g r off len \<noteq> SCDK_OK" by (simp add: grant_check_range_OK)
        then have "grant_check_range ?g r off len = SCDK_ERR_BOUNDS"
          using True sub assms(3,4) by (simp add: grant_check_range_def Let_def split: if_splits)
        with l nofit True show ?thesis by (simp add: scdk_grant_resolve_def)
      qed
    qed
  qed simp_all
qed simp

definition grant_boot :: grant_state where
  "grant_boot = \<lparr>object_table = (\<lambda>i. null_object), object_generations = (\<lambda>i. 0),
     cap_table = (\<lambda>i. null_cap_entry), cap_generations = (\<lambda>i. 0),
     endpoint_table = (\<lambda>i. null_endpoint), service_table = (\<lambda>i. null_service_slot),
     ring_table = (\<lambda>i. null_ring_slot), grant_table = (\<lambda>i. null_grant_slot), user_grants = (\<lambda>i. null_user_grant)\<rparr>"

lemma grant_boot_inv: "kern_inv grant_boot" "grant_inv grant_boot"
  by (auto simp: grant_boot_def kern_inv_def cap_inv_def obj_inv_def objs_ok_def cap_live_def null_cap_entry_def
      null_object_def scdk_object_lookup_def Let_def grant_inv_def slot_bound_def null_grant_slot_def
      null_user_grant_def split: if_splits)

definition grant_demo :: grant_state where
  "grant_demo = snd (scdk_grant_create grant_boot 0x1000 64 SCDK_RIGHT_READ 1)"

lemma grant_demo_create: "scdk_grant_create grant_boot 0x1000 64 SCDK_RIGHT_READ 1 = (Inr 0x100000000, grant_demo)"
proof -
  have "fst (scdk_grant_create grant_boot 0x1000 64 SCDK_RIGHT_READ 1) = Inr 0x100000000" by code_simp
  then show ?thesis by (metis grant_demo_def prod.collapse)
qed

theorem grant_create_resolve_witness:
  "scdk_grant_resolve grant_demo 0x100000000 SCDK_RIGHT_READ 60 4 = Inr 0x103c \<and>
   scdk_grant_resolve grant_demo 0x100000000 SCDK_RIGHT_READ 61 4 = Inl SCDK_ERR_BOUNDS \<and>
   scdk_grant_resolve grant_demo 0x100000000 SCDK_RIGHT_READ (- 1) 2 = Inl SCDK_ERR_BOUNDS \<and>
   scdk_grant_resolve grant_demo 0x100000000 SCDK_RIGHT_WRITE 0 4 = Inl SCDK_ERR_PERM"
  using grant_create_resolve [OF grant_boot_inv(1) grant_demo_create, of SCDK_RIGHT_READ 4 60]
    grant_create_resolve [OF grant_boot_inv(1) grant_demo_create, of SCDK_RIGHT_READ 4 61]
    grant_create_resolve [OF grant_boot_inv(1) grant_demo_create, of SCDK_RIGHT_READ 2 "- 1"]
    grant_create_resolve [OF grant_boot_inv(1) grant_demo_create, of SCDK_RIGHT_WRITE 4 0]
  by (simp add: kconst unsigned_minus_1_eq_mask mask_eq_exp_minus_1)

theorem grant_resolve_confined_witness:
  "\<exists>e ob ptr. scdk_cap_lookup grant_demo 0x100000000 = Inr e \<and> scdk_object_lookup grant_demo (ce_object_id e) = Inr ob \<and>
     scdk_grant_resolve grant_demo 0x100000000 SCDK_RIGHT_READ 60 4 = Inr ptr \<and> unat ptr + 4 \<le> 0x1000 + 64"
proof -
  define e where "e = \<lparr>ce_object_id = 0x100000000, ce_generation = 1, ce_object_type = SCDK_OBJ_GRANT,
    ce_revoked = 0, ce_rights = SCDK_RIGHT_READ\<rparr>"
  define ob where "ob = \<lparr>obj_id = 0x100000000, obj_type = SCDK_OBJ_GRANT, obj_generation = 1, obj_owner_core = 0,
    obj_flags = 0, obj_payload = PGrant 0\<rparr>"
  have "scdk_cap_lookup grant_demo 0x100000000 = Inr e" unfolding e_def by code_simp
  moreover have "scdk_object_lookup grant_demo (ce_object_id e) = Inr ob" unfolding e_def ob_def by code_simp
  moreover have "scdk_grant_resolve grant_demo 0x100000000 SCDK_RIGHT_READ 60 4 = Inr 0x103c" by code_simp
  moreover have "gs_grant (grant_table grant_demo 0) = \<lparr>g_frame_cap = 0, g_base = 0x1000, g_offset = 0,
    g_length = 64, g_rights = SCDK_RIGHT_READ, g_lifetime = 1, g_refcount = 1\<rparr>" by code_simp
  ultimately show ?thesis
    using grant_resolve_confined [of grant_demo "0x100000000" SCDK_RIGHT_READ 60 4 "0x103c" e ob 0]
    by (simp add: ob_def)
qed

end
