(* ===== verification/SCDK_Pmm.thy ===== *)
theory SCDK_Pmm
  imports SCDK_Interfaces
begin

text \<open>
  The physical page allocator, \<^verbatim>\<open>src/mm/pmm.c\<close>: a stack of free 4 KiB pages filled from
  the boot loader's memory map, and the lists of usable and reserved regions the
  release of a page is checked against. \<^verbatim>\<open>free_pages\<close> and \<^verbatim>\<open>managed_pages\<close> are natural
  numbers here: both are only incremented below \<^verbatim>\<open>SCDK_PMM_MAX_PAGES\<close>. The arrays of
  regions with their counters are lists.
\<close>

section \<open>Data\<close>

definition SCDK_PAGE_SIZE :: u64 where [kconst]: "SCDK_PAGE_SIZE = 4096"
definition SCDK_PMM_MAX_PAGES :: nat where [kconst]: "SCDK_PMM_MAX_PAGES = 262144"
definition SCDK_PMM_MAX_REGIONS :: nat where [kconst]: "SCDK_PMM_MAX_REGIONS = 128"
definition LIMINE_MEMMAP_USABLE :: u64 where [kconst]: "LIMINE_MEMMAP_USABLE = 0"

record limine_memmap_entry =
  mm_base :: u64
  mm_length :: u64
  mm_type :: u64

record scdk_pmm_region =
  pr_base :: u64
  pr_length :: u64
  pr_type :: u64

record pmm_state =
  page_stack :: "nat \<Rightarrow> u64"
  free_pages :: nat
  managed_pages :: nat
  allocated_pages :: u64
  usable_regions :: "scdk_pmm_region list"
  reserved_regions :: "scdk_pmm_region list"
  pmm_initialized :: bool

section \<open>Operations\<close>

definition align_up :: "u64 \<Rightarrow> u64 \<Rightarrow> u64" where
  "align_up value alignment = (value + alignment - 1) AND NOT (alignment - 1)"

definition align_down :: "u64 \<Rightarrow> u64 \<Rightarrow> u64" where
  "align_down value alignment = value AND NOT (alignment - 1)"

definition range_contains_page :: "scdk_pmm_region \<Rightarrow> u64 \<Rightarrow> bool" where
  "range_contains_page region phys =
     (let lim = pr_base region + pr_length region
      in if lim < pr_base region then False
         else phys \<ge> pr_base region \<and> phys + SCDK_PAGE_SIZE \<le> lim)"

definition page_overlaps_region :: "scdk_pmm_region \<Rightarrow> u64 \<Rightarrow> bool" where
  "page_overlaps_region region phys =
     (let page_end = phys + SCDK_PAGE_SIZE;
          region_end = pr_base region + pr_length region
      in if page_end < phys \<or> region_end < pr_base region then True
         else phys < region_end \<and> page_end > pr_base region)"

definition record_region :: "scdk_pmm_region list \<Rightarrow> u64 \<Rightarrow> u64 \<Rightarrow> u64 \<Rightarrow> scdk_pmm_region list" where
  "record_region regions base len type =
     (if length regions \<ge> SCDK_PMM_MAX_REGIONS then regions
      else regions @ [\<lparr>pr_base = base, pr_length = len, pr_type = type\<rparr>])"

definition page_stack_contains :: "'a pmm_state_scheme \<Rightarrow> u64 \<Rightarrow> bool" where
  "page_stack_contains s phys \<longleftrightarrow> first_slot (\<lambda>i. page_stack s i = phys) (free_pages s) \<noteq> None"

function collect_usable_region :: "'a pmm_state_scheme \<Rightarrow> u64 \<Rightarrow> u64 \<Rightarrow> scdk_status \<times> 'a pmm_state_scheme" where
  "collect_usable_region s page lim =
     (if page + SCDK_PAGE_SIZE \<le> lim
      then if free_pages s \<ge> SCDK_PMM_MAX_PAGES then (SCDK_ERR_BUSY, s)
           else collect_usable_region
                  (s\<lparr>page_stack := (page_stack s)(free_pages s := page), free_pages := free_pages s + 1,
                     managed_pages := managed_pages s + 1\<rparr>)
                  (page + SCDK_PAGE_SIZE) lim
      else (SCDK_OK, s))"
  by pat_completeness auto
termination
  by (relation "measure (\<lambda>(s, page, lim). SCDK_PMM_MAX_PAGES - free_pages s)") auto

declare collect_usable_region.simps [simp del]

text \<open>One turn of the loop over the memory map, and the loop, which stops at \<^verbatim>\<open>break\<close>.\<close>

definition pmm_init_entry ::
  "'a pmm_state_scheme \<Rightarrow> limine_memmap_entry option \<Rightarrow> bool \<times> 'a pmm_state_scheme"
where
  "pmm_init_entry s e =
     (case e of
        None \<Rightarrow> (True, s)
      | Some entry \<Rightarrow>
          if mm_length entry = 0 then (True, s)
          else
            (let raw_end = mm_base entry + mm_length entry
             in if raw_end < mm_base entry then (True, s)
                else
                  (let base = align_up (mm_base entry) SCDK_PAGE_SIZE;
                       lim = align_down raw_end SCDK_PAGE_SIZE
                   in if lim \<le> base then (True, s)
                      else if mm_type entry = LIMINE_MEMMAP_USABLE
                      then (case collect_usable_region
                              (s\<lparr>usable_regions := record_region (usable_regions s) base (lim - base) (mm_type entry)\<rparr>)
                              base lim of
                              (status, s1) \<Rightarrow> (status = SCDK_OK, s1))
                      else (True, s\<lparr>reserved_regions :=
                              record_region (reserved_regions s) base (lim - base) (mm_type entry)\<rparr>))))"

fun pmm_init_loop :: "'a pmm_state_scheme \<Rightarrow> limine_memmap_entry option list \<Rightarrow> 'a pmm_state_scheme" where
  "pmm_init_loop s [] = s"
| "pmm_init_loop s (e # es) =
     (case pmm_init_entry s e of
        (True, s1) \<Rightarrow> pmm_init_loop s1 es
      | (False, s1) \<Rightarrow> s1)"

definition scdk_pmm_init ::
  "'a pmm_state_scheme \<Rightarrow> limine_memmap_entry option list \<Rightarrow> scdk_status \<times> 'a pmm_state_scheme"
where
  "scdk_pmm_init s memmap =
     (if memmap = [] then (SCDK_ERR_INVAL, s)
      else
        (let s1 = pmm_init_loop (s\<lparr>free_pages := 0, managed_pages := 0, allocated_pages := 0,
                    usable_regions := [], reserved_regions := [], pmm_initialized := False\<rparr>) memmap
         in if managed_pages s1 = 0 then (SCDK_ERR_NOMEM, s1)
            else (SCDK_OK, s1\<lparr>pmm_initialized := True\<rparr>)))"

definition scdk_page_alloc :: "'a pmm_state_scheme \<Rightarrow> u64 res \<times> 'a pmm_state_scheme" where
  "scdk_page_alloc s =
     (if \<not> pmm_initialized s then (Inl SCDK_ERR_NOTSUP, s)
      else if free_pages s = 0 then (Inl SCDK_ERR_NOMEM, s)
      else (Inr (page_stack s (free_pages s - 1)),
            s\<lparr>free_pages := free_pages s - 1, allocated_pages := allocated_pages s + 1\<rparr>))"

definition scdk_pmm_is_usable_page :: "'a pmm_state_scheme \<Rightarrow> u64 \<Rightarrow> bool" where
  "scdk_pmm_is_usable_page s phys =
     (if phys AND (SCDK_PAGE_SIZE - 1) \<noteq> 0 then False
      else list_ex (\<lambda>region. range_contains_page region phys) (usable_regions s))"

definition scdk_pmm_is_reserved_page :: "'a pmm_state_scheme \<Rightarrow> u64 \<Rightarrow> bool" where
  "scdk_pmm_is_reserved_page s phys =
     (if phys AND (SCDK_PAGE_SIZE - 1) \<noteq> 0 then True
      else if list_ex (\<lambda>region. page_overlaps_region region phys) (reserved_regions s) then True
      else \<not> scdk_pmm_is_usable_page s phys)"

definition scdk_page_free :: "'a pmm_state_scheme \<Rightarrow> u64 \<Rightarrow> scdk_status \<times> 'a pmm_state_scheme" where
  "scdk_page_free s phys =
     (if \<not> pmm_initialized s then (SCDK_ERR_NOTSUP, s)
      else if phys AND (SCDK_PAGE_SIZE - 1) \<noteq> 0 then (SCDK_ERR_INVAL, s)
      else if \<not> scdk_pmm_is_usable_page s phys \<or> scdk_pmm_is_reserved_page s phys then (SCDK_ERR_BOUNDS, s)
      else if page_stack_contains s phys then (SCDK_ERR_BUSY, s)
      else if free_pages s \<ge> SCDK_PMM_MAX_PAGES then (SCDK_ERR_NOMEM, s)
      else (SCDK_OK, s\<lparr>page_stack := (page_stack s)(free_pages s := phys), free_pages := free_pages s + 1,
              allocated_pages := (if allocated_pages s > 0 then allocated_pages s - 1 else allocated_pages s)\<rparr>))"

record scdk_pmm_stats =
  st_managed_pages :: u64
  st_free_pages :: u64
  st_allocated_pages :: u64
  st_usable_regions :: u64
  st_reserved_regions :: u64

definition scdk_pmm_get_stats :: "'a pmm_state_scheme \<Rightarrow> scdk_pmm_stats" where
  "scdk_pmm_get_stats s = \<lparr>st_managed_pages = of_nat (managed_pages s), st_free_pages = of_nat (free_pages s),
     st_allocated_pages = allocated_pages s, st_usable_regions = of_nat (length (usable_regions s)),
     st_reserved_regions = of_nat (length (reserved_regions s))\<rparr>"

section \<open>The allocator as a page source\<close>

definition stack_pages :: "'a pmm_state_scheme \<Rightarrow> u64 list" where
  "stack_pages s = map (page_stack s) [0..<free_pages s]"

definition managed :: "'a pmm_state_scheme \<Rightarrow> u64 set" where
  "managed s = {p. scdk_pmm_is_usable_page s p \<and> \<not> scdk_pmm_is_reserved_page s p}"

definition pmm_inv :: "'a pmm_state_scheme \<Rightarrow> bool" where
  "pmm_inv s \<longleftrightarrow> pmm_initialized s \<and> free_pages s \<le> SCDK_PMM_MAX_PAGES \<and> distinct (stack_pages s) \<and>
     set (stack_pages s) \<subseteq> managed s \<and> card (managed s) \<le> SCDK_PMM_MAX_PAGES"

lemma finite_managed [simp]: "finite (managed s)" by simp

lemma managed_frame:
  "usable_regions s' = usable_regions s \<Longrightarrow> reserved_regions s' = reserved_regions s \<Longrightarrow> managed s' = managed s"
  by (simp add: managed_def scdk_pmm_is_usable_page_def scdk_pmm_is_reserved_page_def)

lemma stack_len [simp]: "length (stack_pages s) = free_pages s"
  by (simp add: stack_pages_def)

lemma stack_contains: "page_stack_contains s p \<longleftrightarrow> p \<in> set (stack_pages s)"
  by (auto simp: page_stack_contains_def first_slot_None stack_pages_def)

lemma stack_push:
  "stack_pages (s\<lparr>page_stack := (page_stack s)(free_pages s := p), free_pages := free_pages s + 1\<rparr>) = stack_pages s @ [p]"
  by (simp add: stack_pages_def)

lemma page_alloc_Inr:
  assumes "scdk_page_alloc s = (Inr p, s')"
  shows "stack_pages s = stack_pages s' @ [p] \<and> free_pages s = Suc (free_pages s') \<and> managed s' = managed s \<and>
    pmm_initialized s' = pmm_initialized s"
proof -
  have nz: "free_pages s \<noteq> 0" and p: "p = page_stack s (free_pages s - 1)"
    and s': "s' = s\<lparr>free_pages := free_pages s - 1, allocated_pages := allocated_pages s + 1\<rparr>"
    using assms by (auto simp: scdk_page_alloc_def split: if_splits)
  from nz obtain n where n: "free_pages s = Suc n" by (cases "free_pages s") auto
  show ?thesis using managed_frame [of s' s] by (simp add: stack_pages_def s' p n)
qed

lemma page_free_OK:
  assumes "pmm_inv s" and "p \<in> managed s" and "p \<notin> set (stack_pages s)" and "scdk_page_free s p = (r, s')"
  shows "r = SCDK_OK \<and> stack_pages s' = stack_pages s @ [p] \<and> managed s' = managed s \<and>
    free_pages s' = Suc (free_pages s) \<and> pmm_initialized s'"
proof -
  have "set (stack_pages s) \<subset> managed s" using assms(1-3) by (auto simp: pmm_inv_def)
  then have "card (set (stack_pages s)) < card (managed s)" by (simp add: psubset_card_mono)
  then have "free_pages s < SCDK_PMM_MAX_PAGES"
    using assms(1) distinct_card [of "stack_pages s"] by (simp add: pmm_inv_def)
  moreover have "p AND (SCDK_PAGE_SIZE - 1) = 0" "scdk_pmm_is_usable_page s p" "\<not> scdk_pmm_is_reserved_page s p"
    using assms(2) by (auto simp: managed_def scdk_pmm_is_usable_page_def split: if_splits)
  ultimately have "r = SCDK_OK" and s': "s' = s\<lparr>page_stack := (page_stack s)(free_pages s := p), free_pages := free_pages s + 1,
      allocated_pages := (if allocated_pages s > 0 then allocated_pages s - 1 else allocated_pages s)\<rparr>"
    using assms by (auto simp: scdk_page_free_def pmm_inv_def stack_contains)
  then show ?thesis
    using managed_frame [of s' s] assms(1) by (simp add: stack_pages_def pmm_inv_def)
qed

interpretation pages: page_source
  pmm_inv "\<lambda>s. set (stack_pages s)" "\<lambda>s. managed s - set (stack_pages s)" scdk_page_alloc scdk_page_free
proof unfold_locales
  fix s s' :: "'a pmm_state_scheme" and p e r
  assume i: "pmm_inv s"
  show "set (stack_pages s) \<inter> (managed s - set (stack_pages s)) = {}" by blast
  show "pmm_inv s' \<and> p \<in> set (stack_pages s) \<and> set (stack_pages s') = set (stack_pages s) - {p} \<and>
      managed s' - set (stack_pages s') = insert p (managed s - set (stack_pages s))"
    if "scdk_page_alloc s = (Inr p, s')"
    using page_alloc_Inr [OF that] i by (auto simp: pmm_inv_def)
  show "s' = s \<and> set (stack_pages s) = {}" if "scdk_page_alloc s = (Inl e, s')"
    using that i by (auto simp: scdk_page_alloc_def pmm_inv_def stack_pages_def split: if_splits)
  show "r = SCDK_OK \<and> pmm_inv s' \<and> set (stack_pages s') = insert p (set (stack_pages s)) \<and>
      managed s' - set (stack_pages s') = managed s - set (stack_pages s) - {p}"
    if p: "p \<in> managed s - set (stack_pages s)" and f: "scdk_page_free s p = (r, s')"
  proof -
    have fo: "r = SCDK_OK" "stack_pages s' = stack_pages s @ [p]" "managed s' = managed s" "pmm_initialized s'"
      using page_free_OK [OF i _ _ f] p by auto
    have d: "distinct (stack_pages s')" "set (stack_pages s') \<subseteq> managed s'"
      using fo(2,3) p i by (auto simp: pmm_inv_def)
    then have "free_pages s' \<le> card (managed s')"
      using distinct_card [OF d(1)] card_mono [OF finite_managed d(2)] by simp
    then have "pmm_inv s'" using d fo(3,4) i by (simp add: pmm_inv_def)
    then show ?thesis using fo by auto
  qed
qed

section \<open>Page arithmetic\<close>

lemma page_mask: "SCDK_PAGE_SIZE - 1 = mask 12"
  by (simp add: SCDK_PAGE_SIZE_def mask_eq_exp_minus_1)

lemma page_aligned: "p AND (SCDK_PAGE_SIZE - 1) = 0 \<longleftrightarrow> 4096 dvd unat p"
proof -
  have "p AND (SCDK_PAGE_SIZE - 1) = take_bit 12 p" by (simp add: page_mask take_bit_eq_mask)
  then have "p AND (SCDK_PAGE_SIZE - 1) = 0 \<longleftrightarrow> unat (take_bit 12 p) = 0" by (simp add: unat_eq_0)
  moreover have "unat (take_bit 12 p) = take_bit 12 (unat p)" by (rule unsigned_take_bit_eq)
  moreover have "take_bit 12 (unat p) = unat p mod 4096" by (simp add: take_bit_eq_mod)
  ultimately show ?thesis by (simp only: dvd_eq_mod_eq_0)
qed

lemma unat_align_down: "unat (align_down x SCDK_PAGE_SIZE) = unat x div 4096 * 4096"
proof -
  have "align_down x SCDK_PAGE_SIZE = push_bit 12 (drop_bit 12 x)"
    unfolding align_down_def page_mask by (rule bit_word_eqI) (auto simp: bit_simps)
  then have "unat (align_down x SCDK_PAGE_SIZE) = unat (push_bit 12 (drop_bit 12 x))" by (simp only:)
  also have "\<dots> = take_bit 64 (push_bit 12 (drop_bit 12 (unat x)))"
    using unat_u64_less [of x]
    by (simp only: unsigned_push_bit_eq unsigned_drop_bit_eq) (simp add: take_bit_push_bit take_bit_nat_eq_self)
  also have "\<dots> = take_bit 64 (unat x div 4096 * 4096)"
    by (simp add: push_bit_eq_mult drop_bit_eq_div)
  finally have "unat (align_down x SCDK_PAGE_SIZE) = take_bit 64 (unat x div 4096 * 4096)" .
  moreover have "unat x div 4096 * 4096 < 2 ^ 64" using unat_u64_less [of x] by (simp add: div_times_less_eq_dividend le_less_trans)
  ultimately show ?thesis by (simp add: take_bit_eq_mod)
qed

lemma unat_align_up:
  assumes "unat x + 4096 \<le> 2 ^ 64"
  shows "unat (align_up x SCDK_PAGE_SIZE) = (unat x + 4095) div 4096 * 4096"
proof -
  have "align_up x SCDK_PAGE_SIZE = align_down (x + (SCDK_PAGE_SIZE - 1)) SCDK_PAGE_SIZE"
    by (simp add: align_up_def align_down_def add_diff_eq)
  moreover have "unat (x + (SCDK_PAGE_SIZE - 1)) = unat x + 4095"
    using assms by (simp add: SCDK_PAGE_SIZE_def unat_word_ariths)
  ultimately show ?thesis by (simp add: unat_align_down)
qed

lemma page_up_bound: "n \<le> (n + 4095) div 4096 * (4096 :: nat)"
  using div_mult_mod_eq [of "n + 4095" 4096] mod_less_divisor [of 4096 "n + 4095"] by linarith

section \<open>Collecting a region\<close>

lemma collect_ok:
  assumes "unat lim = unat page + 4096 * n" and "unat lim + 4096 < 2 ^ 64" and "free_pages s + n \<le> SCDK_PMM_MAX_PAGES"
  shows "\<exists>s'. collect_usable_region s page lim = (SCDK_OK, s') \<and>
    stack_pages s' = stack_pages s @ map (\<lambda>k. page + of_nat (4096 * k)) [0..<n] \<and>
    managed_pages s' = managed_pages s + n \<and> usable_regions s' = usable_regions s \<and>
    reserved_regions s' = reserved_regions s \<and> pmm_initialized s' = pmm_initialized s"
  using assms
proof (induction n arbitrary: s page)
  case 0
  then have "\<not> page + SCDK_PAGE_SIZE \<le> lim"
    by (simp add: word_le_nat_alt unat_word_ariths SCDK_PAGE_SIZE_def)
  then show ?case by (simp add: collect_usable_region.simps)
next
  case (Suc n)
  have np: "unat (page + SCDK_PAGE_SIZE) = unat page + 4096"
    using Suc.prems(1,2) by (simp add: unat_word_ariths SCDK_PAGE_SIZE_def)
  then have go: "page + SCDK_PAGE_SIZE \<le> lim" using Suc.prems(1) by (simp add: word_le_nat_alt)
  have room: "\<not> free_pages s \<ge> SCDK_PMM_MAX_PAGES" using Suc.prems(3) by simp
  let ?s1 = "s\<lparr>page_stack := (page_stack s)(free_pages s := page), free_pages := free_pages s + 1,
                     managed_pages := managed_pages s + 1\<rparr>"
  have st: "stack_pages ?s1 = stack_pages s @ [page]" by (simp add: stack_pages_def)
  obtain s' where s': "collect_usable_region ?s1 (page + SCDK_PAGE_SIZE) lim = (SCDK_OK, s')"
    "stack_pages s' = stack_pages ?s1 @ map (\<lambda>k. page + SCDK_PAGE_SIZE + of_nat (4096 * k)) [0..<n]"
    "managed_pages s' = managed_pages s + 1 + n" "usable_regions s' = usable_regions s"
    "reserved_regions s' = reserved_regions s" "pmm_initialized s' = pmm_initialized s"
    using Suc.IH [of "page + SCDK_PAGE_SIZE" ?s1] np Suc.prems by auto
  have "map (\<lambda>k. page + of_nat (4096 * k)) [0..<Suc n] = page # map (\<lambda>k. page + SCDK_PAGE_SIZE + of_nat (4096 * k)) [0..<n]"
    by (simp add: upt_conv_Cons map_Suc_upt [symmetric] SCDK_PAGE_SIZE_def algebra_simps del: upt_Suc)
  with s' st go room show ?case by (simp add: collect_usable_region.simps [of s])
qed

section \<open>The memory map\<close>

text \<open>
  What the Limine protocol promises of the memory map, and the bounds of the static
  arrays: entries lie below the 52-bit physical limit; usable entries are
  page-aligned and overlap no other entry; the regions and pages fit.
\<close>

definition usable_entry :: "limine_memmap_entry \<Rightarrow> bool" where
  "usable_entry e \<longleftrightarrow> mm_length e \<noteq> 0 \<and> mm_type e = LIMINE_MEMMAP_USABLE"

definition entry_pages :: "limine_memmap_entry \<Rightarrow> u64 list" where
  "entry_pages e = map (\<lambda>k. mm_base e + of_nat (4096 * k)) [0..<unat (mm_length e) div 4096]"

definition entry_region :: "limine_memmap_entry \<Rightarrow> scdk_pmm_region" where
  "entry_region e =
     (let base = align_up (mm_base e) SCDK_PAGE_SIZE; lim = align_down (mm_base e + mm_length e) SCDK_PAGE_SIZE
      in \<lparr>pr_base = base, pr_length = lim - base, pr_type = mm_type e\<rparr>)"

definition reserved_entry :: "limine_memmap_entry \<Rightarrow> bool" where
  "reserved_entry e \<longleftrightarrow> mm_length e \<noteq> 0 \<and> mm_type e \<noteq> LIMINE_MEMMAP_USABLE \<and>
     align_up (mm_base e) SCDK_PAGE_SIZE < align_down (mm_base e + mm_length e) SCDK_PAGE_SIZE"

definition entry_ok :: "limine_memmap_entry \<Rightarrow> bool" where
  "entry_ok e \<longleftrightarrow> unat (mm_base e) + unat (mm_length e) \<le> 2 ^ 52 \<and>
     (usable_entry e \<longrightarrow> 4096 dvd unat (mm_base e) \<and> 4096 dvd unat (mm_length e))"

definition entries_disjoint :: "limine_memmap_entry \<Rightarrow> limine_memmap_entry \<Rightarrow> bool" where
  "entries_disjoint e f \<longleftrightarrow> unat (mm_base e) + unat (mm_length e) \<le> unat (mm_base f) \<or>
     unat (mm_base f) + unat (mm_length f) \<le> unat (mm_base e)"

lemma entry_end: "entry_ok e \<Longrightarrow> unat (mm_base e + mm_length e) = unat (mm_base e) + unat (mm_length e)"
  by (simp add: entry_ok_def unat_word_ariths)

lemma entry_base_up:
  "entry_ok e \<Longrightarrow> unat (align_up (mm_base e) SCDK_PAGE_SIZE) = (unat (mm_base e) + 4095) div 4096 * 4096"
  by (rule unat_align_up) (simp add: entry_ok_def)

lemma usable_entry_bounds:
  assumes "entry_ok e" and "usable_entry e"
  shows "align_up (mm_base e) SCDK_PAGE_SIZE = mm_base e"
    and "align_down (mm_base e + mm_length e) SCDK_PAGE_SIZE = mm_base e + mm_length e"
proof -
  obtain b l where bl: "unat (mm_base e) = 4096 * b" "unat (mm_length e) = 4096 * l"
    using assms by (auto simp: entry_ok_def elim!: dvdE)
  have "unat (align_up (mm_base e) SCDK_PAGE_SIZE) = unat (mm_base e)"
    using entry_base_up [OF assms(1)] bl(1) by simp
  then show "align_up (mm_base e) SCDK_PAGE_SIZE = mm_base e" by (metis word_unat_eq_iff)
  have "unat (align_down (mm_base e + mm_length e) SCDK_PAGE_SIZE) = unat (mm_base e + mm_length e)"
    unfolding unat_align_down entry_end [OF assms(1)] bl distrib_left [symmetric] by simp
  then show "align_down (mm_base e + mm_length e) SCDK_PAGE_SIZE = mm_base e + mm_length e" by (metis word_unat_eq_iff)
qed

text \<open>The pages of an entry are the aligned pages inside it.\<close>

lemma entry_pages_iff:
  assumes "entry_ok e" and "usable_entry e"
  shows "p \<in> set (entry_pages e) \<longleftrightarrow> 4096 dvd unat p \<and> unat (mm_base e) \<le> unat p \<and>
    unat p + 4096 \<le> unat (mm_base e) + unat (mm_length e)"
proof -
  obtain b l where bl: "unat (mm_base e) = 4096 * b" "unat (mm_length e) = 4096 * l"
    using assms by (auto simp: entry_ok_def elim!: dvdE)
  have lim: "4096 * b + 4096 * l \<le> 2 ^ 52" using assms(1) bl by (simp add: entry_ok_def)
  have un: "unat (mm_base e + of_nat (4096 * k)) = 4096 * b + 4096 * k" if "k < l" for k
    using that lim bl(1) by (simp add: unat_word_ariths unat_of_nat)
  have "p \<in> set (entry_pages e) \<longleftrightarrow> (\<exists>k<l. unat p = 4096 * b + 4096 * k)"
  proof -
    have "p = mm_base e + of_nat (4096 * k) \<longleftrightarrow> unat p = 4096 * b + 4096 * k" if "k < l" for k
      unfolding un [OF that, symmetric] by (rule word_unat_eq_iff)
    moreover have "set (entry_pages e) = (\<lambda>k. mm_base e + of_nat (4096 * k)) ` {..<l}"
      unfolding entry_pages_def bl(2) by (simp add: lessThan_atLeast0)
    ultimately show ?thesis unfolding image_iff Bex_def lessThan_iff by blast
  qed
  also have "\<dots> \<longleftrightarrow> 4096 dvd unat p \<and> 4096 * b \<le> unat p \<and> unat p + 4096 \<le> 4096 * b + 4096 * l"
  proof
    assume "4096 dvd unat p \<and> 4096 * b \<le> unat p \<and> unat p + 4096 \<le> 4096 * b + 4096 * l"
    then obtain q where "unat p = 4096 * q" "b \<le> q" "q < b + l" by (auto elim!: dvdE)
    then show "\<exists>k<l. unat p = 4096 * b + 4096 * k" by (intro exI [of _ "q - b"]) auto
  next
    assume "\<exists>k<l. unat p = 4096 * b + 4096 * k"
    then obtain k where k: "k < l" "unat p = 4096 * b + 4096 * k" by blast
    then have "unat p = 4096 * (b + k)" by simp
    then have "4096 dvd unat p" by (rule dvdI)
    then show "4096 dvd unat p \<and> 4096 * b \<le> unat p \<and> unat p + 4096 \<le> 4096 * b + 4096 * l"
      using k by linarith
  qed
  finally show ?thesis by (simp add: bl)
qed

lemma entry_pages_distinct:
  assumes "entry_ok e" and "usable_entry e"
  shows "distinct (entry_pages e)"
proof -
  obtain b l where bl: "unat (mm_base e) = 4096 * b" "unat (mm_length e) = 4096 * l"
    using assms by (auto simp: entry_ok_def elim!: dvdE)
  have lim: "4096 * b + 4096 * l \<le> 2 ^ 52" using assms(1) bl by (simp add: entry_ok_def)
  have "inj_on (\<lambda>k. mm_base e + of_nat (4096 * k)) {0..<l}"
  proof (rule inj_onI)
    fix j k
    assume jk: "j \<in> {0..<l}" "k \<in> {0..<l}"
    assume "mm_base e + of_nat (4096 * j) = mm_base e + of_nat (4096 * k)"
    then have "unat (mm_base e + of_nat (4096 * j)) = unat (mm_base e + of_nat (4096 * k))" by (simp only:)
    then show "j = k" using jk lim bl(1) by (simp add: unat_word_ariths unat_of_nat)
  qed
  then show ?thesis by (simp add: entry_pages_def bl(2) distinct_map del: of_nat_mult)
qed

definition memmap_compat :: "limine_memmap_entry \<Rightarrow> limine_memmap_entry \<Rightarrow> bool" where
  "memmap_compat e f \<longleftrightarrow> (usable_entry e \<or> usable_entry f) \<longrightarrow> mm_length e \<noteq> 0 \<longrightarrow> mm_length f \<noteq> 0 \<longrightarrow> entries_disjoint e f"

abbreviation map_pages :: "limine_memmap_entry list \<Rightarrow> u64 list" where
  "map_pages ms \<equiv> concat (map entry_pages (filter usable_entry ms))"

definition memmap_ok :: "limine_memmap_entry list \<Rightarrow> bool" where
  "memmap_ok ms \<longleftrightarrow> (\<forall>e\<in>set ms. entry_ok e) \<and> sorted_wrt memmap_compat ms \<and>
     length (filter usable_entry ms) \<le> SCDK_PMM_MAX_REGIONS \<and>
     length (filter reserved_entry ms) \<le> SCDK_PMM_MAX_REGIONS \<and>
     length (map_pages ms) \<le> SCDK_PMM_MAX_PAGES \<and> map_pages ms \<noteq> [] \<and>
     list_ex reserved_entry ms"

section \<open>Initialisation\<close>

lemma init_entry_usable:
  assumes e: "entry_ok e" "usable_entry e" and room: "length (usable_regions s) < SCDK_PMM_MAX_REGIONS"
    and pages: "free_pages s + length (entry_pages e) \<le> SCDK_PMM_MAX_PAGES"
  shows "\<exists>s1. pmm_init_entry s (Some e) = (True, s1) \<and> stack_pages s1 = stack_pages s @ entry_pages e \<and>
    managed_pages s1 = managed_pages s + length (entry_pages e) \<and>
    usable_regions s1 = usable_regions s @ [entry_region e] \<and> reserved_regions s1 = reserved_regions s"
proof -
  let ?b = "mm_base e" and ?l = "mm_base e + mm_length e"
  obtain b l where bl: "unat (mm_base e) = 4096 * b" "unat (mm_length e) = 4096 * l"
    using e by (auto simp: entry_ok_def elim!: dvdE)
  have lt: "unat ?l = unat ?b + 4096 * l" using entry_end [OF e(1)] bl by simp
  have "mm_length e \<noteq> 0" using e(2) by (simp add: usable_entry_def)
  then have pos: "0 < unat (mm_length e)" by (simp add: unat_gt_0)
  have small: "unat ?l + 4096 < 2 ^ 64" using entry_end [OF e(1)] e(1) by (simp add: entry_ok_def)
  have cmp: "\<not> ?l < ?b" "\<not> ?l \<le> ?b" using lt pos bl by (simp_all add: word_less_nat_alt word_le_nat_alt)
  let ?s = "s\<lparr>usable_regions := usable_regions s @ [entry_region e]\<rparr>"
  have st: "stack_pages ?s = stack_pages s" by (simp add: stack_pages_def)
  obtain s1 where s1: "collect_usable_region ?s ?b ?l = (SCDK_OK, s1)"
    "stack_pages s1 = stack_pages s @ map (\<lambda>k. ?b + of_nat (4096 * k)) [0..<l]"
    "managed_pages s1 = managed_pages s + l" "usable_regions s1 = usable_regions s @ [entry_region e]"
    "reserved_regions s1 = reserved_regions s"
    using collect_ok [OF lt small, of ?s] pages bl(2) st by (auto simp: entry_pages_def)
  have reg: "record_region (usable_regions s) ?b (?l - ?b) (mm_type e) = usable_regions s @ [entry_region e]"
    using room usable_entry_bounds [OF e] by (simp add: record_region_def entry_region_def)
  have "pmm_init_entry s (Some e) = (True, s1)"
    using \<open>mm_length e \<noteq> 0\<close> e(2) usable_entry_bounds [OF e] cmp s1(1) reg
    by (simp add: pmm_init_entry_def usable_entry_def)
  then show ?thesis using s1 bl(2) by (simp add: entry_pages_def)
qed

lemma init_entry_other:
  assumes e: "entry_ok e" "\<not> usable_entry e" and room: "length (reserved_regions s) < SCDK_PMM_MAX_REGIONS"
  shows "pmm_init_entry s (Some e) =
    (True, if reserved_entry e then s\<lparr>reserved_regions := reserved_regions s @ [entry_region e]\<rparr> else s)"
proof -
  have "\<not> mm_base e + mm_length e < mm_base e" using entry_end [OF e(1)] by (simp add: word_less_nat_alt)
  then show ?thesis using e(2) room
    by (auto simp: pmm_init_entry_def usable_entry_def reserved_entry_def entry_region_def record_region_def Let_def not_le)
qed

lemma init_entry_skip:
  assumes "entry_ok e" "\<not> usable_entry e" "\<not> reserved_entry e"
  shows "pmm_init_entry s (Some e) = (True, s)"
  using assms entry_end [OF assms(1)]
  by (auto simp: pmm_init_entry_def usable_entry_def reserved_entry_def Let_def not_le word_less_nat_alt)

lemma init_loop:
  assumes "\<forall>e\<in>set ms. entry_ok e"
    and "length (usable_regions s) + length (filter usable_entry ms) \<le> SCDK_PMM_MAX_REGIONS"
    and "length (reserved_regions s) + length (filter reserved_entry ms) \<le> SCDK_PMM_MAX_REGIONS"
    and "free_pages s + length (map_pages ms) \<le> SCDK_PMM_MAX_PAGES"
  shows "\<exists>s'. pmm_init_loop s (map Some ms) = s' \<and> stack_pages s' = stack_pages s @ map_pages ms \<and>
    managed_pages s' = managed_pages s + length (map_pages ms) \<and>
    usable_regions s' = usable_regions s @ map entry_region (filter usable_entry ms) \<and>
    reserved_regions s' = reserved_regions s @ map entry_region (filter reserved_entry ms)"
  using assms
proof (induction ms arbitrary: s)
  case (Cons e ms)
  have ok: "entry_ok e" "\<forall>e\<in>set ms. entry_ok e" using Cons.prems(1) by simp_all
  show ?case
  proof (cases "usable_entry e")
    case True
    then have nr: "\<not> reserved_entry e" by (simp add: usable_entry_def reserved_entry_def)
    obtain s1 where s1: "pmm_init_entry s (Some e) = (True, s1)" "stack_pages s1 = stack_pages s @ entry_pages e"
      "managed_pages s1 = managed_pages s + length (entry_pages e)"
      "usable_regions s1 = usable_regions s @ [entry_region e]" "reserved_regions s1 = reserved_regions s"
      using init_entry_usable [OF ok(1) True, of s] Cons.prems(2,4) True by auto
    have "free_pages s1 = free_pages s + length (entry_pages e)" using s1(2) by (metis length_append stack_len)
    with Cons.IH [of s1] s1 Cons.prems True nr ok(2) show ?thesis by simp
  next
    case nu: False
    show ?thesis
    proof (cases "reserved_entry e")
      case True
      let ?s1 = "s\<lparr>reserved_regions := reserved_regions s @ [entry_region e]\<rparr>"
      have "pmm_init_entry s (Some e) = (True, ?s1)"
        using init_entry_other [OF ok(1) nu, of s] Cons.prems(3) True by simp
      moreover have "stack_pages ?s1 = stack_pages s" by (simp add: stack_pages_def)
      ultimately show ?thesis using Cons.IH [of ?s1] Cons.prems True nu ok(2) by simp
    next
      case False
      with Cons.IH [of s] init_entry_skip [OF ok(1) nu False, of s] Cons.prems nu ok(2) show ?thesis by simp
    qed
  qed
qed simp

lemma range_contains_entry:
  assumes "entry_ok e" "usable_entry e" "4096 dvd unat p" "unat p + 4096 < 2 ^ 64"
  shows "range_contains_page (entry_region e) p \<longleftrightarrow> p \<in> set (entry_pages e)"
proof -
  have r: "pr_base (entry_region e) = mm_base e" "pr_length (entry_region e) = mm_length e"
    using usable_entry_bounds [OF assms(1,2)] by (simp_all add: entry_region_def)
  have "unat (p + SCDK_PAGE_SIZE) = unat p + 4096" using assms(4) by (simp add: unat_word_ariths SCDK_PAGE_SIZE_def)
  then show ?thesis
    unfolding entry_pages_iff [OF assms(1,2)] range_contains_page_def r Let_def
    using assms(3) entry_end [OF assms(1)] by (simp add: word_le_nat_alt word_less_nat_alt)
qed

lemma overlap_top:
  assumes "4096 dvd unat p" "\<not> unat p + 4096 < 2 ^ 64"
  shows "page_overlaps_region region p"
proof -
  have "unat p + 4096 \<le> 2 ^ 64"
  proof -
    obtain q where q: "unat p = 4096 * q" using assms(1) by (rule dvdE)
    then have "4096 * q < 4096 * 2 ^ 52" using unat_u64_less [of p] by simp
    then have "q < 2 ^ 52" by simp
    with q show ?thesis by simp
  qed
  with assms(2) have "unat p = 2 ^ 64 - 4096" by linarith
  then have "unat (p + SCDK_PAGE_SIZE) = 0" "unat p \<noteq> 0" by (simp_all add: unat_word_ariths SCDK_PAGE_SIZE_def)
  then have "p + SCDK_PAGE_SIZE < p" by (simp add: word_less_nat_alt)
  then show ?thesis by (simp add: page_overlaps_region_def)
qed

lemma no_overlap:
  assumes e: "entry_ok e" "usable_entry e" "p \<in> set (entry_pages e)" and f: "entry_ok f" "reserved_entry f"
    and d: "entries_disjoint e f"
  shows "\<not> page_overlaps_region (entry_region f) p"
proof -
  note p = e(3) [unfolded entry_pages_iff [OF e(1,2)]]
  let ?b = "align_up (mm_base f) SCDK_PAGE_SIZE" and ?l = "align_down (mm_base f + mm_length f) SCDK_PAGE_SIZE"
  have r: "pr_base (entry_region f) = ?b" "?b + pr_length (entry_region f) = ?l"
    by (simp_all add: entry_region_def Let_def)
  have "unat (mm_base f) \<le> unat ?b" using entry_base_up [OF f(1)] page_up_bound by simp
  moreover have "unat ?l \<le> unat (mm_base f) + unat (mm_length f)"
    by (simp add: unat_align_down entry_end [OF f(1)] div_times_less_eq_dividend)
  moreover have "\<not> ?l < ?b" using f(2) unfolding reserved_entry_def by (meson less_imp_not_less)
  moreover have pe: "unat (p + SCDK_PAGE_SIZE) = unat p + 4096"
    using p e(1) by (simp add: unat_word_ariths SCDK_PAGE_SIZE_def entry_ok_def)
  ultimately show ?thesis using p d unfolding page_overlaps_region_def r Let_def
    by (auto simp: word_less_nat_alt entries_disjoint_def)
qed

lemma map_pages_distinct:
  assumes "\<forall>e\<in>set ms. entry_ok e" and "sorted_wrt memmap_compat ms"
  shows "distinct (map_pages ms)"
  using assms
proof (induction ms)
  case (Cons e ms)
  have "set (entry_pages e) \<inter> set (map_pages ms) = {}" if "usable_entry e"
  proof -
    have "x \<notin> set (entry_pages f)" if x: "x \<in> set (entry_pages e)" and f: "f \<in> set ms" "usable_entry f" for x f
    proof -
      have ok: "entry_ok e" "entry_ok f" using Cons.prems(1) f by simp_all
      have "entries_disjoint e f"
        using Cons.prems(2) f \<open>usable_entry e\<close> by (auto simp: memmap_compat_def usable_entry_def)
      then show ?thesis
        using x entry_pages_iff [OF ok(1) \<open>usable_entry e\<close>] entry_pages_iff [OF ok(2) f(2)]
        by (auto simp: entries_disjoint_def)
    qed
    then show ?thesis by auto
  qed
  then show ?case using Cons entry_pages_distinct [of e] by auto
qed simp

lemma compat_pairs:
  assumes "sorted_wrt memmap_compat ms" and "e \<in> set ms" "f \<in> set ms" "usable_entry e" "reserved_entry f"
  shows "entries_disjoint e f"
  using assms
proof (induction ms)
  case (Cons x ms)
  have "e \<noteq> f" using Cons.prems by (auto simp: usable_entry_def reserved_entry_def)
  moreover have "mm_length e \<noteq> 0" "mm_length f \<noteq> 0"
    using Cons.prems by (auto simp: usable_entry_def reserved_entry_def)
  ultimately show ?case using Cons by (auto simp: memmap_compat_def entries_disjoint_def)
qed simp

lemma init_managed:
  assumes ok: "memmap_ok ms" and u: "usable_regions s = map entry_region (filter usable_entry ms)"
    and r: "reserved_regions s = map entry_region (filter reserved_entry ms)"
  shows "managed s = set (map_pages ms)"
proof (rule set_eqI)
  fix p
  have eok: "\<And>e. e \<in> set ms \<Longrightarrow> entry_ok e" using ok by (simp add: memmap_ok_def)
  show "p \<in> managed s \<longleftrightarrow> p \<in> set (map_pages ms)"
  proof (cases "4096 dvd unat p \<and> unat p + 4096 < 2 ^ 64")
    case True
    then have al: "p AND (SCDK_PAGE_SIZE - 1) = 0" by (simp only: page_aligned)
    have us: "scdk_pmm_is_usable_page s p \<longleftrightarrow> p \<in> set (map_pages ms)"
      using True eok range_contains_entry [of _ p]
      by (auto simp: scdk_pmm_is_usable_page_def al u list_ex_iff)
    have "\<not> page_overlaps_region (entry_region f) p"
      if pf: "p \<in> set (map_pages ms)" "f \<in> set ms" "reserved_entry f" for f
    proof -
      obtain e where e: "e \<in> set ms" "usable_entry e" "p \<in> set (entry_pages e)" using pf(1) by auto
      have "entries_disjoint e f"
        using compat_pairs [of ms e f] ok e(1,2) pf(2,3) by (simp add: memmap_ok_def)
      then show ?thesis using no_overlap [OF eok [OF e(1)] e(2,3) eok [OF pf(2)] pf(3)] by blast
    qed
    then show ?thesis using us
      by (auto simp: managed_def scdk_pmm_is_reserved_page_def al r list_ex_iff)
  next
    case False
    obtain f where "f \<in> set ms" "reserved_entry f" using ok by (auto simp: memmap_ok_def list_ex_iff)
    then have "\<not> p \<in> managed s"
      using False overlap_top [of p "entry_region f"]
      by (auto simp: managed_def scdk_pmm_is_reserved_page_def page_aligned r list_ex_iff)
    moreover have "p \<notin> set (map_pages ms)"
      using False entry_pages_iff [of _ p] eok by (fastforce simp: entry_ok_def)
    ultimately show ?thesis by blast
  qed
qed

lemma pmm_init_ok:
  assumes "memmap_ok ms"
  shows "\<exists>s'. scdk_pmm_init s (map Some ms) = (SCDK_OK, s') \<and> pmm_inv s' \<and>
    managed s' = {p. \<exists>e\<in>set ms. usable_entry e \<and> 4096 dvd unat p \<and> unat (mm_base e) \<le> unat p \<and>
                    unat p + 4096 \<le> unat (mm_base e) + unat (mm_length e)} \<and>
    set (stack_pages s') = managed s' \<and>
    (\<forall>p\<in>managed s'. \<forall>f\<in>set ms. reserved_entry f \<longrightarrow> \<not> page_overlaps_region (entry_region f) p)"
proof -
  let ?s0 = "s\<lparr>free_pages := 0, managed_pages := 0, allocated_pages := 0,
                    usable_regions := [], reserved_regions := [], pmm_initialized := False\<rparr>"
  have eok: "\<forall>e\<in>set ms. entry_ok e" and ne: "map_pages ms \<noteq> []" "ms \<noteq> []"
    and cap: "length (map_pages ms) \<le> SCDK_PMM_MAX_PAGES"
    using assms by (auto simp: memmap_ok_def)
  have st0: "stack_pages ?s0 = []" by (simp add: stack_pages_def)
  obtain s1 where s1: "pmm_init_loop ?s0 (map Some ms) = s1" "stack_pages s1 = map_pages ms"
    "managed_pages s1 = length (map_pages ms)"
    "usable_regions s1 = map entry_region (filter usable_entry ms)"
    "reserved_regions s1 = map entry_region (filter reserved_entry ms)"
    using init_loop [OF eok, of ?s0] assms st0 by (auto simp: memmap_ok_def)
  define s' where "s' = s1\<lparr>pmm_initialized := True\<rparr>"
  have run: "scdk_pmm_init s (map Some ms) = (SCDK_OK, s')"
    using s1(1,3) ne by (simp add: scdk_pmm_init_def s'_def Let_def)
  have st: "stack_pages s' = map_pages ms" using s1(2) by (simp add: s'_def stack_pages_def)
  have mg: "managed s' = set (map_pages ms)"
    by (rule init_managed [OF assms]) (simp_all add: s'_def s1)
  have dist: "distinct (map_pages ms)" using map_pages_distinct assms by (simp add: memmap_ok_def)
  have "free_pages s' = length (map_pages ms)" using st by (metis stack_len)
  moreover have "card (managed s') \<le> SCDK_PMM_MAX_PAGES"
    unfolding mg using cap card_length [of "map_pages ms"] by linarith
  ultimately have inv: "pmm_inv s'" using st mg dist cap by (simp add: pmm_inv_def s'_def)
  have char: "managed s' = {p. \<exists>e\<in>set ms. usable_entry e \<and> 4096 dvd unat p \<and> unat (mm_base e) \<le> unat p \<and>
                    unat p + 4096 \<le> unat (mm_base e) + unat (mm_length e)}"
  proof -
    have "managed s' = {p. \<exists>e\<in>set ms. usable_entry e \<and> p \<in> set (entry_pages e)}" unfolding mg by auto
    also have "\<dots> = {p. \<exists>e\<in>set ms. usable_entry e \<and> 4096 dvd unat p \<and> unat (mm_base e) \<le> unat p \<and>
                    unat p + 4096 \<le> unat (mm_base e) + unat (mm_length e)}"
      by (intro Collect_cong bex_cong refl conj_cong) (simp add: eok entry_pages_iff)
    finally show ?thesis .
  qed
  have "\<not> page_overlaps_region (entry_region f) p" if "p \<in> managed s'" "f \<in> set ms" "reserved_entry f" for p f
  proof -
    have "\<not> list_ex (\<lambda>region. page_overlaps_region region p) (reserved_regions s')"
      using that(1) unfolding managed_def scdk_pmm_is_reserved_page_def by (simp split: if_splits)
    then show ?thesis using that(2,3) s1(5) by (simp add: s'_def list_ex_iff)
  qed
  then show ?thesis
    by (intro exI [of _ s'] conjI run inv char ballI impI) (simp_all only: st mg not_False_eq_True)
qed

section \<open>Properties\<close>

text \<open>
  (C29) Initialisation establishes the allocator invariant: for any memory map with the
  properties the boot protocol promises (and that fits the static arrays),
  \<^verbatim>\<open>scdk_pmm_init\<close> succeeds, and the allocatable pages are exactly the 4 KiB pages
  of the usable entries, each on the stack once; none of them overlaps an entry of
  another type.
\<close>

theorem pmm_init_correct:
  assumes "memmap_ok ms"
  shows "\<exists>s'. scdk_pmm_init s (map Some ms) = (SCDK_OK, s') \<and> pmm_inv s' \<and>
    managed s' = {p. \<exists>e\<in>set ms. usable_entry e \<and> 4096 dvd unat p \<and> unat (mm_base e) \<le> unat p \<and>
                    unat p + 4096 \<le> unat (mm_base e) + unat (mm_length e)} \<and>
    set (stack_pages s') = managed s' \<and>
    (\<forall>p\<in>managed s'. \<forall>f\<in>set ms. reserved_entry f \<longrightarrow> \<not> page_overlaps_region (entry_region f) p)"
  using pmm_init_ok [OF assms] .

text \<open>A map of one reserved page and two usable pages.\<close>

definition demo_map :: "limine_memmap_entry list" where
  "demo_map = [\<lparr>mm_base = 0, mm_length = 0x1800, mm_type = 1\<rparr>, \<lparr>mm_base = 0x2000, mm_length = 0x2000, mm_type = 0\<rparr>]"

definition pmm_boot :: pmm_state where
  "pmm_boot = \<lparr>page_stack = (\<lambda>_. 0), free_pages = 0, managed_pages = 0, allocated_pages = 0,
     usable_regions = [], reserved_regions = [], pmm_initialized = False\<rparr>"

definition pmm_demo :: pmm_state where
  "pmm_demo = snd (scdk_pmm_init pmm_boot (map Some demo_map))"

lemma demo_map_ok: "memmap_ok demo_map"
  by (simp add: memmap_ok_def demo_map_def entry_ok_def usable_entry_def reserved_entry_def memmap_compat_def
      entries_disjoint_def entry_pages_def kconst align_up_def align_down_def)

theorem pmm_init_correct_witness:
  "scdk_pmm_init pmm_boot (map Some demo_map) = (SCDK_OK, pmm_demo) \<and> pmm_inv pmm_demo \<and> 0x3000 \<in> managed pmm_demo"
  using pmm_init_correct [OF demo_map_ok, of pmm_boot]
  by (auto simp: pmm_demo_def demo_map_def usable_entry_def kconst)

text \<open>
  A run of allocations and frees, with the list of the pages that are out: an allocation
  that succeeds adds its page, a free that succeeds removes its page. The argument of
  a free is any word, whether it was ever allocated or not.
\<close>

datatype pmm_op = Alloc | Free u64

fun pmm_run :: "'a pmm_state_scheme \<Rightarrow> u64 list \<Rightarrow> pmm_op list \<Rightarrow> 'a pmm_state_scheme \<times> u64 list" where
  "pmm_run s held [] = (s, held)"
| "pmm_run s held (Alloc # ops) =
     (case scdk_page_alloc s of
        (Inl e, s1) \<Rightarrow> pmm_run s1 held ops
      | (Inr p, s1) \<Rightarrow> pmm_run s1 (p # held) ops)"
| "pmm_run s held (Free p # ops) =
     (case scdk_page_free s p of (r, s1) \<Rightarrow> pmm_run s1 (if r = SCDK_OK then remove1 p held else held) ops)"

definition pages_out :: "'a pmm_state_scheme \<Rightarrow> u64 set \<Rightarrow> u64 list \<Rightarrow> bool" where
  "pages_out s M held \<longleftrightarrow> pmm_inv s \<and> managed s = M \<and> distinct held \<and> set held = M - set (stack_pages s)"

lemma page_free_refused:
  assumes "pages_out s M held" and "p \<notin> set held" and "scdk_page_free s p = (r, s')"
  shows "r \<noteq> SCDK_OK \<and> s' = s"
  using assms
  by (auto simp: pages_out_def scdk_page_free_def managed_def stack_contains split: if_splits)

lemma pages_out_free:
  assumes "pages_out s M held" and "scdk_page_free s p = (r, s')"
  shows "pages_out s' M (if r = SCDK_OK then remove1 p held else held)" "r = SCDK_OK \<longleftrightarrow> p \<in> set held"
proof -
  have "pages_out s' M (if r = SCDK_OK then remove1 p held else held) \<and> (r = SCDK_OK \<longleftrightarrow> p \<in> set held)"
  proof (cases "p \<in> set held")
    case True
    then have p: "p \<in> managed s" "p \<notin> set (stack_pages s)" "pmm_inv s" using assms(1) by (auto simp: pages_out_def)
    then have f: "r = SCDK_OK" "managed s' = managed s" using page_free_OK [OF p(3,1,2) assms(2)] by simp_all
    have "pmm_inv s'" "managed s' - set (stack_pages s') = managed s - set (stack_pages s) - {p}"
      using pages.release_ok [OF p(3) _ assms(2)] p by auto
    then show ?thesis using f True assms(1) by (simp add: pages_out_def)
  next
    case False
    then show ?thesis using page_free_refused [OF assms(1) False assms(2)] assms(1) by simp
  qed
  then show "pages_out s' M (if r = SCDK_OK then remove1 p held else held)" "r = SCDK_OK \<longleftrightarrow> p \<in> set held" by blast+
qed

lemma pages_out_alloc:
  assumes "pages_out s M held"
  shows "scdk_page_alloc s = (Inr p, s') \<Longrightarrow> pages_out s' M (p # held) \<and> p \<in> M \<and> p \<notin> set held"
    and "scdk_page_alloc s = (Inl e, s') \<Longrightarrow> s' = s \<and> e = SCDK_ERR_NOMEM \<and> set held = M"
proof -
  have i: "pmm_inv s" "managed s = M" "distinct held" "set held = M - set (stack_pages s)" using assms by (simp_all add: pages_out_def)
  show "pages_out s' M (p # held) \<and> p \<in> M \<and> p \<notin> set held" if a: "scdk_page_alloc s = (Inr p, s')"
  proof -
    have "pmm_inv s'" "p \<in> set (stack_pages s)" "managed s' - set (stack_pages s') = insert p (managed s - set (stack_pages s))"
      using pages.alloc_ok [OF i(1) a] by blast+
    moreover have "managed s' = M" "p \<in> M" using page_alloc_Inr [OF a] i calculation(2) by (auto simp: pmm_inv_def)
    ultimately show ?thesis using i by (simp add: pages_out_def)
  qed
  show "s' = s \<and> e = SCDK_ERR_NOMEM \<and> set held = M" if a: "scdk_page_alloc s = (Inl e, s')"
    using pages.alloc_err [OF i(1) a] a i by (auto simp: scdk_page_alloc_def pmm_inv_def split: if_splits)
qed

lemma pmm_run_out: "pages_out s M held \<Longrightarrow> pmm_run s held ops = (s', held') \<Longrightarrow> pages_out s' M held'"
proof (induction s held ops rule: pmm_run.induct)
  case (2 s held ops)
  show ?case
  proof (cases "scdk_page_alloc s")
    case (Pair r s1)
    then show ?thesis using 2 pages_out_alloc [OF 2(3), of _ s1] by (cases r) auto
  qed
next
  case (3 s held p ops)
  obtain r s1 where f: "scdk_page_free s p = (r, s1)" by fastforce
  show ?case by (rule 3(1) [OF f [symmetric] pages_out_free(1) [OF 3(2) f]]) (use 3(3) f in simp)
qed simp

text \<open>
  (C17) No page has two owners. Take a well-formed allocator and the list of the pages
  that are out. After any sequence of allocations and frees, where the
  argument of a free may be any word, the pages that are out are distinct and are
  exactly the managed pages that are not on the stack. Hence the next allocation
  returns a managed page that is not out, and fails (with \<^verbatim>\<open>SCDK_ERR_NOMEM\<close>) only
  when every managed page is out; and a free is accepted exactly for a page
  that is out and otherwise refused without effect (so a second free
  of the same page is refused).
\<close>

theorem pmm_alloc_exclusive:
  assumes "pmm_inv s" and "distinct held" and "set held = managed s - set (stack_pages s)"
    and "pmm_run s held ops = (s', held')"
  shows "pmm_inv s' \<and> managed s' = managed s \<and> distinct held' \<and> set held' = managed s - set (stack_pages s') \<and>
    (\<forall>p s2. scdk_page_alloc s' = (Inr p, s2) \<longrightarrow> p \<in> managed s \<and> p \<notin> set held') \<and>
    (\<forall>e s2. scdk_page_alloc s' = (Inl e, s2) \<longrightarrow> e = SCDK_ERR_NOMEM \<and> set held' = managed s) \<and>
    (\<forall>p r s2. scdk_page_free s' p = (r, s2) \<longrightarrow> (r = SCDK_OK \<longleftrightarrow> p \<in> set held') \<and> (r \<noteq> SCDK_OK \<longrightarrow> s2 = s'))"
proof -
  have "pages_out s (managed s) held" using assms(1-3) by (simp add: pages_out_def)
  then have o: "pages_out s' (managed s) held'" by (rule pmm_run_out [OF _ assms(4)])
  then show ?thesis
    using pages_out_alloc [OF o] pages_out_free(2) [OF o] page_free_refused [OF o] unfolding pages_out_def by blast
qed

lemma demo_pages:
  "pmm_demo = \<lparr>page_stack = (\<lambda>_. 0)(0 := 0x2000, 1 := 0x3000), free_pages = 2, managed_pages = 2, allocated_pages = 0,
     usable_regions = [\<lparr>pr_base = 0x2000, pr_length = 0x2000, pr_type = 0\<rparr>],
     reserved_regions = [\<lparr>pr_base = 0, pr_length = 0x1000, pr_type = 1\<rparr>], pmm_initialized = True\<rparr>"
  by (simp add: pmm_demo_def pmm_boot_def demo_map_def scdk_pmm_init_def pmm_init_entry_def kconst align_up_def align_down_def
      collect_usable_region.simps record_region_def)

theorem pmm_alloc_exclusive_witness:
  "\<exists>s'. pmm_run pmm_demo [] [Alloc, Free 0x5000, Alloc, Free 0x2000, Free 0x2000, Alloc] = (s', [0x2000, 0x3000]) \<and>
     fst (scdk_page_alloc s') = Inl SCDK_ERR_NOMEM"
proof -
  let ?ops = "[Alloc, Free 0x5000, Alloc, Free 0x2000, Free 0x2000, Alloc]"
  have i: "pmm_inv pmm_demo" "set (stack_pages pmm_demo) = managed pmm_demo"
    using pmm_init_ok [OF demo_map_ok, of pmm_boot] by (auto simp: pmm_demo_def)
  have h: "snd (pmm_run pmm_demo [] ?ops) = [0x2000, 0x3000]" and a: "fst (scdk_page_alloc (fst (pmm_run pmm_demo [] ?ops))) = Inl SCDK_ERR_NOMEM"
    unfolding demo_pages
    by (simp_all add: kconst scdk_page_free_def scdk_pmm_is_usable_page_def
      scdk_pmm_is_reserved_page_def range_contains_page_def page_overlaps_region_def page_stack_contains_def scan.simps scdk_page_alloc_def)
  obtain s' where r: "pmm_run pmm_demo [] ?ops = (s', [0x2000, 0x3000])" using h by (cases "pmm_run pmm_demo [] ?ops") simp
  have "set [0x2000, 0x3000] = managed pmm_demo"
    using pmm_alloc_exclusive [OF i(1) _ _ r] i(2) a r by (cases "scdk_page_alloc s'") auto
  then show ?thesis using r a by simp
qed

text \<open>
  What \<^verbatim>\<open>scdk_page_free\<close> checks is not ownership: a page above the top of the address
  space passes the bounds check when no reserved region was recorded, because
  \<^verbatim>\<open>phys + SCDK_PAGE_SIZE\<close> wraps to 0 in \<^verbatim>\<open>range_contains_page\<close>. It is then handed
  out by the next allocation although no memory map entry contains it.
\<close>

theorem page_free_accepts_top_page:
  "let m = [Some \<lparr>mm_base = 0x2000, mm_length = 0x2000, mm_type = 0\<rparr>];
       s0 = snd (scdk_pmm_init pmm_boot m);
       (r, s1) = scdk_page_free s0 0xfffffffffffff000
   in r = SCDK_OK \<and> fst (scdk_page_alloc s1) = Inr 0xfffffffffffff000"
  by (simp add: pmm_boot_def scdk_pmm_init_def pmm_init_entry_def kconst align_up_def align_down_def
      collect_usable_region.simps record_region_def scdk_page_free_def scdk_pmm_is_usable_page_def
      scdk_pmm_is_reserved_page_def range_contains_page_def page_stack_contains_def scan.simps
      scdk_page_alloc_def)

end
