(* ===== verification/SCDK_Vmm.thy ===== *)
theory SCDK_Vmm
  imports SCDK_Pmm
begin

text \<open>
  The page-table manager, \<^verbatim>\<open>src/mm/vmm.c\<close>: four-level x86-64 tables. Physical memory is a
  function from the address of an aligned 8-byte cell to its content; tables are
  read and written through the direct map (\<^verbatim>\<open>phys_to_hhdm\<close>), so a table pointer is
  modelled by the physical address of the table. CR3 is a field of the state and
  \<^verbatim>\<open>invlpg\<close> has no counterpart (translations are always read from the tables).
\<close>

section \<open>Data\<close>

definition X86_PTE_PRESENT :: u64 where [kconst]: "X86_PTE_PRESENT = 1"
definition X86_PTE_WRITABLE :: u64 where [kconst]: "X86_PTE_WRITABLE = 2"
definition X86_PTE_USER :: u64 where [kconst]: "X86_PTE_USER = 4"
definition X86_PTE_HUGE :: u64 where [kconst]: "X86_PTE_HUGE = 128"
definition X86_PTE_ADDR :: u64 where [kconst]: "X86_PTE_ADDR = 0x000ffffffffff000"
definition X86_CR3_ADDR :: u64 where [kconst]: "X86_CR3_ADDR = 0x000ffffffffff000"
definition SCDK_VMM_MAP_WRITE :: u64 where [kconst]: "SCDK_VMM_MAP_WRITE = 1"
definition SCDK_VMM_MAP_USER :: u64 where [kconst]: "SCDK_VMM_MAP_USER = 2"

record vmm_state = pmm_state +
  phys_mem :: "u64 \<Rightarrow> u64"
  cr3_register :: u64
  active_cr3_phys :: u64
  active_hhdm_offset :: u64
  vmm_initialized :: bool

section \<open>Operations\<close>

definition is_canonical :: "u64 \<Rightarrow> bool" where
  "is_canonical virt = (let top = drop_bit 48 virt in top = 0 \<or> top = 0xffff)"

definition is_page_aligned :: "u64 \<Rightarrow> bool" where
  "is_page_aligned value \<longleftrightarrow> value AND (SCDK_PAGE_SIZE - 1) = 0"

definition pml4_index :: "u64 \<Rightarrow> u64" where "pml4_index virt = drop_bit 39 virt AND 0x1ff"
definition pdpt_index :: "u64 \<Rightarrow> u64" where "pdpt_index virt = drop_bit 30 virt AND 0x1ff"
definition pd_index :: "u64 \<Rightarrow> u64" where "pd_index virt = drop_bit 21 virt AND 0x1ff"
definition pt_index :: "u64 \<Rightarrow> u64" where "pt_index virt = drop_bit 12 virt AND 0x1ff"

text \<open>\<^verbatim>\<open>table[index]\<close> of the table at physical address \<open>table\<close>.\<close>

definition pte :: "'a vmm_state_scheme \<Rightarrow> u64 \<Rightarrow> u64 \<Rightarrow> u64" where
  "pte s table index = phys_mem s (table + 8 * index)"

definition set_pte :: "'a vmm_state_scheme \<Rightarrow> u64 \<Rightarrow> u64 \<Rightarrow> u64 \<Rightarrow> 'a vmm_state_scheme" where
  "set_pte s table index entry = s\<lparr>phys_mem := (phys_mem s)(table + 8 * index := entry)\<rparr>"

text \<open>\<^verbatim>\<open>memset(phys_to_hhdm(phys), 0, SCDK_PAGE_SIZE)\<close>\<close>

definition zero_page :: "'a vmm_state_scheme \<Rightarrow> u64 \<Rightarrow> 'a vmm_state_scheme" where
  "zero_page s phys = s\<lparr>phys_mem := (\<lambda>a. if a - phys < SCDK_PAGE_SIZE then 0 else phys_mem s a)\<rparr>"

definition validate_vmm_address :: "'a vmm_state_scheme \<Rightarrow> u64 \<Rightarrow> scdk_status" where
  "validate_vmm_address s virt =
     (if \<not> vmm_initialized s then SCDK_ERR_NOTSUP
      else if \<not> is_page_aligned virt \<or> \<not> is_canonical virt then SCDK_ERR_INVAL
      else SCDK_OK)"

definition validate_root :: "'a vmm_state_scheme \<Rightarrow> u64 \<Rightarrow> scdk_status" where
  "validate_root s root_phys =
     (if \<not> vmm_initialized s then SCDK_ERR_NOTSUP
      else if root_phys = 0 \<or> \<not> is_page_aligned root_phys then SCDK_ERR_INVAL
      else SCDK_OK)"

definition allocate_table :: "'a vmm_state_scheme \<Rightarrow> u64 res \<times> 'a vmm_state_scheme" where
  "allocate_table s =
     (case scdk_page_alloc s of
        (Inl e, s1) \<Rightarrow> (Inl e, s1)
      | (Inr phys, s1) \<Rightarrow> (Inr phys, zero_page s1 phys))"

definition next_table ::
  "'a vmm_state_scheme \<Rightarrow> u64 \<Rightarrow> u64 \<Rightarrow> bool \<Rightarrow> u64 \<Rightarrow> u64 res \<times> 'a vmm_state_scheme"
where
  "next_table s table index create table_flags =
     (let use = (\<lambda>entry s. if entry AND X86_PTE_HUGE \<noteq> 0 then (Inl SCDK_ERR_BUSY, s)
                            else (Inr (entry AND X86_PTE_ADDR), s))
      in if pte s table index AND X86_PTE_PRESENT = 0
         then if \<not> create then (Inl SCDK_ERR_NOENT, s)
              else (case allocate_table s of
                      (Inl e, s1) \<Rightarrow> (Inl e, s1)
                    | (Inr new_table_phys, s1) \<Rightarrow>
                        (let entry = new_table_phys OR X86_PTE_PRESENT OR X86_PTE_WRITABLE OR table_flags
                         in use entry (set_pte s1 table index entry)))
         else use (pte s table index) s)"

definition leaf_table_for_root ::
  "'a vmm_state_scheme \<Rightarrow> u64 \<Rightarrow> u64 \<Rightarrow> bool \<Rightarrow> u64 \<Rightarrow> u64 res \<times> 'a vmm_state_scheme"
where
  "leaf_table_for_root s root_phys virt create table_flags =
     (case next_table s root_phys (pml4_index virt) create table_flags of
        (Inl e, s1) \<Rightarrow> (Inl e, s1)
      | (Inr pdpt, s1) \<Rightarrow>
          (case next_table s1 pdpt (pdpt_index virt) create table_flags of
             (Inl e, s2) \<Rightarrow> (Inl e, s2)
           | (Inr pd, s2) \<Rightarrow> next_table s2 pd (pd_index virt) create table_flags))"

definition scdk_vmm_init :: "'a vmm_state_scheme \<Rightarrow> u64 \<Rightarrow> scdk_status \<times> 'a vmm_state_scheme" where
  "scdk_vmm_init s hhdm_offset =
     (if hhdm_offset = 0 then (SCDK_ERR_INVAL, s)
      else
        (let s1 = s\<lparr>active_hhdm_offset := hhdm_offset, active_cr3_phys := cr3_register s AND X86_CR3_ADDR\<rparr>
         in if active_cr3_phys s1 = 0 then (SCDK_ERR_NOENT, s1)
            else (SCDK_OK, s1\<lparr>vmm_initialized := True\<rparr>)))"

definition scdk_vmm_current_root :: "'a vmm_state_scheme \<Rightarrow> u64 res" where
  "scdk_vmm_current_root s = (if \<not> vmm_initialized s then Inl SCDK_ERR_NOTSUP else Inr (active_cr3_phys s))"

text \<open>\<^verbatim>\<open>for (i = 256; i < 512; i++) new_root[i] = current_root[i];\<close>\<close>

fun copy_kernel_half :: "'a vmm_state_scheme \<Rightarrow> u64 \<Rightarrow> u64 \<Rightarrow> nat list \<Rightarrow> 'a vmm_state_scheme" where
  "copy_kernel_half s new_root current_root [] = s"
| "copy_kernel_half s new_root current_root (i # is) =
     copy_kernel_half (set_pte s new_root (of_nat i) (pte s current_root (of_nat i))) new_root current_root is"

definition kernel_half :: "nat list" where
  "kernel_half = [256..<512]"

definition scdk_vmm_create_root :: "'a vmm_state_scheme \<Rightarrow> u64 res \<times> 'a vmm_state_scheme" where
  "scdk_vmm_create_root s =
     (if \<not> vmm_initialized s then (Inl SCDK_ERR_NOTSUP, s)
      else case scdk_page_alloc s of
        (Inl e, s1) \<Rightarrow> (Inl e, s1)
      | (Inr root_phys, s1) \<Rightarrow>
          (Inr root_phys, copy_kernel_half (zero_page s1 root_phys) root_phys (active_cr3_phys s1) kernel_half))"

definition scdk_vmm_activate_root :: "'a vmm_state_scheme \<Rightarrow> u64 \<Rightarrow> scdk_status \<times> 'a vmm_state_scheme" where
  "scdk_vmm_activate_root s root_phys =
     (let status = validate_root s root_phys
      in if status \<noteq> SCDK_OK then (status, s)
         else (SCDK_OK, s\<lparr>cr3_register := root_phys, active_cr3_phys := root_phys\<rparr>))"

definition scdk_vmm_map_page_in_root ::
  "'a vmm_state_scheme \<Rightarrow> u64 \<Rightarrow> u64 \<Rightarrow> u64 \<Rightarrow> u64 \<Rightarrow> scdk_status \<times> 'a vmm_state_scheme"
where
  "scdk_vmm_map_page_in_root s root_phys virt phys flags =
     (if validate_root s root_phys \<noteq> SCDK_OK then (validate_root s root_phys, s)
      else if validate_vmm_address s virt \<noteq> SCDK_OK then (validate_vmm_address s virt, s)
      else if \<not> is_page_aligned phys \<or> flags AND NOT (SCDK_VMM_MAP_WRITE OR SCDK_VMM_MAP_USER) \<noteq> 0
      then (SCDK_ERR_INVAL, s)
      else
        (let table_flags = (if flags AND SCDK_VMM_MAP_USER \<noteq> 0 then X86_PTE_USER else 0)
         in case leaf_table_for_root s root_phys virt True table_flags of
              (Inl e, s1) \<Rightarrow> (e, s1)
            | (Inr pt, s1) \<Rightarrow>
                if pte s1 pt (pt_index virt) AND X86_PTE_PRESENT \<noteq> 0 then (SCDK_ERR_BUSY, s1)
                else
                  (let pte_flags = X86_PTE_PRESENT
                         OR (if flags AND SCDK_VMM_MAP_WRITE \<noteq> 0 then X86_PTE_WRITABLE else 0)
                         OR (if flags AND SCDK_VMM_MAP_USER \<noteq> 0 then X86_PTE_USER else 0)
                   in (SCDK_OK, set_pte s1 pt (pt_index virt) ((phys AND X86_PTE_ADDR) OR pte_flags)))))"

definition scdk_vmm_map_page :: "'a vmm_state_scheme \<Rightarrow> u64 \<Rightarrow> u64 \<Rightarrow> u64 \<Rightarrow> scdk_status \<times> 'a vmm_state_scheme" where
  "scdk_vmm_map_page s virt phys flags = scdk_vmm_map_page_in_root s (active_cr3_phys s) virt phys flags"

definition scdk_vmm_unmap_page_in_root :: "'a vmm_state_scheme \<Rightarrow> u64 \<Rightarrow> u64 \<Rightarrow> scdk_status \<times> 'a vmm_state_scheme" where
  "scdk_vmm_unmap_page_in_root s root_phys virt =
     (if validate_root s root_phys \<noteq> SCDK_OK then (validate_root s root_phys, s)
      else if validate_vmm_address s virt \<noteq> SCDK_OK then (validate_vmm_address s virt, s)
      else case leaf_table_for_root s root_phys virt False 0 of
        (Inl e, s1) \<Rightarrow> (e, s1)
      | (Inr pt, s1) \<Rightarrow>
          if pte s1 pt (pt_index virt) AND X86_PTE_PRESENT = 0 then (SCDK_ERR_NOENT, s1)
          else (SCDK_OK, set_pte s1 pt (pt_index virt) 0))"

definition scdk_vmm_unmap_page :: "'a vmm_state_scheme \<Rightarrow> u64 \<Rightarrow> scdk_status \<times> 'a vmm_state_scheme" where
  "scdk_vmm_unmap_page s virt = scdk_vmm_unmap_page_in_root s (active_cr3_phys s) virt"

definition scdk_vmm_virt_to_phys_in_root :: "'a vmm_state_scheme \<Rightarrow> u64 \<Rightarrow> u64 \<Rightarrow> (u64 \<times> u64) res" where
  "scdk_vmm_virt_to_phys_in_root s root_phys virt =
     (if validate_root s root_phys \<noteq> SCDK_OK then Inl (validate_root s root_phys)
      else if validate_vmm_address s (virt AND NOT (SCDK_PAGE_SIZE - 1)) \<noteq> SCDK_OK
      then Inl (validate_vmm_address s (virt AND NOT (SCDK_PAGE_SIZE - 1)))
      else case leaf_table_for_root s root_phys virt False 0 of
        (Inl e, s1) \<Rightarrow> Inl e
      | (Inr pt, s1) \<Rightarrow>
          (let entry = pte s1 pt (pt_index virt)
           in if entry AND X86_PTE_PRESENT = 0 then Inl SCDK_ERR_NOENT
              else Inr ((entry AND X86_PTE_ADDR) OR (virt AND (SCDK_PAGE_SIZE - 1)),
                        (if entry AND X86_PTE_WRITABLE \<noteq> 0 then SCDK_VMM_MAP_WRITE else 0) OR
                        (if entry AND X86_PTE_USER \<noteq> 0 then SCDK_VMM_MAP_USER else 0))))"

definition scdk_vmm_virt_to_phys :: "'a vmm_state_scheme \<Rightarrow> u64 \<Rightarrow> (u64 \<times> u64) res" where
  "scdk_vmm_virt_to_phys s virt = scdk_vmm_virt_to_phys_in_root s (active_cr3_phys s) virt"

section \<open>Cells of different pages\<close>

lemma cell_addr:
  fixes p i :: u64
  assumes "4096 dvd unat p" and "unat i < 512"
  shows "unat (p + 8 * i) = unat p + 8 * unat i"
proof -
  obtain q where q: "unat p = 4096 * q" using assms(1) by (rule dvdE)
  then have "4096 * q < 4096 * 2 ^ 52" using unat_u64_less [of p] by simp
  then have "q < 2 ^ 52" by simp
  then have "unat p + 8 * unat i < 2 ^ 64" using q assms(2) by simp
  then show ?thesis by (simp add: unat_word_ariths)
qed

lemma cell_inj:
  fixes p q i j :: u64
  assumes "4096 dvd unat p" "4096 dvd unat q" "unat i < 512" "unat j < 512"
  shows "p + 8 * i = q + 8 * j \<longleftrightarrow> p = q \<and> i = j"
proof
  assume "p + 8 * i = q + 8 * j"
  then have "unat p + 8 * unat i = unat q + 8 * unat j"
    using cell_addr [OF assms(1,3)] cell_addr [OF assms(2,4)] by simp
  moreover obtain a b where ab: "unat p = 4096 * a" "unat q = 4096 * b"
    using assms(1,2) by (auto elim!: dvdE)
  ultimately have e: "4096 * a + 8 * unat i = 4096 * b + 8 * unat j" by simp
  then have "a = b" using assms(3,4) by linarith
  with e ab have "unat p = unat q" "unat i = unat j" by simp_all
  then show "p = q \<and> i = j" by (simp add: word_unat_eq_iff)
qed simp

lemma pte_set:
  assumes "4096 dvd unat p" "4096 dvd unat q" "unat i < 512" "unat j < 512"
  shows "pte (set_pte s q j e) p i = (if p = q \<and> i = j then e else pte s p i)"
  using cell_inj [OF assms] by (simp add: pte_def set_pte_def)

lemma pte_zero:
  assumes "4096 dvd unat p" "4096 dvd unat q" "unat i < 512"
  shows "pte (zero_page s q) p i = (if p = q then 0 else pte s p i)"
proof -
  have "p + 8 * i - q < SCDK_PAGE_SIZE \<longleftrightarrow> p = q"
  proof (cases "q \<le> p + 8 * i")
    case True
    then have "unat (p + 8 * i - q) = unat p + 8 * unat i - unat q" "unat q \<le> unat p + 8 * unat i"
      using cell_addr [OF assms(1,3)] by (simp_all add: unat_sub word_le_nat_alt)
    moreover obtain a b where "unat p = 4096 * a" "unat q = 4096 * b" using assms(1,2) by (auto elim!: dvdE)
    ultimately have "p + 8 * i - q < SCDK_PAGE_SIZE \<longleftrightarrow> unat p = unat q"
      using assms(3) by (auto simp: word_less_nat_alt SCDK_PAGE_SIZE_def)
    then show ?thesis by (simp only: word_unat_eq_iff)
  next
    case False
    have ne: "p \<noteq> q"
    proof
      assume "p = q"
      then have "unat q \<le> unat (p + 8 * i)" using cell_addr [OF assms(1,3)] by simp
      with False show False by (simp add: word_le_nat_alt)
    qed
    let ?x = "unat (p + 8 * i)"
    have lt: "?x < unat q" using False by (simp add: word_le_nat_alt)
    have "unat (p + 8 * i - q) = 2 ^ 64 + ?x - unat q"
      using lt unat_u64_less [of q] by (simp add: unat_sub_if')
    moreover have "unat q \<le> 2 ^ 64 - 4096"
    proof -
      obtain b where b: "unat q = 4096 * b" using assms(2) by (rule dvdE)
      then have "4096 * b < 4096 * 2 ^ 52" using unat_u64_less [of q] by simp
      then have "b < 2 ^ 52" by simp
      with b show ?thesis by simp
    qed
    ultimately have "\<not> p + 8 * i - q < SCDK_PAGE_SIZE"
      using lt by (simp add: word_less_nat_alt SCDK_PAGE_SIZE_def)
    with ne show ?thesis by simp
  qed
  then show ?thesis by (simp add: pte_def zero_page_def)
qed

section \<open>Walking the tables\<close>

text \<open>The entry a list of indices leads to from a table, as the read-only walk finds it.\<close>

fun walk :: "'a vmm_state_scheme \<Rightarrow> u64 \<Rightarrow> u64 list \<Rightarrow> u64 res" where
  "walk s t [] = Inr t"
| "walk s t (i # is) =
     (if pte s t i AND X86_PTE_PRESENT = 0 then Inl SCDK_ERR_NOENT
      else if pte s t i AND X86_PTE_HUGE \<noteq> 0 then Inl SCDK_ERR_BUSY
      else walk s (pte s t i AND X86_PTE_ADDR) is)"

fun leaf_entry :: "'a vmm_state_scheme \<Rightarrow> u64 \<Rightarrow> u64 list \<Rightarrow> u64 res" where
  "leaf_entry s t [] = Inl SCDK_ERR_NOENT"
| "leaf_entry s t [l] = (if pte s t l AND X86_PTE_PRESENT = 0 then Inl SCDK_ERR_NOENT else Inr (pte s t l))"
| "leaf_entry s t (i # j # is) =
     (if pte s t i AND X86_PTE_PRESENT = 0 then Inl SCDK_ERR_NOENT
      else if pte s t i AND X86_PTE_HUGE \<noteq> 0 then Inl SCDK_ERR_BUSY
      else leaf_entry s (pte s t i AND X86_PTE_ADDR) (j # is))"

lemma leaf_entry_walk:
  "leaf_entry s t (is @ [l]) =
     (case walk s t is of Inl e \<Rightarrow> Inl e
      | Inr u \<Rightarrow> if pte s u l AND X86_PTE_PRESENT = 0 then Inl SCDK_ERR_NOENT else Inr (pte s u l))"
proof (induction "is" arbitrary: t)
  case (Cons i "is")
  have "leaf_entry s t ((i # is) @ [l]) =
     (if pte s t i AND X86_PTE_PRESENT = 0 then Inl SCDK_ERR_NOENT
      else if pte s t i AND X86_PTE_HUGE \<noteq> 0 then Inl SCDK_ERR_BUSY
      else leaf_entry s (pte s t i AND X86_PTE_ADDR) (is @ [l]))"
    by (cases "is @ [l]") simp_all
  then show ?case using Cons.IH by simp
qed simp

lemma next_table_read:
  "next_table s t i False f =
     (if pte s t i AND X86_PTE_PRESENT = 0 then Inl SCDK_ERR_NOENT
      else if pte s t i AND X86_PTE_HUGE \<noteq> 0 then Inl SCDK_ERR_BUSY
      else Inr (pte s t i AND X86_PTE_ADDR), s)"
  by (simp add: next_table_def Let_def)

definition table_path :: "u64 \<Rightarrow> u64 list" where
  "table_path virt = [pml4_index virt, pdpt_index virt, pd_index virt]"

lemma leaf_table_read: "leaf_table_for_root s root virt False f = (walk s root (table_path virt), s)"
  by (simp add: leaf_table_for_root_def next_table_read table_path_def)

definition full_path :: "u64 \<Rightarrow> u64 list" where
  "full_path virt = table_path virt @ [pt_index virt]"

lemma full_path_len [simp]: "length (full_path v) = 4" "full_path v \<noteq> []"
  by (simp_all add: full_path_def table_path_def)

lemma virt_to_phys_leaf:
  "scdk_vmm_virt_to_phys_in_root s root virt =
     (if validate_root s root \<noteq> SCDK_OK then Inl (validate_root s root)
      else if validate_vmm_address s (virt AND NOT (SCDK_PAGE_SIZE - 1)) \<noteq> SCDK_OK
      then Inl (validate_vmm_address s (virt AND NOT (SCDK_PAGE_SIZE - 1)))
      else case leaf_entry s root (full_path virt) of
        Inl e \<Rightarrow> Inl e
      | Inr entry \<Rightarrow> Inr ((entry AND X86_PTE_ADDR) OR (virt AND (SCDK_PAGE_SIZE - 1)),
          (if entry AND X86_PTE_WRITABLE \<noteq> 0 then SCDK_VMM_MAP_WRITE else 0) OR
          (if entry AND X86_PTE_USER \<noteq> 0 then SCDK_VMM_MAP_USER else 0)))"
  unfolding scdk_vmm_virt_to_phys_in_root_def leaf_table_read full_path_def leaf_entry_walk
  by (cases "walk s root (table_path virt)") (simp_all add: Let_def)

lemma index_less [simp]:
  "unat (pml4_index v) < 512" "unat (pdpt_index v) < 512" "unat (pd_index v) < 512" "unat (pt_index v) < 512"
proof -
  have "unat (x AND 0x1ff :: u64) < 512" for x
  proof -
    have "(x AND 0x1ff :: u64) = take_bit 9 x" by (simp add: take_bit_eq_mask mask_eq_exp_minus_1)
    then have "unat (x AND 0x1ff) = take_bit 9 (unat x)" by (simp only: unsigned_take_bit_eq)
    then show ?thesis by (simp add: take_bit_eq_mod)
  qed
  then show "unat (pml4_index v) < 512" "unat (pdpt_index v) < 512" "unat (pd_index v) < 512" "unat (pt_index v) < 512"
    by (simp_all only: pml4_index_def pdpt_index_def pd_index_def pt_index_def)
qed

section \<open>Entries\<close>

lemma frame_addr:
  fixes n :: u64
  assumes "4096 dvd unat n" and "unat n < 2 ^ 52"
  shows "n AND X86_PTE_ADDR = n"
proof -
  have lo: "n AND mask 12 = 0" using assms(1) page_aligned [of n] by (simp add: page_mask)
  have "take_bit 52 n = n"
  proof -
    have "unat (take_bit 52 n) = take_bit 52 (unat n)" by (rule unsigned_take_bit_eq)
    then have "unat (take_bit 52 n) = unat n" using assms(2) by (simp add: take_bit_nat_eq_self)
    then show ?thesis by (simp only: word_unat_eq_iff)
  qed
  then have hi: "n AND mask 52 = n" by (simp add: take_bit_eq_mask)
  have "X86_PTE_ADDR = mask 52 AND NOT (mask 12)" by (simp add: X86_PTE_ADDR_def mask_eq_exp_minus_1)
  then have "n AND X86_PTE_ADDR = (n AND mask 52) AND NOT (mask 12)" by (simp only: and.assoc)
  also have "\<dots> = n AND NOT (mask 12)" by (simp only: hi)
  also have "\<dots> = n"
  proof (rule bit_word_eqI)
    fix k assume "k < LENGTH(64)"
    have "\<not> (bit n k \<and> k < 12)"
    proof
      assume "bit n k \<and> k < 12"
      then have "bit (n AND mask 12) k" by (simp add: bit_simps)
      with lo show False by simp
    qed
    then show "bit (n AND NOT (mask 12)) k = bit n k" using \<open>k < LENGTH(64)\<close> by (auto simp: bit_simps)
  qed
  finally show ?thesis .
qed

lemma table_entry_facts:
  fixes n f :: u64
  assumes "4096 dvd unat n" and "unat n < 2 ^ 52" and "f \<in> {0, X86_PTE_USER}"
  shows "(n OR X86_PTE_PRESENT OR X86_PTE_WRITABLE OR f) AND X86_PTE_PRESENT \<noteq> 0"
    and "(n OR X86_PTE_PRESENT OR X86_PTE_WRITABLE OR f) AND X86_PTE_HUGE = 0"
    and "(n OR X86_PTE_PRESENT OR X86_PTE_WRITABLE OR f) AND X86_PTE_ADDR = n"
proof -
  note a = frame_addr [OF assms(1,2)]
  have low: "n AND c = 0" if "X86_PTE_ADDR AND c = 0" for c
    using that a by (metis and.assoc and_zero_eq)
  have n1: "n AND 1 = 0" "n AND 128 = 0" by (rule low, simp add: X86_PTE_ADDR_def)+
  show "(n OR X86_PTE_PRESENT OR X86_PTE_WRITABLE OR f) AND X86_PTE_PRESENT \<noteq> 0"
    using assms(3) n1 by (auto simp: X86_PTE_PRESENT_def X86_PTE_WRITABLE_def X86_PTE_USER_def bit.conj_disj_distrib2)
  show "(n OR X86_PTE_PRESENT OR X86_PTE_WRITABLE OR f) AND X86_PTE_HUGE = 0"
    using assms(3) n1
    by (auto simp: X86_PTE_PRESENT_def X86_PTE_WRITABLE_def X86_PTE_USER_def X86_PTE_HUGE_def bit.conj_disj_distrib2)
  show "(n OR X86_PTE_PRESENT OR X86_PTE_WRITABLE OR f) AND X86_PTE_ADDR = n"
    using assms(3) a
    by (auto simp: X86_PTE_PRESENT_def X86_PTE_WRITABLE_def X86_PTE_USER_def X86_PTE_ADDR_def bit.conj_disj_distrib2)
qed

section \<open>The shape of the user half\<close>

text \<open>
  A ghost map \<open>T\<close> gives each table page the root it belongs to and the indices that
  lead to it from that root (only the user half, indices below 256 of a root, is
  tracked; the kernel half is shared by all roots). The invariant says that
  present entries lead where the indices say, so different paths never share a
  table, and that no table is on the free stack.
\<close>

type_synonym ghost = "u64 \<Rightarrow> (u64 \<times> u64 list) option"

definition idx_ok :: "u64 list \<Rightarrow> u64 \<Rightarrow> bool" where
  "idx_ok path i \<longleftrightarrow> unat i < 512 \<and> (path = [] \<longrightarrow> unat i < 256)"

fun path_ok :: "u64 list \<Rightarrow> u64 list \<Rightarrow> bool" where
  "path_ok path [] \<longleftrightarrow> True"
| "path_ok path (i # is) \<longleftrightarrow> idx_ok path i \<and> path_ok (path @ [i]) is"

definition pt_inv :: "'a vmm_state_scheme \<Rightarrow> ghost \<Rightarrow> bool" where
  "pt_inv s T \<longleftrightarrow> pmm_inv s \<and> (\<forall>p\<in>managed s. unat p < 2 ^ 52) \<and>
     (\<forall>p r path. T p = Some (r, path) \<longrightarrow>
        4096 dvd unat p \<and> unat p < 2 ^ 52 \<and> p \<notin> set (stack_pages s) \<and> (path = [] \<longrightarrow> p = r)) \<and>
     (\<forall>p r path i. T p = Some (r, path) \<longrightarrow> length path < 3 \<longrightarrow> idx_ok path i \<longrightarrow>
        pte s p i AND X86_PTE_PRESENT \<noteq> 0 \<longrightarrow> pte s p i AND X86_PTE_HUGE = 0 \<longrightarrow>
        T (pte s p i AND X86_PTE_ADDR) = Some (r, path @ [i]))"

lemma pt_inv_page:
  "pt_inv s T \<Longrightarrow> T p = Some (r, path) \<Longrightarrow> 4096 dvd unat p \<and> unat p < 2 ^ 52 \<and> p \<notin> set (stack_pages s)"
  unfolding pt_inv_def by blast

lemma pt_inv_next:
  "pt_inv s T \<Longrightarrow> T p = Some (r, path) \<Longrightarrow> length path < 3 \<Longrightarrow> idx_ok path i \<Longrightarrow>
     pte s p i AND X86_PTE_PRESENT \<noteq> 0 \<Longrightarrow> pte s p i AND X86_PTE_HUGE = 0 \<Longrightarrow>
     T (pte s p i AND X86_PTE_ADDR) = Some (r, path @ [i])"
  unfolding pt_inv_def by blast

text \<open>Changing one leaf slot affects only the path that ends there.\<close>

lemma leaf_entry_write:
  assumes inv: "pt_inv s T" and same: "\<And>p r path i. T p = Some (r, path) \<Longrightarrow> idx_ok path i \<Longrightarrow>
      (r, path @ [i]) \<noteq> bad \<Longrightarrow> pte s' p i = pte s p i"
    and bad: "length (snd bad) = 4"
  shows "T t = Some (r, path) \<Longrightarrow> length path + length is = 4 \<Longrightarrow> is \<noteq> [] \<Longrightarrow> path_ok path is \<Longrightarrow>
    (r, path @ is) \<noteq> bad \<Longrightarrow> leaf_entry s' t is = leaf_entry s t is"
proof (induction "is" arbitrary: t path)
  case (Cons i "is")
  show ?case
  proof (cases "is")
    case Nil
    with Cons.prems same [of t r path i] show ?thesis by simp
  next
    case (Cons j js)
    have ok: "idx_ok path i" "path_ok (path @ [i]) is" using Cons.prems(4) by simp_all
    have "(r, path @ [i]) \<noteq> bad" using bad Cons.prems(2) Cons by auto
    then have eq: "pte s' t i = pte s t i" using same [OF Cons.prems(1) ok(1)] by blast
    have "leaf_entry s' (pte s t i AND X86_PTE_ADDR) is = leaf_entry s (pte s t i AND X86_PTE_ADDR) is"
      if "pte s t i AND X86_PTE_PRESENT \<noteq> 0" "pte s t i AND X86_PTE_HUGE = 0"
      using Cons.IH [of "pte s t i AND X86_PTE_ADDR" "path @ [i]"] pt_inv_next [OF inv Cons.prems(1) _ ok(1) that]
        Cons.prems(2,5) ok(2) Cons by simp
    then show ?thesis using eq Cons by simp
  qed
qed simp

text \<open>A new empty table behind an empty slot changes no translation.\<close>

lemma leaf_entry_grow:
  assumes inv: "pt_inv s T" and tb: "T tb = Some (rb, pb)" "length pb < 3" "pte s tb ib AND X86_PTE_PRESENT = 0"
    and same: "\<And>p r path i. T p = Some (r, path) \<Longrightarrow> idx_ok path i \<Longrightarrow> (p, i) \<noteq> (tb, ib) \<Longrightarrow> pte s' p i = pte s p i"
    and new: "pte s' tb ib AND X86_PTE_PRESENT \<noteq> 0" "pte s' tb ib AND X86_PTE_HUGE = 0"
    and zero: "\<And>i. unat i < 512 \<Longrightarrow> pte s' (pte s' tb ib AND X86_PTE_ADDR) i = 0"
  shows "T t = Some (r, path) \<Longrightarrow> length path + length is = 4 \<Longrightarrow> is \<noteq> [] \<Longrightarrow> path_ok path is \<Longrightarrow>
    leaf_entry s' t is = leaf_entry s t is"
proof (induction "is" arbitrary: t path)
  case (Cons i "is")
  have ok: "idx_ok path i" "path_ok (path @ [i]) is" using Cons.prems(4) by simp_all
  show ?case
  proof (cases "(t, i) = (tb, ib)")
    case True
    then obtain j js where js: "is = j # js" using Cons.prems(1,2) tb(1,2) by (cases "is") auto
    have "unat j < 512" using ok(2) js by (simp add: idx_ok_def)
    then have "leaf_entry s' (pte s' tb ib AND X86_PTE_ADDR) (j # js) = Inl SCDK_ERR_NOENT"
      using zero by (cases js) simp_all
    then show ?thesis using True js tb(3) new by simp
  next
    case False
    then have eq: "pte s' t i = pte s t i" using same [OF Cons.prems(1) ok(1)] by blast
    show ?thesis
    proof (cases "is")
      case Nil
      with eq show ?thesis by simp
    next
      case (Cons j js)
      have "leaf_entry s' (pte s t i AND X86_PTE_ADDR) is = leaf_entry s (pte s t i AND X86_PTE_ADDR) is"
        if "pte s t i AND X86_PTE_PRESENT \<noteq> 0" "pte s t i AND X86_PTE_HUGE = 0"
        using Cons.IH [of "pte s t i AND X86_PTE_ADDR" "path @ [i]"] pt_inv_next [OF inv Cons.prems(1) _ ok(1) that]
          Cons.prems(2) ok(2) Cons by simp
      then show ?thesis using eq Cons by simp
    qed
  qed
qed simp

section \<open>Growing the tables\<close>

text \<open>
  \<open>pt_ext s T s' T'\<close>: tables may have been added, but every translation of every
  tracked root and every present entry is as before, and so are the data pages, which
  the map \<open>T\<close> records with a path of length four, below the last table.
\<close>

definition pt_ext :: "'a vmm_state_scheme \<Rightarrow> ghost \<Rightarrow> 'a vmm_state_scheme \<Rightarrow> ghost \<Rightarrow> bool" where
  "pt_ext s T s' T' \<longleftrightarrow> pt_inv s' T' \<and> (\<forall>p x. T p = Some x \<longrightarrow> T' p = Some x) \<and>
     vmm_initialized s' = vmm_initialized s \<and> active_cr3_phys s' = active_cr3_phys s \<and>
     (\<forall>t r path is. T t = Some (r, path) \<longrightarrow> length path + length is = 4 \<longrightarrow> is \<noteq> [] \<longrightarrow> path_ok path is \<longrightarrow>
        leaf_entry s' t is = leaf_entry s t is) \<and>
     (\<forall>p r path i. T p = Some (r, path) \<longrightarrow> idx_ok path i \<longrightarrow> pte s p i AND X86_PTE_PRESENT \<noteq> 0 \<longrightarrow>
        pte s' p i = pte s p i) \<and>
     (\<forall>p x i. T p = Some x \<longrightarrow> length (snd x) = 4 \<longrightarrow> unat i < 512 \<longrightarrow> pte s' p i = pte s p i)"

lemma pt_ext_refl: "pt_inv s T \<Longrightarrow> pt_ext s T s T"
  by (simp add: pt_ext_def)

lemma pt_ext_typed: "pt_ext s T s' T' \<Longrightarrow> T p = Some x \<Longrightarrow> T' p = Some x"
  unfolding pt_ext_def by (elim conjE) blast

lemma pt_ext_leaf:
  "pt_ext s T s' T' \<Longrightarrow> T t = Some (r, path) \<Longrightarrow> length path + length is = 4 \<Longrightarrow> is \<noteq> [] \<Longrightarrow> path_ok path is \<Longrightarrow>
     leaf_entry s' t is = leaf_entry s t is"
  unfolding pt_ext_def by (elim conjE) blast

lemma pt_ext_pte:
  "pt_ext s T s' T' \<Longrightarrow> T p = Some (r, path) \<Longrightarrow> idx_ok path i \<Longrightarrow> pte s p i AND X86_PTE_PRESENT \<noteq> 0 \<Longrightarrow>
     pte s' p i = pte s p i"
  unfolding pt_ext_def by (elim conjE) blast

lemma pt_ext_data:
  "pt_ext s T s' T' \<Longrightarrow> T p = Some x \<Longrightarrow> length (snd x) = 4 \<Longrightarrow> unat i < 512 \<Longrightarrow> pte s' p i = pte s p i"
  unfolding pt_ext_def by (elim conjE) blast

lemma pt_ext_trans:
  assumes a: "pt_ext s T s1 T1" and b: "pt_ext s1 T1 s2 T2"
  shows "pt_ext s T s2 T2"
  unfolding pt_ext_def
proof (intro conjI allI impI)
  show "pt_inv s2 T2" "vmm_initialized s2 = vmm_initialized s" "active_cr3_phys s2 = active_cr3_phys s"
    using a b by (simp_all add: pt_ext_def)
  show "T2 p = Some x" if "T p = Some x" for p x
    using pt_ext_typed [OF b pt_ext_typed [OF a that]] .
  show "leaf_entry s2 t is = leaf_entry s t is"
    if "T t = Some (r, path)" "length path + length is = 4" "is \<noteq> []" "path_ok path is" for t r path "is"
    using pt_ext_leaf [OF a that] pt_ext_leaf [OF b pt_ext_typed [OF a that(1)] that(2-4)] by simp
  show "pte s2 p i = pte s p i"
    if "T p = Some (r, path)" "idx_ok path i" "pte s p i AND X86_PTE_PRESENT \<noteq> 0" for p r path i
    using pt_ext_pte [OF a that] pt_ext_pte [OF b pt_ext_typed [OF a that(1)] that(2)] that(3) by simp
  show "pte s2 p i = pte s p i" if "T p = Some x" "length (snd x) = 4" "unat i < 512" for p x i
    using pt_ext_data [OF a that] pt_ext_data [OF b pt_ext_typed [OF a that(1)] that(2,3)] by simp
qed

lemma pt_ext_inv: "pt_ext s T s' T' \<Longrightarrow> pt_inv s' T'"
  by (simp add: pt_ext_def)

lemma pmm_alloc_frame:
  assumes "scdk_page_alloc s = (r, s1)"
  shows "phys_mem s1 = phys_mem s \<and> vmm_initialized s1 = vmm_initialized s \<and> active_cr3_phys s1 = active_cr3_phys s \<and>
    cr3_register s1 = cr3_register s"
  using assms by (auto simp: scdk_page_alloc_def split: if_splits)

lemma pmm_frame [simp]:
  "pmm_inv (s\<lparr>phys_mem := m\<rparr>) = pmm_inv s" "managed (s\<lparr>phys_mem := m\<rparr>) = managed s"
  "stack_pages (s\<lparr>phys_mem := m\<rparr>) = stack_pages s"
proof -
  show m: "managed (s\<lparr>phys_mem := m\<rparr>) = managed s" by (rule managed_frame) simp_all
  show st: "stack_pages (s\<lparr>phys_mem := m\<rparr>) = stack_pages s" by (simp add: stack_pages_def)
  show "pmm_inv (s\<lparr>phys_mem := m\<rparr>) = pmm_inv s" by (simp add: pmm_inv_def m st)
qed

lemma pmm_frame_ops [simp]:
  "pmm_inv (set_pte s t i e) = pmm_inv s" "managed (set_pte s t i e) = managed s"
  "stack_pages (set_pte s t i e) = stack_pages s" "pmm_inv (zero_page s p) = pmm_inv s"
  "managed (zero_page s p) = managed s" "stack_pages (zero_page s p) = stack_pages s"
  "vmm_initialized (set_pte s t i e) = vmm_initialized s" "vmm_initialized (zero_page s p) = vmm_initialized s"
  "active_cr3_phys (set_pte s t i e) = active_cr3_phys s" "active_cr3_phys (zero_page s p) = active_cr3_phys s"
  by (simp_all add: set_pte_def zero_page_def)

lemma managed_aligned: "p \<in> managed s \<Longrightarrow> 4096 dvd unat p"
  using page_aligned [of p] by (auto simp: managed_def scdk_pmm_is_usable_page_def split: if_splits)

text \<open>A page taken from the allocator is no table.\<close>

lemma alloc_fresh:
  assumes inv: "pt_inv s T" and a: "scdk_page_alloc s = (Inr n, s1)"
  shows "T n = None" "4096 dvd unat n" "unat n < 2 ^ 52" "pt_inv s1 T" "n \<notin> set (stack_pages s1)"
proof -
  have p: "pmm_inv s" using inv by (simp add: pt_inv_def)
  note ao = pages.alloc_ok [OF p a] and fr = pmm_alloc_frame [OF a]
  have m: "n \<in> managed s" using ao p by (auto simp: pmm_inv_def)
  show "4096 dvd unat n" using m by (rule managed_aligned)
  show "unat n < 2 ^ 52" using m inv by (simp add: pt_inv_def)
  show "T n = None"
  proof (cases "T n")
    case (Some x)
    then obtain r path where "T n = Some (r, path)" by (cases x) auto
    then have "n \<notin> set (stack_pages s)" using pt_inv_page [OF inv] by blast
    with ao show ?thesis by simp
  qed
  show "n \<notin> set (stack_pages s1)" using ao by simp
  have "managed s1 = managed s" using page_alloc_Inr [OF a] by simp
  moreover have "pte s1 = pte s" using fr by (intro ext) (simp add: pte_def)
  ultimately show "pt_inv s1 T" using inv ao unfolding pt_inv_def by auto
qed

lemma next_table_grow:
  assumes inv: "pt_inv s T" and t: "T t = Some (r, path)" "length path < 3" "idx_ok path i"
    and f: "f \<in> {0, X86_PTE_USER}" and n: "next_table s t i True f = (res, s')"
  shows "\<exists>T'. pt_ext s T s' T' \<and> (\<forall>u. res = Inr u \<longrightarrow> T' u = Some (r, path @ [i]) \<and> walk s' t [i] = Inr u)"
proof (cases "pte s t i AND X86_PTE_PRESENT = 0")
  case False
  then have "s' = s" and res: "res = (if pte s t i AND X86_PTE_HUGE \<noteq> 0 then Inl SCDK_ERR_BUSY else Inr (pte s t i AND X86_PTE_ADDR))"
    using n by (auto simp: next_table_def Let_def split: if_splits)
  with False pt_inv_next [OF inv t False] pt_ext_refl [OF inv] show ?thesis
    by (intro exI [of _ T]) (auto split: if_splits)
next
  case np: True
  obtain ra s1 where a: "scdk_page_alloc s = (ra, s1)" by fastforce
  show ?thesis
  proof (cases ra)
    case (Inl e)
    then have "s' = s" "res = Inl e"
      using n np a pages.alloc_err [of s e s1] inv
      by (auto simp: next_table_def allocate_table_def pt_inv_def Let_def)
    then show ?thesis using pt_ext_refl [OF inv] by auto
  next
    case (Inr nt)
    note fr = alloc_fresh [OF inv a [unfolded Inr]]
    let ?e = "nt OR X86_PTE_PRESENT OR X86_PTE_WRITABLE OR f"
    note ef = table_entry_facts [OF fr(2,3) f]
    have s': "s' = set_pte (zero_page s1 nt) t i ?e" and res: "res = Inr nt"
      using n np a Inr ef by (auto simp: next_table_def allocate_table_def Let_def)
    have tal: "4096 dvd unat t" using pt_inv_page [OF inv t(1)] by blast
    have il: "unat i < 512" using t(3) by (simp add: idx_ok_def)
    have tn: "t \<noteq> nt" using fr(1) t(1) by auto
    have pt: "pte s' p j = (if p = t \<and> j = i then ?e else if p = nt then 0 else pte s p j)"
      if "4096 dvd unat p" "unat j < 512" for p j
    proof -
      have "pte s1 p j = pte s p j" using pmm_alloc_frame [OF a] by (simp add: pte_def)
      then show ?thesis
        unfolding s' pte_set [OF that(1) tal that(2) il] pte_zero [OF that(1) fr(2) that(2)] by simp
    qed
    have same: "pte s' p j = pte s p j" if "T p = Some (r', path')" "idx_ok path' j" "(p, j) \<noteq> (t, i)" for p j r' path'
      using pt [of p j] that fr(1) pt_inv_page [OF inv that(1)] by (auto simp: idx_ok_def)
    have new: "pte s' t i = ?e" using pt [OF tal il] by simp
    have zero: "pte s' nt j = 0" if "unat j < 512" for j using pt [OF fr(2) that] tn by simp
    let ?T = "T(nt \<mapsto> (r, path @ [i]))"
    have le: "\<forall>p x. T p = Some x \<longrightarrow> ?T p = Some x" using fr(1) by auto
    have "pt_inv s' ?T"
    proof -
      have "?T (pte s' p j AND X86_PTE_ADDR) = Some (r', path' @ [j])"
        if p: "?T p = Some (r', path')" "length path' < 3" "idx_ok path' j"
          "pte s' p j AND X86_PTE_PRESENT \<noteq> 0" "pte s' p j AND X86_PTE_HUGE = 0" for p r' path' j
      proof (cases "p = nt")
        case True
        then show ?thesis using zero [of j] p(3,4) by (simp add: idx_ok_def)
      next
        case pn: False
        then have tp: "T p = Some (r', path')" using p(1) by simp
        show ?thesis
        proof (cases "(p, j) = (t, i)")
          case True
          then show ?thesis using new ef tp t(1) by auto
        next
          case False
          then show ?thesis using same [OF tp p(3) False] p pt_inv_next [OF inv tp p(2,3)] le by simp
        qed
      qed
      moreover have "4096 dvd unat p \<and> unat p < 2 ^ 52 \<and> p \<notin> set (stack_pages s') \<and> (path' = [] \<longrightarrow> p = r')"
        if "?T p = Some (r', path')" for p r' path'
        using that fr(2,3,4,5) s' unfolding pt_inv_def by (auto split: if_splits)
      moreover have "pmm_inv s'" "\<forall>p\<in>managed s'. unat p < 2 ^ 52" using fr(4) s' by (simp_all add: pt_inv_def)
      ultimately show ?thesis unfolding pt_inv_def by blast
    qed
    moreover have "leaf_entry s' t0 is = leaf_entry s t0 is"
      if "T t0 = Some (r0, path0)" "length path0 + length is = 4" "is \<noteq> []" "path_ok path0 is" for t0 r0 path0 "is"
      using leaf_entry_grow [OF inv t(1,2) np same _ _ _ that] new ef zero by simp
    moreover have "pte s' p j = pte s p j"
      if "T p = Some (r', path')" "idx_ok path' j" "pte s p j AND X86_PTE_PRESENT \<noteq> 0" for p r' path' j
      using same [OF that(1,2)] that(3) np by fastforce
    moreover have "pte s' p j = pte s p j" if "T p = Some x" "length (snd x) = 4" "unat j < 512" for p x j
    proof -
      have "idx_ok (snd x) j" "p \<noteq> t" using that t(1,2) by (auto simp: idx_ok_def)
      then show ?thesis using same [of p "fst x" "snd x" j] that(1) by simp
    qed
    ultimately have "pt_ext s T s' ?T"
      using le s' pmm_alloc_frame [OF a] unfolding pt_ext_def by simp
    moreover have "walk s' t [i] = Inr nt" using new ef by simp
    ultimately show ?thesis using res by (intro exI [of _ ?T]) simp
  qed
qed

section \<open>Paths of user addresses\<close>

lemma unat_index:
  "unat (pml4_index v) = unat v div 4096 div 512 div 512 div 512 mod 512"
  "unat (pdpt_index v) = unat v div 4096 div 512 div 512 mod 512"
  "unat (pd_index v) = unat v div 4096 div 512 mod 512"
  "unat (pt_index v) = unat v div 4096 mod 512"
proof -
  have i: "unat (drop_bit k v AND 0x1ff) = unat v div 2 ^ k mod 512" for k
  proof -
    have "(drop_bit k v AND 0x1ff) = take_bit 9 (drop_bit k v)" by (simp add: take_bit_eq_mask mask_eq_exp_minus_1)
    then have "unat (drop_bit k v AND 0x1ff) = take_bit 9 (drop_bit k (unat v))"
      using unat_u64_less [of v] by (simp only: unsigned_take_bit_eq unsigned_drop_bit_eq) (simp add: take_bit_nat_eq_self)
    then show ?thesis by (simp add: take_bit_eq_mod drop_bit_eq_div)
  qed
  show "unat (pml4_index v) = unat v div 4096 div 512 div 512 div 512 mod 512"
    "unat (pdpt_index v) = unat v div 4096 div 512 div 512 mod 512"
    "unat (pd_index v) = unat v div 4096 div 512 mod 512"
    "unat (pt_index v) = unat v div 4096 mod 512"
    unfolding pml4_index_def pdpt_index_def pd_index_def pt_index_def i
    by (simp_all add: div_mult2_eq [symmetric])
qed

lemma user_path_ok:
  assumes "unat v < 2 ^ 47"
  shows "path_ok [] (full_path v)" "path_ok [] (table_path v)"
proof -
  have "unat v div 4096 div 512 div 512 div 512 < 256"
    using assms by (simp add: div_mult2_eq [symmetric] less_mult_imp_div_less)
  then have "unat (pml4_index v) < 256" unfolding unat_index by simp
  then show "path_ok [] (full_path v)" "path_ok [] (table_path v)"
    by (simp_all add: full_path_def table_path_def idx_ok_def)
qed

lemma full_path_inj:
  assumes "unat v < 2 ^ 47" "unat w < 2 ^ 47" "full_path v = full_path w"
  shows "v AND NOT (SCDK_PAGE_SIZE - 1) = w AND NOT (SCDK_PAGE_SIZE - 1)"
proof -
  let ?x = "unat v div 4096" and ?y = "unat w div 4096"
  have split: "x = ((x div 512 div 512 div 512 mod 512 * 512 + x div 512 div 512 mod 512) * 512 + x div 512 mod 512) * 512 + x mod 512"
    if "x < 2 ^ 35" for x :: nat
  proof -
    have "x div 512 div 512 div 512 mod 512 = x div 512 div 512 div 512"
      using that by (simp add: div_mult2_eq [symmetric] less_mult_imp_div_less)
    then show ?thesis by (simp only: div_mult_mod_eq)
  qed
  have e: "unat (pml4_index v) = unat (pml4_index w)" "unat (pdpt_index v) = unat (pdpt_index w)"
    "unat (pd_index v) = unat (pd_index w)" "unat (pt_index v) = unat (pt_index w)"
    using assms(3) by (simp_all add: full_path_def table_path_def)
  have b: "?x < 2 ^ 35" "?y < 2 ^ 35" using assms(1,2) by (simp_all add: less_mult_imp_div_less)
  have "?x = ?y" using split [OF b(1)] split [OF b(2)] e unfolding unat_index by metis
  then have "unat (align_down v SCDK_PAGE_SIZE) = unat (align_down w SCDK_PAGE_SIZE)" by (simp add: unat_align_down)
  then show ?thesis unfolding align_down_def by (simp only: word_unat_eq_iff)
qed

lemma full_path_page: "full_path (v AND NOT (SCDK_PAGE_SIZE - 1)) = full_path v"
proof -
  have "unat (v AND NOT (SCDK_PAGE_SIZE - 1)) div 4096 = unat v div 4096"
    using unat_align_down [of v] by (simp add: align_down_def)
  then have "pml4_index (v AND NOT (SCDK_PAGE_SIZE - 1)) = pml4_index v"
    "pdpt_index (v AND NOT (SCDK_PAGE_SIZE - 1)) = pdpt_index v"
    "pd_index (v AND NOT (SCDK_PAGE_SIZE - 1)) = pd_index v"
    "pt_index (v AND NOT (SCDK_PAGE_SIZE - 1)) = pt_index v"
    by (simp_all only: word_unat_eq_iff unat_index)
  then show ?thesis by (simp only: full_path_def table_path_def)
qed

section \<open>Walks survive growth\<close>

lemma walk_append: "walk s t (is @ js) = (case walk s t is of Inl e \<Rightarrow> Inl e | Inr u \<Rightarrow> walk s u js)"
  by (induction "is" arbitrary: t) auto

lemma walk_typed:
  assumes "pt_inv s T"
  shows "T t = Some (r, path) \<Longrightarrow> length path + length is \<le> 3 \<Longrightarrow> path_ok path is \<Longrightarrow> walk s t is = Inr u \<Longrightarrow>
    T u = Some (r, path @ is)"
proof (induction "is" arbitrary: t path)
  case (Cons i "is")
  then have p: "pte s t i AND X86_PTE_PRESENT \<noteq> 0" "pte s t i AND X86_PTE_HUGE = 0" by (auto split: if_splits)
  have "T (pte s t i AND X86_PTE_ADDR) = Some (r, path @ [i])"
    using pt_inv_next [OF assms Cons.prems(1) _ _ p] Cons.prems(2,3) by simp
  with Cons.IH [of "pte s t i AND X86_PTE_ADDR" "path @ [i]"] Cons.prems p show ?case by simp
qed simp

lemma walk_ext:
  assumes inv: "pt_inv s T" and x: "pt_ext s T s' T'"
  shows "T t = Some (r, path) \<Longrightarrow> length path + length is \<le> 3 \<Longrightarrow> path_ok path is \<Longrightarrow> walk s t is = Inr u \<Longrightarrow>
    walk s' t is = Inr u"
proof (induction "is" arbitrary: t path)
  case (Cons i "is")
  then have p: "pte s t i AND X86_PTE_PRESENT \<noteq> 0" "pte s t i AND X86_PTE_HUGE = 0" by (auto split: if_splits)
  have ok: "idx_ok path i" using Cons.prems(3) by simp
  have "T (pte s t i AND X86_PTE_ADDR) = Some (r, path @ [i])"
    using pt_inv_next [OF inv Cons.prems(1) _ ok p] Cons.prems(2) by simp
  moreover have "pte s' t i = pte s t i" using pt_ext_pte [OF x Cons.prems(1) ok p(1)] .
  ultimately show ?case using Cons.IH [of "pte s t i AND X86_PTE_ADDR" "path @ [i]"] Cons.prems p by simp
qed simp

text \<open>One more level, walking from the root.\<close>

lemma grow_step:
  assumes inv: "pt_inv s T" and root: "T root = Some (root, [])" and w: "walk s root is = Inr t"
    and len: "length is < 3" and ok: "path_ok [] (is @ [i])" and f: "f \<in> {0, X86_PTE_USER}"
    and n: "next_table s t i True f = (res, s')"
  shows "\<exists>T'. pt_ext s T s' T' \<and> (\<forall>u. res = Inr u \<longrightarrow> walk s' root (is @ [i]) = Inr u)"
proof -
  have pk: "path_ok [] is \<and> idx_ok is i"
  proof -
    have "path_ok path (js @ [i]) \<Longrightarrow> path_ok path js \<and> idx_ok (path @ js) i" for path js
      by (induction js arbitrary: path) fastforce+
    from this [of "[]" "is"] ok show ?thesis by simp
  qed
  have t: "T t = Some (root, is)" using walk_typed [OF inv root _ _ w] len pk by simp
  obtain T' where T': "pt_ext s T s' T'" "\<forall>u. res = Inr u \<longrightarrow> walk s' t [i] = Inr u"
    using next_table_grow [OF inv t len _ f n] pk by blast
  have "walk s' root is = Inr t" using walk_ext [OF inv T'(1) root _ _ w] len pk by simp
  then show ?thesis using T' by (intro exI [of _ T']) (simp add: walk_append)
qed

lemma leaf_table_grow:
  assumes inv: "pt_inv s T" and root: "T root = Some (root, [])" and v: "unat virt < 2 ^ 47"
    and f: "f \<in> {0, X86_PTE_USER}" and l: "leaf_table_for_root s root virt True f = (res, s')"
  shows "\<exists>T'. pt_ext s T s' T' \<and> (\<forall>u. res = Inr u \<longrightarrow> walk s' root (table_path virt) = Inr u)"
proof -
  have ok: "path_ok [] [pml4_index virt]" "path_ok [] [pml4_index virt, pdpt_index virt]"
    "path_ok [] [pml4_index virt, pdpt_index virt, pd_index virt]"
    using user_path_ok(2) [OF v] by (simp_all add: table_path_def)
  obtain r1 s1 where n1: "next_table s root (pml4_index virt) True f = (r1, s1)" by fastforce
  obtain T1 where T1: "pt_ext s T s1 T1" "\<forall>u. r1 = Inr u \<longrightarrow> walk s1 root [pml4_index virt] = Inr u"
    using grow_step [OF inv root _ _ _ f n1, of "[]"] ok by auto
  show ?thesis
  proof (cases r1)
    case (Inl e)
    with l n1 T1 show ?thesis by (auto simp: leaf_table_for_root_def)
  next
    case (Inr u1)
    obtain r2 s2 where n2: "next_table s1 u1 (pdpt_index virt) True f = (r2, s2)" by fastforce
    note root1 = pt_ext_typed [OF T1(1) root]
    obtain T2 where T2: "pt_ext s1 T1 s2 T2"
      "\<forall>u. r2 = Inr u \<longrightarrow> walk s2 root [pml4_index virt, pdpt_index virt] = Inr u"
      using grow_step [OF pt_ext_inv [OF T1(1)] root1 _ _ _ f n2, of "[pml4_index virt]"] T1(2) Inr ok by auto
    note x2 = pt_ext_trans [OF T1(1) T2(1)] and root2 = pt_ext_typed [OF T2(1) root1]
    show ?thesis
    proof (cases r2)
      case e: (Inl e)
      with l n1 n2 Inr x2 show ?thesis by (auto simp: leaf_table_for_root_def)
    next
      case u2: (Inr u2)
      have n3: "next_table s2 u2 (pd_index virt) True f = (res, s')"
        using l n1 n2 Inr u2 by (simp add: leaf_table_for_root_def)
      obtain T3 where T3: "pt_ext s2 T2 s' T3"
        "\<forall>u. res = Inr u \<longrightarrow> walk s' root [pml4_index virt, pdpt_index virt, pd_index virt] = Inr u"
        using grow_step [OF pt_ext_inv [OF T2(1)] root2 _ _ _ f n3, of "[pml4_index virt, pdpt_index virt]"] T2(2) u2 ok
        by auto
      then show ?thesis using pt_ext_trans [OF x2 T3(1)] by (auto simp: table_path_def)
    qed
  qed
qed

section \<open>Writing a leaf entry\<close>

lemma leaf_write:
  assumes inv: "pt_inv s T" and root: "T root = Some (root, [])" and v: "unat virt < 2 ^ 47"
    and w: "walk s root (table_path virt) = Inr pt" and s': "s' = set_pte s pt (pt_index virt) e"
  shows "pt_inv s' T"
    and "leaf_entry s' root (full_path virt) = (if e AND X86_PTE_PRESENT = 0 then Inl SCDK_ERR_NOENT else Inr e)"
    and "T root' = Some (root', []) \<Longrightarrow> unat u < 2 ^ 47 \<Longrightarrow> (root', full_path u) \<noteq> (root, full_path virt) \<Longrightarrow>
      leaf_entry s' root' (full_path u) = leaf_entry s root' (full_path u)"
    and "T p = Some x \<Longrightarrow> length (snd x) = 4 \<Longrightarrow> unat i < 512 \<Longrightarrow> pte s' p i = pte s p i"
proof -
  have tp: "T pt = Some (root, table_path virt)"
    using walk_typed [OF inv root _ user_path_ok(2) [OF v] w] by (simp add: table_path_def)
  then have al: "4096 dvd unat pt" using pt_inv_page [OF inv] by blast
  have ptes: "pte s' p i = (if p = pt \<and> i = pt_index virt then e else pte s p i)"
    if "T p = Some (r, path)" "idx_ok path i" for p r path i
    using pte_set [OF _ al, of p i "pt_index virt" s e] pt_inv_page [OF inv that(1)] that(2)
    by (simp add: s' idx_ok_def)
  have low: "pte s' p i = pte s p i" if "T p = Some (r, path)" "idx_ok path i" "length path < 3" for p r path i
    using ptes [OF that(1,2)] that(1,3) tp by (auto simp: table_path_def)
  show "pt_inv s' T"
  proof -
    have "T (pte s' p i AND X86_PTE_ADDR) = Some (r, path @ [i])"
      if "T p = Some (r, path)" "length path < 3" "idx_ok path i" "pte s' p i AND X86_PTE_PRESENT \<noteq> 0"
        "pte s' p i AND X86_PTE_HUGE = 0" for p r path i
      using pt_inv_next [OF inv that(1-3)] that(4,5) low [OF that(1,3,2)] by simp
    moreover have "4096 dvd unat p \<and> unat p < 2 ^ 52 \<and> p \<notin> set (stack_pages s') \<and> (path = [] \<longrightarrow> p = r)"
      if "T p = Some (r, path)" for p r path
      using inv that unfolding pt_inv_def s' by simp
    moreover have "pmm_inv s'" "\<forall>p\<in>managed s'. unat p < 2 ^ 52" using inv by (simp_all add: pt_inv_def s')
    ultimately show ?thesis unfolding pt_inv_def by blast
  qed
  have walk_same: "walk s' t is = walk s t is"
    if "T t = Some (r, path)" "length path + length is \<le> 3" "path_ok path is" for t r path "is"
    using that
  proof (induction "is" arbitrary: t path)
    case (Cons i "is")
    have ok: "idx_ok path i" using Cons.prems(3) by simp
    have "pte s' t i = pte s t i" using low [OF Cons.prems(1) ok] Cons.prems(2) by simp
    then show ?case
      using Cons.IH [of "pte s t i AND X86_PTE_ADDR" "path @ [i]"] Cons.prems pt_inv_next [OF inv Cons.prems(1) _ ok] by simp
  qed simp
  have "walk s' root (table_path virt) = Inr pt"
    using walk_same [OF root _ user_path_ok(2) [OF v]] w by (simp add: table_path_def)
  moreover have "pte s' pt (pt_index virt) = e" by (simp add: s' pte_def set_pte_def)
  ultimately show "leaf_entry s' root (full_path virt) = (if e AND X86_PTE_PRESENT = 0 then Inl SCDK_ERR_NOENT else Inr e)"
    by (simp add: full_path_def leaf_entry_walk)
  have same: "pte s' p i = pte s p i"
    if "T p = Some (r, path)" "idx_ok path i" "(r, path @ [i]) \<noteq> (root, full_path virt)" for p r path i
    using ptes [OF that(1,2)] that(1,3) tp by (auto simp: full_path_def)
  show "leaf_entry s' root' (full_path u) = leaf_entry s root' (full_path u)"
    if "T root' = Some (root', [])" "unat u < 2 ^ 47" "(root', full_path u) \<noteq> (root, full_path virt)"
    by (rule leaf_entry_write [OF inv, where bad = "(root, full_path virt)" and r = root' and path = "[]"])
      (use that user_path_ok(1) [OF that(2)] in \<open>simp_all add: same\<close>)
  show "pte s' p i = pte s p i" if "T p = Some x" "length (snd x) = 4" "unat i < 512"
  proof -
    have "idx_ok (snd x) i" "p \<noteq> pt" using that tp by (auto simp: idx_ok_def table_path_def)
    then show ?thesis using ptes [of p "fst x" "snd x" i] that(1) by simp
  qed
qed

lemma virt_to_phys_cong:
  assumes "leaf_entry s' root (full_path v) = leaf_entry s root (full_path v)" "vmm_initialized s' = vmm_initialized s"
  shows "scdk_vmm_virt_to_phys_in_root s' root v = scdk_vmm_virt_to_phys_in_root s root v"
  unfolding virt_to_phys_leaf using assms by (simp add: validate_root_def validate_vmm_address_def)

abbreviation page_of :: "u64 \<Rightarrow> u64" where
  "page_of v \<equiv> v AND NOT (SCDK_PAGE_SIZE - 1)"

lemma page_of_aligned: "is_page_aligned v \<Longrightarrow> page_of v = v"
proof -
  assume "is_page_aligned v"
  then have "4096 dvd unat v" by (simp only: is_page_aligned_def page_aligned)
  then have "unat (align_down v SCDK_PAGE_SIZE) = unat v" by (simp add: unat_align_down)
  then show ?thesis unfolding align_down_def by (simp only: word_unat_eq_iff)
qed

lemma other_page:
  assumes "unat v < 2 ^ 47" "unat u < 2 ^ 47" "(root', page_of u) \<noteq> (root, page_of v)"
  shows "(root', full_path u) \<noteq> (root, full_path v)"
  using full_path_inj [OF assms(2,1)] assms(3) by auto

lemma map_flags_eq:
  fixes flags :: u64
  assumes "flags AND NOT (SCDK_VMM_MAP_WRITE OR SCDK_VMM_MAP_USER) = 0"
  shows "(if flags AND SCDK_VMM_MAP_WRITE \<noteq> 0 then SCDK_VMM_MAP_WRITE else 0) OR
    (if flags AND SCDK_VMM_MAP_USER \<noteq> 0 then SCDK_VMM_MAP_USER else 0) = flags"
proof -
  have "flags = (flags AND m) OR (flags AND NOT m)" for m by (rule bit_word_eqI) (auto simp: bit_simps)
  from this [of "SCDK_VMM_MAP_WRITE OR SCDK_VMM_MAP_USER"] assms
  have "flags = flags AND (SCDK_VMM_MAP_WRITE OR SCDK_VMM_MAP_USER)" by simp
  then have f: "flags = (flags AND 1) OR (flags AND 2)"
    by (simp only: SCDK_VMM_MAP_WRITE_def SCDK_VMM_MAP_USER_def bit.conj_disj_distrib)
  have "flags AND 2 = 0 \<or> flags AND 2 = 2"
    using and_exp_eq_0_iff_not_bit [of flags 1] by (cases "bit flags 1") (auto intro!: bit_word_eqI simp: bit_simps)
  moreover have "flags AND 1 = 0 \<or> flags AND 1 = 1" by (cases "bit flags 0") (auto intro!: bit_word_eqI simp: bit_simps)
  ultimately show ?thesis using f by (auto simp: SCDK_VMM_MAP_WRITE_def SCDK_VMM_MAP_USER_def)
qed

lemma leaf_bits:
  fixes phys :: u64
  defines "e w u \<equiv> (phys AND X86_PTE_ADDR) OR (X86_PTE_PRESENT OR (if w then X86_PTE_WRITABLE else 0) OR (if u then X86_PTE_USER else 0))"
  shows "e w u AND X86_PTE_PRESENT \<noteq> 0" "e w u AND X86_PTE_ADDR = phys AND X86_PTE_ADDR"
    "(e w u AND X86_PTE_WRITABLE \<noteq> 0) = w" "(e w u AND X86_PTE_USER \<noteq> 0) = u"
proof -
  have out: "((phys AND X86_PTE_ADDR) OR c) AND b = c AND b" if "X86_PTE_ADDR AND b = 0" for c b
    using that by (simp add: bit.conj_disj_distrib2 and.assoc)
  have inn: "((phys AND X86_PTE_ADDR) OR c) AND X86_PTE_ADDR = phys AND X86_PTE_ADDR" if "c AND X86_PTE_ADDR = 0" for c
    using that by (simp add: bit.conj_disj_distrib2 and.assoc)
  have b: "X86_PTE_ADDR AND 1 = 0" "X86_PTE_ADDR AND 2 = 0" "X86_PTE_ADDR AND 4 = 0" by (simp_all add: X86_PTE_ADDR_def)
  show "e w u AND X86_PTE_PRESENT \<noteq> 0" unfolding e_def X86_PTE_PRESENT_def out [OF b(1)]
    by (simp add: X86_PTE_WRITABLE_def X86_PTE_USER_def)
  show "e w u AND X86_PTE_ADDR = phys AND X86_PTE_ADDR" unfolding e_def
    by (rule inn) (simp add: X86_PTE_PRESENT_def X86_PTE_WRITABLE_def X86_PTE_USER_def X86_PTE_ADDR_def)
  show "(e w u AND X86_PTE_WRITABLE \<noteq> 0) = w" unfolding e_def X86_PTE_WRITABLE_def out [OF b(2)]
    by (simp add: X86_PTE_PRESENT_def X86_PTE_USER_def)
  show "(e w u AND X86_PTE_USER \<noteq> 0) = u" unfolding e_def X86_PTE_USER_def out [OF b(3)]
    by (simp add: X86_PTE_PRESENT_def X86_PTE_WRITABLE_def)
qed

lemma page_alloc_not_OK: "fst (scdk_page_alloc s) \<noteq> Inl SCDK_OK"
  by (simp add: scdk_page_alloc_def)

lemma next_table_not_OK: "fst (next_table s t i c f) \<noteq> Inl SCDK_OK"
  using page_alloc_not_OK [of s]
  by (auto simp: next_table_def allocate_table_def Let_def split: sum.splits prod.splits)

lemma leaf_table_not_OK: "leaf_table_for_root s root v c f = (Inl e, s') \<Longrightarrow> e \<noteq> SCDK_OK"
  using next_table_not_OK [of s root "pml4_index v" c f]
  unfolding leaf_table_for_root_def
  by (auto split: sum.splits prod.splits) (metis fst_conv next_table_not_OK)+

section \<open>Mapping, unmapping and new roots\<close>

lemma map_isolated:
  assumes "pt_inv s T" and "T root = Some (root, [])" and "unat virt < 2 ^ 47"
    and "scdk_vmm_map_page_in_root s root virt phys flags = (r, s')"
  shows "\<exists>T'. pt_inv s' T' \<and> (\<forall>p x. T p = Some x \<longrightarrow> T' p = Some x) \<and>
    (r = SCDK_OK \<longrightarrow> scdk_vmm_virt_to_phys_in_root s' root virt = Inr (phys AND X86_PTE_ADDR, flags)) \<and>
    (\<forall>root' u. T root' = Some (root', []) \<longrightarrow> unat u < 2 ^ 47 \<longrightarrow> r \<noteq> SCDK_OK \<or> (root', page_of u) \<noteq> (root, virt) \<longrightarrow>
       scdk_vmm_virt_to_phys_in_root s' root' u = scdk_vmm_virt_to_phys_in_root s root' u) \<and>
    (r = SCDK_OK \<longrightarrow> (\<forall>x. scdk_vmm_virt_to_phys_in_root s root virt \<noteq> Inr x)) \<and>
    (\<forall>p x i. T p = Some x \<longrightarrow> length (snd x) = 4 \<longrightarrow> unat i < 512 \<longrightarrow> pte s' p i = pte s p i)"
proof (cases "validate_root s root \<noteq> SCDK_OK \<or> validate_vmm_address s virt \<noteq> SCDK_OK \<or> \<not> is_page_aligned phys \<or>
    flags AND NOT (SCDK_VMM_MAP_WRITE OR SCDK_VMM_MAP_USER) \<noteq> 0")
  case True
  then have "s' = s \<and> r \<noteq> SCDK_OK" using assms(4) by (auto simp: scdk_vmm_map_page_in_root_def split: if_splits)
  with assms(1) show ?thesis by blast
next
  case False
  then have vr: "validate_root s root = SCDK_OK" and va: "validate_vmm_address s virt = SCDK_OK"
    and fl: "flags AND NOT (SCDK_VMM_MAP_WRITE OR SCDK_VMM_MAP_USER) = 0" by simp_all
  have al: "is_page_aligned virt" using va by (simp add: validate_vmm_address_def split: if_splits)
  let ?tf = "if flags AND SCDK_VMM_MAP_USER \<noteq> 0 then X86_PTE_USER else 0"
  obtain rl s1 where l: "leaf_table_for_root s root virt True ?tf = (rl, s1)" by fastforce
  have "?tf \<in> {0, X86_PTE_USER}" by simp
  then obtain T1 where T1: "pt_ext s T s1 T1" "\<forall>u. rl = Inr u \<longrightarrow> walk s1 root (table_path virt) = Inr u"
    using leaf_table_grow [OF assms(1-3) _ l] by blast
  have init: "vmm_initialized s1 = vmm_initialized s" using T1(1) by (simp add: pt_ext_def)
  have keep: "scdk_vmm_virt_to_phys_in_root s1 root' u = scdk_vmm_virt_to_phys_in_root s root' u"
    if "T root' = Some (root', [])" "unat u < 2 ^ 47" for root' u
    using virt_to_phys_cong [OF pt_ext_leaf [OF T1(1) that(1) _ _ user_path_ok(1) [OF that(2)]] init] by simp
  show ?thesis
  proof (cases "\<exists>pt. rl = Inr pt \<and> pte s1 pt (pt_index virt) AND X86_PTE_PRESENT = 0")
    case no: False
    have "s' = s1 \<and> r \<noteq> SCDK_OK"
    proof (cases rl)
      case (Inl e)
      with leaf_table_not_OK [of s root virt True ?tf e s1] l have "e \<noteq> SCDK_OK" by simp
      with assms(4) vr va False l Inl show ?thesis by (auto simp: scdk_vmm_map_page_in_root_def Let_def)
    next
      case (Inr pt)
      with no have "pte s1 pt (pt_index virt) AND X86_PTE_PRESENT \<noteq> 0" by blast
      with assms(4) vr va False l Inr show ?thesis by (auto simp: scdk_vmm_map_page_in_root_def Let_def)
    qed
    then show ?thesis using pt_ext_inv [OF T1(1)] pt_ext_typed [OF T1(1)] keep pt_ext_data [OF T1(1)] by blast
  next
    case True
    then obtain pt where pt: "rl = Inr pt" "pte s1 pt (pt_index virt) AND X86_PTE_PRESENT = 0" by blast
    let ?e = "(phys AND X86_PTE_ADDR) OR (X86_PTE_PRESENT
       OR (if flags AND SCDK_VMM_MAP_WRITE \<noteq> 0 then X86_PTE_WRITABLE else 0)
       OR (if flags AND SCDK_VMM_MAP_USER \<noteq> 0 then X86_PTE_USER else 0))"
    have r: "r = SCDK_OK" and s': "s' = set_pte s1 pt (pt_index virt) ?e"
      using assms(4) vr va False l pt by (auto simp: scdk_vmm_map_page_in_root_def Let_def)
    note root1 = pt_ext_typed [OF T1(1) assms(2)]
    note lw = leaf_write [OF pt_ext_inv [OF T1(1)] root1 assms(3) _ s']
    have w: "walk s1 root (table_path virt) = Inr pt" using T1(2) pt(1) by blast
    have "scdk_vmm_virt_to_phys_in_root s' root' u = scdk_vmm_virt_to_phys_in_root s root' u"
      if "T root' = Some (root', [])" "unat u < 2 ^ 47" "(root', page_of u) \<noteq> (root, virt)" for root' u
    proof -
      have "(root', full_path u) \<noteq> (root, full_path virt)"
        using other_page [OF assms(3) that(2)] that(3) page_of_aligned [OF al] by simp
      from lw(3) [OF w pt_ext_typed [OF T1(1) that(1)] that(2) this]
      have "scdk_vmm_virt_to_phys_in_root s' root' u = scdk_vmm_virt_to_phys_in_root s1 root' u"
        by (rule virt_to_phys_cong) (simp add: s')
      then show ?thesis using keep [OF that(1,2)] by simp
    qed
    moreover have "scdk_vmm_virt_to_phys_in_root s' root virt = Inr (phys AND X86_PTE_ADDR, flags)"
    proof -
      have lf: "leaf_entry s' root (full_path virt) = Inr ?e" using lw(2) [OF w] leaf_bits(1) by simp
      have off: "virt AND (SCDK_PAGE_SIZE - 1) = 0" using al by (simp add: is_page_aligned_def)
      have init': "vmm_initialized s' = vmm_initialized s" using init by (simp add: s')
      have "validate_root s' root = SCDK_OK" "validate_vmm_address s' (page_of virt) = SCDK_OK"
        using vr va init' page_of_aligned [OF al] by (simp_all add: validate_root_def validate_vmm_address_def)
      then show ?thesis
        unfolding virt_to_phys_leaf lf by (simp add: off leaf_bits(2-4) map_flags_eq [OF fl])
    qed
    moreover have "scdk_vmm_virt_to_phys_in_root s root virt \<noteq> Inr x" for x
    proof -
      have "leaf_entry s1 root (full_path virt) = Inl SCDK_ERR_NOENT" using w pt(2) by (simp add: full_path_def leaf_entry_walk)
      then have "scdk_vmm_virt_to_phys_in_root s1 root virt \<noteq> Inr x" unfolding virt_to_phys_leaf by simp
      then show ?thesis using keep [OF assms(2,3)] by simp
    qed
    moreover have "pte s' p i = pte s p i" if "T p = Some x" "length (snd x) = 4" "unat i < 512" for p x i
      using lw(4) [OF w pt_ext_typed [OF T1(1) that(1)] that(2,3)] pt_ext_data [OF T1(1) that] by simp
    ultimately show ?thesis using lw(1) [OF w] pt_ext_typed [OF T1(1)] r by blast
  qed
qed

lemma unmap_isolated:
  assumes "pt_inv s T" and "T root = Some (root, [])" and "unat virt < 2 ^ 47"
    and "scdk_vmm_unmap_page_in_root s root virt = (r, s')"
  shows "if r = SCDK_OK then pt_inv s' T \<and> scdk_vmm_virt_to_phys_in_root s' root virt = Inl SCDK_ERR_NOENT \<and>
      (\<forall>root' u. T root' = Some (root', []) \<longrightarrow> unat u < 2 ^ 47 \<longrightarrow> (root', page_of u) \<noteq> (root, virt) \<longrightarrow>
         scdk_vmm_virt_to_phys_in_root s' root' u = scdk_vmm_virt_to_phys_in_root s root' u)
    else s' = s"
proof (cases "r = SCDK_OK")
  case False
  with assms(4) show ?thesis
    by (auto simp: scdk_vmm_unmap_page_in_root_def leaf_table_read split: if_splits sum.splits)
next
  case True
  have walk_err: "walk s root (table_path virt) \<noteq> Inl SCDK_OK"
    using leaf_table_not_OK [of s root virt False 0 SCDK_OK s] by (auto simp: leaf_table_read)
  have vr: "validate_root s root = SCDK_OK" and va: "validate_vmm_address s virt = SCDK_OK"
    using assms(4) True by (auto simp: scdk_vmm_unmap_page_in_root_def split: if_splits)
  then obtain pt where w: "walk s root (table_path virt) = Inr pt" and s': "s' = set_pte s pt (pt_index virt) 0"
    using assms(4) True walk_err
    by (auto simp: scdk_vmm_unmap_page_in_root_def leaf_table_read split: if_splits sum.splits)
  have al: "is_page_aligned virt" using va by (simp add: validate_vmm_address_def split: if_splits)
  note lw = leaf_write [OF assms(1-3) w s']
  have init: "vmm_initialized s' = vmm_initialized s" by (simp add: s')
  have "scdk_vmm_virt_to_phys_in_root s' root virt = Inl SCDK_ERR_NOENT"
    unfolding virt_to_phys_leaf using lw(2) vr va init page_of_aligned [OF al]
    by (simp add: validate_root_def validate_vmm_address_def)
  moreover have "scdk_vmm_virt_to_phys_in_root s' root' u = scdk_vmm_virt_to_phys_in_root s root' u"
    if "T root' = Some (root', [])" "unat u < 2 ^ 47" "(root', page_of u) \<noteq> (root, virt)" for root' u
  proof -
    have "(root', full_path u) \<noteq> (root, full_path virt)"
      using other_page [OF assms(3) that(2)] that(3) page_of_aligned [OF al] by simp
    from lw(3) [OF that(1,2) this] show ?thesis by (rule virt_to_phys_cong) (rule init)
  qed
  ultimately show ?thesis using lw(1) True by simp
qed

lemma kernel_half_range: "\<forall>i\<in>set kernel_half. 256 \<le> i \<and> i < 512"
  by (simp add: kernel_half_def)

lemma copy_kernel_half_frame:
  assumes "4096 dvd unat new" and "\<forall>i\<in>set is. 256 \<le> i \<and> i < 512"
  shows "4096 dvd unat p \<Longrightarrow> unat j < 512 \<Longrightarrow> p \<noteq> new \<or> unat j < 256 \<Longrightarrow>
      pte (copy_kernel_half s new cur is) p j = pte s p j"
    and "stack_pages (copy_kernel_half s new cur is) = stack_pages s"
    and "managed (copy_kernel_half s new cur is) = managed s"
    and "pmm_inv (copy_kernel_half s new cur is) = pmm_inv s"
    and "vmm_initialized (copy_kernel_half s new cur is) = vmm_initialized s"
proof -
  show "pte (copy_kernel_half s new cur is) p j = pte s p j"
    if "4096 dvd unat p" "unat j < 512" "p \<noteq> new \<or> unat j < 256"
    using assms(2)
  proof (induction "is" arbitrary: s)
    case (Cons i "is")
    have u: "unat (of_nat i :: u64) = i" using Cons.prems by (simp add: unat_of_nat)
    have "pte (set_pte s new (of_nat i) x) p j = pte s p j" for x
      using pte_set [OF that(1) assms(1) that(2), of "of_nat i" s x] u that(3) Cons.prems by auto
    with Cons show ?case by simp
  qed simp
  show "stack_pages (copy_kernel_half s new cur is) = stack_pages s" "managed (copy_kernel_half s new cur is) = managed s"
    "pmm_inv (copy_kernel_half s new cur is) = pmm_inv s"
    "vmm_initialized (copy_kernel_half s new cur is) = vmm_initialized s"
    by (induction "is" arbitrary: s; simp)+
qed

lemma new_root_empty:
  assumes "pt_inv s T" and "scdk_vmm_create_root s = (Inr root, s')"
  shows "T root = None \<and> pt_inv s' (T(root \<mapsto> (root, []))) \<and>
    (\<forall>u. unat u < 2 ^ 47 \<longrightarrow> leaf_entry s' root (full_path u) = Inl SCDK_ERR_NOENT) \<and>
    (\<forall>root' u. T root' = Some (root', []) \<longrightarrow> unat u < 2 ^ 47 \<longrightarrow>
       scdk_vmm_virt_to_phys_in_root s' root' u = scdk_vmm_virt_to_phys_in_root s root' u)"
proof -
  obtain s1 where a: "scdk_page_alloc s = (Inr root, s1)"
    and s': "s' = copy_kernel_half (zero_page s1 root) root (active_cr3_phys s1) kernel_half"
    using assms(2) by (auto simp: scdk_vmm_create_root_def split: if_splits prod.splits sum.splits)
  note fr = alloc_fresh [OF assms(1) a]
  note ck = copy_kernel_half_frame [OF fr(2) kernel_half_range]
  have ptes: "pte s' p j = (if p = root then 0 else pte s p j)"
    if "4096 dvd unat p" "unat j < 512" "p \<noteq> root \<or> unat j < 256" for p j
    unfolding s' ck(1) [OF that] pte_zero [OF that(1) fr(2) that(2)]
    using pmm_alloc_frame [OF a] by (simp add: pte_def)
  have same: "pte s' p i = pte s p i" if "T p = Some (r, path)" "idx_ok path i" for p r path i
  proof -
    have "p \<noteq> root" using that(1) fr(1) by auto
    then show ?thesis using ptes [of p i] pt_inv_page [OF assms(1) that(1)] that(2) by (simp add: idx_ok_def)
  qed
  let ?T = "T(root \<mapsto> (root, []))"
  have "pt_inv s' ?T"
  proof -
    have "?T (pte s' p i AND X86_PTE_ADDR) = Some (r, path @ [i])"
      if p: "?T p = Some (r, path)" "length path < 3" "idx_ok path i" "pte s' p i AND X86_PTE_PRESENT \<noteq> 0"
        "pte s' p i AND X86_PTE_HUGE = 0" for p r path i
    proof (cases "p = root")
      case True
      then show ?thesis using ptes [OF fr(2), of i] p by (simp add: idx_ok_def)
    next
      case False
      then have tp: "T p = Some (r, path)" using p(1) by simp
      then have "T (pte s' p i AND X86_PTE_ADDR) = Some (r, path @ [i])"
        using pt_inv_next [OF assms(1) tp p(2,3)] p(4,5) same [OF tp p(3)] by simp
      then show ?thesis using fr(1) by auto
    qed
    moreover have "4096 dvd unat p \<and> unat p < 2 ^ 52 \<and> p \<notin> set (stack_pages s') \<and> (path = [] \<longrightarrow> p = r)"
      if "?T p = Some (r, path)" for p r path
    proof -
      have st: "stack_pages s' = stack_pages s1" unfolding s' ck(2) by simp
      show ?thesis
      proof (cases "p = root")
        case True
        then show ?thesis using that fr(2,3,5) st by simp
      next
        case False
        then have "T p = Some (r, path)" using that by simp
        then show ?thesis using fr(4) st unfolding pt_inv_def by simp
      qed
    qed
    moreover have "pmm_inv s'" "\<forall>p\<in>managed s'. unat p < 2 ^ 52"
      unfolding s' ck(3) ck(4) using fr(4) by (simp_all add: pt_inv_def)
    ultimately show ?thesis unfolding pt_inv_def by blast
  qed
  moreover have "leaf_entry s' root (full_path u) = Inl SCDK_ERR_NOENT" if "unat u < 2 ^ 47" for u
  proof -
    have "unat (pml4_index u) < 256" using user_path_ok(1) [OF that] by (simp add: full_path_def table_path_def idx_ok_def)
    then have "pte s' root (pml4_index u) = 0" using ptes [OF fr(2), of "pml4_index u"] by simp
    then show ?thesis by (simp add: full_path_def table_path_def)
  qed
  moreover have "scdk_vmm_virt_to_phys_in_root s' root' u = scdk_vmm_virt_to_phys_in_root s root' u"
    if "T root' = Some (root', [])" "unat u < 2 ^ 47" for root' u
  proof (rule virt_to_phys_cong)
    show "leaf_entry s' root' (full_path u) = leaf_entry s root' (full_path u)"
      by (rule leaf_entry_write [OF assms(1), where bad = "(root, full_path u)" and r = root' and path = "[]"])
        (use that user_path_ok(1) [OF that(2)] fr(1) in \<open>auto simp: same\<close>)
    show "vmm_initialized s' = vmm_initialized s" unfolding s' ck(5) using pmm_alloc_frame [OF a] by simp
  qed
  ultimately show ?thesis using fr(1) by blast
qed

section \<open>A concrete machine\<close>

definition machine_map :: "limine_memmap_entry list" where
  "machine_map = [\<lparr>mm_base = 0, mm_length = 0x1000, mm_type = 1\<rparr>, \<lparr>mm_base = 0x2000, mm_length = 0x20000, mm_type = 0\<rparr>]"

definition vmm_boot :: vmm_state where
  "vmm_boot = pmm_state.extend pmm_boot
     \<lparr>phys_mem = (\<lambda>_. 0), cr3_register = 0x1000, active_cr3_phys = 0x1000, active_hhdm_offset = 0, vmm_initialized = True\<rparr>"

definition vmm_demo0 :: vmm_state where
  "vmm_demo0 = snd (scdk_pmm_init vmm_boot (map Some machine_map))"

lemma machine_map_ok: "memmap_ok machine_map"
  by (simp add: memmap_ok_def machine_map_def entry_ok_def usable_entry_def reserved_entry_def memmap_compat_def
      entries_disjoint_def entry_pages_def kconst align_up_def align_down_def)

lemma collect_vmm_frame:
  "collect_usable_region s p l = (r, s') \<Longrightarrow> vmm_initialized s' = vmm_initialized s"
  by (induction s p l arbitrary: r s' rule: collect_usable_region.induct)
    (subst (asm) collect_usable_region.simps, auto split: if_splits)

lemma init_vmm_frame: "vmm_initialized (pmm_init_loop s es) = vmm_initialized s"
proof (induction es arbitrary: s)
  case (Cons e es)
  obtain b s1 where p: "pmm_init_entry s e = (b, s1)" by fastforce
  have "vmm_initialized s1 = vmm_initialized s"
    using p collect_vmm_frame
    by (fastforce simp: pmm_init_entry_def Let_def split: option.splits if_splits prod.splits)
  with Cons p show ?case by (cases b) simp_all
qed simp

lemma vmm_demo0_inv:
  "pt_inv vmm_demo0 Map.empty" "vmm_initialized vmm_demo0" "0x2000 \<in> set (stack_pages vmm_demo0)"
  "0 \<notin> managed vmm_demo0"
proof -
  obtain s where s: "scdk_pmm_init vmm_boot (map Some machine_map) = (SCDK_OK, s)" "pmm_inv s"
    "managed s = {p. \<exists>e\<in>set machine_map. usable_entry e \<and> 4096 dvd unat p \<and> unat (mm_base e) \<le> unat p \<and>
                    unat p + 4096 \<le> unat (mm_base e) + unat (mm_length e)}" "set (stack_pages s) = managed s"
    using pmm_init_ok [OF machine_map_ok, of vmm_boot] by blast
  then have d: "vmm_demo0 = s" by (simp add: vmm_demo0_def)
  show "pt_inv vmm_demo0 Map.empty" using s(2,3) by (auto simp: d pt_inv_def machine_map_def)
  show "0x2000 \<in> set (stack_pages vmm_demo0)" using s(3,4) by (simp add: d machine_map_def usable_entry_def kconst)
  show "0 \<notin> managed vmm_demo0" using s(3) by (simp add: d machine_map_def usable_entry_def kconst)
  show "vmm_initialized vmm_demo0"
    using s(1) by (auto simp: d scdk_pmm_init_def Let_def init_vmm_frame vmm_boot_def pmm_state.defs split: if_splits)
qed

lemma vmm_demo_root:
  obtains root s1 where "scdk_vmm_create_root vmm_demo0 = (Inr root, s1)" "pt_inv s1 [root \<mapsto> (root, [])]"
    "vmm_initialized s1" "root \<noteq> 0" "is_page_aligned root"
    "\<And>u. unat u < 2 ^ 47 \<Longrightarrow> leaf_entry s1 root (full_path u) = Inl SCDK_ERR_NOENT"
proof -
  obtain r s1 where a: "scdk_page_alloc vmm_demo0 = (r, s1)" by fastforce
  have pi: "pmm_inv vmm_demo0" using vmm_demo0_inv(1) by (simp add: pt_inv_def)
  then obtain root where r: "r = Inr root" using pages.alloc_err [of vmm_demo0 _ s1] a vmm_demo0_inv(3) by (cases r) auto
  define s2 where "s2 = copy_kernel_half (zero_page s1 root) root (active_cr3_phys s1) kernel_half"
  have c: "scdk_vmm_create_root vmm_demo0 = (Inr root, s2)"
    using a r vmm_demo0_inv(2) by (simp add: scdk_vmm_create_root_def s2_def)
  note fr = alloc_fresh [OF vmm_demo0_inv(1) a [unfolded r]]
  have "root \<in> managed vmm_demo0" using pages.alloc_ok [OF pi a [unfolded r]] pi by (auto simp: pmm_inv_def)
  then have "root \<noteq> 0" using vmm_demo0_inv(4) by auto
  moreover have "is_page_aligned root" unfolding is_page_aligned_def page_aligned by (rule fr(2))
  moreover have "vmm_initialized s2"
    unfolding s2_def copy_kernel_half_frame(5) [OF fr(2) kernel_half_range]
    using pmm_alloc_frame [OF a] vmm_demo0_inv(2) by simp
  ultimately show thesis using new_root_empty [OF vmm_demo0_inv(1) c] c by (intro that) auto
qed

section \<open>Properties\<close>

text \<open>
  (C30) Mapping a page of the lower half touches nothing else there: let the page tables be
  well formed, the root be one of their roots and the virtual address be below
  \<open>2\<^sup>47\<close>. \<^verbatim>\<open>scdk_vmm_map_page_in_root\<close> keeps the page tables well formed, whatever it
  returns. When it succeeds, the page translates to the given frame with exactly the
  given flags, and every other address below \<open>2\<^sup>47\<close> of this and of every other root
  translates as before. When it fails (no memory for a table, already mapped,
  invalid), no translation of an address below \<open>2\<^sup>47\<close> changes. Addresses of the upper half, whose
  tables the roots share, are not part of the statement.
\<close>

theorem vmm_map_isolated:
  assumes "pt_inv s T" and "T root = Some (root, [])" and "unat virt < 2 ^ 47"
    and "scdk_vmm_map_page_in_root s root virt phys flags = (r, s')"
  shows "\<exists>T'. pt_inv s' T' \<and> (\<forall>p x. T p = Some x \<longrightarrow> T' p = Some x) \<and>
    (r = SCDK_OK \<longrightarrow> scdk_vmm_virt_to_phys_in_root s' root virt = Inr (phys AND X86_PTE_ADDR, flags)) \<and>
    (\<forall>root' u. T root' = Some (root', []) \<longrightarrow> unat u < 2 ^ 47 \<longrightarrow> r \<noteq> SCDK_OK \<or> (root', page_of u) \<noteq> (root, virt) \<longrightarrow>
       scdk_vmm_virt_to_phys_in_root s' root' u = scdk_vmm_virt_to_phys_in_root s root' u)"
  using map_isolated [OF assms] by blast

theorem vmm_map_isolated_witness:
  "\<exists>root s1. scdk_vmm_create_root vmm_demo0 = (Inr root, s1) \<and>
     scdk_vmm_virt_to_phys_in_root (snd (scdk_vmm_map_page_in_root s1 root 0x400000 0x9000 SCDK_VMM_MAP_USER)) root 0x401000 =
       Inl SCDK_ERR_NOENT"
proof -
  obtain root s1 where c: "scdk_vmm_create_root vmm_demo0 = (Inr root, s1)" and i: "pt_inv s1 [root \<mapsto> (root, [])]"
    and v: "vmm_initialized s1" "root \<noteq> 0" "is_page_aligned root"
    and e: "\<And>u. unat u < 2 ^ 47 \<Longrightarrow> leaf_entry s1 root (full_path u) = Inl SCDK_ERR_NOENT"
    using vmm_demo_root by blast
  obtain r s2 where m: "scdk_vmm_map_page_in_root s1 root 0x400000 0x9000 SCDK_VMM_MAP_USER = (r, s2)" by fastforce
  have t: "scdk_vmm_virt_to_phys_in_root s1 root 0x401000 = Inl SCDK_ERR_NOENT"
    unfolding virt_to_phys_leaf using e [of "0x401000"] v
    by (simp add: validate_root_def validate_vmm_address_def is_page_aligned_def is_canonical_def kconst)
  have pg: "page_of 0x401000 = 0x401000" by (simp add: kconst)
  obtain T' where "\<forall>root' u. [root \<mapsto> (root, [])] root' = Some (root', []) \<longrightarrow> unat u < 2 ^ 47 \<longrightarrow>
      r \<noteq> SCDK_OK \<or> (root', page_of u) \<noteq> (root, 0x400000) \<longrightarrow>
      scdk_vmm_virt_to_phys_in_root s2 root' u = scdk_vmm_virt_to_phys_in_root s1 root' u"
    using vmm_map_isolated [OF i _ _ m] by auto
  from this [rule_format, of root "0x401000"] pg t have "scdk_vmm_virt_to_phys_in_root s2 root 0x401000 = Inl SCDK_ERR_NOENT"
    by simp
  with c m show ?thesis by auto
qed

text \<open>
  Unmapping removes exactly one translation: when \<^verbatim>\<open>scdk_vmm_unmap_page_in_root\<close>
  succeeds the page no longer translates, and every other user page of every
  tracked address space translates as before; when it fails nothing changes at all.
\<close>

theorem vmm_unmap_isolated:
  assumes "pt_inv s T" and "T root = Some (root, [])" and "unat virt < 2 ^ 47"
    and "scdk_vmm_unmap_page_in_root s root virt = (r, s')"
  shows "if r = SCDK_OK then pt_inv s' T \<and> scdk_vmm_virt_to_phys_in_root s' root virt = Inl SCDK_ERR_NOENT \<and>
      (\<forall>root' u. T root' = Some (root', []) \<longrightarrow> unat u < 2 ^ 47 \<longrightarrow> (root', page_of u) \<noteq> (root, virt) \<longrightarrow>
         scdk_vmm_virt_to_phys_in_root s' root' u = scdk_vmm_virt_to_phys_in_root s root' u)
    else s' = s"
  using unmap_isolated [OF assms] .

theorem vmm_unmap_isolated_witness:
  "\<exists>root s1. scdk_vmm_create_root vmm_demo0 = (Inr root, s1) \<and>
     scdk_vmm_unmap_page_in_root s1 root 0x400000 = (SCDK_ERR_NOENT, s1)"
proof -
  obtain root s1 where c: "scdk_vmm_create_root vmm_demo0 = (Inr root, s1)" and i: "pt_inv s1 [root \<mapsto> (root, [])]"
    and v: "vmm_initialized s1" "root \<noteq> 0" "is_page_aligned root"
    and e: "\<And>u. unat u < 2 ^ 47 \<Longrightarrow> leaf_entry s1 root (full_path u) = Inl SCDK_ERR_NOENT"
    using vmm_demo_root by blast
  have va: "validate_root s1 root = SCDK_OK" "validate_vmm_address s1 0x400000 = SCDK_OK"
    using v by (simp_all add: validate_root_def validate_vmm_address_def is_page_aligned_def is_canonical_def kconst)
  have l: "leaf_entry s1 root (full_path 0x400000) = Inl SCDK_ERR_NOENT" using e by simp
  have "fst (scdk_vmm_unmap_page_in_root s1 root 0x400000) = SCDK_ERR_NOENT"
    using l va unfolding scdk_vmm_unmap_page_in_root_def leaf_table_read full_path_def leaf_entry_walk
    by (cases "walk s1 root (table_path 0x400000)") (auto split: if_splits)
  then obtain s2 where u: "scdk_vmm_unmap_page_in_root s1 root 0x400000 = (SCDK_ERR_NOENT, s2)" by (metis prod.collapse)
  from vmm_unmap_isolated [OF i _ _ u] have "s2 = s1" by simp
  with c u show ?thesis by blast
qed

text \<open>
  A new address space starts empty and apart: the root page
  \<^verbatim>\<open>scdk_vmm_create_root\<close> returns has no user mapping, and creating it changes no
  translation of any existing address space.
\<close>

theorem vmm_new_root_empty:
  assumes "pt_inv s T" and "scdk_vmm_create_root s = (Inr root, s')"
  shows "T root = None \<and> pt_inv s' (T(root \<mapsto> (root, []))) \<and>
    (\<forall>u. unat u < 2 ^ 47 \<longrightarrow> leaf_entry s' root (full_path u) = Inl SCDK_ERR_NOENT) \<and>
    (\<forall>root' u. T root' = Some (root', []) \<longrightarrow> unat u < 2 ^ 47 \<longrightarrow>
       scdk_vmm_virt_to_phys_in_root s' root' u = scdk_vmm_virt_to_phys_in_root s root' u)"
  using new_root_empty [OF assms] .

theorem vmm_new_root_empty_witness:
  "\<exists>root s1. scdk_vmm_create_root vmm_demo0 = (Inr root, s1) \<and>
     leaf_entry s1 root (full_path 0x400000) = Inl SCDK_ERR_NOENT"
proof -
  obtain root s1 where c: "scdk_vmm_create_root vmm_demo0 = (Inr root, s1)" using vmm_demo_root by blast
  from vmm_new_root_empty [OF vmm_demo0_inv(1) c] c show ?thesis by auto
qed

end
