(* ===== verification/SCDK_Heap.thy ===== *)
theory SCDK_Heap
  imports SCDK_Vmm SCDK_Object
begin

text \<open>
  The kernel heap (\<^verbatim>\<open>mm/heap.c\<close>): a first-fit allocator over a growing virtual
  range, whose block headers are a doubly linked list inside the managed memory
  itself. The heap's memory is a map from 8-byte-aligned virtual addresses to
  64-bit cells, with the header fields at the offsets of \<^verbatim>\<open>struct scdk_heap_block\<close>
  (\<^verbatim>\<open>magic\<close> 0, \<^verbatim>\<open>size\<close> 8, \<^verbatim>\<open>free\<close> one byte at 16, \<^verbatim>\<open>prev\<close> 24, \<^verbatim>\<open>next\<close> 32), so that
  headers and payloads share one memory and disjointness is something to prove.
  \<open>heap_inv\<close> relates the memory to the list of blocks \<open>(address, size, free)\<close>.
\<close>

definition SCDK_HEAP_BASE :: u64 where [kconst]: "SCDK_HEAP_BASE = 0xffffffffd0000000"
definition SCDK_HEAP_SIZE :: u64 where [kconst]: "SCDK_HEAP_SIZE = 0x400000"
definition SCDK_HEAP_ALIGN :: u64 where [kconst]: "SCDK_HEAP_ALIGN = 16"
definition SCDK_HEAP_MAGIC :: u64 where [kconst]: "SCDK_HEAP_MAGIC = 0x5343444b48454150"
definition SCDK_HEAP_MIN_SPLIT :: u64 where [kconst]: "SCDK_HEAP_MIN_SPLIT = 16"
definition SCDK_HEAP_INITIAL_PAGES :: u64 where [kconst]: "SCDK_HEAP_INITIAL_PAGES = 4"

record heap_state = vmm_state +
  heap_head :: u64
  heap_tail :: u64
  heap_commit_end :: u64
  heap_initialized :: bool
  heap_mem :: "u64 \<Rightarrow> u64"

section \<open>Header access\<close>

definition set_cell :: "'a heap_state_scheme \<Rightarrow> u64 \<Rightarrow> u64 \<Rightarrow> 'a heap_state_scheme" where
  "set_cell s a v = s\<lparr>heap_mem := (heap_mem s)(a := v)\<rparr>"

definition blk_magic :: "'a heap_state_scheme \<Rightarrow> u64 \<Rightarrow> u64" where "blk_magic s b = heap_mem s b"
definition blk_size :: "'a heap_state_scheme \<Rightarrow> u64 \<Rightarrow> u64" where "blk_size s b = heap_mem s (b + 8)"
definition blk_free :: "'a heap_state_scheme \<Rightarrow> u64 \<Rightarrow> bool" where "blk_free s b \<longleftrightarrow> heap_mem s (b + 16) AND 0xff \<noteq> 0"
definition blk_prev :: "'a heap_state_scheme \<Rightarrow> u64 \<Rightarrow> u64" where "blk_prev s b = heap_mem s (b + 24)"
definition blk_next :: "'a heap_state_scheme \<Rightarrow> u64 \<Rightarrow> u64" where "blk_next s b = heap_mem s (b + 32)"

definition set_magic :: "'a heap_state_scheme \<Rightarrow> u64 \<Rightarrow> u64 \<Rightarrow> 'a heap_state_scheme" where "set_magic s b v = set_cell s b v"
definition set_size :: "'a heap_state_scheme \<Rightarrow> u64 \<Rightarrow> u64 \<Rightarrow> 'a heap_state_scheme" where "set_size s b v = set_cell s (b + 8) v"
definition set_free :: "'a heap_state_scheme \<Rightarrow> u64 \<Rightarrow> bool \<Rightarrow> 'a heap_state_scheme" where
  "set_free s b f = set_cell s (b + 16) ((heap_mem s (b + 16) AND NOT 0xff) OR (if f then 1 else 0))"
definition set_prev :: "'a heap_state_scheme \<Rightarrow> u64 \<Rightarrow> u64 \<Rightarrow> 'a heap_state_scheme" where "set_prev s b v = set_cell s (b + 24) v"
definition set_next :: "'a heap_state_scheme \<Rightarrow> u64 \<Rightarrow> u64 \<Rightarrow> 'a heap_state_scheme" where "set_next s b v = set_cell s (b + 32) v"

section \<open>Operations\<close>

definition align_up_size :: "u64 \<Rightarrow> u64 \<Rightarrow> u64" where
  "align_up_size value alignment = (value + alignment - 1) AND NOT (alignment - 1)"

definition heap_header_size :: u64 where
  "heap_header_size = align_up_size 40 SCDK_HEAP_ALIGN"

definition checked_add_size :: "u64 \<Rightarrow> u64 \<Rightarrow> u64 option" where
  "checked_add_size a b = (if a > (- 1) - b then None else Some (a + b))"

definition checked_add_uintptr :: "u64 \<Rightarrow> u64 \<Rightarrow> u64 option" where
  "checked_add_uintptr a b = (if a > (- 1) - b then None else Some (a + b))"

definition ptr_in_heap :: "'a heap_state_scheme \<Rightarrow> u64 \<Rightarrow> bool" where
  "ptr_in_heap s ptr \<longleftrightarrow> ptr \<ge> SCDK_HEAP_BASE \<and> ptr < heap_commit_end s"

definition block_payload :: "u64 \<Rightarrow> u64" where "block_payload block = block + heap_header_size"
definition payload_block :: "u64 \<Rightarrow> u64" where "payload_block ptr = ptr - heap_header_size"

definition block_insert_tail :: "'a heap_state_scheme \<Rightarrow> u64 \<Rightarrow> 'a heap_state_scheme" where
  "block_insert_tail s block =
     (let s = set_prev s block (heap_tail s);
          s = set_next s block 0;
          s = (if heap_tail s \<noteq> 0 then set_next s (heap_tail s) block else s\<lparr>heap_head := block\<rparr>)
      in s\<lparr>heap_tail := block\<rparr>)"

definition block_remove :: "'a heap_state_scheme \<Rightarrow> u64 \<Rightarrow> 'a heap_state_scheme" where
  "block_remove s block =
     (let s = (if blk_prev s block \<noteq> 0 then set_next s (blk_prev s block) (blk_next s block)
               else s\<lparr>heap_head := blk_next s block\<rparr>)
      in if blk_next s block \<noteq> 0 then set_prev s (blk_next s block) (blk_prev s block)
         else s\<lparr>heap_tail := blk_prev s block\<rparr>)"

definition block_coalesce_forward :: "'a heap_state_scheme \<Rightarrow> u64 \<Rightarrow> 'a heap_state_scheme" where
  "block_coalesce_forward s block =
     (let nx = blk_next s block; block_end = block + heap_header_size + blk_size s block
      in if nx = 0 \<or> \<not> blk_free s nx \<or> nx \<noteq> block_end then s
         else block_remove (set_size s block (blk_size s block + (heap_header_size + blk_size s nx))) nx)"

definition block_split :: "'a heap_state_scheme \<Rightarrow> u64 \<Rightarrow> u64 \<Rightarrow> 'a heap_state_scheme" where
  "block_split s block requested =
     (if blk_size s block < requested + heap_header_size + SCDK_HEAP_MIN_SPLIT then s
      else let new = block + heap_header_size + requested;
               s = set_magic s new SCDK_HEAP_MAGIC;
               s = set_size s new (blk_size s block - requested - heap_header_size);
               s = set_free s new True;
               s = set_prev s new block;
               s = set_next s new (blk_next s block);
               s = (if blk_next s block \<noteq> 0 then set_prev s (blk_next s block) new else s\<lparr>heap_tail := new\<rparr>);
               s = set_next s block new
           in set_size s block requested)"

text \<open>
  The search follows the \<^verbatim>\<open>next\<close> pointers; \<open>None\<close> is running out of fuel. A block
  takes at least 64 of the 4 MiB the heap may have, so \<open>heap_fuel\<close> turns reach the
  end of any list the invariant allows (\<open>find_free_first_fit\<close>).
\<close>

fun find_free_from :: "'a heap_state_scheme \<Rightarrow> u64 \<Rightarrow> u64 \<Rightarrow> nat \<Rightarrow> u64 option" where
  "find_free_from s block sz 0 = None"
| "find_free_from s block sz (Suc n) =
     (if block = 0 then Some 0
      else if blk_free s block \<and> blk_size s block \<ge> sz then Some block
      else find_free_from s (blk_next s block) sz n)"

definition heap_fuel :: nat where "heap_fuel = 0x400000 div 64 + 1"

definition find_free_block :: "'a heap_state_scheme \<Rightarrow> u64 \<Rightarrow> u64" where
  "find_free_block s sz = (case find_free_from s (heap_head s) sz heap_fuel of None \<Rightarrow> 0 | Some b \<Rightarrow> b)"

text \<open>The loop of \<^verbatim>\<open>map_heap_pages\<close> with its roll-back loop; \<open>n\<close> pages remain to be mapped.\<close>

fun unmap_heap_pages :: "'a heap_state_scheme \<Rightarrow> u64 \<Rightarrow> nat \<Rightarrow> 'a heap_state_scheme" where
  "unmap_heap_pages s base 0 = s"
| "unmap_heap_pages s base (Suc k) =
     (let page = base + of_nat k * SCDK_PAGE_SIZE
      in unmap_heap_pages
           (case scdk_vmm_virt_to_phys s page of
              Inr (mapped_phys, _) \<Rightarrow> snd (scdk_page_free (snd (scdk_vmm_unmap_page s page)) mapped_phys)
            | Inl _ \<Rightarrow> s) base k)"

fun map_heap_loop :: "'a heap_state_scheme \<Rightarrow> u64 \<Rightarrow> nat \<Rightarrow> nat \<Rightarrow> scdk_status \<times> 'a heap_state_scheme" where
  "map_heap_loop s base k 0 = (SCDK_OK, s)"
| "map_heap_loop s base k (Suc n) =
     (case scdk_page_alloc s of
        (Inl status, s1) \<Rightarrow> (status, s1)
      | (Inr phys, s1) \<Rightarrow>
          (case scdk_vmm_map_page s1 (base + of_nat k * SCDK_PAGE_SIZE) phys SCDK_VMM_MAP_WRITE of
             (status, s2) \<Rightarrow>
               if status \<noteq> SCDK_OK
               then (status, unmap_heap_pages (snd (scdk_page_free s2 phys)) base k)
               else map_heap_loop s2 base (Suc k) n))"

definition map_heap_pages :: "'a heap_state_scheme \<Rightarrow> u64 \<Rightarrow> u64 \<Rightarrow> scdk_status \<times> 'a heap_state_scheme" where
  "map_heap_pages s base len = map_heap_loop s base 0 ((unat len + 4095) div 4096)"

definition heap_extend :: "'a heap_state_scheme \<Rightarrow> u64 \<Rightarrow> scdk_status \<times> 'a heap_state_scheme" where
  "heap_extend s min_payload =
     (case checked_add_size heap_header_size min_payload of
        None \<Rightarrow> (SCDK_ERR_NOMEM, s)
      | Some needed \<Rightarrow>
          let commit_size = align_up_size needed SCDK_PAGE_SIZE;
              commit_size = (if commit_size < SCDK_HEAP_INITIAL_PAGES * SCDK_PAGE_SIZE
                             then SCDK_HEAP_INITIAL_PAGES * SCDK_PAGE_SIZE else commit_size)
          in case checked_add_uintptr (heap_commit_end s) commit_size of
            None \<Rightarrow> (SCDK_ERR_NOMEM, s)
          | Some new_end \<Rightarrow>
              if new_end > SCDK_HEAP_BASE + SCDK_HEAP_SIZE then (SCDK_ERR_NOMEM, s)
              else case map_heap_pages s (heap_commit_end s) commit_size of
                (status, s1) \<Rightarrow>
                  if status \<noteq> SCDK_OK then (status, s1)
                  else let block = heap_commit_end s1;
                           s2 = set_magic s1 block SCDK_HEAP_MAGIC;
                           s2 = set_size s2 block (commit_size - heap_header_size);
                           s2 = set_free s2 block True;
                           s2 = block_insert_tail s2 block;
                           s2 = s2\<lparr>heap_commit_end := new_end\<rparr>;
                           s2 = (if blk_prev s2 block \<noteq> 0 \<and> blk_free s2 (blk_prev s2 block)
                                 then block_coalesce_forward s2 (blk_prev s2 block) else s2)
                       in (SCDK_OK, s2))"

definition scdk_heap_init :: "'a heap_state_scheme \<Rightarrow> scdk_status \<times> 'a heap_state_scheme" where
  "scdk_heap_init s =
     (if heap_initialized s then (SCDK_ERR_BUSY, s)
      else case heap_extend (s\<lparr>heap_head := 0, heap_tail := 0, heap_commit_end := SCDK_HEAP_BASE\<rparr>) 0 of
        (status, s1) \<Rightarrow>
          if status \<noteq> SCDK_OK then (status, s1) else (SCDK_OK, s1\<lparr>heap_initialized := True\<rparr>))"

text \<open>\<open>take_block\<close> is the common end of \<^verbatim>\<open>scdk_kalloc\<close>; a null pointer is 0.\<close>

definition take_block :: "'a heap_state_scheme \<Rightarrow> u64 \<Rightarrow> u64 \<Rightarrow> u64 \<times> 'a heap_state_scheme" where
  "take_block s block requested = (block_payload block, set_free (block_split s block requested) block False)"

definition scdk_kalloc :: "'a heap_state_scheme \<Rightarrow> u64 \<Rightarrow> u64 \<times> 'a heap_state_scheme" where
  "scdk_kalloc s sz =
     (if \<not> heap_initialized s \<or> sz = 0 then (0, s)
      else if sz > SCDK_HEAP_SIZE - heap_header_size then (0, s)
      else let requested = align_up_size sz SCDK_HEAP_ALIGN
        in if requested < sz \<or> requested > SCDK_HEAP_SIZE - heap_header_size then (0, s)
           else if find_free_block s requested \<noteq> 0 then take_block s (find_free_block s requested) requested
           else case heap_extend s requested of
             (status, s1) \<Rightarrow>
               if status \<noteq> SCDK_OK then (0, s1)
               else if find_free_block s1 requested = 0 then (0, s1)
               else take_block s1 (find_free_block s1 requested) requested)"

text \<open>\<^verbatim>\<open>memset(p, 0, n)\<close> on cells: the last cell may be cleared in part.\<close>

definition memset_zero :: "(u64 \<Rightarrow> u64) \<Rightarrow> u64 \<Rightarrow> u64 \<Rightarrow> u64 \<Rightarrow> u64" where
  "memset_zero m p n = (\<lambda>a. if unat (a - p) + 8 \<le> unat n then 0
     else if a - p < n then m a AND NOT (mask (8 * unat (n - (a - p)))) else m a)"

definition scdk_kzalloc :: "'a heap_state_scheme \<Rightarrow> u64 \<Rightarrow> u64 \<times> 'a heap_state_scheme" where
  "scdk_kzalloc s sz =
     (case scdk_kalloc s sz of
        (ptr, s1) \<Rightarrow> if ptr \<noteq> 0 then (ptr, s1\<lparr>heap_mem := memset_zero (heap_mem s1) ptr sz\<rparr>) else (ptr, s1))"

definition scdk_kfree :: "'a heap_state_scheme \<Rightarrow> u64 \<Rightarrow> 'a heap_state_scheme" where
  "scdk_kfree s ptr =
     (if ptr = 0 \<or> \<not> heap_initialized s \<or> \<not> ptr_in_heap s ptr then s
      else let block = payload_block ptr
        in if \<not> ptr_in_heap s block \<or> blk_magic s block \<noteq> SCDK_HEAP_MAGIC \<or> blk_free s block then s
           else let s = set_free s block True;
                    s = block_coalesce_forward s block
                in if blk_prev s block \<noteq> 0 \<and> blk_free s (blk_prev s block)
                   then block_coalesce_forward s (blk_prev s block) else s)"

definition scdk_alloc_object_storage :: "'a heap_state_scheme \<Rightarrow> scdk_object_type \<Rightarrow> u64 \<Rightarrow> u64 \<times> 'a heap_state_scheme" where
  "scdk_alloc_object_storage s object_type sz =
     (if object_type = SCDK_OBJ_NONE \<or> sz = 0 then (0, s) else scdk_kzalloc s sz)"


section \<open>Blocks in memory\<close>

lemma heap_header_size_48 [simp]: "heap_header_size = 48"
  by (simp add: heap_header_size_def align_up_size_def kconst)

lemma unat_plus: "unat (a :: u64) + unat b < 2 ^ 64 \<Longrightarrow> unat (a + b) = unat a + unat b"
  by (simp add: unat_word_ariths)

lemma unat_minus: "b \<le> a \<Longrightarrow> unat (a - b :: u64) = unat a - unat b"
  by (rule unat_sub)

type_synonym blk = "u64 \<times> u64 \<times> bool"

definition hdr :: "(u64 \<Rightarrow> u64) \<Rightarrow> u64 \<Rightarrow> u64 \<Rightarrow> bool \<Rightarrow> u64 \<Rightarrow> u64 \<Rightarrow> bool" where
  "hdr m b n f p nx \<longleftrightarrow> m b = SCDK_HEAP_MAGIC \<and> m (b + 8) = n \<and> (m (b + 16) AND 0xff \<noteq> 0) = f \<and>
     m (b + 24) = p \<and> m (b + 32) = nx \<and> 16 dvd unat n \<and> 16 \<le> unat n"

definition fst_addr :: "blk list \<Rightarrow> u64 \<Rightarrow> u64" where
  "fst_addr bs nx = (case bs of [] \<Rightarrow> nx | (b, _) # _ \<Rightarrow> b)"

definition last_addr :: "blk list \<Rightarrow> u64 \<Rightarrow> u64" where
  "last_addr bs p = (if bs = [] then p else fst (last bs))"

lemma blk_snoc: assumes "(bs :: blk list) \<noteq> []" obtains zs b n f where "bs = zs @ [(b, n, f)]"
  using assms by (metis prod_cases3 rev_exhaust)

lemma blk_cons: assumes "(bs :: blk list) \<noteq> []" obtains b n f zs where "bs = (b, n, f) # zs"
  using assms by (metis prod_cases3 list.exhaust)

lemma fst_addr_simps [simp]: "fst_addr [] nx = nx" "fst_addr ((b, x) # bs) nx = b"
  by (simp_all add: fst_addr_def)

lemma last_addr_simps [simp]: "last_addr [] p = p" "last_addr ((b, x) # bs) p = last_addr bs b"
  "last_addr (xs @ [(b, y)]) p = b"
  by (simp_all add: last_addr_def)

lemma last_addr_append [simp]: "last_addr (xs @ ys) p = last_addr ys (last_addr xs p)"
  by (simp add: last_addr_def)

lemma fst_addr_append [simp]: "fst_addr (xs @ ys) p = fst_addr xs (fst_addr ys p)"
  by (cases xs) (auto simp: fst_addr_def split: prod.split)

text \<open>
  \<open>seg m a p bs e nx\<close>: the blocks \<open>bs\<close> fill the addresses from \<open>a\<close> to \<open>e\<close>, linked in
  order, \<open>p\<close> before the first and \<open>nx\<close> after the last.
\<close>

fun seg :: "(u64 \<Rightarrow> u64) \<Rightarrow> nat \<Rightarrow> u64 \<Rightarrow> blk list \<Rightarrow> nat \<Rightarrow> u64 \<Rightarrow> bool" where
  "seg m a p [] e nx \<longleftrightarrow> a = e"
| "seg m a p ((b, n, f) # bs) e nx \<longleftrightarrow>
     unat b = a \<and> hdr m b n f p (fst_addr bs nx) \<and> seg m (a + 48 + unat n) b bs e nx"

lemma seg_append:
  "seg m a p (xs @ ys) e nx \<longleftrightarrow> (\<exists>k. seg m a p xs k (fst_addr ys nx) \<and> seg m k (last_addr xs p) ys e nx)"
  by (induction xs arbitrary: a p) auto

lemma seg_length: "seg m a p bs e nx \<Longrightarrow> a + 64 * length bs \<le> e"
proof (induction bs arbitrary: a p)
  case (Cons x bs)
  obtain b n f where x: "x = (b, n, f)" by (cases x)
  have "16 \<le> unat n" using Cons.prems by (simp add: x hdr_def)
  moreover have "a + 48 + unat n + 64 * length bs \<le> e" using Cons.IH [of "a + 48 + unat n" b] Cons.prems by (simp add: x)
  ultimately show ?case by simp
qed simp

lemma seg_range:
  "seg m a p bs e nx \<Longrightarrow> (b, n, f) \<in> set bs \<Longrightarrow> a \<le> unat b \<and> unat b + 48 + unat n \<le> e \<and> 16 \<le> unat n"
proof (induction bs arbitrary: a p)
  case (Cons x bs)
  obtain b' n' f' where x: "x = (b', n', f')" by (cases x)
  have r: "seg m (a + 48 + unat n') b' bs e nx" and u: "unat b' = a" "16 \<le> unat n'" using Cons.prems(1) by (simp_all add: x hdr_def)
  show ?case
  proof (cases "(b, n, f) \<in> set bs")
    case True
    from Cons.IH [OF r True] show ?thesis by simp
  next
    case False
    then have "b = b'" "n = n'" using Cons.prems(2) by (auto simp: x)
    with seg_length [OF r] u show ?thesis by simp
  qed
qed simp

definition sep :: "u64 \<Rightarrow> u64 \<Rightarrow> bool" where
  "sep b c \<longleftrightarrow> unat b + 48 < 2 ^ 64 \<and> unat c + 48 < 2 ^ 64 \<and> (unat b + 48 \<le> unat c \<or> unat c + 48 \<le> unat b)"

lemma sep_sym: "sep b c \<Longrightarrow> sep c b" by (auto simp: sep_def)

definition hoff :: "u64 set" where "hoff = {0, 8, 16, 24, 32}"

lemma hoff [simp]: "0 \<in> hoff" "8 \<in> hoff" "16 \<in> hoff" "24 \<in> hoff" "32 \<in> hoff"
  by (simp_all add: hoff_def)

lemma hoff_unat: "i \<in> hoff \<Longrightarrow> unat i < 48" by (auto simp: hoff_def)

lemma sep_neq: "sep b c \<Longrightarrow> i \<in> hoff \<Longrightarrow> j \<in> hoff \<Longrightarrow> b + i \<noteq> c + j"
proof
  assume s: "sep b c" "i \<in> hoff" "j \<in> hoff" "b + i = c + j"
  have "unat (b + i) = unat b + unat i" by (rule unat_plus) (use s hoff_unat [of i] in \<open>simp add: sep_def\<close>)
  moreover have "unat (c + j) = unat c + unat j" by (rule unat_plus) (use s hoff_unat [of j] in \<open>simp add: sep_def\<close>)
  ultimately have "unat b + unat i = unat c + unat j" using s(4) by simp
  with s hoff_unat [of i] hoff_unat [of j] show False by (auto simp: sep_def)
qed

lemma hdr_upd_other: "sep b c \<Longrightarrow> i \<in> hoff \<Longrightarrow> hdr (m(b + i := v)) c n f p nx = hdr m c n f p nx"
  using sep_neq [of b c i 0] sep_neq [of b c i 8] sep_neq [of b c i 16] sep_neq [of b c i 24] sep_neq [of b c i 32]
  by (simp add: hdr_def)

lemma seg_upd_other:
  "\<forall>(c, x)\<in>set bs. sep b c \<Longrightarrow> i \<in> hoff \<Longrightarrow> seg (m(b + i := v)) a p bs e nx = seg m a p bs e nx"
proof (induction bs arbitrary: a p)
  case (Cons x bs)
  obtain b' n' f' where x: "x = (b', n', f')" by (cases x)
  have "hdr (m(b + i := v)) b' n' f' p y = hdr m b' n' f' p y" for y
    by (rule hdr_upd_other) (use Cons.prems in \<open>simp_all add: x\<close>)
  moreover have "seg (m(b + i := v)) a' p' bs e nx = seg m a' p' bs e nx" for a' p'
    by (rule Cons.IH) (use Cons.prems in \<open>simp_all add: x\<close>)
  ultimately show ?case unfolding x seg.simps by simp
qed simp

text \<open>Payload cells are no header cells.\<close>

lemma seg_frame:
  "\<forall>(b, n, f)\<in>set bs. \<forall>i\<in>hoff. m' (b + i) = m (b + i) \<Longrightarrow> seg m a p bs e nx \<Longrightarrow> seg m' a p bs e nx"
proof (induction bs arbitrary: a p)
  case (Cons x bs)
  obtain b n f where x: "x = (b, n, f)" by (cases x)
  have "hdr m' b n f p (fst_addr bs nx)"
    using Cons.prems by (auto simp: x hdr_def hoff_def)
  with Cons show ?case by (simp add: x)
qed simp

text \<open>Blocks before and after a given one.\<close>

lemma seg_split_sep:
  assumes "seg m a p (xs @ (b, n, f) # ys) e nx" and "e < 2 ^ 64"
  shows "\<forall>(c, x)\<in>set xs. sep b c \<and> sep c b" and "\<forall>(c, x)\<in>set ys. sep b c \<and> sep c b"
proof -
  obtain k where k: "seg m a p xs k b" "unat b = k" "seg m (k + 48 + unat n) b ys e nx" "16 \<le> unat n"
    using assms(1) by (auto simp: seg_append hdr_def)
  have e: "unat b + 48 + unat n \<le> e" using seg_length [OF k(3)] k(2) by simp
  show "\<forall>(c, x)\<in>set xs. sep b c \<and> sep c b" using seg_range [OF k(1)] k(2,4) e assms(2) by (fastforce simp: sep_def)
  show "\<forall>(c, x)\<in>set ys. sep b c \<and> sep c b" using seg_range [OF k(3)] k(2,4) e assms(2) by (fastforce simp: sep_def)
qed

lemma seg_set_next:
  assumes "seg m a p xs e nx" and "xs \<noteq> []" and "e < 2 ^ 64"
  shows "seg (m(last_addr xs p + 32 := nx')) a p xs e nx'"
proof -
  obtain zs b n f where xs: "xs = zs @ [(b, n, f)]" by (rule blk_snoc [OF assms(2)])
  note sp = seg_split_sep(1) [OF assms(1) [unfolded xs] assms(3)]
  have "seg (m(b + 32 := nx')) a p zs k y = seg m a p zs k y" for k y
    using sp by (intro seg_upd_other) auto
  then show ?thesis using assms(1) by (auto simp: xs seg_append hdr_def)
qed

lemma seg_set_prev:
  assumes "seg m a p ys e nx" and "ys \<noteq> []" and "e < 2 ^ 64"
  shows "seg (m(fst_addr ys nx + 24 := p')) a p' ys e nx"
proof -
  obtain zs b n f where ys: "ys = (b, n, f) # zs" by (rule blk_cons [OF assms(2)])
  have "seg m a p ([] @ (b, n, f) # zs) e nx" using assms(1) by (simp add: ys)
  note sp = seg_split_sep(2) [OF this assms(3)]
  have "seg (m(b + 24 := p')) k y zs e nx = seg m k y zs e nx" for k y
    using sp by (intro seg_upd_other) auto
  then show ?thesis using assms(1) by (auto simp: ys hdr_def)
qed


section \<open>The heap invariant\<close>

definition heap_inv :: "'a heap_state_scheme \<Rightarrow> blk list \<Rightarrow> bool" where
  "heap_inv s B \<longleftrightarrow> seg (heap_mem s) (unat SCDK_HEAP_BASE) 0 B (unat (heap_commit_end s)) 0 \<and>
     heap_head s = fst_addr B 0 \<and> heap_tail s = last_addr B 0 \<and> 16 dvd unat (heap_commit_end s) \<and>
     unat (heap_commit_end s) \<le> unat SCDK_HEAP_BASE + 0x400000"

lemma heap_end: "heap_inv s B \<Longrightarrow> unat (heap_commit_end s) < 2 ^ 64 - 64"
  by (simp add: heap_inv_def kconst)

lemmas blk_defs = blk_magic_def blk_size_def blk_free_def blk_prev_def blk_next_def
lemmas set_defs = set_magic_def set_size_def set_free_def set_prev_def set_next_def set_cell_def

text \<open>One block with its neighbourhood, as the operations see it.\<close>

lemma heap_inv_focus:
  assumes "heap_inv s (xs @ (b, n, f) # ys)"
  obtains "seg (heap_mem s) (unat SCDK_HEAP_BASE) 0 xs (unat b) b"
    and "hdr (heap_mem s) b n f (last_addr xs 0) (fst_addr ys 0)"
    and "seg (heap_mem s) (unat b + 48 + unat n) b ys (unat (heap_commit_end s)) 0"
    and "unat SCDK_HEAP_BASE \<le> unat b" and "unat b + 48 + unat n \<le> unat (heap_commit_end s)"
    and "unat (heap_commit_end s) < 2 ^ 64 - 64" and "16 dvd unat b"
    and "\<forall>(c, x)\<in>set xs. sep b c \<and> sep c b" and "\<forall>(c, x)\<in>set ys. sep b c \<and> sep c b" and "b \<noteq> 0"
proof -
  note e = heap_end [OF assms]
  have sg: "seg (heap_mem s) (unat SCDK_HEAP_BASE) 0 (xs @ (b, n, f) # ys) (unat (heap_commit_end s)) 0"
    using assms by (simp add: heap_inv_def)
  obtain k where k: "seg (heap_mem s) (unat SCDK_HEAP_BASE) 0 xs k b" "unat b = k"
    "hdr (heap_mem s) b n f (last_addr xs 0) (fst_addr ys 0)"
    "seg (heap_mem s) (k + 48 + unat n) b ys (unat (heap_commit_end s)) 0"
    using sg by (auto simp: seg_append)
  have al: "16 dvd a' \<Longrightarrow> 16 dvd e'" if "seg m a' p' zs e' nx'" for m a' p' zs e' nx'
    using that
  proof (induction zs arbitrary: a' p')
    case (Cons x zs)
    obtain c i g where x: "x = (c, i, g)" by (cases x)
    have "16 dvd a' + 48 + unat i" using Cons.prems by (auto simp: x hdr_def)
    with Cons.IH [of "a' + 48 + unat i" c] Cons.prems show ?case by (simp add: x)
  qed simp
  have lo: "unat SCDK_HEAP_BASE \<le> unat b" using seg_length [OF k(1)] k(2) by simp
  show thesis
    using k lo seg_length [OF k(4)] e al [OF k(1)] seg_split_sep [OF sg]
    by (intro that) (auto simp: kconst)
qed

lemma heap_inv_intro:
  assumes "seg m (unat SCDK_HEAP_BASE) 0 xs (unat b) b" and "hdr m b n f (last_addr xs 0) (fst_addr ys 0)"
    and "seg m (unat b + 48 + unat n) b ys (unat (heap_commit_end s)) 0"
    and "heap_mem s = m" and "heap_head s = fst_addr xs b" and "heap_tail s = last_addr ys b"
    and "16 dvd unat (heap_commit_end s)" and "unat (heap_commit_end s) \<le> unat SCDK_HEAP_BASE + 0x400000"
  shows "heap_inv s (xs @ (b, n, f) # ys)"
  using assms by (auto simp: heap_inv_def seg_append)

text \<open>Following the list finds the first block that fits, within the fuel.\<close>

definition first_fit :: "blk list \<Rightarrow> u64 \<Rightarrow> u64" where
  "first_fit B sz = (case find (\<lambda>(b, n, f). f \<and> n \<ge> sz) B of None \<Rightarrow> 0 | Some (b, _) \<Rightarrow> b)"

lemma find_free_first_fit_from:
  "seg (heap_mem s) a p bs e 0 \<Longrightarrow> 0 < a \<Longrightarrow> length bs < k \<Longrightarrow>
     find_free_from s (fst_addr bs 0) sz k = Some (first_fit bs sz)"
proof (induction bs arbitrary: a p k)
  case Nil
  then show ?case by (cases k) (simp_all add: first_fit_def)
next
  case (Cons x bs)
  obtain b n f where x: "x = (b, n, f)" by (cases x)
  obtain j where k: "k = Suc j" using Cons.prems(3) by (cases k) auto
  have b: "b \<noteq> 0" "blk_free s b = f" "blk_size s b = n" "blk_next s b = fst_addr bs 0"
    using Cons.prems by (auto simp: x hdr_def blk_defs)
  have "find_free_from s (fst_addr bs 0) sz j = Some (first_fit bs sz)"
    using Cons.IH [of "a + 48 + unat n" b j] Cons.prems by (simp add: x k)
  with b show ?case by (simp add: x k first_fit_def)
qed

lemma find_free_first_fit:
  assumes "heap_inv s B"
  shows "find_free_from s (heap_head s) sz heap_fuel = Some (first_fit B sz)"
proof -
  have g: "seg (heap_mem s) (unat SCDK_HEAP_BASE) 0 B (unat (heap_commit_end s)) 0" using assms by (simp add: heap_inv_def)
  have "64 * length B \<le> 0x400000" using seg_length [OF g] assms by (simp add: heap_inv_def)
  then have "length B < heap_fuel" by (simp add: heap_fuel_def)
  with find_free_first_fit_from [OF g] assms show ?thesis by (simp add: heap_inv_def kconst)
qed

lemma find_free_block_first_fit: "heap_inv s B \<Longrightarrow> find_free_block s sz = first_fit B sz"
  by (simp add: find_free_block_def find_free_first_fit)

lemma first_fit_cases:
  assumes "heap_inv s B"
  obtains "first_fit B sz = 0" and "\<forall>(b, n, f)\<in>set B. f \<longrightarrow> n < sz"
  | xs b n ys where "B = xs @ (b, n, True) # ys" and "sz \<le> n" and "first_fit B sz = b" and "b \<noteq> 0"
proof (cases "find (\<lambda>(b, n, f). f \<and> n \<ge> sz) B")
  case None
  then have "first_fit B sz = 0" by (simp add: first_fit_def)
  moreover have "\<forall>(b, n, f)\<in>set B. f \<longrightarrow> n < sz" using None by (auto simp: find_None_iff not_le)
  ultimately show ?thesis by (rule that(1))
next
  case (Some x)
  obtain b n f where x: "x = (b, n, f)" by (cases x)
  from Some have "f" "sz \<le> n" "x \<in> set B" by (auto simp: find_Some_iff x in_set_conv_nth)
  then obtain xs ys where B: "B = xs @ (b, n, True) # ys" by (auto simp: x in_set_conv_decomp)
  show ?thesis using that(2) [OF B \<open>sz \<le> n\<close>] heap_inv_focus [OF assms [unfolded B]] Some by (auto simp: first_fit_def x)
qed


definition hcells :: "blk list \<Rightarrow> u64 set" where
  "hcells B = {b + i | b x i. (b, x) \<in> set B \<and> i \<in> hoff}"

definition keeps :: "'a heap_state_scheme \<Rightarrow> blk list \<Rightarrow> 'a heap_state_scheme \<Rightarrow> blk list \<Rightarrow> bool" where
  "keeps s B s' B' \<longleftrightarrow> (\<forall>x. x \<notin> hcells B \<longrightarrow> x \<notin> hcells B' \<longrightarrow> heap_mem s' x = heap_mem s x)"

definition payload_same :: "'a heap_state_scheme \<Rightarrow> 'a heap_state_scheme \<Rightarrow> u64 \<Rightarrow> u64 \<Rightarrow> bool" where
  "payload_same s s' b n \<longleftrightarrow>
     (\<forall>x. unat b + 48 \<le> unat x \<longrightarrow> unat x < unat b + 48 + unat n \<longrightarrow> heap_mem s' x = heap_mem s x)"

lemma hcells_mem: "(b, y) \<in> set B \<Longrightarrow> i \<in> hoff \<Longrightarrow> x \<notin> hcells B \<Longrightarrow> x \<noteq> b + i"
  unfolding hcells_def by blast

lemma hcells_fst:
  assumes "ys \<noteq> []" and "set ys \<subseteq> set B" and "i \<in> hoff" and "x \<notin> hcells B"
  shows "x \<noteq> fst_addr ys nx + i"
proof -
  obtain b y zs where "ys = (b, y) # zs" using assms(1) by (metis list.exhaust surj_pair)
  then show ?thesis using hcells_mem [of b y B i x] assms by simp
qed

lemma hcells_last:
  assumes "ys \<noteq> []" and "set ys \<subseteq> set B" and "i \<in> hoff" and "x \<notin> hcells B"
  shows "x \<noteq> last_addr ys p + i"
proof -
  have "last ys \<in> set B" using assms(1,2) by auto
  then have "(fst (last ys), snd (last ys)) \<in> set B" by simp
  from hcells_mem [OF this assms(3,4)] show ?thesis using assms(1) by (simp add: last_addr_def)
qed

lemma heap_initialized_set [simp]:
  "heap_initialized (set_magic s b v) = heap_initialized s" "heap_initialized (set_size s b v) = heap_initialized s"
  "heap_initialized (set_free s b f) = heap_initialized s" "heap_initialized (set_prev s b v) = heap_initialized s"
  "heap_initialized (set_next s b v) = heap_initialized s"
  by (simp_all add: set_defs)

lemma heap_initialized_ops [simp]:
  "heap_initialized (block_insert_tail s b) = heap_initialized s"
  "heap_initialized (block_remove s b) = heap_initialized s"
  "heap_initialized (block_coalesce_forward s b) = heap_initialized s"
  "heap_initialized (block_split s b r) = heap_initialized s"
proof -
  show "heap_initialized (block_insert_tail s b) = heap_initialized s" by (simp add: block_insert_tail_def Let_def)
  show r: "heap_initialized (block_remove s b) = heap_initialized s" for s :: "'a heap_state_scheme" and b
    unfolding block_remove_def Let_def by (simp split: if_split)
  show "heap_initialized (block_coalesce_forward s b) = heap_initialized s"
    unfolding block_coalesce_forward_def Let_def by (simp add: r)
  show "heap_initialized (block_split s b r) = heap_initialized s" unfolding block_split_def Let_def by (simp split: if_split)
qed

section \<open>Coalescing and splitting\<close>

lemma blk_cell_other:
  assumes "sep b c" and "i \<in> hoff"
  shows "blk_magic (set_cell s (b + i) v) c = blk_magic s c" "blk_size (set_cell s (b + i) v) c = blk_size s c"
    "blk_free (set_cell s (b + i) v) c = blk_free s c" "blk_prev (set_cell s (b + i) v) c = blk_prev s c"
    "blk_next (set_cell s (b + i) v) c = blk_next s c"
  using sep_neq [OF assms, of 0] sep_neq [OF assms, of 8] sep_neq [OF assms, of 16] sep_neq [OF assms, of 24]
    sep_neq [OF assms, of 32] by (simp_all add: set_cell_def blk_defs)

lemma blk_set_other:
  assumes "sep b c"
  shows "blk_prev (set_size s b v) c = blk_prev s c" "blk_next (set_size s b v) c = blk_next s c"
    "blk_prev (set_next s b v) c = blk_prev s c" "blk_next (set_next s b v) c = blk_next s c"
    "blk_prev (set_free s b f) c = blk_prev s c" "blk_next (set_free s b f) c = blk_next s c"
    "blk_size (set_free s b f) c = blk_size s c" "blk_free (set_free s b f) c = blk_free s c"
    "blk_next (set_magic s b v) c = blk_next s c" "blk_size (set_magic s b v) c = blk_size s c"
    "blk_next (set_prev s b v) c = blk_next s c" "blk_size (set_size s b v) c = blk_size s c"
  using blk_cell_other [OF assms, of 0 s v] by (simp_all add: set_magic_def set_size_def set_free_def set_prev_def
      set_next_def blk_cell_other [OF assms])

lemma coalesce_none:
  assumes "heap_inv s (xs @ (b, n, f) # ys)" and "\<forall>c k zs. ys \<noteq> (c, k, True) # zs"
  shows "block_coalesce_forward s b = s"
proof -
  have nx: "blk_next s b = fst_addr ys 0" using heap_inv_focus [OF assms(1)] by (auto simp: hdr_def blk_defs)
  show ?thesis
  proof (cases ys)
    case (Cons x zs)
    obtain c k g where x: "x = (c, k, g)" by (cases x)
    have "\<not> g" using assms(2) Cons x by auto
    moreover have "blk_free s c = g" using assms(1) heap_inv_focus [of s "xs @ [(b, n, f)]" c k g zs]
      by (auto simp: Cons x hdr_def blk_defs)
    ultimately show ?thesis using nx by (simp add: block_coalesce_forward_def Let_def Cons x)
  qed (use nx in \<open>simp add: block_coalesce_forward_def\<close>)
qed

lemma coalesce_merge:
  assumes "heap_inv s (xs @ (b, n, f) # (c, k, True) # ys)"
  shows "heap_inv (block_coalesce_forward s b) (xs @ (b, n + (48 + k), f) # ys) \<and>
    keeps s (xs @ (b, n, f) # (c, k, True) # ys) (block_coalesce_forward s b) (xs @ (b, n + (48 + k), f) # ys)"
    (is "_ \<and> keeps s ?B _ ?B'")
proof -
  let ?m = "heap_mem s" and ?v = "n + (48 + k)" and ?y = "fst_addr ys 0" and ?e = "unat (heap_commit_end s)"
  obtain b: "seg ?m (unat SCDK_HEAP_BASE) 0 xs (unat b) b" "hdr ?m b n f (last_addr xs 0) c"
      "seg ?m (unat b + 48 + unat n) b ((c, k, True) # ys) ?e 0" "unat b + 48 + unat n \<le> ?e" "?e < 2 ^ 64 - 64" "b \<noteq> 0"
      "\<forall>(z, x)\<in>set xs. sep b z \<and> sep z b" "\<forall>(z, x)\<in>set ((c, k, True) # ys). sep b z \<and> sep z b"
    by (rule heap_inv_focus [OF assms]) (rule that; simp)
  have "heap_inv s ((xs @ [(b, n, f)]) @ (c, k, True) # ys)" using assms by simp
  then obtain c: "hdr ?m c k True b ?y" "unat c + 48 + unat k \<le> ?e" "c \<noteq> 0"
      "\<forall>(z, x)\<in>set (xs @ [(b, n, f)]). sep c z \<and> sep z c" "\<forall>(z, x)\<in>set ys. sep c z \<and> sep z c"
    by (rule heap_inv_focus) (rule that; simp)
  have cu: "unat c = unat b + 48 + unat n" using b(3) by simp
  have ys: "seg ?m (unat c + 48 + unat k) c ys ?e 0" using b(3) by (simp add: cu)
  have bc: "sep b c" "sep c b" using b(8) by auto
  have ce: "c = b + 48 + n"
    by (simp only: word_unat_eq_iff) (use b(4,5) cu in \<open>simp add: unat_word_ariths\<close>)
  have rd: "blk_next s b = c" "blk_size s b = n" "blk_free s c" "blk_size s c = k" "blk_prev s c = b" "blk_next s c = ?y"
    using b(2) c(1) by (simp_all add: blk_defs hdr_def)
  define m2 where "m2 = ?m(b + 8 := ?v, b + 32 := ?y)"
  define m3 where "m3 = (if ys \<noteq> [] then m2(?y + 24 := b) else m2)"
  have y0: "?y \<noteq> 0 \<longleftrightarrow> ys \<noteq> []"
    using ys by (cases ys) (auto simp: cu)
  have s': "block_coalesce_forward s b = s\<lparr>heap_mem := m3, heap_tail := if ys = [] then b else heap_tail s\<rparr>"
  proof -
    have "block_coalesce_forward s b = block_remove (set_size s b ?v) c"
      using rd ce c(3) unfolding block_coalesce_forward_def Let_def by simp
    also have "\<dots> = (let s2 = set_next (set_size s b ?v) b ?y in if ys \<noteq> [] then set_prev s2 ?y b else s2\<lparr>heap_tail := b\<rparr>)"
      unfolding block_remove_def blk_set_other [OF bc(1)] rd Let_def
      by (simp add: b(6) blk_set_other [OF bc(1)] rd y0)
    also have "\<dots> = s\<lparr>heap_mem := m3, heap_tail := if ys = [] then b else heap_tail s\<rparr>"
      by (simp add: m2_def m3_def set_defs)
    finally show ?thesis .
  qed
  have vu: "unat ?v = unat n + 48 + unat k"
    using c(2) b(5) by (simp add: unat_word_ariths cu)
  have h2: "hdr m2 b ?v f (last_addr xs 0) ?y" using b(2) c(1) vu by (auto simp: m2_def hdr_def)
  have ysep: "\<forall>(z, x)\<in>set xs. sep ?y z" "sep ?y b" if "ys \<noteq> []"
  proof -
    obtain w i g zs where y: "ys = (w, i, g) # zs" by (rule blk_cons [OF \<open>ys \<noteq> []\<close>])
    show "sep ?y b" using b(8) by (simp add: y)
    have "heap_inv s ((xs @ [(b, n, f), (c, k, True)]) @ (w, i, g) # zs)" using assms by (simp add: y)
    then have "\<forall>(z, x)\<in>set (xs @ [(b, n, f), (c, k, True)]). sep w z \<and> sep z w" by (rule heap_inv_focus)
    then show "\<forall>(z, x)\<in>set xs. sep ?y z" by (auto simp: y)
  qed
  have sx: "\<forall>(z, x)\<in>set xs. sep b z" and sy: "\<forall>(z, x)\<in>set ys. sep b z" using b(7,8) by auto
  have "seg m2 (unat SCDK_HEAP_BASE) 0 xs (unat b) b"
    unfolding m2_def seg_upd_other [OF sx hoff(5)] seg_upd_other [OF sx hoff(2)] by (rule b(1))
  then have x3: "seg m3 (unat SCDK_HEAP_BASE) 0 xs (unat b) b"
    using ysep by (auto simp: m3_def seg_upd_other)
  have h3: "hdr m3 b ?v f (last_addr xs 0) ?y" using h2 ysep by (auto simp: m3_def hdr_upd_other)
  have "seg m2 (unat c + 48 + unat k) c ys ?e 0"
    unfolding m2_def seg_upd_other [OF sy hoff(5)] seg_upd_other [OF sy hoff(2)] by (rule ys)
  then have "seg m3 (unat c + 48 + unat k) b ys ?e 0"
    using seg_set_prev [of m2 "unat c + 48 + unat k" c ys ?e 0 b] b(5) by (cases "ys = []") (auto simp: m3_def)
  moreover have "unat c + 48 + unat k = unat b + 48 + unat ?v" using vu cu by linarith
  ultimately have y3: "seg m3 (unat b + 48 + unat ?v) b ys ?e 0" by simp
  have i: "heap_head s = fst_addr xs b" "heap_tail s = last_addr ys c" "16 dvd ?e" "?e \<le> unat SCDK_HEAP_BASE + 0x400000"
    using assms by (auto simp: heap_inv_def)
  have tl: "ys \<noteq> [] \<Longrightarrow> last_addr ys c = last_addr ys b" by (simp add: last_addr_def)
  have "m3 x = ?m x" if x: "x \<notin> hcells ?B'" for x
  proof -
    have "m2 x = ?m x" using hcells_mem [of b _ ?B' 8 x] hcells_mem [of b _ ?B' 32 x] x by (auto simp: m2_def)
    moreover have "x \<noteq> ?y + 24" if "ys \<noteq> []" by (rule hcells_fst [OF that _ _ x]) auto
    ultimately show ?thesis by (simp add: m3_def)
  qed
  then have "keeps s ?B (block_coalesce_forward s b) ?B'" by (simp add: keeps_def s')
  moreover have "heap_inv (block_coalesce_forward s b) ?B'"
    by (rule heap_inv_intro [of m3]) (use x3 h3 y3 i tl in \<open>simp_all add: s'\<close>)
  ultimately show ?thesis by blast
qed


lemma free_byte [simp]: "((x :: u64) AND - 256) AND 255 = 0" "((x :: u64) AND - 256 OR 1) AND 255 = 1"
  by (simp_all add: bit.conj_disj_distrib2 and.assoc)

lemma set_free_inv:
  assumes "heap_inv s (xs @ (b, n, f) # ys)"
  shows "heap_inv (set_free s b g) (xs @ (b, n, g) # ys) \<and>
    keeps s (xs @ (b, n, f) # ys) (set_free s b g) (xs @ (b, n, g) # ys)" (is "_ \<and> keeps s ?B _ ?B'")
proof -
  let ?m = "heap_mem s" and ?e = "unat (heap_commit_end s)"
  let ?m' = "?m(b + 16 := (?m (b + 16) AND NOT 0xff) OR (if g then 1 else 0))"
  obtain b: "seg ?m (unat SCDK_HEAP_BASE) 0 xs (unat b) b" "hdr ?m b n f (last_addr xs 0) (fst_addr ys 0)"
      "seg ?m (unat b + 48 + unat n) b ys ?e 0"
      "\<forall>(z, x)\<in>set xs. sep b z \<and> sep z b" "\<forall>(z, x)\<in>set ys. sep b z \<and> sep z b"
    by (rule heap_inv_focus [OF assms]) (rule that; simp)
  have sx: "\<forall>(z, x)\<in>set xs. sep b z" and sy: "\<forall>(z, x)\<in>set ys. sep b z" using b(4,5) by auto
  have h: "hdr ?m' b n g (last_addr xs 0) (fst_addr ys 0)"
    using b(2) unfolding hdr_def by (simp del: fun_upd_apply add: fun_upd_same) simp
  have "keeps s ?B (set_free s b g) ?B'" using hcells_mem [of b _ ?B 16] by (auto simp: keeps_def set_free_def set_cell_def)
  moreover have "heap_inv (set_free s b g) ?B'"
    by (rule heap_inv_intro [of ?m'])
      (use b h assms in \<open>simp_all add: seg_upd_other [OF sx hoff(3)] seg_upd_other [OF sy hoff(3)] set_free_def set_cell_def heap_inv_def\<close>)
  ultimately show ?thesis by blast
qed

text \<open>Writing a header where no listed header is.\<close>

abbreviation put_hdr :: "(u64 \<Rightarrow> u64) \<Rightarrow> u64 \<Rightarrow> u64 \<Rightarrow> bool \<Rightarrow> u64 \<Rightarrow> u64 \<Rightarrow> u64 \<Rightarrow> u64" where
  "put_hdr m w n f p nx \<equiv> m(w := SCDK_HEAP_MAGIC, w + 8 := n, w + 16 := (m (w + 16) AND NOT 0xff) OR (if f then 1 else 0),
     w + 24 := p, w + 32 := nx)"

lemma seg_put_hdr:
  assumes "\<forall>(c, x)\<in>set bs. sep w c"
  shows "seg (put_hdr m w n f p nx) a q bs e y = seg m a q bs e y"
  using seg_upd_other [OF assms hoff(1)] by (simp add: seg_upd_other [OF assms] del: fun_upd_apply)

lemma hdr_put_other: "sep w c \<Longrightarrow> hdr (put_hdr m w n f p nx) c n' f' p' nx' = hdr m c n' f' p' nx'"
  using seg_put_hdr [of "[(c, n', f')]" w m n f p nx "unat c" p' "unat c + 48 + unat n'" nx'] by simp

lemma hdr_put: "16 dvd unat n \<Longrightarrow> 16 \<le> unat n \<Longrightarrow> hdr (put_hdr m w n f p nx) w n f p nx"
  unfolding hdr_def by simp


lemma split_inv:
  assumes inv: "heap_inv s (xs @ (b, n, f) # ys)" and r: "16 dvd unat r" "16 \<le> unat r" "r \<le> n"
    and big: "\<not> n < r + 48 + 16"
  shows "heap_inv (block_split s b r) (xs @ (b, r, f) # (b + 48 + r, n - r - 48, True) # ys) \<and>
    keeps s (xs @ (b, n, f) # ys) (block_split s b r) (xs @ (b, r, f) # (b + 48 + r, n - r - 48, True) # ys)"
    (is "_ \<and> keeps s ?B _ ?B'")
proof -
  let ?m = "heap_mem s" and ?e = "unat (heap_commit_end s)" and ?w = "b + 48 + r" and ?y = "fst_addr ys 0" and ?k = "n - r - 48"
  obtain b: "seg ?m (unat SCDK_HEAP_BASE) 0 xs (unat b) b" "hdr ?m b n f (last_addr xs 0) ?y"
      "seg ?m (unat b + 48 + unat n) b ys ?e 0" "unat b + 48 + unat n \<le> ?e" "?e < 2 ^ 64 - 64" "b \<noteq> 0"
      "\<forall>(z, x)\<in>set xs. sep b z \<and> sep z b" "\<forall>(z, x)\<in>set ys. sep b z \<and> sep z b"
    by (rule heap_inv_focus [OF inv]) (rule that; simp)
  have nr: "unat r + 64 \<le> unat n"
    using big b(4,5) r(3) by (simp add: word_less_nat_alt word_le_nat_alt unat_word_ariths)
  have wu: "unat ?w = unat b + 48 + unat r" using nr b(4,5) by (simp add: unat_word_ariths)
  have ku: "unat ?k = unat n - unat r - 48"
  proof -
    have "unat (n - r) = unat n - unat r" by (rule unat_sub) (rule r(3))
    moreover have "(48 :: u64) \<le> n - r" using calculation nr by (simp add: word_le_nat_alt)
    then have "unat (n - r - 48) = unat (n - r) - unat (48 :: u64)" by (rule unat_sub)
    ultimately show ?thesis by simp
  qed
  have "16 dvd unat n - unat r" using b(2) r(1) by (auto simp: hdr_def intro: dvd_diff_nat)
  then have k16: "16 dvd unat ?k" unfolding ku by (rule dvd_diff_nat) simp
  have sw: "\<forall>(z, x)\<in>set xs. sep ?w z" "\<forall>(z, x)\<in>set ys. sep ?w z" "sep ?w b" "sep b ?w"
    using b(7,8) seg_range [OF b(1)] seg_range [OF b(3)] wu nr b(4,5) by (fastforce simp: sep_def)+
  have rd: "blk_size s b = n" "blk_next s b = ?y" using b(2) by (simp_all add: blk_defs hdr_def)
  have y0: "?y \<noteq> 0 \<longleftrightarrow> ys \<noteq> []" using b(3) by (cases ys) auto
  define m1 where "m1 = put_hdr ?m ?w ?k True b ?y"
  define m2 where "m2 = (if ys \<noteq> [] then m1(?y + 24 := ?w) else m1)"
  define m4 where "m4 = m2(b + 32 := ?w, b + 8 := r)"
  have s': "block_split s b r = s\<lparr>heap_mem := m4, heap_tail := if ys = [] then ?w else heap_tail s\<rparr>"
    using big rd y0 unfolding block_split_def Let_def m4_def m2_def m1_def
    by (simp add: blk_set_other [OF sw(3)] kconst) (simp add: set_defs kconst)
  have ysep: "\<forall>(z, x)\<in>set xs. sep ?y z" "sep ?y b" "sep ?y ?w" if "ys \<noteq> []"
  proof -
    obtain v i g zs where y: "ys = (v, i, g) # zs" by (rule blk_cons [OF \<open>ys \<noteq> []\<close>])
    show "sep ?y b" using b(8) by (simp add: y)
    show "sep ?y ?w" using sw(2) by (simp add: y sep_def) blast
    have "heap_inv s ((xs @ [(b, n, f)]) @ (v, i, g) # zs)" using inv by (simp add: y)
    then have "\<forall>(z, x)\<in>set (xs @ [(b, n, f)]). sep v z \<and> sep z v" by (rule heap_inv_focus)
    then show "\<forall>(z, x)\<in>set xs. sep ?y z" by (auto simp: y)
  qed
  have sx: "\<forall>(z, x)\<in>set xs. sep b z" and sy: "\<forall>(z, x)\<in>set ys. sep b z" using b(7,8) by auto
  have "seg m1 (unat SCDK_HEAP_BASE) 0 xs (unat b) b" unfolding m1_def seg_put_hdr [OF sw(1)] by (rule b(1))
  then have "seg m2 (unat SCDK_HEAP_BASE) 0 xs (unat b) b" using ysep by (auto simp: m2_def seg_upd_other)
  then have x4: "seg m4 (unat SCDK_HEAP_BASE) 0 xs (unat b) b"
    unfolding m4_def seg_upd_other [OF sx hoff(2)] seg_upd_other [OF sx hoff(5)] .
  have "hdr m1 b n f (last_addr xs 0) ?y" unfolding m1_def hdr_put_other [OF sw(3)] by (rule b(2))
  then have "hdr m2 b n f (last_addr xs 0) ?y" using ysep by (auto simp: m2_def hdr_upd_other)
  then have h4: "hdr m4 b r f (last_addr xs 0) ?w" using r by (simp add: m4_def hdr_def)
  have "hdr m1 ?w ?k True b ?y" unfolding m1_def by (rule hdr_put) (use k16 ku nr in auto)
  then have "hdr m2 ?w ?k True b ?y" using ysep by (auto simp: m2_def hdr_upd_other)
  then have w4: "hdr m4 ?w ?k True b ?y" unfolding m4_def by (simp only: hdr_upd_other [OF sw(4)] hoff)
  have y1: "seg m1 (unat b + 48 + unat n) b ys ?e 0" unfolding m1_def seg_put_hdr [OF sw(2)] by (rule b(3))
  have "seg m2 (unat b + 48 + unat n) ?w ys ?e 0"
    using y1 seg_set_prev [OF y1 _ _, of ?w] b(5) by (cases "ys = []") (simp_all add: m2_def del: fun_upd_apply)
  then have y4: "seg m4 (unat b + 48 + unat n) ?w ys ?e 0"
    unfolding m4_def seg_upd_other [OF sy hoff(2)] seg_upd_other [OF sy hoff(5)] .
  have e: "unat b + 48 + unat r + 48 + unat ?k = unat b + 48 + unat n" using ku nr by simp
  have wy: "seg m4 (unat b + 48 + unat r) b ((?w, ?k, True) # ys) ?e 0"
    unfolding seg.simps e using w4 wu y4 by simp
  have i: "heap_head s = fst_addr xs b" "heap_tail s = last_addr ys b" "16 dvd ?e" "?e \<le> unat SCDK_HEAP_BASE + 0x400000"
    using inv by (auto simp: heap_inv_def)
  have tl: "ys \<noteq> [] \<Longrightarrow> last_addr ys b = last_addr ys ?w" by (simp add: last_addr_def)
  have "m4 x = ?m x" if x: "x \<notin> hcells ?B'" for x
  proof -
    have "x \<noteq> ?w + i" if "i \<in> hoff" for i using hcells_mem [of ?w _ ?B' i x] x that by auto
    from this [of 0] this [of 8] this [of 16] this [of 24] this [of 32] have "m1 x = ?m x" by (simp add: m1_def)
    moreover have "x \<noteq> ?y + 24" if "ys \<noteq> []" by (rule hcells_fst [OF that _ _ x]) auto
    moreover have "x \<noteq> b + 8" "x \<noteq> b + 32" using hcells_mem [of b _ ?B' 8 x] hcells_mem [of b _ ?B' 32 x] x by auto
    ultimately show ?thesis by (simp add: m4_def m2_def)
  qed
  then have "keeps s ?B (block_split s b r) ?B'" by (simp add: keeps_def s')
  moreover have "heap_inv (block_split s b r) ?B'"
    by (rule heap_inv_intro [of m4]) (use x4 h4 wy i tl in \<open>simp_all add: s'\<close>)
  ultimately show ?thesis by blast
qed


lemma append_inv:
  assumes inv: "heap_inv s B" and n: "16 dvd unat n" "16 \<le> unat n"
    and ne: "unat ne = unat (heap_commit_end s) + 48 + unat n" "unat ne \<le> unat SCDK_HEAP_BASE + 0x400000"
  defines "e \<equiv> heap_commit_end s"
  shows "heap_inv ((block_insert_tail (set_free (set_size (set_magic s e SCDK_HEAP_MAGIC) e n) e True) e)\<lparr>heap_commit_end := ne\<rparr>)
      (B @ [(e, n, True)]) \<and>
    keeps s B ((block_insert_tail (set_free (set_size (set_magic s e SCDK_HEAP_MAGIC) e n) e True) e)\<lparr>heap_commit_end := ne\<rparr>)
      (B @ [(e, n, True)])"
    (is "heap_inv ?s' ?B' \<and> keeps s B ?s' ?B'")
proof -
  let ?m = "heap_mem s" and ?p = "last_addr B 0"
  have sg: "seg ?m (unat SCDK_HEAP_BASE) 0 B (unat e) 0" and i: "heap_head s = fst_addr B 0" "heap_tail s = ?p" "16 dvd unat e"
    using inv by (auto simp: heap_inv_def e_def)
  have eb: "unat e + 64 < 2 ^ 64" using heap_end [OF inv] by (simp add: e_def)
  have se: "\<forall>(z, x)\<in>set B. sep e z" using seg_range [OF sg] eb by (fastforce simp: sep_def)
  define m1 where "m1 = put_hdr ?m e n True ?p 0"
  define m2 where "m2 = (if B \<noteq> [] then m1(?p + 32 := e) else m1)"
  have p0: "?p \<noteq> 0 \<longleftrightarrow> B \<noteq> []"
  proof (cases "B = []")
    case False
    then obtain zs c k g where B: "B = zs @ [(c, k, g)]" by (rule blk_snoc)
    have "c \<noteq> 0" using heap_inv_focus [OF inv [unfolded B]] by blast
    then show ?thesis by (simp add: B)
  qed simp
  have s': "(block_insert_tail (set_free (set_size (set_magic s e SCDK_HEAP_MAGIC) e n) e True) e)\<lparr>heap_commit_end := ne\<rparr> =
    s\<lparr>heap_mem := m2, heap_head := if B = [] then e else heap_head s, heap_tail := e, heap_commit_end := ne\<rparr>"
    using p0 i unfolding block_insert_tail_def Let_def m2_def m1_def by (simp add: set_defs)
  have x1: "seg m1 (unat SCDK_HEAP_BASE) 0 B (unat e) 0" unfolding m1_def seg_put_hdr [OF se] by (rule sg)
  have x2: "seg m2 (unat SCDK_HEAP_BASE) 0 B (unat e) e"
    using x1 seg_set_next [OF x1 _ _, of e] eb by (cases "B = []") (simp_all add: m2_def del: fun_upd_apply)
  have "hdr m1 e n True ?p 0" unfolding m1_def by (rule hdr_put) (use n in auto)
  moreover have "sep ?p e" if "B \<noteq> []"
  proof -
    obtain zs c k g where B: "B = zs @ [(c, k, g)]" by (rule blk_snoc [OF \<open>B \<noteq> []\<close>])
    show ?thesis using se sep_sym [of e c] by (simp add: B)
  qed
  ultimately have h2: "hdr m2 e n True ?p 0" by (auto simp: m2_def hdr_upd_other)
  have d: "16 dvd unat ne" using ne(1) i(3) n(1) by (simp add: e_def [symmetric])
  have "m2 x = ?m x" if x: "x \<notin> hcells ?B'" for x
  proof -
    have "x \<noteq> e + i" if "i \<in> hoff" for i using hcells_mem [of e _ ?B' i x] x that by auto
    from this [of 0] this [of 8] this [of 16] this [of 24] this [of 32] have "m1 x = ?m x" by (simp add: m1_def)
    moreover have "x \<noteq> ?p + 32" if "B \<noteq> []" by (rule hcells_last [OF that _ _ x]) auto
    ultimately show ?thesis by (simp add: m2_def)
  qed
  then have "keeps s B ?s' ?B'" by (simp add: keeps_def s')
  moreover have "heap_inv ?s' ?B'"
    by (rule heap_inv_intro [of m2]) (use x2 h2 i ne d p0 in \<open>simp_all add: s' e_def [symmetric] fst_addr_def split: list.splits\<close>)
  ultimately show ?thesis by blast
qed

section \<open>Data of live blocks\<close>

lemma payload_no_header:
  assumes "heap_inv s B" and "(b, n, f) \<in> set B" and "unat b + 48 \<le> unat x" and "unat x < unat b + 48 + unat n"
  shows "x \<notin> hcells B"
proof
  assume "x \<in> hcells B"
  then obtain c k g i where c: "(c, k, g) \<in> set B" "i \<in> hoff" "x = c + i" by (auto simp: hcells_def)
  obtain xs ys where B: "B = xs @ (c, k, g) # ys" using c(1) by (auto simp: in_set_conv_decomp)
  note hi = heap_inv_focus [OF assms(1) [unfolded B]]
  have cu: "unat x = unat c + unat i" unfolding c(3)
    by (rule unat_plus, rule hi) (use hoff_unat [OF c(2)] in simp)
  have "(b, n, f) \<in> set xs \<or> (b, n, f) = (c, k, g) \<or> (b, n, f) \<in> set ys" using assms(2) by (auto simp: B)
  moreover have "unat b + 48 + unat n \<le> unat c" if "(b, n, f) \<in> set xs"
    by (rule hi) (use seg_range that in blast)
  moreover have "unat c + 48 \<le> unat b" if "(b, n, f) \<in> set ys"
    by (rule hi) (use seg_range [of _ "unat c + 48 + unat k" _ ys] that in fastforce)
  ultimately show False using cu hoff_unat [OF c(2)] assms(3,4) by auto
qed

lemma payload_same_if:
  assumes "heap_inv s B" and "heap_inv s' B'" and "keeps s B s' B'" and "(b, n, f) \<in> set B" and "(b, n, g) \<in> set B'"
  shows "payload_same s s' b n"
  using payload_no_header [OF assms(1,4)] payload_no_header [OF assms(2,5)] assms(3)
  by (auto simp: payload_same_def keeps_def)


section \<open>Growing the heap\<close>

definition heap_same :: "'a heap_state_scheme \<Rightarrow> 'a heap_state_scheme \<Rightarrow> bool" where
  "heap_same s s' \<longleftrightarrow> heap_mem s' = heap_mem s \<and> heap_head s' = heap_head s \<and> heap_tail s' = heap_tail s \<and>
     heap_commit_end s' = heap_commit_end s \<and> heap_initialized s' = heap_initialized s"

lemma heap_same_refl [simp]: "heap_same s s" by (simp add: heap_same_def)

lemma heap_same_trans [trans]: "heap_same s s1 \<Longrightarrow> heap_same s1 s2 \<Longrightarrow> heap_same s s2" by (simp add: heap_same_def)

lemma heap_same_pte [simp]: "heap_same s (set_pte s t i e)" "heap_same s (zero_page s p)"
  by (simp_all add: heap_same_def set_pte_def zero_page_def)

lemma heap_same_alloc: "scdk_page_alloc s = (r, s') \<Longrightarrow> heap_same s s'"
  by (auto simp: scdk_page_alloc_def heap_same_def split: if_splits)

lemma heap_same_free [simp]: "heap_same s (snd (scdk_page_free s p))"
  by (auto simp: scdk_page_free_def heap_same_def)

lemma heap_same_table: "allocate_table s = (r, s') \<Longrightarrow> heap_same s s'"
  using heap_same_alloc heap_same_pte(2) heap_same_trans
  by (fastforce simp: allocate_table_def split: prod.splits sum.splits)

lemma heap_same_next: "next_table s t i c f = (r, s') \<Longrightarrow> heap_same s s'"
  using heap_same_table heap_same_pte(1) heap_same_trans
  by (fastforce simp: next_table_def Let_def split: if_splits prod.splits sum.splits)

lemma heap_same_leaf:
  assumes "leaf_table_for_root s root v c f = (r, s')"
  shows "heap_same s s'"
proof -
  obtain r1 s1 where 1: "next_table s root (pml4_index v) c f = (r1, s1)" by fastforce
  show ?thesis
  proof (cases r1)
    case (Inr t1)
    obtain r2 s2 where 2: "next_table s1 t1 (pdpt_index v) c f = (r2, s2)" by fastforce
    note h = heap_same_trans [OF heap_same_next [OF 1] heap_same_next [OF 2]]
    show ?thesis
    proof (cases r2)
      case (Inr t2)
      then have "next_table s2 t2 (pd_index v) c f = (r, s')" using assms 1 2 \<open>r1 = Inr t1\<close> by (simp add: leaf_table_for_root_def)
      from heap_same_trans [OF h heap_same_next [OF this]] show ?thesis .
    qed (use assms 1 2 h Inr in \<open>simp add: leaf_table_for_root_def\<close>)
  qed (use assms 1 heap_same_next [OF 1] in \<open>simp add: leaf_table_for_root_def\<close>)
qed

lemma heap_same_map: "scdk_vmm_map_page_in_root s root v p f = (r, s') \<Longrightarrow> heap_same s s'"
  using heap_same_leaf heap_same_pte(1) heap_same_trans
  by (fastforce simp: scdk_vmm_map_page_in_root_def Let_def split: if_splits prod.splits sum.splits)

lemma heap_same_unmap: "scdk_vmm_unmap_page_in_root s root v = (r, s') \<Longrightarrow> heap_same s s'"
  using heap_same_leaf heap_same_pte(1) heap_same_trans
  by (fastforce simp: scdk_vmm_unmap_page_in_root_def Let_def split: if_splits prod.splits sum.splits)

lemma heap_same_unmap_pages: "heap_same s (unmap_heap_pages s base k)"
proof (induction k arbitrary: s)
  case (Suc k)
  let ?page = "base + of_nat k * SCDK_PAGE_SIZE"
  have "heap_same s (snd (scdk_page_free (snd (scdk_vmm_unmap_page s ?page)) mp))" for mp
    using heap_same_unmap heap_same_trans heap_same_free by (metis prod.collapse scdk_vmm_unmap_page_def)
  then have "heap_same s (case scdk_vmm_virt_to_phys s ?page of
      Inr (mapped_phys, _) \<Rightarrow> snd (scdk_page_free (snd (scdk_vmm_unmap_page s ?page)) mapped_phys) | Inl _ \<Rightarrow> s)"
    by (auto split: sum.split)
  from heap_same_trans [OF this Suc.IH] show ?case by (simp only: unmap_heap_pages.simps Let_def)
qed simp

lemma heap_same_map_loop: "map_heap_loop s base k n = (r, s') \<Longrightarrow> heap_same s s'"
proof (induction n arbitrary: s k)
  case (Suc n)
  obtain a s1 where a: "scdk_page_alloc s = (a, s1)" by fastforce
  show ?case
  proof (cases a)
    case (Inr phys)
    obtain st s2 where m: "scdk_vmm_map_page s1 (base + of_nat k * SCDK_PAGE_SIZE) phys SCDK_VMM_MAP_WRITE = (st, s2)" by fastforce
    have h: "heap_same s s2"
      by (rule heap_same_trans [OF heap_same_alloc [OF a] heap_same_map [OF m [unfolded scdk_vmm_map_page_def]]])
    have "heap_same s (unmap_heap_pages (snd (scdk_page_free s2 phys)) base k)"
      by (rule heap_same_trans [OF h heap_same_trans [OF heap_same_free heap_same_unmap_pages]])
    with Suc.prems Suc.IH [of s2 "Suc k"] h heap_same_trans [OF h] show ?thesis by (auto simp: a Inr m split: if_splits)
  qed (use Suc.prems heap_same_alloc [OF a] a in auto)
qed simp

lemma heap_inv_same: "heap_same s s' \<Longrightarrow> heap_inv s' B = heap_inv s B"
  by (simp add: heap_inv_def heap_same_def)

abbreviation coalesced :: "blk list \<Rightarrow> bool" where
  "coalesced B \<equiv> successively (\<lambda>x y. \<not> (snd (snd x) \<and> snd (snd y))) B"

definition live :: "blk list \<Rightarrow> (u64 \<times> u64) set" where
  "live B = {(b, n). (b, n, False) \<in> set B}"

lemma live_simps [simp]: "live (xs @ ys) = live xs \<union> live ys" "live ((b, n, True) # xs) = live xs"
  "live ((b, n, False) # xs) = insert (b, n) (live xs)" "live [] = {}"
  by (auto simp: live_def)


lemma unat_and_not_mask:
  assumes "k < 64"
  shows "unat ((x :: u64) AND NOT (mask k)) = unat x div 2 ^ k * 2 ^ k"
proof -
  have "x AND NOT (mask k) = push_bit k (drop_bit k x)" by (rule bit_word_eqI) (auto simp: bit_simps)
  then have "unat (x AND NOT (mask k)) = take_bit 64 (push_bit k (drop_bit k (unat x)))"
    using unat_u64_less [of x]
    by (simp only: unsigned_push_bit_eq unsigned_drop_bit_eq) (simp add: take_bit_push_bit take_bit_nat_eq_self)
  also have "\<dots> = take_bit 64 (unat x div 2 ^ k * 2 ^ k)" by (simp add: push_bit_eq_mult drop_bit_eq_div)
  moreover have "unat x div 2 ^ k * 2 ^ k < 2 ^ 64"
    using unat_u64_less [of x] div_times_less_eq_dividend [of "unat x" "2 ^ k"] by linarith
  ultimately show ?thesis by (simp add: take_bit_eq_mod)
qed

lemma unat_align_up_size:
  assumes "k < 64" and "unat sz + 2 ^ k \<le> 2 ^ 64"
  shows "unat (align_up_size sz (2 ^ k)) = (unat sz + (2 ^ k - 1)) div 2 ^ k * 2 ^ k"
proof -
  have m: "(2 :: u64) ^ k - 1 = mask k" by (simp add: mask_eq_exp_minus_1)
  have mu: "unat (mask k :: u64) = 2 ^ k - 1"
  proof -
    have "(mask k :: u64) = of_nat (2 ^ k - 1)" by (simp add: mask_eq_exp_minus_1 of_nat_diff)
    have "(2 :: nat) ^ k \<le> 2 ^ 64" using assms(1) by (intro power_increasing) auto
    then have "(2 :: nat) ^ k - 1 < 2 ^ 64" by (simp add: less_eq_Suc_le Suc_diff_Suc)
    then have "unat (of_nat (2 ^ k - 1) :: u64) = 2 ^ k - 1" by (simp only: unat_of_nat len_of_numeral_defs) simp
    with \<open>mask k = of_nat (2 ^ k - 1)\<close> show ?thesis by (simp only:)
  qed
  have "align_up_size sz (2 ^ k) = (sz + mask k) AND NOT (mask k)" by (simp add: align_up_size_def m add_diff_eq [symmetric])
  moreover have "unat (sz + mask k) = unat sz + (2 ^ k - 1)"
    unfolding mu [symmetric] by (rule unat_plus) (use assms(2) mu in simp)
  ultimately show ?thesis using unat_and_not_mask [OF assms(1)] by simp
qed

lemma extend_size:
  assumes "unat r \<le> 0x400000"
  defines "c0 \<equiv> align_up_size (48 + r) SCDK_PAGE_SIZE"
  defines "c \<equiv> if c0 < SCDK_HEAP_INITIAL_PAGES * SCDK_PAGE_SIZE then SCDK_HEAP_INITIAL_PAGES * SCDK_PAGE_SIZE else c0"
  shows "unat (c - 48) + 48 = unat c" "16 dvd unat (c - 48)" "unat r \<le> unat (c - 48)" "16 \<le> unat (c - 48)" "unat c \<le> 0x402000"
proof -
  have p: "unat (48 + r) = 48 + unat r" using assms(1) by (simp add: unat_word_ariths)
  have c0: "unat c0 = (unat r + 4143) div 4096 * 4096"
    unfolding c0_def using unat_align_up_size [of 12 "48 + r"] p assms(1) by (simp add: kconst ac_simps)
  have u: "unat c = max 16384 (unat c0)" by (auto simp: c_def kconst word_less_nat_alt)
  have lo: "unat r + 48 \<le> unat c0" unfolding c0 using div_mult_mod_eq [of "unat r + 4143" 4096] mod_less_divisor [of 4096 "unat r + 4143"] by linarith
  have hi: "unat c0 \<le> 0x402000" unfolding c0 using assms(1) div_times_less_eq_dividend [of "unat r + 4143" 4096] by linarith
  show "unat c \<le> 0x402000" using u hi by simp
  have "48 \<le> c" using u by (simp add: word_le_nat_alt)
  then have k: "unat (c - 48) = unat c - 48" using unat_sub [of 48 c] by simp
  then show "unat (c - 48) + 48 = unat c" "unat r \<le> unat (c - 48)" "16 \<le> unat (c - 48)" using u lo by auto
  have "4096 dvd unat c" unfolding u c0 by (simp add: max_def)
  then have "16 dvd unat c" by (rule dvd_trans [rotated]) simp
  then show "16 dvd unat (c - 48)" unfolding k by (rule dvd_diff_nat) simp
qed


lemma coalesced_free:
  assumes "coalesced (xs @ (b, n, True) # ys)"
  shows "\<forall>c k zs. ys \<noteq> (c, k, True) # zs" "\<forall>c k zs. xs \<noteq> zs @ [(c, k, True)]"
  using assms by (auto simp: successively_append_iff successively_Cons)

lemma payload_same_trans: "payload_same s s1 b n \<Longrightarrow> payload_same s1 s2 b n \<Longrightarrow> payload_same s s2 b n"
  by (simp add: payload_same_def)

abbreviation ins_block :: "'a heap_state_scheme \<Rightarrow> u64 \<Rightarrow> u64 \<Rightarrow> 'a heap_state_scheme" where
  "ins_block s n ne \<equiv> let e = heap_commit_end s in
     (block_insert_tail (set_free (set_size (set_magic s e SCDK_HEAP_MAGIC) e n) e True) e)\<lparr>heap_commit_end := ne\<rparr>"

abbreviation join_prev :: "'a heap_state_scheme \<Rightarrow> u64 \<Rightarrow> 'a heap_state_scheme" where
  "join_prev s e \<equiv> if blk_prev s e \<noteq> 0 \<and> blk_free s (blk_prev s e) then block_coalesce_forward s (blk_prev s e) else s"

lemma join_prev_ok:
  assumes inv: "heap_inv s (B @ (e, n, True) # ys)" and co: "coalesced B" and yf: "coalesced ((e, n, True) # ys)"
  shows "\<exists>B' b m. heap_inv (join_prev s e) B' \<and> coalesced B' \<and> live B' = live (B @ ys) \<and> (b, m, True) \<in> set B' \<and> n \<le> m \<and>
    (\<forall>(b, m)\<in>live (B @ ys). payload_same s (join_prev s e) b m)"
proof -
  have pv: "blk_prev s e = last_addr B 0" using heap_inv_focus [OF inv] by (auto simp: hdr_def blk_defs)
  show ?thesis
  proof (cases "\<exists>zs p k. B = zs @ [(p, k, True)]")
    case True
    then obtain zs p k where B: "B = zs @ [(p, k, True)]" by blast
    let ?B = "zs @ (p, k, True) # (e, n, True) # ys" and ?B' = "zs @ (p, k + (48 + n), True) # ys"
    have i2: "heap_inv s ?B" using inv by (simp add: B)
    have "p \<noteq> 0" "blk_free s p" using heap_inv_focus [OF i2] by (auto simp: hdr_def blk_defs)
    then have j: "join_prev s e = block_coalesce_forward s p" using pv by (simp add: B)
    note cm = coalesce_merge [OF i2]
    have "unat e = unat p + 48 + unat k" by (rule heap_inv_focus [OF i2]) simp
    moreover have "unat e + 48 + unat n < 2 ^ 64" by (rule heap_inv_focus [OF inv]) simp
    ultimately have "n \<le> k + (48 + n)" by (simp add: word_le_nat_alt unat_word_ariths)
    moreover have "coalesced ?B'" using co yf by (auto simp: B successively_append_iff successively_Cons)
    moreover have "payload_same s (block_coalesce_forward s p) b m" if "(b, m) \<in> live (B @ ys)" for b m
      using that by (intro payload_same_if [OF i2 conjunct1 [OF cm] conjunct2 [OF cm], of b m False False]) (auto simp: live_def B)
    moreover have "live ?B' = live (B @ ys)" by (simp add: B)
    ultimately show ?thesis unfolding j using cm by (intro exI [of _ ?B'] exI [of _ p] exI [of _ "k + (48 + n)"]) auto
  next
    case False
    have j: "join_prev s e = s"
    proof (cases "B = []")
      case False
      then obtain zs p k g where B: "B = zs @ [(p, k, g)]" by (rule blk_snoc)
      have i2: "heap_inv s (zs @ (p, k, g) # (e, n, True) # ys)" using inv by (simp add: B)
      have "blk_free s p = g" using heap_inv_focus [OF i2] by (auto simp: hdr_def blk_defs)
      moreover have "\<not> g" using B \<open>\<nexists>zs p k. B = zs @ [(p, k, True)]\<close> by auto
      ultimately show ?thesis using pv by (simp add: B)
    qed (use pv in simp)
    have "coalesced (B @ (e, n, True) # ys)"
    proof (cases "B = []")
      case False
      then obtain zs p k g where B: "B = zs @ [(p, k, g)]" by (rule blk_snoc)
      moreover have "\<not> g" using B \<open>\<nexists>zs p k. B = zs @ [(p, k, True)]\<close> by auto
      ultimately show ?thesis using co yf by (simp add: successively_append_iff)
    qed (use yf in simp)
    then show ?thesis unfolding j using inv
      by (intro exI [of _ "B @ (e, n, True) # ys"] exI [of _ e] exI [of _ n]) (auto simp: payload_same_def)
  qed
qed

lemma heap_extend_ok:
  assumes inv: "heap_inv s B" and co: "coalesced B" and r: "unat r \<le> 0x400000" and ex: "heap_extend s r = (st, s')"
  shows "\<exists>B'. heap_inv s' B' \<and> coalesced B' \<and> live B' = live B \<and> heap_initialized s' = heap_initialized s \<and>
    (\<forall>(b, n)\<in>live B. payload_same s s' b n) \<and> (st = SCDK_OK \<longrightarrow> (\<exists>b n. (b, n, True) \<in> set B' \<and> r \<le> n))"
proof -
  define c where "c = (if align_up_size (48 + r) SCDK_PAGE_SIZE < SCDK_HEAP_INITIAL_PAGES * SCDK_PAGE_SIZE
    then SCDK_HEAP_INITIAL_PAGES * SCDK_PAGE_SIZE else align_up_size (48 + r) SCDK_PAGE_SIZE)"
  note sz = extend_size [OF r, folded c_def]
  let ?e = "heap_commit_end s" and ?ne = "heap_commit_end s + c" and ?n = "c - 48"
  have add: "checked_add_size heap_header_size r = Some (48 + r)"
    using r unat_sub [of r "- 1"]
    by (auto simp: checked_add_size_def word_less_nat_alt unsigned_minus_1_eq_mask mask_eq_exp_minus_1)
  have unch: ?thesis if "heap_same s s'" "st \<noteq> SCDK_OK"
    using that inv co heap_inv_same [OF that(1)] by (intro exI [of _ B]) (auto simp: heap_same_def payload_same_def)
  note ex' = ex [unfolded heap_extend_def add option.case Let_def c_def [symmetric]]
  show ?thesis
  proof (cases "checked_add_uintptr ?e c = None \<or> ?ne > SCDK_HEAP_BASE + SCDK_HEAP_SIZE")
    case True
    then have "st \<noteq> SCDK_OK" "s' = s" using ex' by (auto simp: checked_add_uintptr_def split: if_splits)
    with unch show ?thesis by simp
  next
    case fits: False
    then have ca: "checked_add_uintptr ?e c = Some ?ne" by (auto simp: checked_add_uintptr_def split: if_splits)
    obtain st1 s1 where mp: "map_heap_pages s ?e c = (st1, s1)" by fastforce
    have hs: "heap_same s s1" using heap_same_map_loop mp unfolding map_heap_pages_def by blast
    then have e1: "heap_commit_end s1 = ?e" and i1: "heap_inv s1 B" using inv heap_inv_same [OF hs] by (simp_all add: heap_same_def)
    show ?thesis
    proof (cases "st1 = SCDK_OK")
      case False
      then have "st = st1" "s' = s1" using ex' fits ca mp by (auto split: if_splits)
      with unch hs False show ?thesis by simp
    next
      case True
      define s2 where "s2 = (block_insert_tail (set_free (set_size (set_magic s1 ?e SCDK_HEAP_MAGIC) ?e ?n) ?e True) ?e)\<lparr>heap_commit_end := ?ne\<rparr>"
      have res: "st = SCDK_OK" "s' = join_prev s2 ?e" using ex' fits ca mp True e1 by (auto simp: s2_def split: if_splits)
      have neu: "unat ?ne = unat ?e + 48 + unat ?n" using sz(1,5) inv by (simp add: heap_inv_def kconst unat_word_ariths)
      have "unat ?ne \<le> unat SCDK_HEAP_BASE + 0x400000" using fits by (simp add: kconst word_less_nat_alt not_less)
      with append_inv [OF i1 sz(2,4), of ?ne] neu e1
      have s2: "heap_inv s2 (B @ [(?e, ?n, True)])" "keeps s1 B s2 (B @ [(?e, ?n, True)])" by (simp_all add: s2_def)
      have p2: "payload_same s s2 b n" if "(b, n) \<in> live B" for b n
        using payload_same_if [OF i1 s2(1,2), of b n False False] that hs by (auto simp: live_def payload_same_def heap_same_def)
      have ini: "heap_initialized s' = heap_initialized s"
        using hs by (simp add: res(2) s2_def heap_same_def)
      obtain B' b m where B': "heap_inv s' B'" "coalesced B'" "live B' = live B" "(b, m, True) \<in> set B'" "?n \<le> m"
          "\<forall>(b, m)\<in>live B. payload_same s2 s' b m"
        using join_prev_ok [OF s2(1) co] unfolding res(2) by auto
      have "r \<le> m" using sz(3) B'(5) by (simp add: word_le_nat_alt)
      moreover have "\<forall>(b, n)\<in>live B. payload_same s s' b n" using p2 B'(6) payload_same_trans by blast
      ultimately show ?thesis using B' ini by blast
    qed
  qed
qed

section \<open>Allocation and release\<close>

lemma live_fresh:
  assumes "heap_inv s (xs @ (b, n, f) # ys)"
  shows "(b, m) \<notin> live xs" "(b, m) \<notin> live ys"
proof -
  have "\<forall>(c, x)\<in>set xs. sep b c \<and> sep c b" "\<forall>(c, x)\<in>set ys. sep b c \<and> sep c b"
    by (rule heap_inv_focus [OF assms], assumption)+
  then show "(b, m) \<notin> live xs" "(b, m) \<notin> live ys" by (auto simp: live_def sep_def)
qed

lemma take_ok:
  assumes inv: "heap_inv s (xs @ (b, n, True) # ys)" and co: "coalesced (xs @ (b, n, True) # ys)"
    and r: "16 dvd unat r" "16 \<le> unat r" "r \<le> n" and tk: "take_block s b r = (p, s')"
  shows "p = b + 48 \<and> heap_initialized s' = heap_initialized s \<and>
    (\<exists>B' m. heap_inv s' B' \<and> coalesced B' \<and> r \<le> m \<and> (b, m) \<notin> live (xs @ ys) \<and>
      live B' = insert (b, m) (live (xs @ ys)) \<and> (\<forall>(c, k)\<in>live (xs @ ys). payload_same s s' c k))"
proof -
  let ?B = "xs @ (b, n, True) # ys"
  have p: "p = b + 48" and s': "s' = set_free (block_split s b r) b False"
    using tk by (simp_all add: take_block_def block_payload_def)
  have fr: "(b, m) \<notin> live ?B" for m using live_fresh [OF inv] by simp
  have sz: "blk_size s b = n" using heap_inv_focus [OF inv] by (auto simp: hdr_def blk_defs)
  show ?thesis
  proof (cases "n < r + 48 + 16")
    case True
    then have s1: "s' = set_free s b False" using sz by (simp add: s' block_split_def kconst)
    let ?B' = "xs @ (b, n, False) # ys"
    note f = set_free_inv [OF inv, of False, folded s1]
    have "coalesced ?B'" using co by (auto simp: successively_append_iff successively_Cons)
    moreover have "payload_same s s' c k" if "(c, k) \<in> live ?B" for c k
      using that by (intro payload_same_if [OF inv conjunct1 [OF f] conjunct2 [OF f], of c k False False]) (auto simp: live_def)
    ultimately show ?thesis using f r fr p by (intro conjI exI [of _ ?B'] exI [of _ n]) (auto simp: s')
  next
    case False
    let ?B1 = "xs @ (b, r, True) # (b + 48 + r, n - r - 48, True) # ys"
    let ?B' = "xs @ (b, r, False) # (b + 48 + r, n - r - 48, True) # ys"
    note sp = split_inv [OF inv r False]
    note f = set_free_inv [OF conjunct1 [OF sp], of False, folded s']
    have "coalesced ?B'" using co by (auto simp: successively_append_iff successively_Cons)
    moreover have "payload_same s s' c k" if "(c, k) \<in> live ?B" for c k
    proof (rule payload_same_trans)
      show "payload_same s (block_split s b r) c k"
        using that by (intro payload_same_if [OF inv conjunct1 [OF sp] conjunct2 [OF sp], of c k False False]) (auto simp: live_def)
      show "payload_same (block_split s b r) s' c k"
        using that by (intro payload_same_if [OF conjunct1 [OF sp] conjunct1 [OF f] conjunct2 [OF f], of c k False False]) (auto simp: live_def)
    qed
    ultimately show ?thesis using f r fr p by (intro conjI exI [of _ ?B'] exI [of _ r]) (auto simp: s')
  qed
qed

lemma kfree_inv:
  assumes inv: "heap_inv s (xs @ (b, n, False) # ys)" and co: "coalesced (xs @ (b, n, False) # ys)" and hi: "heap_initialized s"
  shows "heap_initialized (scdk_kfree s (b + 48)) \<and>
    (\<exists>B'. heap_inv (scdk_kfree s (b + 48)) B' \<and> coalesced B' \<and> live B' = live (xs @ ys) \<and>
      (\<forall>(c, k)\<in>live (xs @ ys). payload_same s (scdk_kfree s (b + 48)) c k))"
proof -
  let ?s1 = "set_free s b True" and ?B1 = "xs @ (b, n, True) # ys"
  have rd: "blk_magic s b = SCDK_HEAP_MAGIC" "\<not> blk_free s b" using heap_inv_focus [OF inv] by (auto simp: hdr_def blk_defs)
  obtain bu: "unat SCDK_HEAP_BASE \<le> unat b" "unat b + 48 + unat n \<le> unat (heap_commit_end s)"
      "unat (heap_commit_end s) < 2 ^ 64 - 64" "16 \<le> unat n"
    by (rule heap_inv_focus [OF inv]) (rule that; simp add: hdr_def)
  have "unat (b + 48) = unat b + 48" using bu by (simp add: unat_word_ariths)
  then have pin: "ptr_in_heap s b" "ptr_in_heap s (b + 48)" "b + 48 \<noteq> 0"
    using bu by (auto simp: ptr_in_heap_def word_le_nat_alt word_less_nat_alt simp flip: unat_eq_0)
  have kf: "scdk_kfree s (b + 48) = join_prev (block_coalesce_forward ?s1 b) b"
    using rd pin hi by (simp add: scdk_kfree_def payload_block_def Let_def)
  note f = set_free_inv [OF inv, of True]
  have p1: "payload_same s ?s1 c k" if "(c, k) \<in> live (xs @ ys)" for c k
    using that by (intro payload_same_if [OF inv conjunct1 [OF f] conjunct2 [OF f], of c k False False]) (auto simp: live_def)
  have cx: "coalesced xs" using co by (auto simp: successively_append_iff)
  obtain n2 ys2 where i2: "heap_inv (block_coalesce_forward ?s1 b) (xs @ (b, n2, True) # ys2)"
      and c2: "coalesced ((b, n2, True) # ys2)" and l2: "live ys2 = live ys"
      and p2: "\<forall>(c, k)\<in>live (xs @ ys). payload_same ?s1 (block_coalesce_forward ?s1 b) c k"
  proof (cases "\<exists>c k zs. ys = (c, k, True) # zs")
    case True
    then obtain c k zs where ys: "ys = (c, k, True) # zs" by blast
    have i1: "heap_inv ?s1 (xs @ (b, n, True) # (c, k, True) # zs)" using f by (simp add: ys)
    note cm = coalesce_merge [OF i1]
    have "payload_same ?s1 (block_coalesce_forward ?s1 b) c' k'" if "(c', k') \<in> live (xs @ ys)" for c' k'
      using that by (intro payload_same_if [OF i1 conjunct1 [OF cm] conjunct2 [OF cm], of c' k' False False]) (auto simp: live_def ys)
    moreover have "coalesced ((b, n + (48 + k), True) # zs)"
      using co by (auto simp: ys successively_append_iff successively_Cons)
    ultimately show ?thesis using cm by (intro that [of "n + (48 + k)" zs]) (auto simp: ys)
  next
    case False
    then have "block_coalesce_forward ?s1 b = ?s1" using coalesce_none [OF conjunct1 [OF f]] by blast
    moreover have "coalesced ((b, n, True) # ys)"
      using co False by (cases ys) (auto simp: successively_append_iff successively_Cons)
    ultimately show ?thesis using f by (intro that [of n ys]) (auto simp: payload_same_def)
  qed
  obtain B' where B': "heap_inv (scdk_kfree s (b + 48)) B'" "coalesced B'" "live B' = live (xs @ ys)"
      "\<forall>(c, k)\<in>live (xs @ ys). payload_same (block_coalesce_forward ?s1 b) (scdk_kfree s (b + 48)) c k"
    using join_prev_ok [OF i2 cx c2] unfolding kf by (auto simp: l2)
  moreover have "\<forall>(c, k)\<in>live (xs @ ys). payload_same s (scdk_kfree s (b + 48)) c k"
    using p1 p2 B'(4) payload_same_trans by blast
  ultimately show ?thesis using hi by (auto simp: kf)
qed

text \<open>The blocks are determined by the memory, so \<open>heap_live\<close> is a function of the state.\<close>

lemma seg_unique:
  "seg m a p B e nx \<Longrightarrow> seg m a p B' e nx \<Longrightarrow> B = B'"
proof (induction B arbitrary: a p B')
  case Nil
  then show ?case using seg_length [OF Nil.prems(2)] by (cases B') auto
next
  case (Cons x B)
  obtain b n f where x: "x = (b, n, f)" by (cases x)
  have ne: "B' \<noteq> []" using Cons.prems seg_length [OF Cons.prems(1)] by auto
  obtain b' n' f' B'' where B': "B' = (b', n', f') # B''" by (rule blk_cons [OF ne])
  have u: "unat b = unat b'" "hdr m b n f p (fst_addr B nx)" "hdr m b' n' f' p (fst_addr B'' nx)"
    using Cons.prems unfolding x B' by simp_all
  have bb: "b' = b" using u(1) by (metis word_unat_eq_iff)
  then have nn: "n' = n" "f' = f" using u(2,3) unfolding bb hdr_def by blast+
  have "B = B''" by (rule Cons.IH [of "a + 48 + unat n" b]) (use Cons.prems in \<open>simp_all add: x B' bb nn\<close>)
  then show ?case by (simp add: x B' bb nn)
qed

definition heap_ok :: "'a heap_state_scheme \<Rightarrow> bool" where
  "heap_ok s \<longleftrightarrow> heap_initialized s \<and> (\<exists>B. heap_inv s B \<and> coalesced B)"

definition heap_live :: "'a heap_state_scheme \<Rightarrow> (u64 \<times> u64) set" where
  "heap_live s = {(b + 48, n) | b n. \<exists>B. heap_inv s B \<and> (b, n) \<in> live B}"

lemma heap_live_eq: "heap_inv s B \<Longrightarrow> heap_live s = (\<lambda>(b, n). (b + 48, n)) ` live B"
proof -
  assume B: "heap_inv s B"
  have u: "B' = B" if "heap_inv s B'" for B' using seg_unique [of "heap_mem s"] that B unfolding heap_inv_def by blast
  have "heap_live s = {(b + 48, n) | b n. (b, n) \<in> live B}" unfolding heap_live_def using B u by blast
  then show ?thesis by auto
qed

lemma heap_inv_payload:
  assumes "heap_inv s B" and "(b, n, f) \<in> set B"
  shows "unat (b + 48) = unat b + 48" "unat b + 48 + unat n \<le> unat (heap_commit_end s)" "b + 48 \<noteq> 0" "16 dvd unat b"
    "unat SCDK_HEAP_BASE \<le> unat b"
proof -
  obtain xs ys where B: "B = xs @ (b, n, f) # ys" using assms(2) by (auto simp: in_set_conv_decomp)
  obtain bu: "unat b + 48 + unat n \<le> unat (heap_commit_end s)" "unat (heap_commit_end s) < 2 ^ 64 - 64" "16 dvd unat b"
      "unat SCDK_HEAP_BASE \<le> unat b"
    by (rule heap_inv_focus [OF assms(1) [unfolded B]]) (rule that; simp)
  then show "unat (b + 48) = unat b + 48" "unat b + 48 + unat n \<le> unat (heap_commit_end s)" "16 dvd unat b"
      "unat SCDK_HEAP_BASE \<le> unat b"
    by (simp_all add: unat_word_ariths)
  then show "b + 48 \<noteq> 0" by (metis add_is_0 unat_0 zero_neq_numeral)
qed

lemma heap_inv_apart:
  assumes "heap_inv s B" and "(b, n, f) \<in> set B" and "(c, k, g) \<in> set B" and "(b, n) \<noteq> (c, k)"
  shows "unat b + 48 + unat n \<le> unat c \<or> unat c + 48 + unat k \<le> unat b"
proof -
  obtain xs ys where B: "B = xs @ (b, n, f) # ys" using assms(2) by (auto simp: in_set_conv_decomp)
  obtain sg: "seg (heap_mem s) (unat SCDK_HEAP_BASE) 0 xs (unat b) b"
      "seg (heap_mem s) (unat b + 48 + unat n) b ys (unat (heap_commit_end s)) 0"
    by (rule heap_inv_focus [OF assms(1) [unfolded B]]) (rule that; simp)
  show ?thesis using assms(3,4) seg_range [OF sg(1)] seg_range [OF sg(2)] by (fastforce simp: B)
qed

text \<open>What a client sees of a change of the block list.\<close>

definition heap_grows :: "'a heap_state_scheme \<Rightarrow> 'a heap_state_scheme \<Rightarrow> (u64 \<times> u64) set \<Rightarrow> bool" where
  "heap_grows s s' new \<longleftrightarrow> heap_ok s' \<and> heap_live s' = new \<union> heap_live s \<and> new \<inter> heap_live s = {} \<and>
     (\<forall>(q, k)\<in>heap_live s. \<forall>x. unat x \<in> span q k \<longrightarrow> heap_mem s' x = heap_mem s x)"

lemma heap_grows_intro:
  assumes "heap_inv s B" and "heap_inv s' B'" and "coalesced B'" and "heap_initialized s'" and "live B' = new \<union> live B"
    and "new \<inter> live B = {}" and "\<forall>(b, n)\<in>live B. payload_same s s' b n"
  shows "heap_grows s s' ((\<lambda>(b, n). (b + 48, n)) ` new)"
proof -
  note hl = heap_live_eq [OF assms(1)]
  have "heap_mem s' x = heap_mem s x" if q: "(q, k) \<in> heap_live s" "unat x \<in> span q k" for q k x
  proof -
    obtain c where c: "q = c + 48" "(c, k) \<in> live B" using q(1) by (auto simp: hl)
    with heap_inv_payload(1) [OF assms(1), of c k False] q(2) assms(7) show ?thesis
      by (force simp: payload_same_def live_def)
  qed
  moreover have "(\<lambda>(b, n). (b + 48, n)) ` new \<inter> heap_live s = {}" using assms(6) by (auto simp: hl)
  moreover have "heap_ok s'" using assms(2-4) by (auto simp: heap_ok_def)
  moreover have "heap_live s' = (\<lambda>(b, n). (b + 48, n)) ` new \<union> heap_live s"
    unfolding hl heap_live_eq [OF assms(2)] assms(5) by (rule image_Un)
  ultimately show ?thesis unfolding heap_grows_def by blast
qed

lemma heap_grows_refl: "heap_ok s \<Longrightarrow> heap_grows s s {}"
  by (auto simp: heap_grows_def)

lemma heap_grows_trans:
  assumes "heap_grows s s1 {}" and "heap_grows s1 s2 new"
  shows "heap_grows s s2 new"
  using assms unfolding heap_grows_def by (auto; fastforce)

lemma kalloc_take:
  assumes ok: "heap_ok s" and r: "16 dvd unat r" "16 \<le> unat r" and f: "find_free_block s r \<noteq> 0"
    and tk: "take_block s (find_free_block s r) r = (p, s')"
  shows "p \<noteq> 0 \<and> 16 dvd unat p \<and> (\<exists>n. r \<le> n \<and> heap_grows s s' {(p, n)})"
proof -
  obtain B where B: "heap_inv s B" "coalesced B" "heap_initialized s" using ok by (auto simp: heap_ok_def)
  have ff: "find_free_block s r = first_fit B r" by (rule find_free_block_first_fit [OF B(1)])
  show ?thesis
  proof (cases rule: first_fit_cases [OF B(1), of r])
    case 1
    with f ff show ?thesis by simp
  next
    case (2 xs b n ys)
    have "p = b + 48 \<and> heap_initialized s' = heap_initialized s \<and>
      (\<exists>B' m. heap_inv s' B' \<and> coalesced B' \<and> r \<le> m \<and> (b, m) \<notin> live (xs @ ys) \<and>
        live B' = insert (b, m) (live (xs @ ys)) \<and> (\<forall>(c, k)\<in>live (xs @ ys). payload_same s s' c k))"
      by (rule take_ok [of s xs b n ys r p s']) (use B 2 r tk ff in auto)
    then obtain B' m where B': "p = b + 48" "heap_inv s' B'" "coalesced B'" "r \<le> m" "(b, m) \<notin> live B" "heap_initialized s'"
        "live B' = {(b, m)} \<union> live B" "\<forall>(c, k)\<in>live B. payload_same s s' c k"
      using B(3) by (auto simp: 2(1))
    have "heap_grows s s' ((\<lambda>(b, n). (b + 48, n)) ` {(b, m)})"
      by (rule heap_grows_intro [OF B(1) B'(2,3,6,7)]) (use B' in auto)
    moreover have "b + 48 \<noteq> 0" "16 dvd unat (b + 48)"
      using heap_inv_payload [OF B(1), of b n True] by (auto simp: 2(1))
    ultimately show ?thesis using B'(1,4) by auto
  qed
qed

lemma heap_extend_grows:
  assumes "heap_ok s" and "unat r \<le> 0x400000" and "heap_extend s r = (st, s')"
  shows "heap_grows s s' {}" "st = SCDK_OK \<Longrightarrow> find_free_block s' r \<noteq> 0"
proof -
  obtain B where B: "heap_inv s B" "coalesced B" "heap_initialized s" using assms(1) by (auto simp: heap_ok_def)
  obtain B' where B': "heap_inv s' B'" "coalesced B'" "live B' = live B" "heap_initialized s' = heap_initialized s"
      "\<forall>(b, n)\<in>live B. payload_same s s' b n" "st = SCDK_OK \<longrightarrow> (\<exists>b n. (b, n, True) \<in> set B' \<and> r \<le> n)"
    using heap_extend_ok [OF B(1,2) assms(2,3)] by blast
  have "heap_grows s s' ((\<lambda>(b, n). (b + 48, n)) ` {})"
    by (rule heap_grows_intro [OF B(1) B'(1,2)]) (use B B' in auto)
  then show "heap_grows s s' {}" by simp
  show "find_free_block s' r \<noteq> 0" if "st = SCDK_OK"
  proof (cases rule: first_fit_cases [OF B'(1), of r])
    case 1
    from B'(6) \<open>st = SCDK_OK\<close> obtain b n where "(b, n, True) \<in> set B'" "r \<le> n" by blast
    with 1(2) show ?thesis by (auto simp: not_le [symmetric])
  qed (simp add: find_free_block_first_fit [OF B'(1)])
qed

lemma requested_size:
  assumes "sz \<noteq> 0" and "\<not> sz > SCDK_HEAP_SIZE - heap_header_size"
  defines "r \<equiv> align_up_size sz SCDK_HEAP_ALIGN"
  shows "16 dvd unat r" "16 \<le> unat r" "sz \<le> r" "unat r \<le> 0x400000"
proof -
  have hi: "unat sz \<le> 0x400000 - 48" using assms(2) by (simp add: kconst word_less_nat_alt not_less)
  have lo: "unat sz \<noteq> 0" using assms(1) by (simp add: unat_eq_0)
  have r: "unat r = (unat sz + 15) div 16 * 16"
    unfolding r_def using unat_align_up_size [of 4 sz] hi by (simp add: kconst)
  show "16 dvd unat r" unfolding r by simp
  show "16 \<le> unat r" unfolding r using lo div_le_mono [of 16 "unat sz + 15" 16] by simp
  show "unat r \<le> 0x400000" unfolding r using hi by linarith
  show "sz \<le> r" unfolding word_le_nat_alt r by linarith
qed

text \<open>Every outcome of \<^verbatim>\<open>scdk_kalloc\<close>.\<close>

lemma kalloc_grows:
  assumes ok: "heap_ok s" and ka: "scdk_kalloc s sz = (p, s')"
  shows "if p = 0 then heap_grows s s' {} else 16 dvd unat p \<and> (\<exists>n. sz \<le> n \<and> heap_grows s s' {(p, n)})"
proof -
  let ?r = "align_up_size sz SCDK_HEAP_ALIGN"
  have hi: "heap_initialized s" using ok by (simp add: heap_ok_def)
  show ?thesis
  proof (cases "sz = 0 \<or> sz > SCDK_HEAP_SIZE - heap_header_size \<or> ?r < sz \<or> ?r > SCDK_HEAP_SIZE - heap_header_size")
    case True
    then have "p = 0" "s' = s" using ka hi by (auto simp: scdk_kalloc_def Let_def split: if_splits)
    then show ?thesis using heap_grows_refl [OF ok] by simp
  next
    case False
    note r = requested_size [of sz]
    have fin: ?thesis if "heap_grows s s1 {}" "find_free_block s1 ?r \<noteq> 0" "take_block s1 (find_free_block s1 ?r) ?r = (p, s')" for s1
    proof -
      have "heap_ok s1" using that(1) by (simp add: heap_grows_def)
      from kalloc_take [OF this _ _ that(2,3)] r False obtain n where "p \<noteq> 0" "16 dvd unat p" "?r \<le> n" "heap_grows s1 s' {(p, n)}"
        by auto
      with heap_grows_trans [OF that(1)] r(3) False show ?thesis by (auto intro: order_trans)
    qed
    note ka' = ka [unfolded scdk_kalloc_def Let_def]
    show ?thesis
    proof (cases "find_free_block s ?r = 0")
      case none: True
      obtain st s1 where ex: "heap_extend s ?r = (st, s1)" by fastforce
      have g: "heap_grows s s1 {}" "st = SCDK_OK \<Longrightarrow> find_free_block s1 ?r \<noteq> 0"
        using heap_extend_grows [OF ok _ ex] r False by auto
      show ?thesis
      proof (cases "st = SCDK_OK")
        case True
        then show ?thesis using ka' hi False none ex g by (intro fin [of s1]) auto
      next
        case False
        then have "p = 0" "s' = s1" using ka' hi \<open>\<not> (sz = 0 \<or> _)\<close> none ex by auto
        then show ?thesis using g by simp
      qed
    next
      case some: False
      then show ?thesis using ka' hi False heap_grows_refl [OF ok] by (intro fin [of s]) auto
    qed
  qed
qed

lemma kfree_ok:
  assumes ok: "heap_ok s" and l: "(p, n) \<in> heap_live s"
  shows "heap_ok (scdk_kfree s p) \<and> heap_live (scdk_kfree s p) = heap_live s - {(p, n)} \<and>
    (\<forall>(q, k)\<in>heap_live s. q \<noteq> p \<longrightarrow> (\<forall>x. unat x \<in> span q k \<longrightarrow> heap_mem (scdk_kfree s p) x = heap_mem s x))"
proof -
  obtain B where B: "heap_inv s B" "coalesced B" "heap_initialized s" using ok by (auto simp: heap_ok_def)
  note hl = heap_live_eq [OF B(1)]
  obtain b where b: "p = b + 48" "(b, n, False) \<in> set B" using l by (auto simp: hl live_def)
  then obtain xs ys where xs: "B = xs @ (b, n, False) # ys" by (auto simp: in_set_conv_decomp)
  note lf = live_fresh [OF B(1) [unfolded xs]]
  obtain B' where B': "heap_initialized (scdk_kfree s p)" "heap_inv (scdk_kfree s p) B'" "coalesced B'" "live B' = live (xs @ ys)"
      "\<forall>(c, k)\<in>live (xs @ ys). payload_same s (scdk_kfree s p) c k"
    using kfree_inv [of s xs b n ys] B by (auto simp: xs b(1))
  have lv: "live (xs @ ys) = live B - {(b, n)}" using lf by (auto simp: xs)
  have "heap_live (scdk_kfree s p) = heap_live s - {(p, n)}"
    unfolding heap_live_eq [OF B'(2)] hl B'(4) lv by (auto simp: b(1) image_iff)
  moreover have "heap_mem (scdk_kfree s p) x = heap_mem s x"
    if q: "(q, k) \<in> heap_live s" "q \<noteq> p" "unat x \<in> span q k" for q k x
  proof -
    obtain c where c: "q = c + 48" "(c, k) \<in> live B" using q(1) by (auto simp: hl)
    then have "(c, k) \<in> live (xs @ ys)" using q(2) b(1) by (auto simp: xs)
    then have "payload_same s (scdk_kfree s p) c k" using B'(5) by blast
    with heap_inv_payload(1) [OF B(1), of c k False] c q(3) show ?thesis by (simp add: payload_same_def live_def)
  qed
  ultimately show ?thesis using B' by (auto simp: heap_ok_def)
qed

lemma heap_apart:
  assumes ok: "heap_ok s" and l: "(p, n) \<in> heap_live s" "(q, k) \<in> heap_live s" "(p, n) \<noteq> (q, k)"
  shows "p \<noteq> q \<and> span p n \<inter> span q k = {}"
proof -
  obtain B where B: "heap_inv s B" using ok by (auto simp: heap_ok_def)
  obtain b c where b: "p = b + 48" "(b, n, False) \<in> set B" "q = c + 48" "(c, k, False) \<in> set B"
    using l(1,2) by (auto simp: heap_live_eq [OF B] live_def)
  have "unat b + 48 + unat n \<le> unat c \<or> unat c + 48 + unat k \<le> unat b"
    using heap_inv_apart [OF B b(2,4)] l(3) b(1,3) by auto
  moreover have "unat p = unat b + 48" "unat q = unat c + 48" "16 \<le> unat n" "16 \<le> unat k"
    using heap_inv_payload(1) [OF B b(2)] heap_inv_payload(1) [OF B b(4)] seg_range B b(2,4)
    by (auto simp: b(1,3) heap_inv_def)
  ultimately show ?thesis by auto
qed

interpretation kheap: block_store heap_ok heap_live heap_mem scdk_kalloc scdk_kfree
proof
  fix s s' :: "'a heap_state_scheme" and p n q k z x :: u64
  assume ok: "heap_ok s"
  show "p \<noteq> q \<and> span p n \<inter> span q k = {}" if "(p, n) \<in> heap_live s" "(q, k) \<in> heap_live s" "(p, n) \<noteq> (q, k)"
    using heap_apart [OF ok that] .
  show "heap_ok s' \<and> heap_live s' = heap_live s" if "scdk_kalloc s z = (0, s')"
    using kalloc_grows [OF ok that] by (simp add: heap_grows_def)
  show "heap_ok s' \<and> (\<exists>n. z \<le> n \<and> (p, n) \<notin> heap_live s \<and> heap_live s' = insert (p, n) (heap_live s))"
    if "scdk_kalloc s z = (p, s')" "p \<noteq> 0"
    using kalloc_grows [OF ok that(1)] that(2) by (auto simp: heap_grows_def)
  show "heap_mem s' x = heap_mem s x"
    if "scdk_kalloc s z = (q, s')" "(p, n) \<in> heap_live s" "unat x \<in> span p n"
    using kalloc_grows [OF ok that(1)] that(2,3) unfolding heap_grows_def by (cases "q = 0") (fastforce split: if_splits)+
  show "heap_ok (scdk_kfree s p) \<and> heap_live (scdk_kfree s p) = heap_live s - {(p, n)}" if "(p, n) \<in> heap_live s"
    using kfree_ok [OF ok that] by blast
  show "heap_mem (scdk_kfree s q) x = heap_mem s x"
    if "(q, k) \<in> heap_live s" "(p, n) \<in> heap_live s" "p \<noteq> q" "unat x \<in> span p n"
    using kfree_ok [OF ok that(1)] that(2-4) by blast
qed

text \<open>Clearing or writing inside a live block keeps the heap.\<close>

lemma heap_write_live:
  assumes inv: "heap_inv s B" and l: "(b, n, False) \<in> set B"
    and same: "\<And>x. \<not> (unat b + 48 \<le> unat x \<and> unat x < unat b + 48 + unat n) \<Longrightarrow> m' x = heap_mem s x"
  shows "heap_inv (s\<lparr>heap_mem := m'\<rparr>) B"
proof -
  have "m' (c + i) = heap_mem s (c + i)" if c: "(c, k, g) \<in> set B" "i \<in> hoff" for c k g i
  proof (rule same)
    have "c + i \<in> hcells B" using c by (auto simp: hcells_def)
    then show "\<not> (unat b + 48 \<le> unat (c + i) \<and> unat (c + i) < unat b + 48 + unat n)"
      using payload_no_header [OF inv l] by blast
  qed
  then have "\<forall>(c, k, g)\<in>set B. \<forall>i\<in>hoff. m' (c + i) = heap_mem s (c + i)" by blast
  then have "seg m' (unat SCDK_HEAP_BASE) 0 B (unat (heap_commit_end s)) 0"
    by (rule seg_frame) (use inv in \<open>simp add: heap_inv_def\<close>)
  then show ?thesis using inv by (simp add: heap_inv_def)
qed

lemma memset_outside:
  assumes "unat p + unat n < 2 ^ 64" and "\<not> (unat p \<le> unat x \<and> unat x < unat p + unat n)"
  shows "memset_zero m p n x = m x"
proof -
  have "unat n \<le> unat (x - p)"
  proof (cases "unat p \<le> unat x")
    case True
    then have "unat (x - p) = unat x - unat p" by (intro unat_sub) (simp add: word_le_nat_alt)
    with assms(2) True show ?thesis by simp
  next
    case False
    then have "unat (x - p) = unat x + 2 ^ 64 - unat p" by (simp add: unat_sub_if')
    with assms(1) show ?thesis by simp
  qed
  then show ?thesis by (simp add: memset_zero_def word_less_nat_alt)
qed

lemma kzalloc_grows:
  assumes ok: "heap_ok s" and ka: "scdk_kzalloc s sz = (p, s')"
  shows "if p = 0 then heap_grows s s' {}
    else 16 dvd unat p \<and> (\<exists>n. sz \<le> n \<and> heap_grows s s' {(p, n)}) \<and>
      (\<forall>i. unat i + 8 \<le> unat sz \<longrightarrow> heap_mem s' (p + i) = 0)"
proof -
  obtain p1 s1 where a: "scdk_kalloc s sz = (p1, s1)" by fastforce
  note g = kalloc_grows [OF ok a]
  have p: "p1 = p" "s' = (if p = 0 then s1 else s1\<lparr>heap_mem := memset_zero (heap_mem s1) p sz\<rparr>)"
    using ka a by (auto simp: scdk_kzalloc_def split: if_splits)
  show ?thesis
  proof (cases "p = 0")
    case False
    then obtain n where n: "16 dvd unat p" "sz \<le> n" "heap_grows s s1 {(p, n)}" using g p by auto
    then obtain B where B: "heap_inv s1 B" "coalesced B" "heap_initialized s1" by (auto simp: heap_grows_def heap_ok_def)
    have "(p, n) \<in> heap_live s1" using n(3) by (auto simp: heap_grows_def)
    then obtain b where b: "p = b + 48" "(b, n, False) \<in> set B" by (auto simp: heap_live_eq [OF B(1)] live_def)
    note pb = heap_inv_payload [OF B(1) b(2)]
    have nb: "unat p + unat n < 2 ^ 64" using pb heap_end [OF B(1)] by (simp add: b(1))
    have out: "heap_mem s' x = heap_mem s1 x" if "\<not> (unat p \<le> unat x \<and> unat x < unat p + unat n)" for x
    proof -
      have "memset_zero (heap_mem s1) p sz x = heap_mem s1 x"
        by (rule memset_outside) (use that nb n(2) in \<open>auto simp: word_le_nat_alt\<close>)
      then show ?thesis using False by (simp add: p)
    qed
    then have iv: "heap_inv s' B"
      using heap_write_live [OF B(1) b(2), of "heap_mem s'"] False pb(1) by (simp add: b(1) p)
    have lv: "heap_live s' = heap_live s1" by (simp add: heap_live_eq [OF B(1)] heap_live_eq [OF iv])
    have "heap_mem s' x = heap_mem s x" if q: "(q, k) \<in> heap_live s" "unat x \<in> span q k" for q k x
    proof -
      have "(q, k) \<in> heap_live s1" "(q, k) \<noteq> (p, n)" using q(1) n(3) by (auto simp: heap_grows_def)
      then have "span q k \<inter> span p n = {}" using heap_apart [of s1 q k p n] \<open>(p, n) \<in> heap_live s1\<close> n(3) by (auto simp: heap_grows_def)
      then have "heap_mem s' x = heap_mem s1 x" using q(2) by (intro out) auto
      also have "\<dots> = heap_mem s x" using n(3) q unfolding heap_grows_def by blast
      finally show ?thesis .
    qed
    then have dt: "\<forall>(q, k)\<in>heap_live s. \<forall>x. unat x \<in> span q k \<longrightarrow> heap_mem s' x = heap_mem s x" by blast
    have "heap_ok s'" using iv B False by (auto simp: heap_ok_def p)
    then have "heap_grows s s' {(p, n)}" using n(3) dt by (simp add: heap_grows_def lv del: atLeastLessThan_iff)
    moreover have "heap_mem s' (p + i) = 0" if "unat i + 8 \<le> unat sz" for i using that False by (simp add: p memset_zero_def)
    ultimately show ?thesis using n False by auto
  qed (use g p in simp)
qed

lemma heap_init_ok:
  assumes "scdk_heap_init s = (SCDK_OK, s')"
  shows "heap_ok s' \<and> heap_live s' = {}"
proof -
  let ?s0 = "s\<lparr>heap_head := 0, heap_tail := 0, heap_commit_end := SCDK_HEAP_BASE\<rparr>"
  obtain s1 where e: "heap_extend ?s0 0 = (SCDK_OK, s1)" and s': "s' = s1\<lparr>heap_initialized := True\<rparr>"
    using assms by (auto simp: scdk_heap_init_def split: if_splits prod.splits)
  have i0: "heap_inv ?s0 []" by (simp add: heap_inv_def kconst)
  obtain B' where B': "heap_inv s1 B'" "coalesced B'" "live B' = live []"
    using heap_extend_ok [OF i0 _ _ e] by auto
  then have "heap_inv s' B'" by (simp add: s' heap_inv_def)
  then show ?thesis using B' by (auto simp: heap_ok_def s' heap_live_eq)
qed

text \<open>A heap of four pages with one free block.\<close>

definition heap_demo :: heap_state where
  "heap_demo = vmm_state.extend vmm_boot \<lparr>heap_head = SCDK_HEAP_BASE, heap_tail = SCDK_HEAP_BASE,
     heap_commit_end = SCDK_HEAP_BASE + 0x4000, heap_initialized = True,
     heap_mem = (\<lambda>_. 0)(SCDK_HEAP_BASE := SCDK_HEAP_MAGIC, SCDK_HEAP_BASE + 8 := 0x4000 - 48, SCDK_HEAP_BASE + 16 := 1)\<rparr>"

lemma heap_demo_inv: "heap_inv heap_demo [(SCDK_HEAP_BASE, 0x4000 - 48, True)]"
  by (simp add: heap_inv_def heap_demo_def hdr_def kconst vmm_state.defs heap_state.defs)

lemma heap_demo_ok: "heap_ok heap_demo" "heap_live heap_demo = {}"
  using heap_demo_inv by (auto simp: heap_ok_def heap_live_eq heap_demo_def vmm_state.defs heap_state.defs intro!: exI)

lemma heap_demo_alloc: "fst (scdk_kalloc heap_demo 100) = 0xffffffffd0000030"
proof -
  have "find_free_block heap_demo 112 = SCDK_HEAP_BASE"
    unfolding find_free_block_first_fit [OF heap_demo_inv] by (simp add: first_fit_def)
  moreover have "heap_initialized heap_demo" by (simp add: heap_demo_def vmm_state.defs heap_state.defs)
  ultimately show ?thesis by (simp add: scdk_kalloc_def align_up_size_def take_block_def block_payload_def Let_def kconst)
qed

section \<open>Properties\<close>

text \<open>
  (C16) Nobody else touches a live block: through any sequence of \<^verbatim>\<open>scdk_kalloc\<close> and
  legal \<^verbatim>\<open>scdk_kfree\<close> calls that does not free it, a block stays allocated, stays
  disjoint from every other live block, and every cell of it keeps its value, although
  headers, free blocks and payloads share one memory.
\<close>

theorem heap_block_kept:
  assumes "heap_ok s" and "(p, n) \<in> heap_live s" and "store_legal heap_live scdk_kalloc scdk_kfree s ops"
    and "SRelease p \<notin> set ops"
  defines "s' \<equiv> store_run scdk_kalloc scdk_kfree s ops"
  shows "heap_ok s' \<and> (p, n) \<in> heap_live s' \<and> (\<forall>x. unat x \<in> span p n \<longrightarrow> heap_mem s' x = heap_mem s x) \<and>
    (\<forall>q k. (q, k) \<in> heap_live s' \<longrightarrow> (q, k) \<noteq> (p, n) \<longrightarrow> span q k \<inter> span p n = {})"
  using kheap.kept_block [OF assms(1-4)] kheap.apart unfolding s'_def by blast

theorem heap_block_kept_witness:
  "\<exists>s n. scdk_kalloc heap_demo 100 = (0xffffffffd0000030, s) \<and>
     (0xffffffffd0000030, n) \<in> heap_live (snd (scdk_kalloc s 50))"
proof -
  obtain s where a: "scdk_kalloc heap_demo 100 = (0xffffffffd0000030, s)" using heap_demo_alloc by (metis prod.collapse)
  obtain n where l: "(0xffffffffd0000030, n) \<in> heap_live s" and ok: "heap_ok s"
    using kheap.alloc_block [OF heap_demo_ok(1) a] by auto
  have "(0xffffffffd0000030, n) \<in> heap_live (store_run scdk_kalloc scdk_kfree s [SAlloc 50])"
    using heap_block_kept [OF ok l, of "[SAlloc 50]"] by simp
  then show ?thesis using a by auto
qed

text \<open>
  \<open>fresh_block s sz p s'\<close>: the result of an allocation of \<open>sz\<close> bytes. Either the pointer is
  null and the live blocks are the same, or it is a 16-byte-aligned block inside the
  committed heap, at least as large as asked, that overlaps no live block, and the live
  blocks are the old ones and this one. Either way the heap is well formed and every
  old live block keeps its data.
\<close>

definition fresh_block :: "'a heap_state_scheme \<Rightarrow> u64 \<Rightarrow> u64 \<Rightarrow> 'a heap_state_scheme \<Rightarrow> bool" where
  "fresh_block s sz p s' \<longleftrightarrow>
     heap_ok s' \<and> (\<forall>(q, k)\<in>heap_live s. \<forall>x. unat x \<in> span q k \<longrightarrow> heap_mem s' x = heap_mem s x) \<and>
     (if p = 0 then heap_live s' = heap_live s
      else 16 dvd unat p \<and>
        (\<exists>n. sz \<le> n \<and> heap_live s' = insert (p, n) (heap_live s) \<and>
          unat SCDK_HEAP_BASE \<le> unat p \<and> unat p + unat n \<le> unat (heap_commit_end s') \<and>
          (\<forall>(q, k)\<in>heap_live s. span q k \<inter> span p n = {})))"

lemma grows_fresh:
  assumes "if p = 0 then heap_grows s s' {} else 16 dvd unat p \<and> (\<exists>n. sz \<le> n \<and> heap_grows s s' {(p, n)})"
  shows "fresh_block s sz p s'"
proof (cases "p = 0")
  case True
  then show ?thesis using assms by (simp add: heap_grows_def fresh_block_def)
next
  case False
  then obtain n where n: "16 dvd unat p" "sz \<le> n" "heap_grows s s' {(p, n)}"
    using assms by auto
  then obtain B where B: "heap_inv s' B" by (auto simp: heap_grows_def heap_ok_def)
  have pn: "(p, n) \<in> heap_live s'" using n(3) by (auto simp: heap_grows_def)
  then obtain b where b: "p = b + 48" "(b, n, False) \<in> set B" by (auto simp: heap_live_eq [OF B] live_def)
  have "span q k \<inter> span p n = {}" if "(q, k) \<in> heap_live s" for q k
  proof -
    have "(q, k) \<in> heap_live s'" "(q, k) \<noteq> (p, n)" "heap_ok s'" using that n(3) by (auto simp: heap_grows_def)
    then show ?thesis using heap_apart [of s' q k p n] pn by blast
  qed
  moreover have "unat SCDK_HEAP_BASE \<le> unat p" "unat p + unat n \<le> unat (heap_commit_end s')"
    using heap_inv_payload [OF B b(2)] by (simp_all add: b(1))
  ultimately show ?thesis using n False unfolding heap_grows_def fresh_block_def by auto
qed

text \<open>
  (C31) In a well-formed heap, \<^verbatim>\<open>scdk_kalloc\<close> and \<^verbatim>\<open>scdk_kzalloc\<close> either return null and leave the
  live blocks as they are, or return a 16-byte-aligned block inside the committed
  heap, at least as large as asked, that overlaps no live block; the heap stays well
  formed and the other live blocks keep their data either way. In a block
  from \<^verbatim>\<open>scdk_kzalloc\<close> the 64-bit cells that lie within the asked size read zero.
\<close>

theorem heap_alloc_fresh:
  assumes "heap_ok s"
  shows "(scdk_kalloc s sz = (p, s') \<longrightarrow> fresh_block s sz p s') \<and>
    (scdk_kzalloc s sz = (p, s') \<longrightarrow> fresh_block s sz p s' \<and>
       (p \<noteq> 0 \<longrightarrow> (\<forall>i. unat i + 8 \<le> unat sz \<longrightarrow> heap_mem s' (p + i) = 0)))"
proof (intro conjI impI)
  show "fresh_block s sz p s'" if "scdk_kalloc s sz = (p, s')"
    by (rule grows_fresh) (rule kalloc_grows [OF assms that])
  assume z: "scdk_kzalloc s sz = (p, s')"
  note g = kzalloc_grows [OF assms z]
  show "fresh_block s sz p s'" by (rule grows_fresh) (use g in \<open>auto split: if_splits\<close>)
  show "\<forall>i. unat i + 8 \<le> unat sz \<longrightarrow> heap_mem s' (p + i) = 0" if "p \<noteq> 0" using g that by auto
qed

theorem heap_alloc_fresh_witness:
  "fst (scdk_kalloc heap_demo 100) = 0xffffffffd0000030 \<and>
     (\<exists>n. 100 \<le> n \<and> (0xffffffffd0000030, n) \<in> heap_live (snd (scdk_kalloc heap_demo 100))) \<and>
     heap_mem (snd (scdk_kzalloc heap_demo 100)) 0xffffffffd0000038 = 0"
proof (intro conjI)
  obtain q t where a: "scdk_kalloc heap_demo 100 = (q, t)" by fastforce
  have q: "q = 0xffffffffd0000030" using heap_demo_alloc a by (cases "scdk_kalloc heap_demo 100") auto
  then show "fst (scdk_kalloc heap_demo 100) = 0xffffffffd0000030" using a by simp
  have "fresh_block heap_demo 100 q t" using heap_alloc_fresh [OF heap_demo_ok(1)] a by blast
  then show "\<exists>n. 100 \<le> n \<and> (0xffffffffd0000030, n) \<in> heap_live (snd (scdk_kalloc heap_demo 100))"
    using a q by (auto simp: fresh_block_def)
  obtain p s where z: "scdk_kzalloc heap_demo 100 = (p, s)" by fastforce
  have p: "p = 0xffffffffd0000030"
    using heap_demo_alloc z by (cases "scdk_kalloc heap_demo 100") (auto simp: scdk_kzalloc_def split: if_splits)
  have "\<forall>i. unat i + 8 \<le> unat (100 :: u64) \<longrightarrow> heap_mem s (p + i) = 0"
    using heap_alloc_fresh [OF heap_demo_ok(1)] z p by fastforce
  from this [rule_format, of 8] z p show "heap_mem (snd (scdk_kzalloc heap_demo 100)) 0xffffffffd0000038 = 0" by simp
qed

text \<open>
  \<^verbatim>\<open>scdk_kfree\<close> of a live block removes exactly that block: the heap stays well
  formed, with neighbouring free blocks merged, and the other live blocks keep their data.
\<close>

theorem heap_free_exact:
  assumes "heap_ok s" and "(p, n) \<in> heap_live s"
  shows "heap_ok (scdk_kfree s p) \<and> heap_live (scdk_kfree s p) = heap_live s - {(p, n)} \<and>
    (\<forall>(q, k)\<in>heap_live s. q \<noteq> p \<longrightarrow> (\<forall>x. unat x \<in> span q k \<longrightarrow> heap_mem (scdk_kfree s p) x = heap_mem s x))"
  using kfree_ok [OF assms] .

theorem heap_free_exact_witness:
  "heap_live (scdk_kfree (snd (scdk_kalloc heap_demo 100)) 0xffffffffd0000030) = {}"
proof -
  obtain s where a: "scdk_kalloc heap_demo 100 = (0xffffffffd0000030, s)" using heap_demo_alloc by (metis prod.collapse)
  obtain n where l: "heap_live s = {(0xffffffffd0000030, n)}" and ok: "heap_ok s"
    using kheap.alloc_block [OF heap_demo_ok(1) a] heap_demo_ok(2) by auto
  show ?thesis using heap_free_exact [OF ok, of "0xffffffffd0000030" n] l by (simp add: a)
qed

text \<open>
  The search of \<^verbatim>\<open>find_free_block\<close> terminates on a well-formed heap and is
  first fit: within \<open>heap_fuel\<close> steps, the most blocks 4 MiB can hold, following the
  \<^verbatim>\<open>next\<close> pointers gives the first free block that is large enough, or 0 when there is none.
\<close>

theorem heap_search_first_fit:
  assumes "heap_inv s B"
  shows "find_free_from s (heap_head s) sz heap_fuel =
    Some (case find (\<lambda>(b, n, f). f \<and> sz \<le> n) B of None \<Rightarrow> 0 | Some (b, _) \<Rightarrow> b)"
  using find_free_first_fit [OF assms] by (simp add: first_fit_def)

theorem heap_search_first_fit_witness:
  "find_free_from heap_demo (heap_head heap_demo) 0x100 heap_fuel = Some SCDK_HEAP_BASE \<and>
   find_free_from heap_demo (heap_head heap_demo) 0x4000 heap_fuel = Some 0"
  using heap_search_first_fit [OF heap_demo_inv, of "0x100"] heap_search_first_fit [OF heap_demo_inv, of "0x4000"]
  by simp

end
