(* ===== verification/SCDK_AddressSpace.thy ===== *)
theory SCDK_AddressSpace
  imports SCDK_Grant SCDK_Heap
begin

text \<open>
  Address spaces (\<^verbatim>\<open>mm/address_space.c\<close>): capabilities for page-table roots. The
  \<^verbatim>\<open>struct scdk_address_space\<close> is allocated on the kernel heap, so it is read and
  written as heap cells (\<^verbatim>\<open>object_id\<close> at 0, \<^verbatim>\<open>root_phys\<close> at 8, \<^verbatim>\<open>owner_core\<close> and
  \<^verbatim>\<open>flags\<close> in the two halves of the cell at 16). The component joins the object and
  capability state with the memory state \<open>mm\<close>. \<open>aspace_inv\<close> says that every
  address space has a live heap block and a page-table root of its own.
\<close>

definition SCDK_USER_VIRT_BASE :: u64 where [kconst]: "SCDK_USER_VIRT_BASE = 0x100000"
definition SCDK_USER_VIRT_TOP :: u64 where [kconst]: "SCDK_USER_VIRT_TOP = 0x800000000000"

record aspace_state = grant_state +
  mm :: heap_state

section \<open>Operations\<close>

definition as_object_id :: "'a aspace_state_scheme \<Rightarrow> u64 \<Rightarrow> u64" where "as_object_id s p = heap_mem (mm s) p"
definition as_root_phys :: "'a aspace_state_scheme \<Rightarrow> u64 \<Rightarrow> u64" where "as_root_phys s p = heap_mem (mm s) (p + 8)"

definition write_aspace :: "u64 \<Rightarrow> u64 \<Rightarrow> u64 \<Rightarrow> u32 \<Rightarrow> u32 \<Rightarrow> 'a aspace_state_scheme \<Rightarrow> 'a aspace_state_scheme" where
  "write_aspace p object_id root_phys owner_core flags s =
     s\<lparr>mm := set_cell (set_cell (set_cell (mm s) p object_id) (p + 8) root_phys) (p + 16)
          (ucast owner_core OR push_bit 32 (ucast flags))\<rparr>"

definition validate_user_page :: "u64 \<Rightarrow> scdk_status" where
  "validate_user_page vaddr =
     (if \<not> is_page_aligned vaddr then SCDK_ERR_INVAL
      else if vaddr < SCDK_USER_VIRT_BASE \<or> vaddr > SCDK_USER_VIRT_TOP - SCDK_PAGE_SIZE then SCDK_ERR_BOUNDS
      else SCDK_OK)"

text \<open>The result is the pointer to the structure.\<close>

definition lookup_aspace :: "'a aspace_state_scheme \<Rightarrow> u64 \<Rightarrow> u64 \<Rightarrow> u64 res" where
  "lookup_aspace s aspace_cap required_rights =
     (case scdk_cap_check s aspace_cap required_rights SCDK_OBJ_ADDRESS_SPACE of
        Inl e \<Rightarrow> Inl e
      | Inr entry \<Rightarrow>
          (case scdk_object_lookup s (ce_object_id entry) of
             Inl e \<Rightarrow> Inl e
           | Inr object \<Rightarrow>
               (case obj_payload object of
                  PHeap p \<Rightarrow>
                    if p = 0 \<or> as_object_id s p \<noteq> ce_object_id entry \<or> as_root_phys s p = 0
                    then Inl SCDK_ERR_NOENT else Inr p
                | _ \<Rightarrow> Inl SCDK_ERR_NOENT)))"

definition check_map_rights :: "'a aspace_state_scheme \<Rightarrow> u64 \<Rightarrow> u64 \<Rightarrow> u64 res" where
  "check_map_rights s aspace_cap flags =
     (let required = SCDK_RIGHT_MAP OR SCDK_RIGHT_READ;
          required = (if flags AND SCDK_VMM_MAP_WRITE \<noteq> 0 then required OR SCDK_RIGHT_WRITE else required)
      in lookup_aspace s aspace_cap required)"

definition scdk_address_space_create :: "'a aspace_state_scheme \<Rightarrow> u64 res \<times> 'a aspace_state_scheme" where
  "scdk_address_space_create s =
     (case scdk_alloc_object_storage (mm s) SCDK_OBJ_ADDRESS_SPACE 24 of
        (aspace, m1) \<Rightarrow>
          if aspace = 0 then (Inl SCDK_ERR_NOMEM, s\<lparr>mm := m1\<rparr>)
          else case scdk_vmm_create_root m1 of
            (Inl status, m2) \<Rightarrow> (Inl status, s\<lparr>mm := scdk_kfree m2 aspace\<rparr>)
          | (Inr root_phys, m2) \<Rightarrow>
              (case scdk_object_create (s\<lparr>mm := m2\<rparr>) SCDK_OBJ_ADDRESS_SPACE SCDK_BOOT_CORE 0 (PHeap aspace) of
                 (Inl status, s1) \<Rightarrow>
                   (Inl status, s1\<lparr>mm := scdk_kfree (snd (scdk_page_free (mm s1) root_phys)) aspace\<rparr>)
               | (Inr object_id, s1) \<Rightarrow>
                   (case scdk_cap_create (write_aspace aspace object_id root_phys SCDK_BOOT_CORE 0 s1) object_id
                           (SCDK_RIGHT_READ OR SCDK_RIGHT_WRITE OR SCDK_RIGHT_MAP OR SCDK_RIGHT_BIND) of
                      (Inl status, s2) \<Rightarrow> (Inl status, s2)
                    | (Inr out_cap, s2) \<Rightarrow> (Inr out_cap, s2))))"

definition scdk_address_space_map ::
  "'a aspace_state_scheme \<Rightarrow> u64 \<Rightarrow> u64 \<Rightarrow> u64 \<Rightarrow> u64 \<Rightarrow> scdk_status \<times> 'a aspace_state_scheme"
where
  "scdk_address_space_map s aspace_cap vaddr paddr flags =
     (case check_map_rights s aspace_cap flags of
        Inl status \<Rightarrow> (status, s)
      | Inr aspace \<Rightarrow>
          if validate_user_page vaddr \<noteq> SCDK_OK then (validate_user_page vaddr, s)
          else if \<not> is_page_aligned paddr then (SCDK_ERR_INVAL, s)
          else case scdk_vmm_map_page_in_root (mm s) (as_root_phys s aspace) vaddr paddr (flags OR SCDK_VMM_MAP_USER) of
            (status, m) \<Rightarrow> (status, s\<lparr>mm := m\<rparr>))"

definition scdk_address_space_unmap :: "'a aspace_state_scheme \<Rightarrow> u64 \<Rightarrow> u64 \<Rightarrow> scdk_status \<times> 'a aspace_state_scheme" where
  "scdk_address_space_unmap s aspace_cap vaddr =
     (case lookup_aspace s aspace_cap (SCDK_RIGHT_MAP OR SCDK_RIGHT_READ) of
        Inl status \<Rightarrow> (status, s)
      | Inr aspace \<Rightarrow>
          if validate_user_page vaddr \<noteq> SCDK_OK then (validate_user_page vaddr, s)
          else case scdk_vmm_unmap_page_in_root (mm s) (as_root_phys s aspace) vaddr of
            (status, m) \<Rightarrow> (status, s\<lparr>mm := m\<rparr>))"

definition scdk_address_space_activate :: "'a aspace_state_scheme \<Rightarrow> u64 \<Rightarrow> scdk_status \<times> 'a aspace_state_scheme" where
  "scdk_address_space_activate s aspace_cap =
     (case lookup_aspace s aspace_cap SCDK_RIGHT_READ of
        Inl status \<Rightarrow> (status, s)
      | Inr aspace \<Rightarrow>
          (case scdk_vmm_activate_root (mm s) (as_root_phys s aspace) of (status, m) \<Rightarrow> (status, s\<lparr>mm := m\<rparr>)))"

definition scdk_address_space_translate :: "'a aspace_state_scheme \<Rightarrow> u64 \<Rightarrow> u64 \<Rightarrow> (u64 \<times> u64) res" where
  "scdk_address_space_translate s aspace_cap vaddr =
     (case lookup_aspace s aspace_cap SCDK_RIGHT_READ of
        Inl status \<Rightarrow> Inl status
      | Inr aspace \<Rightarrow>
          if validate_user_page (vaddr AND NOT (SCDK_PAGE_SIZE - 1)) \<noteq> SCDK_OK
          then Inl (validate_user_page (vaddr AND NOT (SCDK_PAGE_SIZE - 1)))
          else scdk_vmm_virt_to_phys_in_root (mm s) (as_root_phys s aspace) vaddr)"

section \<open>Frames\<close>

lemma mm_upd [simp]:
  "scdk_object_lookup (s\<lparr>mm := x\<rparr>) = scdk_object_lookup s"
  "scdk_cap_lookup (s\<lparr>mm := x\<rparr>) = scdk_cap_lookup s"
  "scdk_cap_check (s\<lparr>mm := x\<rparr>) = scdk_cap_check s"
  "kern_inv (s\<lparr>mm := x\<rparr>) = kern_inv s"
  by (rule frame_rules; simp)+

lemma mm_upd_same [simp]: "core_same s (s\<lparr>mm := x\<rparr>)" by (simp add: core_same_def)

lemma mm_low_frame [kframe]:
  "scdk_object_create s ty c f p = (r, s') \<Longrightarrow> mm s' = mm s"
  "scdk_cap_create s oid rights = (r, s') \<Longrightarrow> mm s' = mm s"
  "scdk_cap_revoke s cap = (q, s') \<Longrightarrow> mm s' = mm s"
  by (auto elim: object_create_cases cap_create_cases cap_revoke_cases)

lemma lookup_aspace_Inr:
  "lookup_aspace s cap r = Inr p \<longleftrightarrow> (\<exists>e ob. scdk_cap_check s cap r SCDK_OBJ_ADDRESS_SPACE = Inr e \<and>
     scdk_object_lookup s (ce_object_id e) = Inr ob \<and> obj_payload ob = PHeap p \<and> p \<noteq> 0 \<and>
     as_object_id s p = ce_object_id e \<and> as_root_phys s p \<noteq> 0)"
  by (auto simp: lookup_aspace_def split: sum.splits payload.splits)

lemma lookup_aspace_Inl_OK: "lookup_aspace s cap r \<noteq> Inl SCDK_OK"
proof -
  have "scdk_object_lookup s x \<noteq> Inl SCDK_OK" for x by (auto simp: scdk_object_lookup_def Let_def)
  then show ?thesis using cap_check_Inl_OK [of s cap r SCDK_OBJ_ADDRESS_SPACE]
    by (auto simp: lookup_aspace_def split: sum.splits payload.splits)
qed

lemma lookup_aspace_mm:
  assumes "heap_mem m = heap_mem (mm s)"
  shows "lookup_aspace (s\<lparr>mm := m\<rparr>) cap r = lookup_aspace s cap r" "as_root_phys (s\<lparr>mm := m\<rparr>) p = as_root_phys s p"
proof -
  have "as_object_id (s\<lparr>mm := m\<rparr>) = as_object_id s" and r: "as_root_phys (s\<lparr>mm := m\<rparr>) = as_root_phys s"
    using assms by (simp_all add: fun_eq_iff as_object_id_def as_root_phys_def)
  then show "lookup_aspace (s\<lparr>mm := m\<rparr>) cap r = lookup_aspace s cap r" by (simp only: lookup_aspace_def mm_upd)
  show "as_root_phys (s\<lparr>mm := m\<rparr>) p = as_root_phys s p" using r by simp
qed

lemma user_page_low: "validate_user_page v = SCDK_OK \<Longrightarrow> unat v < 2 ^ 47"
  by (auto simp: validate_user_page_def kconst word_less_nat_alt not_less split: if_splits)

lemma user_addr_low:
  assumes "validate_user_page (v AND NOT (SCDK_PAGE_SIZE - 1)) = SCDK_OK"
  shows "unat v < 2 ^ 47"
proof -
  have "unat (v AND NOT (mask 12)) = unat v div 2 ^ 12 * 2 ^ 12" by (rule unat_and_not_mask) simp
  moreover have "(SCDK_PAGE_SIZE - 1) = mask 12" by (simp add: kconst mask_eq_exp_minus_1)
  ultimately have "unat v div 4096 * 4096 < 2 ^ 47" "unat v div 4096 * 4096 \<le> 2 ^ 47 - 4096"
    using assms by (auto simp: validate_user_page_def kconst word_less_nat_alt not_less split: if_splits)
  moreover have "unat v mod 4096 < 4096" by simp
  ultimately show ?thesis using div_mult_mod_eq [of "unat v" 4096] by simp
qed

text \<open>The heap's own bookkeeping does not touch page tables or the page stack.\<close>

definition vmm_same :: "heap_state \<Rightarrow> heap_state \<Rightarrow> bool" where
  "vmm_same s s' \<longleftrightarrow> page_stack s' = page_stack s \<and> free_pages s' = free_pages s \<and> usable_regions s' = usable_regions s \<and>
     reserved_regions s' = reserved_regions s \<and> pmm_initialized s' = pmm_initialized s \<and> phys_mem s' = phys_mem s \<and>
     active_cr3_phys s' = active_cr3_phys s \<and> vmm_initialized s' = vmm_initialized s"

lemma vmm_same_refl [simp]: "vmm_same s s" by (simp add: vmm_same_def)
lemma vmm_same_trans: "vmm_same s s1 \<Longrightarrow> vmm_same s1 s2 \<Longrightarrow> vmm_same s s2" by (simp add: vmm_same_def)

lemma vmm_same_set [simp]:
  "vmm_same s0 (set_cell s a v) = vmm_same s0 s" "vmm_same s0 (set_magic s b v) = vmm_same s0 s"
  "vmm_same s0 (set_size s b v) = vmm_same s0 s" "vmm_same s0 (set_free s b f) = vmm_same s0 s"
  "vmm_same s0 (set_prev s b v) = vmm_same s0 s" "vmm_same s0 (set_next s b v) = vmm_same s0 s"
  "vmm_same s0 (s\<lparr>heap_mem := m\<rparr>) = vmm_same s0 s" "vmm_same s0 (s\<lparr>heap_head := h\<rparr>) = vmm_same s0 s"
  "vmm_same s0 (s\<lparr>heap_tail := h\<rparr>) = vmm_same s0 s"
  by (simp_all add: vmm_same_def set_defs)

lemma vmm_same_remove [simp]: "vmm_same s0 (block_remove s b) = vmm_same s0 s"
  unfolding block_remove_def Let_def by simp

lemma vmm_same_coalesce [simp]: "vmm_same s0 (block_coalesce_forward s b) = vmm_same s0 s"
  unfolding block_coalesce_forward_def Let_def by simp

lemma vmm_same_split [simp]: "vmm_same s0 (block_split s b r) = vmm_same s0 s"
  unfolding block_split_def Let_def by simp

lemma vmm_same_kfree [simp]: "vmm_same s0 (scdk_kfree s p) = vmm_same s0 s"
  unfolding scdk_kfree_def Let_def by simp

lemma vmm_same_kalloc:
  assumes "find_free_block s (align_up_size sz SCDK_HEAP_ALIGN) \<noteq> 0" and "scdk_kzalloc s sz = (p, s')"
  shows "vmm_same s s'"
proof -
  obtain p1 s1 where a: "scdk_kalloc s sz = (p1, s1)" by fastforce
  have "vmm_same s s1" using a assms(1) by (auto simp: scdk_kalloc_def Let_def take_block_def split: if_splits)
  with assms(2) a show ?thesis by (auto simp: scdk_kzalloc_def split: if_splits)
qed

lemma vmm_same_pt:
  assumes "vmm_same s s'"
  shows "pt_inv s' T = pt_inv s T"
    and "scdk_vmm_virt_to_phys_in_root s' root v = scdk_vmm_virt_to_phys_in_root s root v"
proof -
  have m: "managed s' = managed s" by (rule managed_frame) (use assms in \<open>simp_all add: vmm_same_def\<close>)
  have st: "stack_pages s' = stack_pages s" using assms by (simp add: stack_pages_def vmm_same_def)
  have p: "pte s' = pte s" using assms by (simp add: fun_eq_iff pte_def vmm_same_def)
  have "pmm_inv s' = pmm_inv s" using assms by (simp add: pmm_inv_def m st vmm_same_def)
  then show "pt_inv s' T = pt_inv s T" by (simp only: pt_inv_def m st p)
  have "leaf_entry s' t path = leaf_entry s t path" for t path
  proof (induction path arbitrary: t)
    case (Cons i path)
    then show ?case by (cases path) (simp_all add: p)
  qed simp
  then show "scdk_vmm_virt_to_phys_in_root s' root v = scdk_vmm_virt_to_phys_in_root s root v"
    by (rule virt_to_phys_cong) (use assms in \<open>simp add: vmm_same_def\<close>)
qed

section \<open>The invariant\<close>

definition aspace_bound :: "'a aspace_state_scheme \<Rightarrow> u64 \<Rightarrow> u64 \<Rightarrow> bool" where
  "aspace_bound s oid p \<longleftrightarrow> (\<exists>ob. scdk_object_lookup s oid = Inr ob \<and> obj_type ob = SCDK_OBJ_ADDRESS_SPACE \<and>
     obj_payload ob = PHeap p) \<and> as_object_id s p = oid \<and> as_root_phys s p \<noteq> 0"

definition aspace_inv :: "'a aspace_state_scheme \<Rightarrow> ghost \<Rightarrow> bool" where
  "aspace_inv s T \<longleftrightarrow> kern_inv s \<and> heap_ok (mm s) \<and> pt_inv (mm s) T \<and>
     (\<forall>oid ob. scdk_object_lookup s oid = Inr ob \<longrightarrow> obj_type ob = SCDK_OBJ_ADDRESS_SPACE \<longrightarrow>
        (\<exists>p n. obj_payload ob = PHeap p \<and> (p, n) \<in> heap_live (mm s) \<and> 24 \<le> unat n)) \<and>
     (\<forall>oid p. aspace_bound s oid p \<longrightarrow> T (as_root_phys s p) = Some (as_root_phys s p, [])) \<and>
     (\<forall>oid oid' p p'. aspace_bound s oid p \<longrightarrow> aspace_bound s oid' p' \<longrightarrow> as_root_phys s p = as_root_phys s p' \<longrightarrow> oid = oid')"

lemma aspace_lookup_bound:
  assumes "lookup_aspace s cap r = Inr p"
  obtains e where "scdk_cap_check s cap r SCDK_OBJ_ADDRESS_SPACE = Inr e" "aspace_bound s (ce_object_id e) p"
proof -
  obtain e ob where e: "scdk_cap_check s cap r SCDK_OBJ_ADDRESS_SPACE = Inr e" "scdk_object_lookup s (ce_object_id e) = Inr ob"
      "obj_payload ob = PHeap p" "as_object_id s p = ce_object_id e" "as_root_phys s p \<noteq> 0"
    using assms by (auto simp: lookup_aspace_Inr)
  moreover have "obj_type ob = SCDK_OBJ_ADDRESS_SPACE" using cap_check_object [OF e(1)] e(2) by auto
  ultimately show thesis using that by (auto simp: aspace_bound_def)
qed

lemma rights_sub:
  assumes "(x :: u64) AND (a OR b) = a OR b"
  shows "x AND a = a" "x AND b = b"
proof -
  have ab: "(a OR b) AND a = a" "(a OR b) AND b = b" by (rule bit_word_eqI; auto simp: bit_simps)+
  show "x AND a = a" using assms ab(1) by (metis and.assoc)
  show "x AND b = b" using assms ab(2) by (metis and.assoc)
qed

lemma heap_live_span:
  assumes "heap_ok m" and "(p, n) \<in> heap_live m"
  shows "unat p + unat n < 2 ^ 64" "p \<noteq> 0"
proof -
  obtain B where B: "heap_inv m B" using assms(1) by (auto simp: heap_ok_def)
  obtain b where b: "p = b + 48" "(b, n, False) \<in> set B" using assms(2) by (auto simp: heap_live_eq [OF B] live_def)
  show "unat p + unat n < 2 ^ 64" "p \<noteq> 0" using heap_inv_payload [OF B b(2)] heap_end [OF B] by (simp_all add: b(1))
qed

text \<open>Changes of the memory that keep the data of live blocks keep the address spaces.\<close>

lemma as_cells_same:
  assumes "heap_ok m" and "(p, n) \<in> heap_live m" and "24 \<le> unat n"
    and same: "\<forall>x. unat x \<in> span p n \<longrightarrow> heap_mem m' x = heap_mem m x"
  shows "heap_mem m' p = heap_mem m p" "heap_mem m' (p + 8) = heap_mem m (p + 8)"
proof -
  have "unat (p + 8) = unat p + 8" using heap_live_span(1) [OF assms(1,2)] assms(3) by (simp add: unat_word_ariths)
  then show "heap_mem m' p = heap_mem m p" "heap_mem m' (p + 8) = heap_mem m (p + 8)"
    using same assms(3) by auto
qed

lemma aspace_inv_mm:
  assumes inv: "aspace_inv s T" and m: "heap_ok m" "pt_inv m T'" and T: "\<forall>p x. T p = Some x \<longrightarrow> T' p = Some x"
    and same: "\<And>oid ob p n. scdk_object_lookup s oid = Inr ob \<Longrightarrow> obj_type ob = SCDK_OBJ_ADDRESS_SPACE \<Longrightarrow>
      obj_payload ob = PHeap p \<Longrightarrow> (p, n) \<in> heap_live (mm s) \<Longrightarrow>
      (p, n) \<in> heap_live m \<and> (\<forall>x. unat x \<in> span p n \<longrightarrow> heap_mem m x = heap_mem (mm s) x)"
  shows "aspace_inv (s\<lparr>mm := m\<rparr>) T'" "aspace_bound (s\<lparr>mm := m\<rparr>) oid p = aspace_bound s oid p"
    "aspace_bound s oid p \<Longrightarrow> as_root_phys (s\<lparr>mm := m\<rparr>) p = as_root_phys s p"
proof -
  have ok: "heap_ok (mm s)" using inv by (simp add: aspace_inv_def)
  have c: "heap_mem m p = heap_mem (mm s) p \<and> heap_mem m (p + 8) = heap_mem (mm s) (p + 8)"
    if l: "scdk_object_lookup s oid = Inr ob" "obj_type ob = SCDK_OBJ_ADDRESS_SPACE" "obj_payload ob = PHeap p" for oid ob p
  proof -
    obtain n where n: "(p, n) \<in> heap_live (mm s)" "24 \<le> unat n" using inv l unfolding aspace_inv_def by fastforce
    then have "\<forall>x. unat x \<in> span p n \<longrightarrow> heap_mem m x = heap_mem (mm s) x" using same [OF l] by blast
    from as_cells_same [OF ok n this] show ?thesis by blast
  qed
  show b: "aspace_bound (s\<lparr>mm := m\<rparr>) oid p = aspace_bound s oid p" for oid p
    using c by (auto simp: aspace_bound_def as_object_id_def as_root_phys_def)
  show r: "as_root_phys (s\<lparr>mm := m\<rparr>) p = as_root_phys s p" if "aspace_bound s oid p" for oid p
    using that c by (auto simp: aspace_bound_def as_root_phys_def)
  have "T' (as_root_phys (s\<lparr>mm := m\<rparr>) p) = Some (as_root_phys (s\<lparr>mm := m\<rparr>) p, [])" if "aspace_bound (s\<lparr>mm := m\<rparr>) oid p" for oid p
    using that inv T unfolding b by (simp add: r aspace_inv_def)
  moreover have "oid = oid'" if "aspace_bound (s\<lparr>mm := m\<rparr>) oid p" "aspace_bound (s\<lparr>mm := m\<rparr>) oid' p'"
      "as_root_phys (s\<lparr>mm := m\<rparr>) p = as_root_phys (s\<lparr>mm := m\<rparr>) p'" for oid oid' p p'
    using that inv unfolding b by (simp add: r aspace_inv_def)
  moreover have "\<exists>p n. obj_payload ob = PHeap p \<and> (p, n) \<in> heap_live m \<and> 24 \<le> unat n"
    if "scdk_object_lookup s oid = Inr ob" "obj_type ob = SCDK_OBJ_ADDRESS_SPACE" for oid ob
    using that inv same unfolding aspace_inv_def by blast
  ultimately show "aspace_inv (s\<lparr>mm := m\<rparr>) T'"
    using inv m(1,2) unfolding aspace_inv_def by simp
qed

lemma heap_same_ok: assumes h: "heap_same s s'" shows "heap_ok s' = heap_ok s" "heap_live s' = heap_live s"
proof -
  have i: "heap_inv s' = heap_inv s" using heap_inv_same [OF h] by (simp add: fun_eq_iff)
  show "heap_ok s' = heap_ok s" using h unfolding heap_ok_def i by (simp add: heap_same_def)
  show "heap_live s' = heap_live s" unfolding heap_live_def i ..
qed

lemma aspace_inv_same:
  assumes inv: "aspace_inv s T" and h: "heap_same (mm s) m" and pt: "pt_inv m T'" and T: "\<forall>p x. T p = Some x \<longrightarrow> T' p = Some x"
  shows "aspace_inv (s\<lparr>mm := m\<rparr>) T'"
  by (rule aspace_inv_mm [OF inv _ pt T])
    (use inv heap_same_ok [OF h] h in \<open>simp_all add: aspace_inv_def heap_same_def\<close>)

lemma translate_eq:
  assumes "lookup_aspace s' cap SCDK_RIGHT_READ = lookup_aspace s cap SCDK_RIGHT_READ"
    and "\<And>p. lookup_aspace s cap SCDK_RIGHT_READ = Inr p \<Longrightarrow> unat u < 2 ^ 47 \<Longrightarrow>
      scdk_vmm_virt_to_phys_in_root (mm s') (as_root_phys s' p) u = scdk_vmm_virt_to_phys_in_root (mm s) (as_root_phys s p) u"
  shows "scdk_address_space_translate s' cap u = scdk_address_space_translate s cap u"
  using assms user_addr_low [of u] by (auto simp: scdk_address_space_translate_def split: sum.split)

lemma translate_ok:
  assumes "lookup_aspace s cap SCDK_RIGHT_READ = Inr p" and "validate_user_page v = SCDK_OK"
    and "scdk_vmm_virt_to_phys_in_root (mm s) (as_root_phys s p) v = r"
  shows "scdk_address_space_translate s cap v = r"
proof -
  have "v AND NOT (SCDK_PAGE_SIZE - 1) = v"
  proof -
    have "v AND (SCDK_PAGE_SIZE - 1) = 0" using assms(2) by (auto simp: validate_user_page_def is_page_aligned_def split: if_splits)
    moreover have "v = (v AND (SCDK_PAGE_SIZE - 1)) OR (v AND NOT (SCDK_PAGE_SIZE - 1))"
      by (rule bit_word_eqI) (auto simp: bit_simps)
    ultimately show ?thesis by simp
  qed
  with assms show ?thesis by (simp add: scdk_address_space_translate_def)
qed

lemma map_lookup_read:
  assumes "check_map_rights s cap flags = Inr p"
  shows "lookup_aspace s cap SCDK_RIGHT_READ = Inr p"
proof -
  obtain r where r: "lookup_aspace s cap (r OR SCDK_RIGHT_READ) = Inr p"
  proof (cases "flags AND SCDK_VMM_MAP_WRITE \<noteq> 0")
    case True
    then have "lookup_aspace s cap ((SCDK_RIGHT_MAP OR SCDK_RIGHT_WRITE) OR SCDK_RIGHT_READ) = Inr p"
      using assms by (simp add: check_map_rights_def ac_simps)
    then show thesis by (rule that)
  qed (use assms that [of SCDK_RIGHT_MAP] in \<open>simp add: check_map_rights_def\<close>)
  then show ?thesis using rights_sub(2) by (fastforce simp: lookup_aspace_Inr cap_check_Inr SCDK_RIGHT_READ_def)
qed

section \<open>Creation\<close>

lemma write_aspace_heap:
  fixes a b c :: u64
  assumes ok: "heap_ok m" and l: "(p, n) \<in> heap_live m" "24 \<le> unat n"
  defines "m' \<equiv> set_cell (set_cell (set_cell m p a) (p + 8) b) (p + 16) c"
  shows "heap_ok m'" "heap_live m' = heap_live m" "heap_mem m' p = a" "heap_mem m' (p + 8) = b"
    "\<forall>(q, k)\<in>heap_live m. (q, k) \<noteq> (p, n) \<longrightarrow> (\<forall>x. unat x \<in> span q k \<longrightarrow> heap_mem m' x = heap_mem m x)"
proof -
  have u: "unat (p + 8) = unat p + 8" "unat (p + 16) = unat p + 16"
    using heap_live_span(1) [OF ok l(1)] l(2) by (simp_all add: unat_word_ariths)
  obtain B where B: "heap_inv m B" "coalesced B" "heap_initialized m" using ok by (auto simp: heap_ok_def)
  obtain d where d: "p = d + 48" "(d, n, False) \<in> set B" using l(1) by (auto simp: heap_live_eq [OF B(1)] live_def)
  have out: "heap_mem m' x = heap_mem m x" if "unat x \<notin> span p n" for x
  proof -
    have "x \<noteq> p" "x \<noteq> p + 8" "x \<noteq> p + 16" using that u l(2) by auto
    then show ?thesis by (simp add: m'_def set_cell_def)
  qed
  have "heap_inv (m\<lparr>heap_mem := heap_mem m'\<rparr>) B"
    by (rule heap_write_live [OF B(1) d(2)]) (use out heap_inv_payload(1) [OF B(1) d(2)] in \<open>simp add: d(1)\<close>)
  then have i: "heap_inv m' B" by (simp add: m'_def set_cell_def)
  show "heap_ok m'" using i B by (auto simp: heap_ok_def m'_def set_cell_def)
  show "heap_live m' = heap_live m" by (simp add: heap_live_eq [OF B(1)] heap_live_eq [OF i])
  show "heap_mem m' p = a" "heap_mem m' (p + 8) = b" by (simp_all add: m'_def set_cell_def)
  show "\<forall>(q, k)\<in>heap_live m. (q, k) \<noteq> (p, n) \<longrightarrow> (\<forall>x. unat x \<in> span q k \<longrightarrow> heap_mem m' x = heap_mem m x)"
    using heap_apart [OF ok _ l(1)] out by fastforce
qed

text \<open>The storage of a new address space while it is being built: \<open>(p, n)\<close> is live and nobody's yet.\<close>

definition as_private :: "'a aspace_state_scheme \<Rightarrow> u64 \<Rightarrow> u64 \<Rightarrow> bool" where
  "as_private s p n \<longleftrightarrow> (p, n) \<in> heap_live (mm s) \<and> 24 \<le> unat n \<and>
     (\<forall>oid ob. scdk_object_lookup s oid = Inr ob \<longrightarrow> obj_type ob = SCDK_OBJ_ADDRESS_SPACE \<longrightarrow> obj_payload ob \<noteq> PHeap p)"

lemma storage_private:
  assumes inv: "aspace_inv s T" and room: "find_free_block (mm s) 32 \<noteq> 0"
    and st: "scdk_alloc_object_storage (mm s) SCDK_OBJ_ADDRESS_SPACE 24 = (p, m)"
  shows "aspace_inv (s\<lparr>mm := m\<rparr>) T" "p \<noteq> 0 \<Longrightarrow> \<exists>n. as_private (s\<lparr>mm := m\<rparr>) p n" "vmm_same (mm s) m"
    "aspace_bound (s\<lparr>mm := m\<rparr>) oid q = aspace_bound s oid q"
    "aspace_bound s oid q \<Longrightarrow> as_root_phys (s\<lparr>mm := m\<rparr>) q = as_root_phys s q"
proof -
  have ok: "heap_ok (mm s)" using inv by (simp add: aspace_inv_def)
  have kz: "scdk_kzalloc (mm s) 24 = (p, m)" using st by (simp add: scdk_alloc_object_storage_def)
  have "align_up_size 24 SCDK_HEAP_ALIGN = 32" by (simp add: align_up_size_def kconst)
  then show vs: "vmm_same (mm s) m" using vmm_same_kalloc [of "mm s" 24 p m] room kz by simp
  obtain new where g: "heap_grows (mm s) m new" "p \<noteq> 0 \<Longrightarrow> \<exists>n. new = {(p, n)} \<and> 24 \<le> n"
    using kzalloc_grows [OF ok kz] by (cases "p = 0") auto
  have pt: "pt_inv m T" using inv vmm_same_pt(1) [OF vs] by (simp add: aspace_inv_def)
  note gd = g(1) [unfolded heap_grows_def]
  have d: "\<forall>(p, n)\<in>heap_live (mm s). \<forall>x. unat x \<in> span p n \<longrightarrow> heap_mem m x = heap_mem (mm s) x" using gd by blast
  have sub: "heap_live (mm s) \<subseteq> heap_live m" "heap_ok m" using gd by auto
  have am: "aspace_inv (s\<lparr>mm := m\<rparr>) T \<and> aspace_bound (s\<lparr>mm := m\<rparr>) oid q = aspace_bound s oid q \<and>
      (aspace_bound s oid q \<longrightarrow> as_root_phys (s\<lparr>mm := m\<rparr>) q = as_root_phys s q)"
    by (intro conjI impI; rule aspace_inv_mm [OF inv sub(2) pt]) (use d sub(1) in blast)+
  show "aspace_inv (s\<lparr>mm := m\<rparr>) T" "aspace_bound (s\<lparr>mm := m\<rparr>) oid q = aspace_bound s oid q"
    "aspace_bound s oid q \<Longrightarrow> as_root_phys (s\<lparr>mm := m\<rparr>) q = as_root_phys s q"
    using am by simp_all
  show "\<exists>n. as_private (s\<lparr>mm := m\<rparr>) p n" if p0: "p \<noteq> 0"
  proof -
    obtain n where n: "new = {(p, n)}" "24 \<le> n" using g(2) [OF p0] by blast
    have "(p, n) \<in> heap_live m" "(p, n) \<notin> heap_live (mm s)" using gd n by auto
    moreover have "obj_payload ob \<noteq> PHeap p"
      if ob: "scdk_object_lookup s i = Inr ob" "obj_type ob = SCDK_OBJ_ADDRESS_SPACE" for i ob
    proof
      assume "obj_payload ob = PHeap p"
      then obtain k where "(p, k) \<in> heap_live (mm s)" using inv ob unfolding aspace_inv_def by fastforce
      then have "(p, k) \<in> heap_live m" "(p, k) \<noteq> (p, n)" using gd n \<open>(p, n) \<notin> heap_live (mm s)\<close> by auto
      then show False using heap_apart [OF sub(2), of p k p n] \<open>(p, n) \<in> heap_live m\<close> by blast
    qed
    ultimately show ?thesis using n(2) by (auto simp: as_private_def word_le_nat_alt)
  qed
qed

text \<open>Giving the private storage back.\<close>

lemma private_free:
  assumes inv: "aspace_inv s T" and p: "as_private s p n"
  shows "aspace_inv (s\<lparr>mm := scdk_kfree (mm s) p\<rparr>) T"
    "aspace_bound (s\<lparr>mm := scdk_kfree (mm s) p\<rparr>) oid q = aspace_bound s oid q"
    "aspace_bound s oid q \<Longrightarrow> as_root_phys (s\<lparr>mm := scdk_kfree (mm s) p\<rparr>) q = as_root_phys s q"
proof -
  let ?m = "scdk_kfree (mm s) p"
  have ok: "heap_ok (mm s)" and l: "(p, n) \<in> heap_live (mm s)" using inv p by (simp_all add: aspace_inv_def as_private_def)
  note kf = kfree_ok [OF ok l]
  have pt: "pt_inv ?m T" using inv vmm_same_pt(1) [of "mm s" ?m] by (simp add: aspace_inv_def)
  have same: "(p', k) \<in> heap_live ?m \<and> (\<forall>x. unat x \<in> span p' k \<longrightarrow> heap_mem ?m x = heap_mem (mm s) x)"
    if "scdk_object_lookup s i = Inr ob" "obj_type ob = SCDK_OBJ_ADDRESS_SPACE" "obj_payload ob = PHeap p'"
      "(p', k) \<in> heap_live (mm s)" for i ob p' k
  proof -
    have "p' \<noteq> p" using that(1-3) p by (auto simp: as_private_def)
    then show ?thesis using kf that(4) by blast
  qed
  have am: "aspace_inv (s\<lparr>mm := ?m\<rparr>) T \<and> aspace_bound (s\<lparr>mm := ?m\<rparr>) oid q = aspace_bound s oid q \<and>
      (aspace_bound s oid q \<longrightarrow> as_root_phys (s\<lparr>mm := ?m\<rparr>) q = as_root_phys s q)"
    by (intro conjI impI; rule aspace_inv_mm [OF inv _ pt _ same]) (use kf in blast)+
  then show "aspace_inv (s\<lparr>mm := ?m\<rparr>) T" "aspace_bound (s\<lparr>mm := ?m\<rparr>) oid q = aspace_bound s oid q"
    "aspace_bound s oid q \<Longrightarrow> as_root_phys (s\<lparr>mm := ?m\<rparr>) q = as_root_phys s q" by blast+
qed

text \<open>Address spaces persist: a step that only adds.\<close>

definition as_ext :: "'a aspace_state_scheme \<Rightarrow> ghost \<Rightarrow> 'a aspace_state_scheme \<Rightarrow> ghost \<Rightarrow> bool" where
  "as_ext s T s' T' \<longleftrightarrow> aspace_inv s' T' \<and> (\<forall>p x. T p = Some x \<longrightarrow> T' p = Some x) \<and>
     (\<forall>c p. lookup_aspace s c SCDK_RIGHT_READ = Inr p \<longrightarrow>
        lookup_aspace s' c SCDK_RIGHT_READ = Inr p \<and> as_root_phys s' p = as_root_phys s p) \<and>
     (\<forall>root u. T root = Some (root, []) \<longrightarrow> unat u < 2 ^ 47 \<longrightarrow>
        scdk_vmm_virt_to_phys_in_root (mm s') root u = scdk_vmm_virt_to_phys_in_root (mm s) root u)"

lemma as_extD:
  assumes "as_ext s T s' T'"
  shows "aspace_inv s' T'" and "T p = Some x \<Longrightarrow> T' p = Some x"
    and "lookup_aspace s c SCDK_RIGHT_READ = Inr q \<Longrightarrow> lookup_aspace s' c SCDK_RIGHT_READ = Inr q"
    and "lookup_aspace s c SCDK_RIGHT_READ = Inr q \<Longrightarrow> as_root_phys s' q = as_root_phys s q"
    and "T root = Some (root, []) \<Longrightarrow> unat u < 2 ^ 47 \<Longrightarrow>
      scdk_vmm_virt_to_phys_in_root (mm s') root u = scdk_vmm_virt_to_phys_in_root (mm s) root u"
  using assms unfolding as_ext_def by blast+

lemma as_extI:
  assumes "aspace_inv s' T'" and "\<And>p x. T p = Some x \<Longrightarrow> T' p = Some x"
    and "\<And>c q. lookup_aspace s c SCDK_RIGHT_READ = Inr q \<Longrightarrow>
      lookup_aspace s' c SCDK_RIGHT_READ = Inr q \<and> as_root_phys s' q = as_root_phys s q"
    and "\<And>root u. T root = Some (root, []) \<Longrightarrow> unat u < 2 ^ 47 \<Longrightarrow>
      scdk_vmm_virt_to_phys_in_root (mm s') root u = scdk_vmm_virt_to_phys_in_root (mm s) root u"
  shows "as_ext s T s' T'"
  using assms unfolding as_ext_def by blast

lemma as_ext_trans:
  assumes 1: "as_ext s T s1 T1" and 2: "as_ext s1 T1 s2 T2"
  shows "as_ext s T s2 T2"
proof (rule as_extI)
  show "aspace_inv s2 T2" by (rule as_extD(1) [OF 2])
  show "T2 p = Some x" if "T p = Some x" for p x by (rule as_extD(2) [OF 2 as_extD(2) [OF 1 that]])
  show "lookup_aspace s2 c SCDK_RIGHT_READ = Inr q \<and> as_root_phys s2 q = as_root_phys s q"
    if l: "lookup_aspace s c SCDK_RIGHT_READ = Inr q" for c q
    using as_extD(3,4) [OF 2 as_extD(3) [OF 1 l]] as_extD(4) [OF 1 l] by simp
  show "scdk_vmm_virt_to_phys_in_root (mm s2) root u = scdk_vmm_virt_to_phys_in_root (mm s) root u"
    if r: "T root = Some (root, [])" "unat u < 2 ^ 47" for root u
    using as_extD(5) [OF 1 r] as_extD(5) [OF 2 as_extD(2) [OF 1 r(1)] r(2)] by simp
qed

lemma aspace_bound_root: "aspace_inv s T \<Longrightarrow> aspace_bound s oid p \<Longrightarrow> T (as_root_phys s p) = Some (as_root_phys s p, [])"
  unfolding aspace_inv_def by blast

lemma as_ext_translate:
  assumes x: "as_ext s T s' T'" and inv: "aspace_inv s T" and l: "lookup_aspace s c SCDK_RIGHT_READ = Inr p"
  shows "scdk_address_space_translate s' c u = scdk_address_space_translate s c u"
proof (rule translate_eq)
  show "lookup_aspace s' c SCDK_RIGHT_READ = lookup_aspace s c SCDK_RIGHT_READ" using l as_extD(3) [OF x l] by simp
  fix q assume q: "lookup_aspace s c SCDK_RIGHT_READ = Inr q" "unat u < 2 ^ 47"
  obtain e where b: "scdk_cap_check s c SCDK_RIGHT_READ SCDK_OBJ_ADDRESS_SPACE = Inr e" "aspace_bound s (ce_object_id e) q"
    by (rule aspace_lookup_bound [OF q(1)])
  from as_extD(5) [OF x aspace_bound_root [OF inv b(2)] q(2)] as_extD(4) [OF x q(1)]
  show "scdk_vmm_virt_to_phys_in_root (mm s') (as_root_phys s' q) u = scdk_vmm_virt_to_phys_in_root (mm s) (as_root_phys s q) u"
    by simp
qed

lemma bound_lookup:
  assumes "scdk_cap_check s c r SCDK_OBJ_ADDRESS_SPACE = Inr e" and "aspace_bound s (ce_object_id e) p" and "p \<noteq> 0"
  shows "lookup_aspace s c r = Inr p"
  using assms by (auto simp: lookup_aspace_Inr aspace_bound_def)

lemma as_ext_intro:
  assumes "aspace_inv s' T'" and "\<forall>p x. T p = Some x \<longrightarrow> T' p = Some x"
    and cap: "\<And>c e. scdk_cap_check s c SCDK_RIGHT_READ SCDK_OBJ_ADDRESS_SPACE = Inr e \<Longrightarrow>
      scdk_cap_check s' c SCDK_RIGHT_READ SCDK_OBJ_ADDRESS_SPACE = Inr e"
    and bd: "\<And>oid p. aspace_bound s oid p \<Longrightarrow> aspace_bound s' oid p \<and> as_root_phys s' p = as_root_phys s p"
    and "\<And>root u. T root = Some (root, []) \<Longrightarrow> unat u < 2 ^ 47 \<Longrightarrow>
        scdk_vmm_virt_to_phys_in_root (mm s') root u = scdk_vmm_virt_to_phys_in_root (mm s) root u"
  shows "as_ext s T s' T'"
proof -
  have "lookup_aspace s' c SCDK_RIGHT_READ = Inr p \<and> as_root_phys s' p = as_root_phys s p"
    if l: "lookup_aspace s c SCDK_RIGHT_READ = Inr p" for c p
  proof -
    obtain e where e: "scdk_cap_check s c SCDK_RIGHT_READ SCDK_OBJ_ADDRESS_SPACE = Inr e" "aspace_bound s (ce_object_id e) p"
      by (rule aspace_lookup_bound [OF l])
    have "p \<noteq> 0" using l by (auto simp: lookup_aspace_Inr)
    from bound_lookup [OF cap [OF e(1)] _ this] bd [OF e(2)] show ?thesis by blast
  qed
  with assms(1,2,5) show ?thesis by (intro as_extI) blast+
qed

lemma cap_check_keep:
  assumes "cap_inv s" and "scdk_cap_check s c q ty = Inr e"
  shows "scdk_cap_create s oid rights = (r, s') \<Longrightarrow> scdk_cap_check s' c q ty = Inr e"
    and "scdk_object_create s type core flags pay = (ro, s') \<Longrightarrow> scdk_cap_check s' c q ty = Inr e"
proof -
  have l: "scdk_cap_lookup s c = Inr e" using assms(2) by (simp add: cap_check_Inr)
  show "scdk_cap_check s' c q ty = Inr e" if cc: "scdk_cap_create s oid rights = (r, s')"
  proof (cases r)
    case (Inl x)
    then show ?thesis using cap_create_refused cc assms(2) by blast
  next
    case (Inr cap)
    then have "c \<noteq> cap" using cap_create_fresh cc l by fastforce
    then have "res_opt (scdk_cap_lookup s' c) = Some e" using cap_create_other [OF assms(1)] cc Inr l by fastforce
    then show ?thesis using assms(2) by (simp add: cap_check_Inr)
  qed
  show "scdk_cap_check s' c q ty = Inr e" if "scdk_object_create s type core flags pay = (ro, s')"
    using object_create_cap_lookup [OF assms(1) that] assms(2) by (simp add: cap_check_Inr)
qed

lemma heap_same_create_root:
  assumes "scdk_vmm_create_root m = (r, m')"
  shows "heap_same m m'"
proof -
  have ck: "heap_same x (copy_kernel_half x new cur is)" for x :: "'a heap_state_scheme" and new cur "is"
  proof (induction "is" arbitrary: x)
    case (Cons i "is")
    from heap_same_trans [OF heap_same_pte(1) Cons.IH] show ?case by simp
  qed simp
  obtain a m1 where a: "scdk_page_alloc m = (a, m1)" by fastforce
  have "heap_same m (copy_kernel_half (zero_page m1 root) root (active_cr3_phys m1) kernel_half)" for root
    by (rule heap_same_trans [OF heap_same_trans [OF heap_same_alloc [OF a] heap_same_pte(2)] ck])
  with assms a heap_same_alloc [OF a] show ?thesis by (auto simp: scdk_vmm_create_root_def split: if_splits sum.splits)
qed

lemma create_root_managed:
  assumes "pt_inv m T" and "scdk_vmm_create_root m = (Inr root, m')"
  shows "root \<in> managed m' - set (stack_pages m')" "root \<in> managed m"
proof -
  obtain m1 where a: "scdk_page_alloc m = (Inr root, m1)"
    and m': "m' = copy_kernel_half (zero_page m1 root) root (active_cr3_phys m1) kernel_half"
    using assms(2) by (auto simp: scdk_vmm_create_root_def split: if_splits prod.splits sum.splits)
  have i: "pmm_inv m" using assms(1) by (simp add: pt_inv_def)
  note fr = alloc_fresh [OF assms(1) a]
  note ck = copy_kernel_half_frame [OF fr(2) kernel_half_range]
  show "root \<in> managed m' - set (stack_pages m')" unfolding m' ck(2) ck(3) using pages.alloc_ok [OF i a] by auto
  show "root \<in> managed m" using pages.alloc_ok [OF i a] i by (auto simp: pmm_inv_def)
qed

lemma pt_inv_path0: "pt_inv s T \<Longrightarrow> T p = Some (r, path) \<Longrightarrow> path = [] \<Longrightarrow> p = r"
  unfolding pt_inv_def by blast

lemma pt_inv_intro:
  assumes "pmm_inv s" and "\<forall>p\<in>managed s. unat p < 2 ^ 52"
    and "\<And>p r path. T p = Some (r, path) \<Longrightarrow>
      4096 dvd unat p \<and> unat p < 2 ^ 52 \<and> p \<notin> set (stack_pages s) \<and> (path = [] \<longrightarrow> p = r)"
    and "\<And>p r path i. T p = Some (r, path) \<Longrightarrow> length path < 3 \<Longrightarrow> idx_ok path i \<Longrightarrow>
      pte s p i AND X86_PTE_PRESENT \<noteq> 0 \<Longrightarrow> pte s p i AND X86_PTE_HUGE = 0 \<Longrightarrow>
      T (pte s p i AND X86_PTE_ADDR) = Some (r, path @ [i])"
  shows "pt_inv s T"
  unfolding pt_inv_def using assms by blast

lemma pt_inv_free_root:
  assumes inv: "pt_inv m (T(root \<mapsto> (root, [])))" and n: "T root = None" and r: "root \<in> managed m - set (stack_pages m)"
    and f: "scdk_page_free m root = (st, m')"
  shows "pt_inv m' T"
proof -
  have i: "pmm_inv m" using inv by (simp add: pt_inv_def)
  note ro = pages.release_ok [OF i r f]
  have pm: "pte m' = pte m" "usable_regions m' = usable_regions m" "reserved_regions m' = reserved_regions m"
    using f by (auto simp: fun_eq_iff pte_def scdk_page_free_def split: if_splits)
  have mg: "managed m' = managed m" by (rule managed_frame) (simp_all add: pm)
  show ?thesis
  proof (rule pt_inv_intro)
    show "pmm_inv m'" "\<forall>p\<in>managed m'. unat p < 2 ^ 52" using ro inv by (auto simp: pt_inv_def mg)
    fix p q path assume t: "T p = Some (q, path)"
    have pr: "p \<noteq> root" using t n by auto
    have t': "(T(root \<mapsto> (root, []))) p = Some (q, path)" using t pr by simp
    show "4096 dvd unat p \<and> unat p < 2 ^ 52 \<and> p \<notin> set (stack_pages m') \<and> (path = [] \<longrightarrow> p = q)"
      using pt_inv_page [OF inv t'] pt_inv_path0 [OF inv t'] ro pr by simp
    fix j assume j: "length path < 3" "idx_ok path j" "pte m' p j AND X86_PTE_PRESENT \<noteq> 0" "pte m' p j AND X86_PTE_HUGE = 0"
    from pt_inv_next [OF inv t' j [unfolded pm(1)]]
    show "T (pte m' p j AND X86_PTE_ADDR) = Some (q, path @ [j])" unfolding pm(1) by (auto split: if_splits)
  qed
qed

lemma heap_same_page_free: "scdk_page_free m p = (r, m') \<Longrightarrow> heap_same m m'"
  using heap_same_free [of m p] by simp

text \<open>The stages of \<^verbatim>\<open>scdk_address_space_create\<close>.\<close>

lemma stage_storage:
  assumes inv: "aspace_inv s T" and room: "find_free_block (mm s) 32 \<noteq> 0"
    and st: "scdk_alloc_object_storage (mm s) SCDK_OBJ_ADDRESS_SPACE 24 = (p, m)"
  shows "as_ext s T (s\<lparr>mm := m\<rparr>) T"
proof (rule as_ext_intro)
  show "aspace_inv (s\<lparr>mm := m\<rparr>) T" by (rule storage_private(1) [OF assms])
  show "aspace_bound (s\<lparr>mm := m\<rparr>) oid q \<and> as_root_phys (s\<lparr>mm := m\<rparr>) q = as_root_phys s q" if "aspace_bound s oid q" for oid q
    using storage_private(4,5) [OF assms] that by blast
  show "scdk_vmm_virt_to_phys_in_root (mm (s\<lparr>mm := m\<rparr>)) root u = scdk_vmm_virt_to_phys_in_root (mm s) root u" for root u
    using vmm_same_pt(2) [OF storage_private(3) [OF assms]] by simp
qed simp_all

lemma stage_free:
  assumes inv: "aspace_inv s T" and p: "as_private s p n"
  shows "as_ext s T (s\<lparr>mm := scdk_kfree (mm s) p\<rparr>) T"
proof (rule as_ext_intro)
  show "aspace_inv (s\<lparr>mm := scdk_kfree (mm s) p\<rparr>) T" by (rule private_free(1) [OF assms])
  show "aspace_bound (s\<lparr>mm := scdk_kfree (mm s) p\<rparr>) oid q \<and> as_root_phys (s\<lparr>mm := scdk_kfree (mm s) p\<rparr>) q = as_root_phys s q"
    if "aspace_bound s oid q" for oid q
    using private_free(2,3) [OF assms] that by blast
  show "scdk_vmm_virt_to_phys_in_root (mm (s\<lparr>mm := scdk_kfree (mm s) p\<rparr>)) root u = scdk_vmm_virt_to_phys_in_root (mm s) root u" for root u
    using vmm_same_pt(2) [of "mm s" "scdk_kfree (mm s) p"] by simp
qed simp_all

lemma stage_same:
  assumes inv: "aspace_inv s T" and h: "heap_same (mm s) m" and pt: "pt_inv m T'" and T: "\<forall>p x. T p = Some x \<longrightarrow> T' p = Some x"
    and v: "\<And>root u. T root = Some (root, []) \<Longrightarrow> unat u < 2 ^ 47 \<Longrightarrow>
      scdk_vmm_virt_to_phys_in_root m root u = scdk_vmm_virt_to_phys_in_root (mm s) root u"
  shows "as_ext s T (s\<lparr>mm := m\<rparr>) T'"
proof (rule as_extI)
  show "aspace_inv (s\<lparr>mm := m\<rparr>) T'" by (rule aspace_inv_same [OF inv h pt T])
  have hm: "heap_mem m = heap_mem (mm s)" using h by (simp add: heap_same_def)
  show "lookup_aspace (s\<lparr>mm := m\<rparr>) c SCDK_RIGHT_READ = Inr q \<and> as_root_phys (s\<lparr>mm := m\<rparr>) q = as_root_phys s q"
    if "lookup_aspace s c SCDK_RIGHT_READ = Inr q" for c q using that lookup_aspace_mm [OF hm] by simp
qed (use T v in auto)

lemma private_same: "heap_same (mm s) m \<Longrightarrow> as_private (s\<lparr>mm := m\<rparr>) p n = as_private s p n"
  using heap_same_ok(2) [of "mm s" m] by (simp add: as_private_def)

lemma stage_object:
  assumes inv: "aspace_inv s T" and p: "as_private s p n" and root: "T root = Some (root, [])" "root \<noteq> 0"
    and own: "\<And>oid q. aspace_bound s oid q \<Longrightarrow> as_root_phys s q \<noteq> root"
    and o: "scdk_object_create s SCDK_OBJ_ADDRESS_SPACE SCDK_BOOT_CORE 0 (PHeap p) = (Inr oid, s1)"
  shows "as_ext s T (write_aspace p oid root SCDK_BOOT_CORE 0 s1) T"
    "aspace_bound (write_aspace p oid root SCDK_BOOT_CORE 0 s1) oid p"
    "as_root_phys (write_aspace p oid root SCDK_BOOT_CORE 0 s1) p = root"
proof -
  let ?s2 = "write_aspace p oid root SCDK_BOOT_CORE 0 s1"
  have ki: "kern_inv s" "heap_ok (mm s)" "pt_inv (mm s) T" using inv by (simp_all add: aspace_inv_def)
  have pl: "(p, n) \<in> heap_live (mm s)" "24 \<le> unat n" using p by (simp_all add: as_private_def)
  have m1: "mm s1 = mm s" using mm_low_frame(1) [OF o] .
  note w = write_aspace_heap [OF ki(2) pl, of oid root "ucast SCDK_BOOT_CORE OR push_bit 32 (ucast (0 :: u32))"]
  let ?m = "set_cell (set_cell (set_cell (mm s) p oid) (p + 8) root) (p + 16) (ucast SCDK_BOOT_CORE OR push_bit 32 (ucast (0 :: u32)))"
  have s2: "?s2 = s1\<lparr>mm := ?m\<rparr>" by (simp add: write_aspace_def m1)
  have lk: "scdk_object_lookup ?s2 = scdk_object_lookup s1" by (simp add: s2)
  obtain nob where nob: "scdk_object_lookup s1 oid = Inr nob" "obj_type nob = SCDK_OBJ_ADDRESS_SPACE" "obj_payload nob = PHeap p"
    using object_create_look [OF o] by blast
  have oth: "scdk_object_lookup s1 x = scdk_object_lookup s x" if "x \<noteq> oid" for x
    using object_create_other [OF kern_invD(3) [OF ki(1)] o that] .
  have c: "heap_mem ?m q = heap_mem (mm s) q \<and> heap_mem ?m (q + 8) = heap_mem (mm s) (q + 8)"
    if l: "scdk_object_lookup s x = Inr ob" "obj_type ob = SCDK_OBJ_ADDRESS_SPACE" "obj_payload ob = PHeap q" for x ob q
  proof -
    obtain k where k: "(q, k) \<in> heap_live (mm s)" "24 \<le> unat k" using inv l unfolding aspace_inv_def by fastforce
    have "q \<noteq> p" using p l by (auto simp: as_private_def)
    then have "\<forall>x. unat x \<in> span q k \<longrightarrow> heap_mem ?m x = heap_mem (mm s) x" using w(5) k(1) by blast
    from as_cells_same [OF ki(2) k this] show ?thesis by blast
  qed
  have b: "aspace_bound ?s2 x q \<longleftrightarrow> (if x = oid then q = p else aspace_bound s x q)" for x q
  proof (cases "x = oid")
    case True
    then show ?thesis using nob w(3,4) root(2)
      by (auto simp: aspace_bound_def lk s2 as_object_id_def as_root_phys_def)
  next
    case False
    then show ?thesis using c by (auto simp: aspace_bound_def lk oth s2 as_object_id_def as_root_phys_def)
  qed
  have rp: "as_root_phys ?s2 p = root" using w(4) by (simp add: s2 as_root_phys_def)
  have ro: "as_root_phys ?s2 q = as_root_phys s q" if "aspace_bound s x q" for x q
    using that c by (auto simp: aspace_bound_def s2 as_root_phys_def)
  show "aspace_bound ?s2 oid p" by (simp add: b)
  show "as_root_phys ?s2 p = root" by (rule rp)
  have fresh: "\<not> aspace_bound s oid q" for q using object_create_fresh [OF o] by (auto simp: aspace_bound_def)
  have vs: "vmm_same (mm s) ?m" by simp
  have "aspace_inv ?s2 T" unfolding aspace_inv_def
  proof (intro conjI allI impI)
    have "kern_inv s1" using khist_inv [OF kh_object [OF kh_refl o]] ki(1) by simp
    then show "kern_inv ?s2" by (simp add: s2)
    show "heap_ok (mm ?s2)" "pt_inv (mm ?s2) T" using w(1) ki(3) vmm_same_pt(1) [OF vs] by (simp_all add: s2)
    show "\<exists>q k. obj_payload ob = PHeap q \<and> (q, k) \<in> heap_live (mm ?s2) \<and> 24 \<le> unat k"
      if l: "scdk_object_lookup ?s2 x = Inr ob" "obj_type ob = SCDK_OBJ_ADDRESS_SPACE" for x ob
    proof (cases "x = oid")
      case True
      then show ?thesis using l nob pl w(2) by (auto simp: lk s2)
    next
      case False
      then show ?thesis using l inv oth w(2) unfolding aspace_inv_def by (simp add: lk s2)
    qed
    show "T (as_root_phys ?s2 q) = Some (as_root_phys ?s2 q, [])" if "aspace_bound ?s2 x q" for x q
      using that rp root(1) ro aspace_bound_root [OF inv] by (cases "x = oid") (auto simp: b)
    show "x = y" if "aspace_bound ?s2 x q" "aspace_bound ?s2 y r" "as_root_phys ?s2 q = as_root_phys ?s2 r" for x y q r
    proof (cases "x = oid \<or> y = oid")
      case True
      then show ?thesis using that rp own ro by (auto simp: b split: if_splits)
    next
      case False
      then show ?thesis using that ro inv unfolding aspace_inv_def by (simp add: b)
    qed
  qed
  moreover have "scdk_cap_check ?s2 c SCDK_RIGHT_READ SCDK_OBJ_ADDRESS_SPACE = Inr e"
    if "scdk_cap_check s c SCDK_RIGHT_READ SCDK_OBJ_ADDRESS_SPACE = Inr e" for c e
    using cap_check_keep(2) [OF kern_invD(1) [OF ki(1)] that o] by (simp add: s2)
  moreover have "aspace_bound ?s2 x q \<and> as_root_phys ?s2 q = as_root_phys s q" if "aspace_bound s x q" for x q
    using that fresh ro by (auto simp: b)
  moreover have "scdk_vmm_virt_to_phys_in_root (mm ?s2) r u = scdk_vmm_virt_to_phys_in_root (mm s) r u" for r u
    using vmm_same_pt(2) [OF vs] by (simp add: s2)
  ultimately show "as_ext s T ?s2 T" by (intro as_ext_intro) auto
qed

lemma stage_cap:
  assumes inv: "aspace_inv s T" and c: "scdk_cap_create s oid rights = (r, s')"
  shows "as_ext s T s' T"
proof (rule as_ext_intro)
  have o: "scdk_object_lookup s' = scdk_object_lookup s" "mm s' = mm s"
    using cap_create_objects(3) [OF c] mm_low_frame(2) [OF c] by simp_all
  then have b: "aspace_bound s' = aspace_bound s" "as_root_phys s' = as_root_phys s"
    by (simp_all add: fun_eq_iff aspace_bound_def as_object_id_def as_root_phys_def)
  have "kern_inv s'" using khist_inv [OF kh_create [OF kh_refl c]] inv by (simp add: aspace_inv_def)
  then show "aspace_inv s' T" using inv unfolding aspace_inv_def by (simp add: o b)
  show "aspace_bound s' x q \<and> as_root_phys s' q = as_root_phys s q" if "aspace_bound s x q" for x q using that by (simp add: b)
  show "scdk_cap_check s' d SCDK_RIGHT_READ SCDK_OBJ_ADDRESS_SPACE = Inr e"
    if "scdk_cap_check s d SCDK_RIGHT_READ SCDK_OBJ_ADDRESS_SPACE = Inr e" for d e
    using cap_check_keep(1) [OF _ that c] inv kern_invD(1) by (auto simp: aspace_inv_def)
  show "scdk_vmm_virt_to_phys_in_root (mm s') root u = scdk_vmm_virt_to_phys_in_root (mm s) root u" for root u by (simp add: o)
qed simp

lemma stage_rollback:
  assumes inv: "aspace_inv s T" and p: "as_private s p n" and cr: "scdk_vmm_create_root (mm s) = (Inr root, m2)"
  shows "as_ext s T (s\<lparr>mm := scdk_kfree (snd (scdk_page_free m2 root)) p\<rparr>) T"
proof -
  have pt: "pt_inv (mm s) T" using inv by (simp add: aspace_inv_def)
  note nr = new_root_empty [OF pt cr]
  obtain st m3 where f: "scdk_page_free m2 root = (st, m3)" by fastforce
  have h: "heap_same (mm s) m3" by (rule heap_same_trans [OF heap_same_create_root [OF cr] heap_same_page_free [OF f]])
  have pt3: "pt_inv m3 T"
    by (rule pt_inv_free_root [of m2 T root, OF _ _ create_root_managed(1) [OF pt cr] f]) (use nr in blast)+
  have f3: "phys_mem m3 = phys_mem m2" "vmm_initialized m3 = vmm_initialized m2"
    using f by (auto simp: scdk_page_free_def split: if_splits)
  have "leaf_entry m3 t path = leaf_entry m2 t path" for t path
  proof (induction path arbitrary: t)
    case (Cons i path)
    then show ?case by (cases path) (simp_all add: pte_def f3)
  qed simp
  then have v3: "scdk_vmm_virt_to_phys_in_root m3 r u = scdk_vmm_virt_to_phys_in_root m2 r u" for r u
    by (rule virt_to_phys_cong) (rule f3(2))
  have x: "as_ext s T (s\<lparr>mm := m3\<rparr>) T" by (rule stage_same [OF inv h pt3]) (use nr v3 in auto)
  have "as_private (s\<lparr>mm := m3\<rparr>) p n" using private_same [OF h] p by simp
  from as_ext_trans [OF x stage_free [OF as_extD(1) [OF x] this]] f show ?thesis by simp
qed

lemma stage_root:
  assumes inv: "aspace_inv s T" and p: "as_private s p n" and cr: "scdk_vmm_create_root (mm s) = (Inr root, m2)"
  defines "T' \<equiv> T(root \<mapsto> (root, []))"
  shows "as_ext s T (s\<lparr>mm := m2\<rparr>) T'" "as_private (s\<lparr>mm := m2\<rparr>) p n" "T' root = Some (root, [])"
    "aspace_bound (s\<lparr>mm := m2\<rparr>) oid q \<Longrightarrow> as_root_phys (s\<lparr>mm := m2\<rparr>) q \<noteq> root"
    "unat u < 2 ^ 47 \<Longrightarrow> leaf_entry m2 root (full_path u) = Inl SCDK_ERR_NOENT"
proof -
  have pt: "pt_inv (mm s) T" using inv by (simp add: aspace_inv_def)
  note nr = new_root_empty [OF pt cr]
  note h = heap_same_create_root [OF cr]
  have hm: "heap_mem m2 = heap_mem (mm s)" using h by (simp add: heap_same_def)
  show "as_ext s T (s\<lparr>mm := m2\<rparr>) T'" by (rule stage_same [OF inv h]) (use nr in \<open>auto simp: T'_def\<close>)
  show "as_private (s\<lparr>mm := m2\<rparr>) p n" using private_same [OF h] p by simp
  show "T' root = Some (root, [])" by (simp add: T'_def)
  show "as_root_phys (s\<lparr>mm := m2\<rparr>) q \<noteq> root" if "aspace_bound (s\<lparr>mm := m2\<rparr>) oid q"
  proof -
    have "aspace_bound s oid q" "as_root_phys (s\<lparr>mm := m2\<rparr>) q = as_root_phys s q"
      using that by (simp_all add: aspace_bound_def as_object_id_def as_root_phys_def hm)
    then show ?thesis using aspace_bound_root [OF inv] nr by auto
  qed
  show "unat u < 2 ^ 47 \<Longrightarrow> leaf_entry m2 root (full_path u) = Inl SCDK_ERR_NOENT" using nr by blast
qed

lemma stage_new:
  assumes inv: "aspace_inv s T" and p: "as_private s p n" and cr: "scdk_vmm_create_root (mm s) = (Inr root, m2)" and "root \<noteq> 0"
    and o: "scdk_object_create (s\<lparr>mm := m2\<rparr>) SCDK_OBJ_ADDRESS_SPACE SCDK_BOOT_CORE 0 (PHeap p) = (Inr oid, s1)"
    and c: "scdk_cap_create (write_aspace p oid root SCDK_BOOT_CORE 0 s1) oid
        (SCDK_RIGHT_READ OR SCDK_RIGHT_WRITE OR SCDK_RIGHT_MAP OR SCDK_RIGHT_BIND) = (r, s')"
  shows "\<exists>T'. as_ext s T s' T' \<and>
    (\<forall>cap. r = Inr cap \<longrightarrow> (\<exists>p. lookup_aspace s' cap SCDK_RIGHT_READ = Inr p \<and>
      (\<forall>u. unat u < 2 ^ 47 \<longrightarrow> leaf_entry (mm s') (as_root_phys s' p) (full_path u) = Inl SCDK_ERR_NOENT)))"
proof -
  let ?T' = "T(root \<mapsto> (root, []))" and ?s2 = "write_aspace p oid root SCDK_BOOT_CORE 0 s1"
  note sr = stage_root [OF inv p cr]
  have own: "as_root_phys (s\<lparr>mm := m2\<rparr>) q \<noteq> root" if "aspace_bound (s\<lparr>mm := m2\<rparr>) x q" for x q by (rule sr(4) [OF that])
  have so: "as_ext (s\<lparr>mm := m2\<rparr>) ?T' ?s2 ?T'" "aspace_bound ?s2 oid p" "as_root_phys ?s2 p = root"
    by (rule stage_object [OF as_extD(1) [OF sr(1)] sr(2,3) \<open>root \<noteq> 0\<close> _ o]; erule own)+
  note x = as_ext_trans [OF as_ext_trans [OF sr(1) so(1)] stage_cap [OF as_extD(1) [OF so(1)] c]]
  have "\<exists>p. lookup_aspace s' cap SCDK_RIGHT_READ = Inr p \<and>
      (\<forall>u. unat u < 2 ^ 47 \<longrightarrow> leaf_entry (mm s') (as_root_phys s' p) (full_path u) = Inl SCDK_ERR_NOENT)" if r: "r = Inr cap" for cap
  proof -
    have i2: "kern_inv ?s2" using as_extD(1) [OF so(1)] by (simp add: aspace_inv_def)
    obtain ob where ob: "scdk_object_lookup ?s2 oid = Inr ob" "obj_type ob = SCDK_OBJ_ADDRESS_SPACE"
      using so(2) by (auto simp: aspace_bound_def)
    have rr: "(SCDK_RIGHT_READ OR SCDK_RIGHT_WRITE OR SCDK_RIGHT_MAP OR SCDK_RIGHT_BIND) AND SCDK_RIGHT_READ = SCDK_RIGHT_READ" "SCDK_RIGHT_READ \<noteq> 0"
      by (simp_all add: kconst)
    obtain e where e: "scdk_cap_check s' cap SCDK_RIGHT_READ SCDK_OBJ_ADDRESS_SPACE = Inr e" "ce_object_id e = oid"
      using cap_create_check [OF kern_invD(1) [OF i2] c [unfolded r] ob(1) rr(2,1) ob(2)] by blast
    have f: "scdk_object_lookup s' = scdk_object_lookup ?s2" "mm s' = mm ?s2"
      using cap_create_objects(3) [OF c] mm_low_frame(2) [OF c] by simp_all
    have b: "aspace_bound s' oid p" and rp: "as_root_phys s' p = root"
      using so(2,3) by (simp_all add: aspace_bound_def as_object_id_def as_root_phys_def f)
    have "p \<noteq> 0" using heap_live_span(2) p inv by (auto simp: as_private_def aspace_inv_def)
    then have "lookup_aspace s' cap SCDK_RIGHT_READ = Inr p" using bound_lookup [OF e(1)] b e(2) by simp
    moreover have "leaf_entry (mm s') root (full_path u) = leaf_entry m2 root (full_path u)" for u
    proof -
      have "phys_mem (mm s') = phys_mem m2"
        using mm_low_frame(1) [OF o] by (simp add: f write_aspace_def set_cell_def)
      then have "pte (mm s') = pte m2" by (simp add: fun_eq_iff pte_def)
      then have "leaf_entry (mm s') t path = leaf_entry m2 t path" for t path
      proof (induction path arbitrary: t)
        case (Cons i path)
        then show ?case by (cases path) simp_all
      qed simp
      then show ?thesis .
    qed
    ultimately show ?thesis using sr(5) rp by (intro exI [of _ p]) simp
  qed
  with x show ?thesis by blast
qed

lemma aspace_create_ext:
  assumes inv: "aspace_inv s T" and room: "find_free_block (mm s) 32 \<noteq> 0" and nz: "0 \<notin> managed (mm s)"
    and c: "scdk_address_space_create s = (r, s')"
  shows "\<exists>T'. as_ext s T s' T' \<and>
    (\<forall>cap. r = Inr cap \<longrightarrow> (\<exists>p. lookup_aspace s' cap SCDK_RIGHT_READ = Inr p \<and>
      (\<forall>u. unat u < 2 ^ 47 \<longrightarrow> leaf_entry (mm s') (as_root_phys s' p) (full_path u) = Inl SCDK_ERR_NOENT)))"
proof -
  obtain p m1 where st: "scdk_alloc_object_storage (mm s) SCDK_OBJ_ADDRESS_SPACE 24 = (p, m1)" by fastforce
  let ?s1 = "s\<lparr>mm := m1\<rparr>"
  note x1 = stage_storage [OF inv room st]
  note i1 = as_extD(1) [OF x1]
  show ?thesis
  proof (cases "p = 0")
    case True
    then have "r = Inl SCDK_ERR_NOMEM" "s' = ?s1" using c st by (simp_all add: scdk_address_space_create_def)
    then show ?thesis using x1 by auto
  next
    case False
    obtain n where pn: "as_private ?s1 p n" using storage_private(2) [OF inv room st False] by blast
    obtain rr m2 where cr: "scdk_vmm_create_root m1 = (rr, m2)" by fastforce
    have pt1: "pt_inv m1 T" using i1 by (simp add: aspace_inv_def)
    show ?thesis
    proof (cases rr)
      case (Inl e)
      have m2: "m2 = m1" using cr Inl pages.alloc_err pt1
        by (auto simp: scdk_vmm_create_root_def pt_inv_def split: if_splits prod.splits sum.splits)
      have "r = Inl e" "s' = ?s1\<lparr>mm := scdk_kfree (mm ?s1) p\<rparr>"
        using c st False cr Inl by (simp_all add: scdk_address_space_create_def m2)
      then show ?thesis using as_ext_trans [OF x1 stage_free [OF i1 pn]] by auto
    next
      case (Inr root)
      then have cr': "scdk_vmm_create_root (mm ?s1) = (Inr root, m2)" using cr by simp
      have "managed m1 = managed (mm s)"
        by (rule managed_frame) (use storage_private(3) [OF inv room st] in \<open>simp_all add: vmm_same_def\<close>)
      then have r0: "root \<noteq> 0" using create_root_managed(2) [OF pt1] cr Inr nz by auto
      obtain ro s1 where o: "scdk_object_create (s\<lparr>mm := m2\<rparr>) SCDK_OBJ_ADDRESS_SPACE SCDK_BOOT_CORE 0 (PHeap p) = (ro, s1)" by fastforce
      show ?thesis
      proof (cases ro)
        case l: (Inl e)
        then have "s1 = s\<lparr>mm := m2\<rparr>" using object_create_refused o by blast
        then have "r = Inl e" "s' = ?s1\<lparr>mm := scdk_kfree (snd (scdk_page_free m2 root)) p\<rparr>"
          using c st False cr Inr o l by (simp_all add: scdk_address_space_create_def)
        then show ?thesis using as_ext_trans [OF x1 stage_rollback [OF i1 pn cr']] by auto
      next
        case (Inr oid)
        obtain rc s3 where cc: "scdk_cap_create (write_aspace p oid root SCDK_BOOT_CORE 0 s1) oid
            (SCDK_RIGHT_READ OR SCDK_RIGHT_WRITE OR SCDK_RIGHT_MAP OR SCDK_RIGHT_BIND) = (rc, s3)" by fastforce
        have rs: "r = rc" "s' = s3" using c st False cr \<open>rr = Inr root\<close> o Inr cc
          by (auto simp: scdk_address_space_create_def split: sum.splits)
        have o': "scdk_object_create (?s1\<lparr>mm := m2\<rparr>) SCDK_OBJ_ADDRESS_SPACE SCDK_BOOT_CORE 0 (PHeap p) = (Inr oid, s1)"
          using o Inr by simp
        from stage_new [OF i1 pn cr' r0 o' cc] as_ext_trans [OF x1] show ?thesis unfolding rs by blast
      qed
    qed
  qed
qed

section \<open>A concrete system\<close>

definition as_demo_mm :: heap_state where
  "as_demo_mm = snd (scdk_pmm_init heap_demo (map Some machine_map))"

definition as_demo :: aspace_state where
  "as_demo = grant_state.extend grant_boot \<lparr>mm = as_demo_mm\<rparr>"

lemma collect_heap_frame:
  "collect_usable_region s a b = (r, s') \<Longrightarrow> heap_same s s' \<and> vmm_initialized s' = vmm_initialized s"
  by (induction s a b arbitrary: r s' rule: collect_usable_region.induct)
    (subst (asm) collect_usable_region.simps, auto simp: heap_same_def split: if_splits)

lemma init_heap_frame: "heap_same s (pmm_init_loop s es) \<and> vmm_initialized (pmm_init_loop s es) = vmm_initialized s"
proof (induction es arbitrary: s)
  case (Cons e es)
  obtain b s1 where p: "pmm_init_entry s e = (b, s1)" by fastforce
  have "heap_same s s1 \<and> vmm_initialized s1 = vmm_initialized s"
    using p collect_heap_frame [unfolded heap_same_def] unfolding heap_same_def
    by (fastforce simp: pmm_init_entry_def Let_def split: option.splits if_splits prod.splits)
  with Cons p show ?case by (cases b) (auto simp: heap_same_def)
qed simp

lemma as_demo_mm_inv:
  "pt_inv as_demo_mm Map.empty" "vmm_initialized as_demo_mm" "0x2000 \<in> set (stack_pages as_demo_mm)" "0 \<notin> managed as_demo_mm"
  "heap_same heap_demo as_demo_mm"
proof -
  obtain s where s: "scdk_pmm_init heap_demo (map Some machine_map) = (SCDK_OK, s)" "pmm_inv s"
    "managed s = {p. \<exists>e\<in>set machine_map. usable_entry e \<and> 4096 dvd unat p \<and> unat (mm_base e) \<le> unat p \<and>
                    unat p + 4096 \<le> unat (mm_base e) + unat (mm_length e)}" "set (stack_pages s) = managed s"
    using pmm_init_ok [OF machine_map_ok, of heap_demo] by blast
  then have d: "as_demo_mm = s" by (simp add: as_demo_mm_def)
  show "pt_inv as_demo_mm Map.empty" using s(2,3) by (auto simp: d pt_inv_def machine_map_def)
  show "0x2000 \<in> set (stack_pages as_demo_mm)" using s(3,4) by (simp add: d machine_map_def usable_entry_def kconst)
  show "0 \<notin> managed as_demo_mm" using s(3) by (simp add: d machine_map_def usable_entry_def kconst)
  have "vmm_initialized heap_demo" by (simp add: heap_demo_def vmm_boot_def pmm_state.defs vmm_state.defs heap_state.defs)
  then show "vmm_initialized as_demo_mm" "heap_same heap_demo as_demo_mm"
    using s(1) init_heap_frame [of "heap_demo\<lparr>free_pages := 0, managed_pages := 0, allocated_pages := 0, usable_regions := [],
        reserved_regions := [], pmm_initialized := False\<rparr>" "map Some machine_map"]
    by (auto simp: d scdk_pmm_init_def Let_def heap_same_def split: if_splits)
qed

text \<open>A system right after boot: no objects and no capabilities yet.\<close>

definition demo_boot :: "'a aspace_state_scheme \<Rightarrow> bool" where
  "demo_boot s \<longleftrightarrow> object_table s = (\<lambda>i. null_object) \<and> object_generations s = (\<lambda>i. 0) \<and> cap_table s = (\<lambda>i. null_cap_entry) \<and>
     cap_generations s = (\<lambda>i. 0) \<and> mm s = as_demo_mm"

lemma as_demo_heap: "heap_inv as_demo_mm [(SCDK_HEAP_BASE, 0x4000 - 48, True)]" "heap_initialized as_demo_mm"
  using heap_inv_same [OF as_demo_mm_inv(5)] heap_demo_inv as_demo_mm_inv(5)
  by (simp_all add: heap_same_def heap_demo_def vmm_state.defs heap_state.defs)

lemma as_demo_fit: "find_free_block as_demo_mm 32 = SCDK_HEAP_BASE"
  unfolding find_free_block_first_fit [OF as_demo_heap(1)] by (simp add: first_fit_def)

lemma demo_boot_inv:
  assumes "demo_boot s"
  shows "aspace_inv s Map.empty" "find_free_block (mm s) 32 \<noteq> 0" "0 \<notin> managed (mm s)"
proof -
  note b = assms [unfolded demo_boot_def]
  have l: "scdk_object_lookup s x \<noteq> Inr ob" for x ob
    using b by (auto simp: scdk_object_lookup_def null_object_def Let_def split: if_splits)
  have "kern_inv s"
    using l b by (auto simp: kern_inv_def cap_inv_def obj_inv_def objs_ok_def cap_live_def null_cap_entry_def null_object_def)
  moreover have "heap_ok as_demo_mm" using heap_same_ok(1) [OF as_demo_mm_inv(5)] heap_demo_ok(1) by simp
  ultimately show "aspace_inv s Map.empty"
    using as_demo_mm_inv(1) l b by (simp add: aspace_inv_def aspace_bound_def)
  show "find_free_block (mm s) 32 \<noteq> 0" using as_demo_fit b by (simp add: kconst)
  show "0 \<notin> managed (mm s)" using as_demo_mm_inv(4) b by simp
qed

text \<open>The block list after the structure of an address space is taken from the free block.\<close>

definition demo_blocks :: "blk list" where
  "demo_blocks = [(SCDK_HEAP_BASE, 32, False), (SCDK_HEAP_BASE + 80, 0x4000 - 128, True)]"

lemma demo_storage:
  assumes "scdk_alloc_object_storage as_demo_mm SCDK_OBJ_ADDRESS_SPACE 24 = (p, m)"
  shows "p = SCDK_HEAP_BASE + 48" "heap_inv m demo_blocks"
proof -
  let ?m0 = "set_free (block_split as_demo_mm SCDK_HEAP_BASE 32) SCDK_HEAP_BASE False"
  have k: "scdk_kalloc as_demo_mm 24 = (SCDK_HEAP_BASE + 48, ?m0)"
    using as_demo_heap(2) as_demo_fit
    by (simp add: scdk_kalloc_def align_up_size_def Let_def take_block_def block_payload_def kconst)
  then have m: "p = SCDK_HEAP_BASE + 48" "m = ?m0\<lparr>heap_mem := memset_zero (heap_mem ?m0) p 24\<rparr>"
    using assms by (auto simp: scdk_alloc_object_storage_def scdk_kzalloc_def kconst split: if_splits)
  have "heap_inv (block_split as_demo_mm SCDK_HEAP_BASE 32) ([] @ (SCDK_HEAP_BASE, 32, True) # [(SCDK_HEAP_BASE + 80, 0x4000 - 128, True)])"
    using split_inv [of as_demo_mm "[]" SCDK_HEAP_BASE "0x4000 - 48" True "[]" 32] as_demo_heap(1) by (simp add: kconst)
  from set_free_inv [OF this, of False] have h: "heap_inv ?m0 demo_blocks" by (simp add: demo_blocks_def)
  show "p = SCDK_HEAP_BASE + 48" by (rule m(1))
  show "heap_inv m demo_blocks" unfolding m(2)
    by (rule heap_write_live [OF h, of SCDK_HEAP_BASE 32])
      (simp add: demo_blocks_def, rule memset_outside, simp_all add: m(1) kconst, linarith)
qed

lemma demo_boot_create:
  assumes "demo_boot s"
  obtains cap s' where "scdk_address_space_create s = (Inr cap, s')" "find_free_block (mm s') SCDK_PAGE_SIZE \<noteq> 0"
proof -
  note b = assms [unfolded demo_boot_def] and inv = demo_boot_inv [OF assms]
  have m: "mm s = as_demo_mm" using b by blast
  obtain p m1 where st: "scdk_alloc_object_storage as_demo_mm SCDK_OBJ_ADDRESS_SPACE 24 = (p, m1)" by fastforce
  note ds = demo_storage [OF st]
  have p0: "p \<noteq> 0" by (simp add: ds(1) kconst)
  have st': "scdk_alloc_object_storage (mm s) SCDK_OBJ_ADDRESS_SPACE 24 = (p, m1)" using st by (simp add: m)
  have vs: "vmm_same as_demo_mm m1" using storage_private(3) [OF inv(1,2) st'] by (simp add: m)
  then have m1: "vmm_initialized m1" "stack_pages m1 = stack_pages as_demo_mm" "pmm_inv m1"
    using as_demo_mm_inv(1,2) vmm_same_pt(1) [OF vs, of Map.empty] by (auto simp: vmm_same_def stack_pages_def pt_inv_def)
  obtain a m2 where a: "scdk_page_alloc m1 = (a, m2)" by fastforce
  obtain root where ar: "a = Inr root" using pages.alloc_err [OF m1(3), of _ m2] a m1(2) as_demo_mm_inv(3) by (cases a) auto
  obtain m3 where cr: "scdk_vmm_create_root m1 = (Inr root, m3)" using a ar m1(1) by (simp add: scdk_vmm_create_root_def)
  obtain s1 where o: "scdk_object_create (s\<lparr>mm := m3\<rparr>) SCDK_OBJ_ADDRESS_SPACE SCDK_BOOT_CORE 0 (PHeap p) = (Inr 0x100000000, s1)"
      and s1: "cap_table s1 = (\<lambda>i. null_cap_entry)" "cap_generations s1 = (\<lambda>i. 0)"
    using b by (simp add: scdk_object_create_def null_object_def first_slot_hit
        next_generation_def bump_generation_def object_make_id_def kconst)
  let ?s2 = "write_aspace p 0x100000000 root SCDK_BOOT_CORE 0 s1"
  obtain ob where "scdk_object_lookup ?s2 0x100000000 = Inr ob"
    using object_create_look [OF o] by (auto simp: write_aspace_def)
  then obtain cap s' where c: "scdk_cap_create ?s2 0x100000000
      (SCDK_RIGHT_READ OR SCDK_RIGHT_WRITE OR SCDK_RIGHT_MAP OR SCDK_RIGHT_BIND) = (Inr cap, s')"
    using s1 by (simp add: scdk_cap_create_def write_aspace_def null_cap_entry_def first_slot_hit kconst
        next_cap_generation_def Let_def)
  then have "scdk_address_space_create s = (Inr cap, s')"
    using st' p0 cr o by (simp add: scdk_address_space_create_def)
  moreover have "heap_inv (mm s') demo_blocks"
  proof -
    have h3: "heap_inv m3 demo_blocks" using heap_inv_same [OF heap_same_create_root [OF cr]] ds(2) by simp
    have "mm s' = mm ?s2" "mm s1 = m3" using mm_low_frame(2) [OF c] mm_low_frame(1) [OF o] by simp_all
    then have e: "mm s' = m3\<lparr>heap_mem := heap_mem (mm ?s2)\<rparr>" by (simp add: write_aspace_def set_cell_def)
    show ?thesis unfolding e
      by (rule heap_write_live [OF h3, of SCDK_HEAP_BASE 32])
        (auto simp: demo_blocks_def ds(1) kconst write_aspace_def set_cell_def \<open>mm s1 = m3\<close>)
  qed
  then have "find_free_block (mm s') SCDK_PAGE_SIZE \<noteq> 0"
    by (simp add: find_free_block_first_fit first_fit_def demo_blocks_def kconst)
  ultimately show thesis by (rule that)
qed

lemma as_demo_boot: "demo_boot as_demo"
  by (simp add: demo_boot_def as_demo_def grant_boot_def grant_state.defs aspace_state.defs)

lemmas as_demo_inv = demo_boot_inv [OF as_demo_boot]

lemma as_demo_create: obtains cap s where "scdk_address_space_create as_demo = (Inr cap, s)"
  by (rule demo_boot_create [OF as_demo_boot])

section \<open>Properties\<close>

lemma map_ext:
  assumes inv: "aspace_inv s T" and m: "scdk_address_space_map s cap v pa flags = (st, s')"
  shows "\<exists>T'. aspace_inv s' T' \<and>
    (st = SCDK_OK \<longrightarrow> scdk_address_space_translate s' cap v = Inr (pa AND X86_PTE_ADDR, flags OR SCDK_VMM_MAP_USER)) \<and>
    (\<forall>c u. st \<noteq> SCDK_OK \<or> page_of u \<noteq> v \<or>
        (\<forall>p q. lookup_aspace s cap SCDK_RIGHT_READ = Inr p \<longrightarrow> lookup_aspace s c SCDK_RIGHT_READ = Inr q \<longrightarrow>
           as_root_phys s p \<noteq> as_root_phys s q) \<longrightarrow>
      scdk_address_space_translate s' c u = scdk_address_space_translate s c u)"
proof (cases "\<exists>p. check_map_rights s cap flags = Inr p \<and> validate_user_page v = SCDK_OK \<and> is_page_aligned pa")
  case False
  then have "s' = s" "st \<noteq> SCDK_OK"
    using m lookup_aspace_Inl_OK by (auto simp: scdk_address_space_map_def check_map_rights_def Let_def split: sum.splits if_splits)
  then show ?thesis using inv by blast
next
  case True
  then obtain p where p: "check_map_rights s cap flags = Inr p" "validate_user_page v = SCDK_OK" "is_page_aligned pa" by blast
  let ?r = "as_root_phys s p"
  note l = map_lookup_read [OF p(1)]
  obtain e where e: "scdk_cap_check s cap SCDK_RIGHT_READ SCDK_OBJ_ADDRESS_SPACE = Inr e" "aspace_bound s (ce_object_id e) p"
    by (rule aspace_lookup_bound [OF l])
  obtain mm' where vm: "scdk_vmm_map_page_in_root (mm s) ?r v pa (flags OR SCDK_VMM_MAP_USER) = (st, mm')" and s': "s' = s\<lparr>mm := mm'\<rparr>"
    using m p by (auto simp: scdk_address_space_map_def split: prod.splits)
  have pt: "pt_inv (mm s) T" using inv by (simp add: aspace_inv_def)
  obtain T' where T': "pt_inv mm' T'" "\<forall>p x. T p = Some x \<longrightarrow> T' p = Some x"
      "st = SCDK_OK \<longrightarrow> scdk_vmm_virt_to_phys_in_root mm' ?r v = Inr (pa AND X86_PTE_ADDR, flags OR SCDK_VMM_MAP_USER)"
      "\<forall>root' u. T root' = Some (root', []) \<longrightarrow> unat u < 2 ^ 47 \<longrightarrow> st \<noteq> SCDK_OK \<or> (root', page_of u) \<noteq> (?r, v) \<longrightarrow>
         scdk_vmm_virt_to_phys_in_root mm' root' u = scdk_vmm_virt_to_phys_in_root (mm s) root' u"
    using map_isolated [OF pt aspace_bound_root [OF inv e(2)] user_page_low [OF p(2)] vm] by blast
  have h: "heap_same (mm s) mm'" using heap_same_map [OF vm] .
  then have hm: "heap_mem mm' = heap_mem (mm s)" by (simp add: heap_same_def)
  note lk = lookup_aspace_mm [OF hm, folded s']
  have tr: "scdk_address_space_translate s' cap v = Inr (pa AND X86_PTE_ADDR, flags OR SCDK_VMM_MAP_USER)" if "st = SCDK_OK"
    by (rule translate_ok [OF _ p(2)]) (use l lk T'(3) that s' in auto)
  have "scdk_address_space_translate s' c u = scdk_address_space_translate s c u"
    if o: "st \<noteq> SCDK_OK \<or> page_of u \<noteq> v \<or> (\<forall>p q. lookup_aspace s cap SCDK_RIGHT_READ = Inr p \<longrightarrow>
      lookup_aspace s c SCDK_RIGHT_READ = Inr q \<longrightarrow> as_root_phys s p \<noteq> as_root_phys s q)" for c u
  proof (rule translate_eq)
    show "lookup_aspace s' c SCDK_RIGHT_READ = lookup_aspace s c SCDK_RIGHT_READ" by (rule lk)
    fix q assume q: "lookup_aspace s c SCDK_RIGHT_READ = Inr q" "unat u < 2 ^ 47"
    obtain e' where e': "scdk_cap_check s c SCDK_RIGHT_READ SCDK_OBJ_ADDRESS_SPACE = Inr e'" "aspace_bound s (ce_object_id e') q"
      by (rule aspace_lookup_bound [OF q(1)])
    have "st \<noteq> SCDK_OK \<or> (as_root_phys s q, page_of u) \<noteq> (?r, v)" using o l q(1) by force
    then show "scdk_vmm_virt_to_phys_in_root (mm s') (as_root_phys s' q) u = scdk_vmm_virt_to_phys_in_root (mm s) (as_root_phys s q) u"
      using T'(4) aspace_bound_root [OF inv e'(2)] q(2) lk by (simp add: s')
  qed
  then show ?thesis using aspace_inv_same [OF inv h T'(1,2)] tr unfolding s' [symmetric] by blast
qed

text \<open>
  (C15) Address spaces are isolated: \<^verbatim>\<open>scdk_address_space_map\<close> through one capability
  keeps every address space well formed with a root of its own. On success the page
  translates to the frame, with the user flag forced; in every other address
  space, designated by a capability for another object, and for every other page,
  nothing changes; on failure nothing changes at all.
\<close>

theorem aspace_map_isolated:
  assumes inv: "aspace_inv s T" and m: "scdk_address_space_map s cap v pa flags = (st, s')"
  shows "\<exists>T'. aspace_inv s' T' \<and>
    (st = SCDK_OK \<longrightarrow> scdk_address_space_translate s' cap v = Inr (pa AND X86_PTE_ADDR, flags OR SCDK_VMM_MAP_USER)) \<and>
    (\<forall>c u e e'. scdk_cap_check s cap SCDK_RIGHT_READ SCDK_OBJ_ADDRESS_SPACE = Inr e \<longrightarrow>
       scdk_cap_check s c SCDK_RIGHT_READ SCDK_OBJ_ADDRESS_SPACE = Inr e' \<longrightarrow>
       st \<noteq> SCDK_OK \<or> page_of u \<noteq> v \<or> ce_object_id e \<noteq> ce_object_id e' \<longrightarrow>
      scdk_address_space_translate s' c u = scdk_address_space_translate s c u)"
proof -
  obtain T' where T': "aspace_inv s' T'"
      "st = SCDK_OK \<longrightarrow> scdk_address_space_translate s' cap v = Inr (pa AND X86_PTE_ADDR, flags OR SCDK_VMM_MAP_USER)"
      "\<forall>c u. st \<noteq> SCDK_OK \<or> page_of u \<noteq> v \<or>
        (\<forall>p q. lookup_aspace s cap SCDK_RIGHT_READ = Inr p \<longrightarrow> lookup_aspace s c SCDK_RIGHT_READ = Inr q \<longrightarrow>
           as_root_phys s p \<noteq> as_root_phys s q) \<longrightarrow>
      scdk_address_space_translate s' c u = scdk_address_space_translate s c u"
    using map_ext [OF assms] by blast
  have "as_root_phys s p \<noteq> as_root_phys s q"
    if e: "scdk_cap_check s cap SCDK_RIGHT_READ SCDK_OBJ_ADDRESS_SPACE = Inr e"
      "scdk_cap_check s c SCDK_RIGHT_READ SCDK_OBJ_ADDRESS_SPACE = Inr e'" "ce_object_id e \<noteq> ce_object_id e'"
      and l: "lookup_aspace s cap SCDK_RIGHT_READ = Inr p" "lookup_aspace s c SCDK_RIGHT_READ = Inr q" for c e e' p q
    using aspace_lookup_bound [OF l(1)] aspace_lookup_bound [OF l(2)] e inv unfolding aspace_inv_def by (metis Inr_inject)
  with T' show ?thesis by blast
qed

lemma as_demo_tracked:
  obtains cap s T p where "scdk_address_space_create as_demo = (Inr cap, s)" "aspace_inv s T"
    "lookup_aspace s cap SCDK_RIGHT_READ = Inr p"
    "\<And>u. unat u < 2 ^ 47 \<Longrightarrow> leaf_entry (mm s) (as_root_phys s p) (full_path u) = Inl SCDK_ERR_NOENT"
proof -
  obtain cap s where c: "scdk_address_space_create as_demo = (Inr cap, s)" by (rule as_demo_create)
  obtain T where T: "as_ext as_demo Map.empty s T" "\<exists>p. lookup_aspace s cap SCDK_RIGHT_READ = Inr p \<and>
      (\<forall>u. unat u < 2 ^ 47 \<longrightarrow> leaf_entry (mm s) (as_root_phys s p) (full_path u) = Inl SCDK_ERR_NOENT)"
    using aspace_create_ext [OF as_demo_inv c] by blast
  from T(2) obtain p where p: "lookup_aspace s cap SCDK_RIGHT_READ = Inr p"
      "\<forall>u. unat u < 2 ^ 47 \<longrightarrow> leaf_entry (mm s) (as_root_phys s p) (full_path u) = Inl SCDK_ERR_NOENT" by blast
  show thesis by (rule that [OF c as_extD(1) [OF T(1)] p(1)]) (use p(2) in blast)
qed

theorem aspace_map_isolated_witness:
  "\<exists>cap s s'. scdk_address_space_create as_demo = (Inr cap, s) \<and>
     s' = snd (scdk_address_space_map s cap 0x400000 0x9000 SCDK_VMM_MAP_WRITE) \<and>
     scdk_address_space_translate s' cap 0x401000 = scdk_address_space_translate s cap 0x401000"
proof -
  obtain cap s T p where c: "scdk_address_space_create as_demo = (Inr cap, s)" "aspace_inv s T"
      "lookup_aspace s cap SCDK_RIGHT_READ = Inr p" by (rule as_demo_tracked)
  obtain e where e: "scdk_cap_check s cap SCDK_RIGHT_READ SCDK_OBJ_ADDRESS_SPACE = Inr e" "aspace_bound s (ce_object_id e) p"
    by (rule aspace_lookup_bound [OF c(3)])
  obtain st s' where m: "scdk_address_space_map s cap 0x400000 0x9000 SCDK_VMM_MAP_WRITE = (st, s')" by fastforce
  have "page_of 0x401000 \<noteq> (0x400000 :: u64)" by (simp add: kconst)
  then have "scdk_address_space_translate s' cap 0x401000 = scdk_address_space_translate s cap 0x401000"
    using aspace_map_isolated [OF c(2) m] e(1) by blast
  then show ?thesis using c(1) m by auto
qed

text \<open>
  (C32) A new address space is empty and apart: whatever \<^verbatim>\<open>scdk_address_space_create\<close>
  returns (with a free heap block for the structure, and page 0 not allocatable), all
  address spaces stay well formed and every existing capability translates as
  before, on the failure paths with their roll-back too; through a capability it
  hands out, no user address translates.
\<close>

theorem aspace_create_isolated:
  assumes "aspace_inv s T" and "find_free_block (mm s) 32 \<noteq> 0" and "0 \<notin> managed (mm s)"
    and "scdk_address_space_create s = (r, s')"
  shows "\<exists>T'. aspace_inv s' T' \<and>
    (\<forall>c u p. lookup_aspace s c SCDK_RIGHT_READ = Inr p \<longrightarrow>
       scdk_address_space_translate s' c u = scdk_address_space_translate s c u) \<and>
    (\<forall>cap u. r = Inr cap \<longrightarrow> (\<forall>x. scdk_address_space_translate s' cap u \<noteq> Inr x))"
proof -
  obtain T' where T': "as_ext s T s' T'"
    "\<forall>cap. r = Inr cap \<longrightarrow> (\<exists>p. lookup_aspace s' cap SCDK_RIGHT_READ = Inr p \<and>
      (\<forall>u. unat u < 2 ^ 47 \<longrightarrow> leaf_entry (mm s') (as_root_phys s' p) (full_path u) = Inl SCDK_ERR_NOENT))"
    using aspace_create_ext [OF assms] by blast
  have "scdk_address_space_translate s' cap u \<noteq> Inr x" if r: "r = Inr cap" for cap u x
  proof -
    obtain p where p: "lookup_aspace s' cap SCDK_RIGHT_READ = Inr p"
      "\<forall>u. unat u < 2 ^ 47 \<longrightarrow> leaf_entry (mm s') (as_root_phys s' p) (full_path u) = Inl SCDK_ERR_NOENT" using T'(2) r by blast
    show ?thesis
      using p user_addr_low [of u] by (auto simp: scdk_address_space_translate_def virt_to_phys_leaf split: if_splits)
  qed
  then show ?thesis using as_extD(1) [OF T'(1)] as_ext_translate [OF T'(1) assms(1)] by blast
qed

theorem aspace_create_isolated_witness:
  "\<exists>cap s. scdk_address_space_create as_demo = (Inr cap, s) \<and> (\<forall>x. scdk_address_space_translate s cap 0x400000 \<noteq> Inr x)"
proof -
  obtain cap s where c: "scdk_address_space_create as_demo = (Inr cap, s)" by (rule as_demo_create)
  with aspace_create_isolated [OF as_demo_inv c] show ?thesis by blast
qed

end
