(* ===== verification/SCDK_Circular.thy ===== *)
theory SCDK_Circular
  imports SCDK_Ring
begin

text \<open>
  Circular buffers with an explicit count: an array of \<open>n\<close> entries, the index of the
  first one and the number in use. The run queue of the scheduler and the key
  queue of the keyboard driver have this shape; the rings of \<^verbatim>\<open>core/ring.c\<close>, whose
  indices run freely, do not.
\<close>

definition cb_items :: "(nat \<Rightarrow> 'a) \<Rightarrow> nat \<Rightarrow> nat \<Rightarrow> nat \<Rightarrow> 'a list" where
  "cb_items st n h c = map (\<lambda>k. st ((h + k) mod n)) [0..<c]"

lemma cb_length [simp]: "length (cb_items st n h c) = c"
  by (simp add: cb_items_def)

lemma cb_empty [simp]: "cb_items st n h c = [] \<longleftrightarrow> c = 0"
  by (simp add: cb_items_def)

lemma cb_push:
  assumes "c < n"
  shows "cb_items (st((h + c) mod n := x)) n h (Suc c) = cb_items st n h c @ [x]"
proof -
  have "(h + k) mod n \<noteq> (h + c) mod n" if "k < c" for k
    using that assms mod_add_inj [of h k n c] by auto
  then show ?thesis by (simp add: cb_items_def)
qed

lemma cb_pop: "cb_items st n h (Suc c) = st (h mod n) # cb_items st n ((h + 1) mod n) c"
proof -
  have "(h + Suc k) mod n = ((h + 1) mod n + k) mod n" for k by (simp add: mod_add_left_eq)
  then show ?thesis unfolding cb_items_def by (simp add: upt_conv_Cons map_Suc_upt [symmetric] comp_def del: upt_Suc)
qed

lemma cb_next_tail: "(t + 1) mod n = (h + Suc c) mod n" if "t = (h + c) mod n" for h c t n :: nat
  using that by (simp add: mod_Suc_eq)

lemma cb_next_head: "((h + 1) mod n + c) mod n = (h + Suc c) mod n" for h c n :: nat
  by (simp add: mod_add_left_eq)

end
