(* ===== verification/SCDK_Scheduler.thy ===== *)
theory SCDK_Scheduler
  imports SCDK_AddressSpace SCDK_Circular
begin

text \<open>
  Tasks, kernel threads and the cooperative scheduler (\<^verbatim>\<open>core/scheduler.c\<close>, with the
  register save of \<^verbatim>\<open>arch/x86_64/context_switch.S\<close>). A pointer to a slot is its index;
  the callee-saved registers of the processor are the field \<open>cpu\<close>. The state after
  \<^verbatim>\<open>scdk_yield\<close> is the one in which the next thread resumes, so the body of
  \<^verbatim>\<open>thread_trampoline\<close> is split at the call of the entry function, and the loop of
  \<^verbatim>\<open>scdk_scheduler_run\<close> into its turns: between two turns the other threads run.
\<close>

section \<open>State\<close>

definition SCDK_KERNEL_STACK_SIZE :: u64 where [kconst]: "SCDK_KERNEL_STACK_SIZE = 16384"

datatype scdk_thread_state =
    SCDK_THREAD_NONE | SCDK_THREAD_NEW | SCDK_THREAD_READY | SCDK_THREAD_RUNNING | SCDK_THREAD_BLOCKED | SCDK_THREAD_DEAD

record scdk_thread_context =
  tc_r15 :: u64
  tc_r14 :: u64
  tc_r13 :: u64
  tc_r12 :: u64
  tc_rbx :: u64
  tc_rbp :: u64
  tc_rsp :: u64

record scdk_task_slot =
  tk_object_id :: u64
  tk_cap :: u64
  tk_owner_core :: u32
  tk_address_space :: u64
  tk_main_thread :: u64

record scdk_thread_slot =
  th_context :: scdk_thread_context
  th_object_id :: u64
  th_cap :: u64
  th_task_cap :: u64
  th_task_id :: u64
  th_entry :: u64
  th_arg :: u64
  th_kernel_stack :: u64
  th_stack_top :: u64
  th_owner_core :: u32
  th_state :: scdk_thread_state
  th_queued :: bool

record scdk_run_queue =
  rq_entries :: "nat \<Rightarrow> u64"
  rq_head :: u32
  rq_tail :: u32
  rq_count :: u32

record sched_state = aspace_state +
  task_table :: "nat \<Rightarrow> scdk_task_slot"
  thread_table :: "nat \<Rightarrow> scdk_thread_slot"
  run_queues :: "nat \<Rightarrow> scdk_run_queue"
  current_thread_slot :: "nat option"
  scheduler_driver_slot :: "nat option"
  current_task :: u64
  current_thread :: u64
  scheduler_initialized :: bool
  cpu :: scdk_thread_context
  trampoline_addr :: u64

abbreviation set_task :: "'a sched_state_scheme \<Rightarrow> nat \<Rightarrow> scdk_task_slot \<Rightarrow> 'a sched_state_scheme" where
  "set_task s i t \<equiv> s\<lparr>task_table := (task_table s)(i := t)\<rparr>"

abbreviation set_thread :: "'a sched_state_scheme \<Rightarrow> nat \<Rightarrow> scdk_thread_slot \<Rightarrow> 'a sched_state_scheme" where
  "set_thread s i t \<equiv> s\<lparr>thread_table := (thread_table s)(i := t)\<rparr>"

section \<open>Operations\<close>

definition task_slot_for_cap :: "'a sched_state_scheme \<Rightarrow> u64 \<Rightarrow> nat res" where
  "task_slot_for_cap s task =
     (case scdk_cap_check s task SCDK_RIGHT_READ SCDK_OBJ_TASK of
        Inl e \<Rightarrow> Inl e
      | Inr entry \<Rightarrow>
          (case scdk_object_lookup s (ce_object_id entry) of
             Inl e \<Rightarrow> Inl e
           | Inr object \<Rightarrow>
               (case obj_payload object of
                  PTask i \<Rightarrow> if tk_object_id (task_table s i) \<noteq> ce_object_id entry then Inl SCDK_ERR_NOENT else Inr i
                | _ \<Rightarrow> Inl SCDK_ERR_NOENT)))"

definition thread_slot_for_cap :: "'a sched_state_scheme \<Rightarrow> u64 \<Rightarrow> nat res" where
  "thread_slot_for_cap s thread =
     (case scdk_cap_check s thread SCDK_RIGHT_READ SCDK_OBJ_THREAD of
        Inl e \<Rightarrow> Inl e
      | Inr entry \<Rightarrow>
          (case scdk_object_lookup s (ce_object_id entry) of
             Inl e \<Rightarrow> Inl e
           | Inr object \<Rightarrow>
               (case obj_payload object of
                  PThread i \<Rightarrow> if th_object_id (thread_table s i) \<noteq> ce_object_id entry then Inl SCDK_ERR_NOENT else Inr i
                | _ \<Rightarrow> Inl SCDK_ERR_NOENT)))"

definition run_queue_empty :: "'a sched_state_scheme \<Rightarrow> u32 \<Rightarrow> bool" where
  "run_queue_empty s owner_core \<longleftrightarrow> rq_count (run_queues s (unat owner_core)) = 0"

text \<open>The queue part of \<^verbatim>\<open>enqueue_thread\<close> and \<^verbatim>\<open>dequeue_thread\<close>.\<close>

definition rq_push :: "scdk_run_queue \<Rightarrow> u64 \<Rightarrow> scdk_run_queue option" where
  "rq_push queue cap =
     (if rq_count queue \<ge> of_nat SCDK_MAX_THREADS then None
      else Some (queue\<lparr>rq_entries := (rq_entries queue)(unat (rq_tail queue) := cap),
        rq_tail := (rq_tail queue + 1) mod of_nat SCDK_MAX_THREADS, rq_count := rq_count queue + 1\<rparr>))"

definition rq_pop :: "scdk_run_queue \<Rightarrow> (u64 \<times> scdk_run_queue) option" where
  "rq_pop queue =
     (if rq_count queue > 0
      then Some (rq_entries queue (unat (rq_head queue)),
        queue\<lparr>rq_head := (rq_head queue + 1) mod of_nat SCDK_MAX_THREADS, rq_count := rq_count queue - 1\<rparr>)
      else None)"

abbreviation set_queue :: "'a sched_state_scheme \<Rightarrow> nat \<Rightarrow> scdk_run_queue \<Rightarrow> 'a sched_state_scheme" where
  "set_queue s c q \<equiv> s\<lparr>run_queues := (run_queues s)(c := q)\<rparr>"

definition enqueue_thread :: "'a sched_state_scheme \<Rightarrow> nat \<Rightarrow> scdk_status \<times> 'a sched_state_scheme" where
  "enqueue_thread s i =
     (let slot = thread_table s i
      in if th_owner_core slot \<ge> SCDK_MAX_CORES then (SCDK_ERR_INVAL, s)
         else if th_queued slot \<or> th_state slot \<noteq> SCDK_THREAD_READY then (SCDK_ERR_BUSY, s)
         else case rq_push (run_queues s (unat (th_owner_core slot))) (th_cap slot) of
           None \<Rightarrow> (SCDK_ERR_BUSY, s)
         | Some q \<Rightarrow> (SCDK_OK, set_thread (set_queue s (unat (th_owner_core slot)) q) i (slot\<lparr>th_queued := True\<rparr>)))"

lemma rq_pop_count: "rq_pop q = Some (cap, q') \<Longrightarrow> unat (rq_count q') < unat (rq_count q)"
proof -
  assume "rq_pop q = Some (cap, q')"
  then have "rq_count q \<noteq> 0" "rq_count q' = rq_count q - 1" by (auto simp: rq_pop_def split: if_splits)
  then have "unat (rq_count q') = unat (rq_count q) - 1" "unat (rq_count q) \<noteq> 0" by (simp_all add: unat_minus_one unat_eq_0)
  then show ?thesis by simp
qed

function dequeue_thread :: "'a sched_state_scheme \<Rightarrow> u32 \<Rightarrow> nat option \<times> 'a sched_state_scheme" where
  "dequeue_thread s owner_core =
     (case rq_pop (run_queues s (unat owner_core)) of
        None \<Rightarrow> (None, s)
      | Some (cap, q) \<Rightarrow>
          let s1 = set_queue s (unat owner_core) q
          in case thread_slot_for_cap s1 cap of
               Inl _ \<Rightarrow> dequeue_thread s1 owner_core
             | Inr i \<Rightarrow>
                 let s2 = set_thread s1 i ((thread_table s1 i)\<lparr>th_queued := False\<rparr>)
                 in if th_state (thread_table s2 i) = SCDK_THREAD_READY then (Some i, s2)
                    else dequeue_thread s2 owner_core)"
  by pat_completeness auto

termination
  by (relation "measure (\<lambda>(s, c). unat (rq_count (run_queues s (unat c))))") (auto simp: rq_pop_count)

declare dequeue_thread.simps [simp del]

definition make_kernel_thread_context :: "'a sched_state_scheme \<Rightarrow> nat \<Rightarrow> 'a sched_state_scheme" where
  "make_kernel_thread_context s i =
     (let slot = thread_table s i;
          stack_top = th_kernel_stack slot + SCDK_KERNEL_STACK_SIZE;
          sp = (stack_top AND NOT 0xf) - 16
      in set_thread (s\<lparr>mm := set_cell (set_cell (mm s) sp (trampoline_addr s)) (sp + 8) 0\<rparr>) i
           (slot\<lparr>th_context := \<lparr>tc_r15 = 0, tc_r14 = 0, tc_r13 = 0, tc_r12 = 0, tc_rbx = 0, tc_rbp = 0, tc_rsp = sp\<rparr>,
                 th_stack_top := stack_top\<rparr>))"

definition scdk_context_switch :: "'a sched_state_scheme \<Rightarrow> nat \<Rightarrow> nat \<Rightarrow> 'a sched_state_scheme" where
  "scdk_context_switch s old new =
     (let s1 = set_thread s old ((thread_table s old)\<lparr>th_context := cpu s\<rparr>)
      in s1\<lparr>cpu := th_context (thread_table s1 new)\<rparr>)"

definition switch_to_thread :: "'a sched_state_scheme \<Rightarrow> nat \<Rightarrow> 'a sched_state_scheme" where
  "switch_to_thread s next =
     (case current_thread_slot s of
        None \<Rightarrow> s
      | Some old \<Rightarrow>
          if next = old then s
          else let s1 = set_thread s next ((thread_table s next)\<lparr>th_state := SCDK_THREAD_RUNNING\<rparr>);
                   s2 = s1\<lparr>current_thread_slot := Some next, current_thread := th_cap (thread_table s1 next),
                          current_task := th_task_cap (thread_table s1 next)\<rparr>
               in scdk_context_switch s2 old next)"

definition set_th_state :: "'a sched_state_scheme \<Rightarrow> nat \<Rightarrow> scdk_thread_state \<Rightarrow> 'a sched_state_scheme" where
  "set_th_state s i st = set_thread s i ((thread_table s i)\<lparr>th_state := st\<rparr>)"

definition scdk_yield :: "'a sched_state_scheme \<Rightarrow> 'a sched_state_scheme" where
  "scdk_yield s =
     (case current_thread_slot s of
        None \<Rightarrow> s
      | Some old \<Rightarrow>
          if \<not> scheduler_initialized s then s
          else case dequeue_thread s (th_owner_core (thread_table s old)) of
            (next0, s1) \<Rightarrow>
              let next = (case next0 of
                    Some i \<Rightarrow> Some i
                  | None \<Rightarrow> (case scheduler_driver_slot s1 of
                       Some d \<Rightarrow> if old \<noteq> d \<and> th_state (thread_table s1 d) = SCDK_THREAD_BLOCKED then Some d else None
                     | None \<Rightarrow> None))
              in case next of
                None \<Rightarrow> s1
              | Some n \<Rightarrow>
                  if th_state (thread_table s1 old) = SCDK_THREAD_RUNNING
                  then if scheduler_driver_slot s1 = Some old
                       then switch_to_thread (set_th_state s1 old SCDK_THREAD_BLOCKED) n
                       else (case enqueue_thread (set_th_state s1 old SCDK_THREAD_READY) old of
                               (status, s2) \<Rightarrow>
                                 if status \<noteq> SCDK_OK then set_th_state s2 old SCDK_THREAD_RUNNING
                                 else switch_to_thread s2 n)
                  else switch_to_thread s1 n)"

text \<open>
  \<^verbatim>\<open>thread_trampoline\<close> after the entry function has returned; \<open>None\<close> is a panic. When
  \<^verbatim>\<open>scdk_yield\<close> finds no other thread it returns to the dead one at once.
\<close>

definition thread_trampoline_return :: "'a sched_state_scheme \<Rightarrow> 'a sched_state_scheme option" where
  "thread_trampoline_return s =
     (case current_thread_slot s of
        None \<Rightarrow> None
      | Some i \<Rightarrow>
          if th_entry (thread_table s i) = 0 then None
          else (let s1 = scdk_yield (set_th_state s i SCDK_THREAD_DEAD)
                in if current_thread_slot s1 = Some i then None else Some s1))"

definition scdk_task_create :: "'a sched_state_scheme \<Rightarrow> u32 \<Rightarrow> u64 \<Rightarrow> u64 res \<times> 'a sched_state_scheme" where
  "scdk_task_create s owner_core address_space =
     (if owner_core \<ge> SCDK_MAX_CORES then (Inl SCDK_ERR_INVAL, s)
      else case first_slot (\<lambda>i. tk_object_id (task_table s i) = 0) SCDK_MAX_TASKS of
        None \<Rightarrow> (Inl SCDK_ERR_NOMEM, s)
      | Some i \<Rightarrow>
          (case bind_slot s SCDK_OBJ_TASK owner_core (PTask i)
                  (\<lambda>oid s. set_task s i \<lparr>tk_object_id = oid, tk_cap = 0, tk_owner_core = owner_core,
                     tk_address_space = address_space, tk_main_thread = 0\<rparr>)
                  (\<lambda>s. set_task s i ((task_table s i)\<lparr>tk_object_id := 0\<rparr>))
                  (SCDK_RIGHT_READ OR SCDK_RIGHT_WRITE OR SCDK_RIGHT_BIND) of
             (Inl e, s1) \<Rightarrow> (Inl e, s1)
           | (Inr cap, s1) \<Rightarrow> (Inr cap, set_task s1 i ((task_table s1 i)\<lparr>tk_cap := cap\<rparr>))))"

text \<open>The end of \<^verbatim>\<open>scdk_thread_create\<close>: the capability, and the task's main thread.\<close>

definition thread_bind_cap :: "'a sched_state_scheme \<Rightarrow> nat \<Rightarrow> nat \<Rightarrow> u64 \<Rightarrow> u64 res \<times> 'a sched_state_scheme" where
  "thread_bind_cap s ti i oid =
     (case scdk_cap_create s oid (SCDK_RIGHT_READ OR SCDK_RIGHT_WRITE OR SCDK_RIGHT_EXEC) of
        (Inl e, s1) \<Rightarrow>
          (Inl e, set_thread (s1\<lparr>mm := scdk_kfree (mm s1) (th_kernel_stack (thread_table s1 i))\<rparr>) i
                    ((thread_table s1 i)\<lparr>th_object_id := 0\<rparr>))
      | (Inr cap, s1) \<Rightarrow>
          (let s2 = set_thread s1 i ((thread_table s1 i)\<lparr>th_cap := cap\<rparr>)
           in (Inr cap, if tk_main_thread (task_table s2 ti) = 0
                        then set_task s2 ti ((task_table s2 ti)\<lparr>tk_main_thread := cap\<rparr>) else s2)))"

definition scdk_thread_create :: "'a sched_state_scheme \<Rightarrow> u64 \<Rightarrow> u64 \<Rightarrow> u64 \<Rightarrow> u64 res \<times> 'a sched_state_scheme" where
  "scdk_thread_create s task entry arg =
     (case scdk_cap_check s task SCDK_RIGHT_BIND SCDK_OBJ_TASK of
        Inl e \<Rightarrow> (Inl e, s)
      | Inr task_entry \<Rightarrow>
          (case task_slot_for_cap s task of
             Inl e \<Rightarrow> (Inl e, s)
           | Inr ti \<Rightarrow>
               (case first_slot (\<lambda>i. th_object_id (thread_table s i) = 0) SCDK_MAX_THREADS of
                  None \<Rightarrow> (Inl SCDK_ERR_NOMEM, s)
                | Some i \<Rightarrow>
                    (case scdk_object_create s SCDK_OBJ_THREAD (tk_owner_core (task_table s ti)) 0 (PThread i) of
                       (Inl e, s1) \<Rightarrow> (Inl e, s1)
                     | (Inr oid, s1) \<Rightarrow>
                         (let s2 = set_thread s1 i ((thread_table s1 i)\<lparr>th_object_id := oid, th_cap := 0, th_task_cap := task,
                                th_task_id := ce_object_id task_entry, th_entry := entry, th_arg := arg, th_kernel_stack := 0,
                                th_stack_top := 0, th_owner_core := tk_owner_core (task_table s1 ti),
                                th_state := SCDK_THREAD_NEW, th_queued := False\<rparr>)
                          in if entry \<noteq> 0
                             then (case scdk_kalloc (mm s2) SCDK_KERNEL_STACK_SIZE of
                                     (ks, m) \<Rightarrow>
                                       (let s3 = set_thread (s2\<lparr>mm := m\<rparr>) i ((thread_table s2 i)\<lparr>th_kernel_stack := ks\<rparr>)
                                        in if ks = 0
                                           then (Inl SCDK_ERR_NOMEM, set_thread s3 i ((thread_table s3 i)\<lparr>th_object_id := 0\<rparr>))
                                           else thread_bind_cap (make_kernel_thread_context s3 i) ti i oid))
                             else thread_bind_cap s2 ti i oid)))))"

definition scdk_thread_start :: "'a sched_state_scheme \<Rightarrow> u64 \<Rightarrow> scdk_status \<times> 'a sched_state_scheme" where
  "scdk_thread_start s thread =
     (case scdk_cap_check s thread SCDK_RIGHT_EXEC SCDK_OBJ_THREAD of
        Inl e \<Rightarrow> (e, s)
      | Inr _ \<Rightarrow>
          (case thread_slot_for_cap s thread of
             Inl e \<Rightarrow> (e, s)
           | Inr i \<Rightarrow>
               if th_entry (thread_table s i) = 0 \<or> th_kernel_stack (thread_table s i) = 0 then (SCDK_ERR_INVAL, s)
               else if th_state (thread_table s i) \<noteq> SCDK_THREAD_NEW then (SCDK_ERR_BUSY, s)
               else (case enqueue_thread (set_th_state s i SCDK_THREAD_READY) i of
                       (status, s1) \<Rightarrow>
                         if status \<noteq> SCDK_OK then (status, set_th_state s1 i SCDK_THREAD_NEW) else (status, s1))))"

definition scdk_scheduler_init :: "'a sched_state_scheme \<Rightarrow> (u64 \<times> u64) res \<times> 'a sched_state_scheme" where
  "scdk_scheduler_init s =
     (if scheduler_initialized s then (Inl SCDK_ERR_BUSY, s)
      else case scdk_task_create s SCDK_BOOT_CORE 0 of
        (Inl e, s1) \<Rightarrow> (Inl e, s1)
      | (Inr boot_task, s1) \<Rightarrow>
          (case scdk_thread_create s1 boot_task 0 0 of
             (Inl e, s2) \<Rightarrow> (Inl e, s2)
           | (Inr boot_thread, s2) \<Rightarrow>
               (case thread_slot_for_cap s2 boot_thread of
                  Inl e \<Rightarrow> (Inl e, s2)
                | Inr i \<Rightarrow>
                    (Inr (boot_task, boot_thread),
                     (set_th_state s2 i SCDK_THREAD_RUNNING)\<lparr>current_task := boot_task, current_thread := boot_thread,
                        current_thread_slot := Some i, scheduler_initialized := True\<rparr>))))"

definition scdk_scheduler_current_task :: "'a sched_state_scheme \<Rightarrow> u64 res" where
  "scdk_scheduler_current_task s =
     (if \<not> scheduler_initialized s \<or> current_task s = 0 then Inl SCDK_ERR_NOTSUP else Inr (current_task s))"

definition scdk_scheduler_current_thread :: "'a sched_state_scheme \<Rightarrow> u64 res" where
  "scdk_scheduler_current_thread s =
     (if \<not> scheduler_initialized s \<or> current_thread s = 0 then Inl SCDK_ERR_NOTSUP else Inr (current_thread s))"

definition scdk_task_main_thread :: "'a sched_state_scheme \<Rightarrow> u64 \<Rightarrow> u64 res" where
  "scdk_task_main_thread s task =
     (case task_slot_for_cap s task of
        Inl e \<Rightarrow> Inl e
      | Inr i \<Rightarrow> if tk_main_thread (task_table s i) = 0 then Inl SCDK_ERR_NOENT else Inr (tk_main_thread (task_table s i)))"

definition scdk_thread_task_id :: "'a sched_state_scheme \<Rightarrow> u64 \<Rightarrow> u64 res" where
  "scdk_thread_task_id s thread =
     (case thread_slot_for_cap s thread of Inl e \<Rightarrow> Inl e | Inr i \<Rightarrow> Inr (th_task_id (thread_table s i)))"

definition scdk_thread_state_of :: "'a sched_state_scheme \<Rightarrow> u64 \<Rightarrow> scdk_thread_state res" where
  "scdk_thread_state_of s thread =
     (case thread_slot_for_cap s thread of Inl e \<Rightarrow> Inl e | Inr i \<Rightarrow> Inr (th_state (thread_table s i)))"

text \<open>
  \<^verbatim>\<open>scdk_scheduler_run\<close>: the assignment before the loop, and one evaluation of the loop
  condition with the body, or the code after the loop; \<open>True\<close> means that the driver
  evaluates the condition again when it next runs.
\<close>

definition scdk_scheduler_run_begin :: "'a sched_state_scheme \<Rightarrow> bool \<times> 'a sched_state_scheme" where
  "scdk_scheduler_run_begin s =
     (if \<not> scheduler_initialized s \<or> current_thread_slot s = None then (False, s)
      else (True, s\<lparr>scheduler_driver_slot := current_thread_slot s\<rparr>))"

definition scdk_scheduler_run_turn :: "'a sched_state_scheme \<Rightarrow> bool \<times> 'a sched_state_scheme" where
  "scdk_scheduler_run_turn s =
     (case scheduler_driver_slot s of
        None \<Rightarrow> (False, s)
      | Some d \<Rightarrow>
          if \<not> run_queue_empty s (th_owner_core (thread_table s d)) then (True, scdk_yield s)
          else (False, (if th_state (thread_table s d) = SCDK_THREAD_BLOCKED
                        then set_th_state s d SCDK_THREAD_RUNNING else s)\<lparr>scheduler_driver_slot := None\<rparr>))"

definition scdk_scheduler_yield_stub :: "'a sched_state_scheme \<Rightarrow> scdk_status \<times> 'a sched_state_scheme" where
  "scdk_scheduler_yield_stub s =
     (if \<not> scheduler_initialized s \<or> current_task s = 0 \<or> current_thread s = 0 then (SCDK_ERR_NOTSUP, s)
      else (SCDK_OK, scdk_yield s))"

section \<open>The run queue\<close>

definition rq_items :: "scdk_run_queue \<Rightarrow> u64 list" where
  "rq_items q = cb_items (rq_entries q) 128 (unat (rq_head q)) (unat (rq_count q))"

definition rq_ok :: "scdk_run_queue \<Rightarrow> bool" where
  "rq_ok q \<longleftrightarrow> unat (rq_head q) < 128 \<and> unat (rq_count q) \<le> 128 \<and>
     unat (rq_tail q) = (unat (rq_head q) + unat (rq_count q)) mod 128"

lemma rq_len: "length (rq_items q) = unat (rq_count q)"
  by (simp add: rq_items_def)

lemma rq_step: "unat x < 128 \<Longrightarrow> unat ((x + 1) mod (128 :: u32)) = (unat x + 1) mod 128"
  by (simp add: unat_mod_distrib unat_word_ariths)

lemma rq_push_full: "rq_ok q \<Longrightarrow> rq_push q c = None \<longleftrightarrow> length (rq_items q) = 128"
  by (auto simp: rq_push_def rq_ok_def rq_len kconst word_le_nat_alt)

lemma rq_push_ok:
  assumes ok: "rq_ok q" and p: "rq_push q c = Some q'"
  shows "rq_ok q' \<and> rq_items q' = rq_items q @ [c]"
proof -
  let ?h = "unat (rq_head q)" and ?n = "unat (rq_count q)"
  have n: "?n < 128" and q': "q' = q\<lparr>rq_entries := (rq_entries q)(unat (rq_tail q) := c),
        rq_tail := (rq_tail q + 1) mod 128, rq_count := rq_count q + 1\<rparr>"
    using p by (auto simp: rq_push_def kconst word_le_nat_alt split: if_splits)
  have t: "unat (rq_tail q) = (?h + ?n) mod 128" "unat (rq_tail q) < 128" using ok by (auto simp: rq_ok_def)
  have s: "unat (rq_count q + 1) = Suc ?n" using n by (simp add: unat_word_ariths)
  have "unat ((rq_tail q + 1) mod 128) = (?h + Suc ?n) mod 128"
    using rq_step [OF t(2)] cb_next_tail [OF t(1)] by simp
  moreover have "rq_items q' = rq_items q @ [c]"
    using cb_push [OF n] by (simp add: q' rq_items_def s t(1))
  ultimately show ?thesis using n ok by (simp add: rq_ok_def q' s)
qed

lemma rq_pop_empty: "rq_pop q = None \<longleftrightarrow> rq_items q = []"
  by (auto simp: rq_pop_def rq_items_def unat_eq_0 word_neq_0_conv [symmetric])

lemma rq_pop_ok:
  assumes ok: "rq_ok q" and p: "rq_pop q = Some (c, q')"
  shows "rq_ok q' \<and> rq_items q = c # rq_items q'"
proof -
  let ?h = "unat (rq_head q)"
  have n: "rq_count q \<noteq> 0" and c: "c = rq_entries q ?h"
    and q': "q' = q\<lparr>rq_head := (rq_head q + 1) mod 128, rq_count := rq_count q - 1\<rparr>"
    using p by (auto simp: rq_pop_def kconst split: if_splits)
  define m where "m = unat (rq_count q - 1)"
  have m: "unat (rq_count q) = Suc m" using n by (simp add: m_def unat_minus_one unat_gt_0)
  have h: "unat ((rq_head q + 1) mod 128) = (?h + 1) mod 128" using ok rq_step by (simp add: rq_ok_def)
  have "rq_items q = c # rq_items q'"
    using cb_pop [of "rq_entries q" 128 ?h m] ok
    by (simp add: rq_items_def m q' h m_def [symmetric] c rq_ok_def)
  moreover have "rq_ok q'"
    using ok cb_next_head [of ?h 128 m] by (simp add: rq_ok_def q' h m m_def [symmetric])
  ultimately show ?thesis by simp
qed

lemma rq_len_le: "rq_ok q \<Longrightarrow> length (rq_items q) \<le> 128"
  by (simp add: rq_len rq_ok_def)

interpretation runq: bounded_fifo rq_ok "\<lambda>_. 128" rq_items rq_push rq_pop
  by unfold_locales (auto simp: rq_push_full rq_pop_empty dest: rq_len_le rq_push_ok rq_pop_ok)

section \<open>Frames\<close>

lemma sched_upd [simp]:
  "scdk_object_lookup (s\<lparr>thread_table := x\<rparr>) = scdk_object_lookup s"
  "scdk_cap_lookup (s\<lparr>thread_table := x\<rparr>) = scdk_cap_lookup s"
  "scdk_cap_check (s\<lparr>thread_table := x\<rparr>) = scdk_cap_check s"
  "kern_inv (s\<lparr>thread_table := x\<rparr>) = kern_inv s"
  "scdk_object_lookup (s\<lparr>task_table := y\<rparr>) = scdk_object_lookup s"
  "scdk_cap_lookup (s\<lparr>task_table := y\<rparr>) = scdk_cap_lookup s"
  "scdk_cap_check (s\<lparr>task_table := y\<rparr>) = scdk_cap_check s"
  "kern_inv (s\<lparr>task_table := y\<rparr>) = kern_inv s"
  "scdk_object_lookup (s\<lparr>run_queues := z\<rparr>) = scdk_object_lookup s"
  "scdk_cap_lookup (s\<lparr>run_queues := z\<rparr>) = scdk_cap_lookup s"
  "scdk_cap_check (s\<lparr>run_queues := z\<rparr>) = scdk_cap_check s"
  "kern_inv (s\<lparr>run_queues := z\<rparr>) = kern_inv s"
  by (rule frame_rules; simp)+

lemma sched_upd_same [simp]:
  "core_same s (s\<lparr>thread_table := x\<rparr>)" "core_same s (s\<lparr>task_table := y\<rparr>)" "core_same s (s\<lparr>run_queues := z\<rparr>)"
  by (simp_all add: core_same_def)

text \<open>Which slot a capability designates depends on the two tables of the core and the object ids only.\<close>

lemma thread_slot_frame:
  assumes "core_same s s'" and "th_object_id \<circ> thread_table s' = th_object_id \<circ> thread_table s"
  shows "thread_slot_for_cap s' = thread_slot_for_cap s"
proof -
  have "scdk_cap_check s' = scdk_cap_check s" "scdk_object_lookup s' = scdk_object_lookup s"
    using assms(1) by (auto simp: core_same_def intro!: cap_check_frame object_lookup_frame)
  moreover have "th_object_id (thread_table s' i) = th_object_id (thread_table s i)" for i
    using fun_cong [OF assms(2), of i] by simp
  ultimately show ?thesis by (intro ext) (simp add: thread_slot_for_cap_def cong: sum.case_cong payload.case_cong)
qed


lemma thread_slot_upd [simp]:
  "thread_slot_for_cap (s\<lparr>run_queues := z\<rparr>) = thread_slot_for_cap s"
  "th_object_id t = th_object_id (thread_table s i) \<Longrightarrow> thread_slot_for_cap (set_thread s i t) = thread_slot_for_cap s"
  "thread_slot_for_cap (s\<lparr>current_thread_slot := a\<rparr>) = thread_slot_for_cap s"
  "thread_slot_for_cap (s\<lparr>current_thread := b\<rparr>) = thread_slot_for_cap s"
  "thread_slot_for_cap (s\<lparr>current_task := b\<rparr>) = thread_slot_for_cap s"
  "thread_slot_for_cap (s\<lparr>cpu := c\<rparr>) = thread_slot_for_cap s"
  "thread_slot_for_cap (s\<lparr>scheduler_driver_slot := a\<rparr>) = thread_slot_for_cap s"
  by (rule thread_slot_frame; simp add: core_same_def fun_eq_iff)+

section \<open>The queue as a list of threads\<close>

text \<open>
  The threads in the run queue, as the slots their capabilities designate. Entries
  whose capability has been revoked meanwhile are skipped by \<^verbatim>\<open>dequeue_thread\<close>, so
  they do not count.
\<close>

fun live_slots :: "'a sched_state_scheme \<Rightarrow> u64 list \<Rightarrow> nat list" where
  "live_slots s [] = []"
| "live_slots s (c # cs) = (case thread_slot_for_cap s c of Inl _ \<Rightarrow> live_slots s cs | Inr i \<Rightarrow> i # live_slots s cs)"

definition ready_q :: "'a sched_state_scheme \<Rightarrow> nat list" where
  "ready_q s = live_slots s (rq_items (run_queues s 0))"

lemma live_slots_append [simp]: "live_slots s (cs @ ds) = live_slots s cs @ live_slots s ds"
  by (induction cs) (auto split: sum.splits)

lemma live_slots_frame: "thread_slot_for_cap s' = thread_slot_for_cap s \<Longrightarrow> live_slots s' cs = live_slots s cs"
  by (induction cs) (auto split: sum.splits)

lemma dequeue_ready:
  assumes "rq_ok (run_queues s 0)" and "\<forall>i\<in>set (ready_q s). th_state (thread_table s i) = SCDK_THREAD_READY"
  shows "\<exists>q. rq_ok q \<and>
    (case ready_q s of
       [] \<Rightarrow> dequeue_thread s 0 = (None, set_queue s 0 q) \<and> rq_items q = []
     | i # rest \<Rightarrow> dequeue_thread s 0 = (Some i, set_thread (set_queue s 0 q) i ((thread_table s i)\<lparr>th_queued := False\<rparr>)) \<and>
         live_slots s (rq_items q) = rest \<and> length (rq_items q) < 128)"
  using assms
proof (induction "rq_items (run_queues s 0)" arbitrary: s)
  case Nil
  then have "rq_pop (run_queues s 0) = None" by (simp add: rq_pop_empty)
  then have "dequeue_thread s 0 = (None, set_queue s 0 (run_queues s 0))" by (simp add: dequeue_thread.simps [of s])
  with Nil show ?case by (intro exI [of _ "run_queues s 0"]) (simp add: ready_q_def Nil.hyps [symmetric])
next
  case (Cons c cs)
  obtain q' where q': "rq_pop (run_queues s 0) = Some (c, q')" "rq_ok q'" "rq_items q' = cs"
  proof (cases "rq_pop (run_queues s 0)")
    case None
    then show ?thesis using Cons.hyps(2) by (simp add: rq_pop_empty)
  next
    case (Some p)
    then show ?thesis using that rq_pop_ok [OF Cons.prems(1)] Cons.hyps(2) by (cases p) fastforce
  qed
  have len: "length cs < 128" using rq_len_le [OF Cons.prems(1)] Cons.hyps(2) [symmetric] by simp
  let ?s1 = "set_queue s 0 q'"
  have deq: "dequeue_thread s 0 = (case thread_slot_for_cap s c of
               Inl _ \<Rightarrow> dequeue_thread ?s1 0
             | Inr i \<Rightarrow>
                 let s2 = set_thread ?s1 i ((thread_table s i)\<lparr>th_queued := False\<rparr>)
                 in if th_state (thread_table s i) = SCDK_THREAD_READY then (Some i, s2) else dequeue_thread s2 0)"
    by (subst dequeue_thread.simps, cases "thread_slot_for_cap s c") (simp_all add: q'(1) Let_def)
  have rq: "ready_q s = live_slots s (c # cs)" by (simp add: ready_q_def Cons.hyps(2) [symmetric])
  show ?case
  proof (cases "thread_slot_for_cap s c")
    case (Inr i)
    with rq Cons.prems(2) have "th_state (thread_table s i) = SCDK_THREAD_READY" by simp
    with deq rq Inr q' len show ?thesis by (intro exI [of _ q']) simp
  next
    case (Inl e)
    have r1: "ready_q ?s1 = ready_q s"
      using rq Inl q'(3) live_slots_frame [of ?s1 s] by (simp add: ready_q_def)
    from Cons.hyps(1) [of ?s1] Cons.prems(2) q' r1 obtain q where
      q: "rq_ok q" "case ready_q s of
       [] \<Rightarrow> dequeue_thread ?s1 0 = (None, set_queue ?s1 0 q) \<and> rq_items q = []
     | i # rest \<Rightarrow> dequeue_thread ?s1 0 = (Some i, set_thread (set_queue ?s1 0 q) i ((thread_table ?s1 i)\<lparr>th_queued := False\<rparr>)) \<and>
         live_slots ?s1 (rq_items q) = rest \<and> length (rq_items q) < 128"
      by auto
    have d: "dequeue_thread s 0 = dequeue_thread ?s1 0" using deq Inl by simp
    show ?thesis
      by (rule exI [of _ q]) (use q d live_slots_frame [of ?s1 s] in \<open>auto split: list.splits\<close>)
  qed
qed


lemma enqueue_ok:
  assumes "rq_ok (run_queues s 0)" and "length (rq_items (run_queues s 0)) < 128"
    and "th_owner_core (thread_table s i) = 0" and "\<not> th_queued (thread_table s i)"
    and "th_state (thread_table s i) = SCDK_THREAD_READY"
  shows "\<exists>q. rq_ok q \<and> rq_items q = rq_items (run_queues s 0) @ [th_cap (thread_table s i)] \<and>
    enqueue_thread s i = (SCDK_OK, set_thread (set_queue s 0 q) i ((thread_table s i)\<lparr>th_queued := True\<rparr>))"
proof -
  obtain q where q: "rq_push (run_queues s 0) (th_cap (thread_table s i)) = Some q"
    using rq_push_full [OF assms(1)] assms(2) by fastforce
  have "enqueue_thread s i = (SCDK_OK, set_thread (set_queue s 0 q) i ((thread_table s i)\<lparr>th_queued := True\<rparr>))"
    using assms(3-5) q by (simp add: enqueue_thread_def kconst)
  then show ?thesis using rq_push_ok [OF assms(1) q] by blast
qed

section \<open>Abstract scheduler\<close>

text \<open>
  What the scheduler promises: a current thread, a list of ready threads in the order
  in which they will run, the state of every thread and its registers. The
  registers of the current thread are those of the processor; a thread that is
  not running keeps its own.
\<close>

record asched =
  a_cur :: "nat option"
  a_driver :: "nat option"
  a_ready :: "nat list"
  a_st :: "nat \<Rightarrow> scdk_thread_state"
  a_regs :: "nat \<Rightarrow> scdk_thread_context"

definition a_dispatch :: "(nat \<Rightarrow> bool) \<Rightarrow> asched \<Rightarrow> nat \<Rightarrow> nat \<Rightarrow> asched" where
  "a_dispatch alive a old n =
     (let drv = (a_driver a = Some old); run = (a_st a old = SCDK_THREAD_RUNNING)
      in a\<lparr>a_cur := Some n,
           a_ready := a_ready a @ (if run \<and> \<not> drv \<and> alive old then [old] else []),
           a_st := (a_st a)(old := (if run then if drv then SCDK_THREAD_BLOCKED else SCDK_THREAD_READY else a_st a old),
                            n := SCDK_THREAD_RUNNING)\<rparr>)"

definition a_yield :: "(nat \<Rightarrow> bool) \<Rightarrow> asched \<Rightarrow> asched" where
  "a_yield alive a =
     (case a_cur a of
        None \<Rightarrow> a
      | Some old \<Rightarrow>
          (case a_ready a of
             n # rest \<Rightarrow> a_dispatch alive (a\<lparr>a_ready := rest\<rparr>) old n
           | [] \<Rightarrow> (case a_driver a of
                Some d \<Rightarrow> if old \<noteq> d \<and> a_st a d = SCDK_THREAD_BLOCKED then a_dispatch alive a old d else a
              | None \<Rightarrow> a)))"

definition abs_sched :: "'a sched_state_scheme \<Rightarrow> asched" where
  "abs_sched s = \<lparr>a_cur = current_thread_slot s, a_driver = scheduler_driver_slot s, a_ready = ready_q s,
     a_st = th_state \<circ> thread_table s,
     a_regs = (\<lambda>i. if current_thread_slot s = Some i then cpu s else th_context (thread_table s i))\<rparr>"

definition thread_live :: "'a sched_state_scheme \<Rightarrow> nat \<Rightarrow> bool" where
  "thread_live s i \<longleftrightarrow> thread_slot_for_cap s (th_cap (thread_table s i)) = Inr i"

text \<open>
  The invariant: the queue is well formed, each live thread is in it at most once and
  exactly when it is ready, a thread's own capability designates it or nothing,
  and only the current thread runs.
\<close>

definition sched_inv :: "'a sched_state_scheme \<Rightarrow> bool" where
  "sched_inv s \<longleftrightarrow>
     rq_ok (run_queues s 0) \<and> distinct (ready_q s) \<and>
     (\<forall>i\<in>set (ready_q s). th_queued (thread_table s i)) \<and>
     (\<forall>i j. thread_slot_for_cap s (th_cap (thread_table s i)) = Inr j \<longrightarrow> j = i) \<and>
     (\<forall>i. th_owner_core (thread_table s i) = 0) \<and>
     (\<forall>i. th_queued (thread_table s i) \<longleftrightarrow> th_state (thread_table s i) = SCDK_THREAD_READY) \<and>
     (\<forall>i. th_queued (thread_table s i) \<longrightarrow> thread_live s i \<longrightarrow> i \<in> set (ready_q s)) \<and>
     (\<forall>i. th_state (thread_table s i) = SCDK_THREAD_RUNNING \<longrightarrow> current_thread_slot s = Some i) \<and>
     (\<forall>i. current_thread_slot s = Some i \<longrightarrow> th_state (thread_table s i) \<in> {SCDK_THREAD_RUNNING, SCDK_THREAD_DEAD}) \<and>
     (\<forall>i. th_state (thread_table s i) = SCDK_THREAD_BLOCKED \<longrightarrow> scheduler_driver_slot s = Some i) \<and>
     (\<forall>d. scheduler_driver_slot s = Some d \<longrightarrow> th_state (thread_table s d) \<in> {SCDK_THREAD_RUNNING, SCDK_THREAD_BLOCKED})"

text \<open>The part of \<^verbatim>\<open>scdk_yield\<close> after the next thread has been chosen.\<close>

definition yield_to :: "'a sched_state_scheme \<Rightarrow> nat \<Rightarrow> nat \<Rightarrow> 'a sched_state_scheme" where
  "yield_to s old n =
     (if th_state (thread_table s old) = SCDK_THREAD_RUNNING
      then if scheduler_driver_slot s = Some old
           then switch_to_thread (set_th_state s old SCDK_THREAD_BLOCKED) n
           else (case enqueue_thread (set_th_state s old SCDK_THREAD_READY) old of
                   (status, s2) \<Rightarrow>
                     if status \<noteq> SCDK_OK then set_th_state s2 old SCDK_THREAD_RUNNING
                     else switch_to_thread s2 n)
      else switch_to_thread s n)"

lemma slot_unqueued:
  "\<not> th_queued t \<Longrightarrow> t\<lparr>th_state := a, th_queued := False, th_context := c\<rparr> = t\<lparr>th_state := a, th_context := c\<rparr>"
  "\<not> th_queued t \<Longrightarrow> t\<lparr>th_state := th_state t, th_queued := False, th_context := c\<rparr> = t\<lparr>th_context := c\<rparr>"
  by (cases t; simp)+

lemma yield_to_eq:
  assumes "rq_ok (run_queues s 0)" and "length (rq_items (run_queues s 0)) < 128"
    and "th_owner_core (thread_table s old) = 0" and q0: "\<not> th_queued (thread_table s old)"
    and cur: "current_thread_slot s = Some old" and ne: "n \<noteq> old"
    and st: "park = (th_state (thread_table s old) = SCDK_THREAD_RUNNING \<and> scheduler_driver_slot s \<noteq> Some old)"
    and st': "st' = (if th_state (thread_table s old) = SCDK_THREAD_RUNNING
       then if scheduler_driver_slot s = Some old then SCDK_THREAD_BLOCKED else SCDK_THREAD_READY
       else th_state (thread_table s old))"
  shows "\<exists>q. rq_ok q \<and> rq_items q = rq_items (run_queues s 0) @ (if park then [th_cap (thread_table s old)] else []) \<and>
    yield_to s old n = s\<lparr>run_queues := (run_queues s)(0 := q),
      current_thread_slot := Some n, current_thread := th_cap (thread_table s n),
      current_task := th_task_cap (thread_table s n),
      thread_table := (thread_table s)(n := (thread_table s n)\<lparr>th_state := SCDK_THREAD_RUNNING\<rparr>,
        old := (thread_table s old)\<lparr>th_state := st', th_queued := park, th_context := cpu s\<rparr>),
      cpu := th_context (thread_table s n)\<rparr>"
proof (cases park)
  case True
  let ?s1 = "set_th_state s old SCDK_THREAD_READY"
  have st: "th_state (thread_table s old) = SCDK_THREAD_RUNNING" "scheduler_driver_slot s \<noteq> Some old" using True st by auto
  from enqueue_ok [of ?s1 old] assms(1-4) obtain q where q: "rq_ok q" 
    "rq_items q = rq_items (run_queues s 0) @ [th_cap (thread_table s old)]"
    "enqueue_thread ?s1 old = (SCDK_OK, set_thread (set_queue ?s1 0 q) old ((thread_table ?s1 old)\<lparr>th_queued := True\<rparr>))"
    by (auto simp: set_th_state_def)
  then show ?thesis
    using True st cur ne st' by (intro exI [of _ q])
      (simp add: yield_to_def switch_to_thread_def scdk_context_switch_def set_th_state_def Let_def fun_upd_twist)
next
  case False
  then show ?thesis
    using assms(1) cur ne st st' slot_unqueued [OF q0] by (intro exI [of _ "run_queues s 0"])
      (auto simp: yield_to_def switch_to_thread_def scdk_context_switch_def set_th_state_def Let_def fun_upd_twist)
qed

lemma sched_invD:
  assumes "sched_inv s"
  shows "rq_ok (run_queues s 0)" "distinct (ready_q s)" "i \<in> set (ready_q s) \<Longrightarrow> th_queued (thread_table s i)"
    "thread_slot_for_cap s (th_cap (thread_table s i)) = Inr j \<Longrightarrow> j = i"
    "th_owner_core (thread_table s i) = 0"
    "th_queued (thread_table s i) \<longleftrightarrow> th_state (thread_table s i) = SCDK_THREAD_READY"
    "th_queued (thread_table s i) \<Longrightarrow> thread_live s i \<Longrightarrow> i \<in> set (ready_q s)"
    "th_state (thread_table s i) = SCDK_THREAD_RUNNING \<Longrightarrow> current_thread_slot s = Some i"
    "current_thread_slot s = Some i \<Longrightarrow> th_state (thread_table s i) \<in> {SCDK_THREAD_RUNNING, SCDK_THREAD_DEAD}"
    "th_state (thread_table s i) = SCDK_THREAD_BLOCKED \<Longrightarrow> scheduler_driver_slot s = Some i"
    "scheduler_driver_slot s = Some i \<Longrightarrow> th_state (thread_table s i) \<in> {SCDK_THREAD_RUNNING, SCDK_THREAD_BLOCKED}"
  using assms unfolding sched_inv_def by blast+

text \<open>
  \<open>picked s old n\<close>: the state in which the scheduler has taken \<open>n\<close> out of the queue (or has
  chosen the blocked driver) and is about to leave \<open>old\<close>.
\<close>

definition picked :: "'a sched_state_scheme \<Rightarrow> nat \<Rightarrow> nat \<Rightarrow> bool" where
  "picked s old n \<longleftrightarrow>
     rq_ok (run_queues s 0) \<and> length (rq_items (run_queues s 0)) < 128 \<and> distinct (ready_q s) \<and> n \<notin> set (ready_q s) \<and>
     (\<forall>i\<in>set (ready_q s). th_queued (thread_table s i)) \<and>
     (\<forall>i j. thread_slot_for_cap s (th_cap (thread_table s i)) = Inr j \<longrightarrow> j = i) \<and>
     (\<forall>i. th_owner_core (thread_table s i) = 0) \<and>
     (\<forall>i. th_queued (thread_table s i) \<longleftrightarrow> th_state (thread_table s i) = SCDK_THREAD_READY \<and> i \<noteq> n) \<and>
     (\<forall>i. th_queued (thread_table s i) \<longrightarrow> thread_live s i \<longrightarrow> i \<in> set (ready_q s)) \<and>
     (\<forall>i. th_state (thread_table s i) = SCDK_THREAD_RUNNING \<longrightarrow> current_thread_slot s = Some i) \<and>
     current_thread_slot s = Some old \<and> th_state (thread_table s old) \<in> {SCDK_THREAD_RUNNING, SCDK_THREAD_DEAD} \<and>
     (\<forall>i. th_state (thread_table s i) = SCDK_THREAD_BLOCKED \<longrightarrow> scheduler_driver_slot s = Some i) \<and>
     (\<forall>d. scheduler_driver_slot s = Some d \<longrightarrow> th_state (thread_table s d) \<in> {SCDK_THREAD_RUNNING, SCDK_THREAD_BLOCKED}) \<and>
     n \<noteq> old"

lemma pickedD:
  assumes "picked s old n"
  shows "rq_ok (run_queues s 0)" "length (rq_items (run_queues s 0)) < 128" "distinct (ready_q s)" "n \<notin> set (ready_q s)"
    "\<forall>i\<in>set (ready_q s). th_queued (thread_table s i)"
    "\<forall>i j. thread_slot_for_cap s (th_cap (thread_table s i)) = Inr j \<longrightarrow> j = i"
    "\<forall>i. th_owner_core (thread_table s i) = 0"
    "\<forall>i. th_queued (thread_table s i) \<longleftrightarrow> th_state (thread_table s i) = SCDK_THREAD_READY \<and> i \<noteq> n"
    "\<forall>i. th_queued (thread_table s i) \<longrightarrow> thread_live s i \<longrightarrow> i \<in> set (ready_q s)"
    "\<forall>i. th_state (thread_table s i) = SCDK_THREAD_RUNNING \<longrightarrow> current_thread_slot s = Some i"
    "current_thread_slot s = Some old" "th_state (thread_table s old) \<in> {SCDK_THREAD_RUNNING, SCDK_THREAD_DEAD}"
    "\<forall>i. th_state (thread_table s i) = SCDK_THREAD_BLOCKED \<longrightarrow> scheduler_driver_slot s = Some i"
    "\<forall>d. scheduler_driver_slot s = Some d \<longrightarrow> th_state (thread_table s d) \<in> {SCDK_THREAD_RUNNING, SCDK_THREAD_BLOCKED}"
    "n \<noteq> old"
  using assms unfolding picked_def by - (elim conjE, assumption)+

lemma yield_to_ok:
  assumes p: "picked s old n"
  shows "sched_inv (yield_to s old n) \<and> abs_sched (yield_to s old n) = a_dispatch (thread_live s) (abs_sched s) old n \<and>
    thread_slot_for_cap (yield_to s old n) = thread_slot_for_cap s \<and>
    (\<forall>i. th_cap (thread_table (yield_to s old n) i) = th_cap (thread_table s i)) \<and>
    scheduler_initialized (yield_to s old n) = scheduler_initialized s"
proof -
  let ?T = "thread_table s" and ?y = "yield_to s old n"
  let ?park = "th_state (?T old) = SCDK_THREAD_RUNNING \<and> scheduler_driver_slot s \<noteq> Some old"
  let ?st = "if th_state (?T old) = SCDK_THREAD_RUNNING
       then if scheduler_driver_slot s = Some old then SCDK_THREAD_BLOCKED else SCDK_THREAD_READY else th_state (?T old)"
  have old: "\<not> th_queued (?T old)" "th_owner_core (?T old) = 0" "n \<noteq> old" "current_thread_slot s = Some old"
    "rq_ok (run_queues s 0)" "length (rq_items (run_queues s 0)) < 128"
    using spec [OF pickedD(8) [OF p], of old] pickedD(12) [OF p] spec [OF pickedD(7) [OF p], of old] pickedD(15,11,1,2) [OF p]
    by auto
  from yield_to_eq [OF old(5,6,2,1,4,3) refl refl] obtain q where
    q: "rq_ok q" "rq_items q = rq_items (run_queues s 0) @ (if ?park then [th_cap (?T old)] else [])"
    and y: "?y = s\<lparr>run_queues := (run_queues s)(0 := q),
      current_thread_slot := Some n, current_thread := th_cap (?T n), current_task := th_task_cap (?T n),
      thread_table := ?T(n := (?T n)\<lparr>th_state := SCDK_THREAD_RUNNING\<rparr>,
        old := (?T old)\<lparr>th_state := ?st, th_queued := ?park, th_context := cpu s\<rparr>),
      cpu := th_context (?T n)\<rparr>" by blast
  have sl: "thread_slot_for_cap ?y = thread_slot_for_cap s"
    by (rule thread_slot_frame) (simp_all add: y core_same_def fun_eq_iff)
  have fy: "thread_table ?y = ?T(n := (?T n)\<lparr>th_state := SCDK_THREAD_RUNNING\<rparr>,
        old := (?T old)\<lparr>th_state := ?st, th_queued := ?park, th_context := cpu s\<rparr>)"
    "run_queues ?y 0 = q" "current_thread_slot ?y = Some n" "scheduler_driver_slot ?y = scheduler_driver_slot s"
    "cpu ?y = th_context (?T n)" "scheduler_initialized ?y = scheduler_initialized s"
    by (simp_all add: y)
  have cap: "th_cap (thread_table ?y i) = th_cap (?T i)" for i by (simp add: fy)
  have live: "thread_live ?y i = thread_live s i" for i by (simp add: thread_live_def sl cap)
  have own: "live_slots s [th_cap (?T old)] = (if thread_live s old then [old] else [])"
    using spec [OF pickedD(6) [OF p], of old] by (auto simp: thread_live_def split: sum.splits)
  have rq: "ready_q ?y = ready_q s @ (if ?park \<and> thread_live s old then [old] else [])"
    unfolding ready_q_def live_slots_frame [OF sl] using q(2) own by (simp add: fy)
  have "sched_inv ?y"
    unfolding sched_inv_def
  proof (intro conjI)
    show "rq_ok (run_queues ?y 0)" using q(1) by (simp add: fy)
    show "distinct (ready_q ?y)" using pickedD(3) [OF p] pickedD(5) [OF p] old(1) by (auto simp: rq)
    show "\<forall>i\<in>set (ready_q ?y). th_queued (thread_table ?y i)"
      using pickedD(5) [OF p] old(1) by (auto simp: rq fy)
    show "\<forall>i j. thread_slot_for_cap ?y (th_cap (thread_table ?y i)) = Inr j \<longrightarrow> j = i"
      using pickedD(6) [OF p] by (simp add: sl cap)
    show "\<forall>i. th_owner_core (thread_table ?y i) = 0" using pickedD(7) [OF p] by (simp add: fy)
    show "\<forall>i. th_queued (thread_table ?y i) \<longleftrightarrow> th_state (thread_table ?y i) = SCDK_THREAD_READY"
    proof
      fix i
      show "th_queued (thread_table ?y i) \<longleftrightarrow> th_state (thread_table ?y i) = SCDK_THREAD_READY"
        using spec [OF pickedD(8) [OF p], of i] pickedD(12) [OF p] old(3) by (cases "i = old"; cases "i = n") (auto simp: fy)
    qed
    show "\<forall>i. th_queued (thread_table ?y i) \<longrightarrow> thread_live ?y i \<longrightarrow> i \<in> set (ready_q ?y)"
      using pickedD(9) [OF p] spec [OF pickedD(8) [OF p], of n] by (auto simp: rq live fy)
    show "\<forall>i. th_state (thread_table ?y i) = SCDK_THREAD_RUNNING \<longrightarrow> current_thread_slot ?y = Some i"
    proof (intro allI impI)
      fix i
      assume r: "th_state (thread_table ?y i) = SCDK_THREAD_RUNNING"
      have "i \<noteq> old" using r pickedD(12) [OF p] by (auto simp: fy split: if_splits)
      moreover have "i = n" if "i \<noteq> old" using r that spec [OF pickedD(10) [OF p], of i] old(4) by (auto simp: fy split: if_splits)
      ultimately show "current_thread_slot ?y = Some i" by (simp add: fy)
    qed
    show "\<forall>i. current_thread_slot ?y = Some i \<longrightarrow> th_state (thread_table ?y i) \<in> {SCDK_THREAD_RUNNING, SCDK_THREAD_DEAD}"
      using old(3) by (simp add: fy)
    show "\<forall>i. th_state (thread_table ?y i) = SCDK_THREAD_BLOCKED \<longrightarrow> scheduler_driver_slot ?y = Some i"
      using pickedD(13) [OF p] pickedD(12) [OF p] by (auto simp: fy)
    show "\<forall>d. scheduler_driver_slot ?y = Some d \<longrightarrow> th_state (thread_table ?y d) \<in> {SCDK_THREAD_RUNNING, SCDK_THREAD_BLOCKED}"
      using pickedD(14) [OF p] by (auto simp: fy)
  qed
  moreover have "abs_sched ?y = a_dispatch (thread_live s) (abs_sched s) old n"
    using old(3,4) by (auto simp: abs_sched_def a_dispatch_def Let_def rq fy fun_eq_iff)
  ultimately show ?thesis using sl cap by (simp add: fy)
qed

definition yields :: "'a sched_state_scheme \<Rightarrow> 'a sched_state_scheme \<Rightarrow> bool" where
  "yields s s' \<longleftrightarrow> sched_inv s' \<and> thread_slot_for_cap s' = thread_slot_for_cap s \<and>
     (\<forall>i. th_cap (thread_table s' i) = th_cap (thread_table s i)) \<and> scheduler_initialized s' = scheduler_initialized s"

lemma yields_live: "yields s s' \<Longrightarrow> thread_live s' = thread_live s"
  by (simp add: yields_def thread_live_def fun_eq_iff)

lemma set_queue_facts:
  assumes "live_slots s (rq_items q) = r"
  shows "ready_q (set_queue s 0 q) = r" "thread_live (set_queue s 0 q) = thread_live s"
    "abs_sched (set_queue s 0 q) = (abs_sched s)\<lparr>a_ready := r\<rparr>"
  using assms live_slots_frame [of "set_queue s 0 q" s]
  by (simp_all add: ready_q_def thread_live_def fun_eq_iff abs_sched_def)

lemma pick_ready:
  assumes inv: "sched_inv s" and cur: "current_thread_slot s = Some old" and r: "ready_q s = n # rest"
    and q: "rq_ok q" "live_slots s (rq_items q) = rest" "length (rq_items q) < 128"
  defines "s1 \<equiv> set_thread (set_queue s 0 q) n ((thread_table s n)\<lparr>th_queued := False\<rparr>)"
  shows "picked s1 old n" "abs_sched s1 = (abs_sched s)\<lparr>a_ready := rest\<rparr>" "thread_live s1 = thread_live s"
    "thread_slot_for_cap s1 = thread_slot_for_cap s" "th_cap (thread_table s1 i) = th_cap (thread_table s i)"
proof -
  note i = sched_invD [OF inv]
  show sl: "thread_slot_for_cap s1 = thread_slot_for_cap s"
    by (rule thread_slot_frame) (simp_all add: s1_def core_same_def fun_eq_iff)
  show cap: "th_cap (thread_table s1 i) = th_cap (thread_table s i)" for i by (simp add: s1_def)
  show live: "thread_live s1 = thread_live s" by (simp add: thread_live_def fun_eq_iff sl cap)
  have rq: "ready_q s1 = rest" unfolding ready_q_def live_slots_frame [OF sl] using q(2) by (simp add: s1_def)
  have n: "th_queued (thread_table s n)" "n \<notin> set rest" "distinct rest" using i(2,3) r by auto
  have nst: "th_state (thread_table s n) = SCDK_THREAD_READY" using n(1) i(6) by blast
  have ne: "n \<noteq> old" using nst i(9) [OF cur] by auto
  have fs: "th_state (thread_table s1 i) = th_state (thread_table s i)"
    "th_owner_core (thread_table s1 i) = th_owner_core (thread_table s i)"
    "th_queued (thread_table s1 i) = (if i = n then False else th_queued (thread_table s i))" for i
    by (simp_all add: s1_def)
  have fy: "run_queues s1 0 = q" "current_thread_slot s1 = Some old" "scheduler_driver_slot s1 = scheduler_driver_slot s"
    by (simp_all add: s1_def cur)
  show "picked s1 old n"
    unfolding picked_def rq live sl cap fs fy
  proof (intro conjI)
    show "\<forall>i\<in>set rest. if i = n then False else th_queued (thread_table s i)" using i(3) r n(2) by auto
    show "\<forall>i. (if i = n then False else th_queued (thread_table s i)) \<longleftrightarrow>
        th_state (thread_table s i) = SCDK_THREAD_READY \<and> i \<noteq> n" using i(6) by simp
    show "\<forall>i. (if i = n then False else th_queued (thread_table s i)) \<longrightarrow> thread_live s i \<longrightarrow> i \<in> set rest"
      using i(7) r by auto
    show "\<forall>i. th_state (thread_table s i) = SCDK_THREAD_RUNNING \<longrightarrow> Some old = Some i" using i(8) cur by metis
    show "th_state (thread_table s old) \<in> {SCDK_THREAD_RUNNING, SCDK_THREAD_DEAD}" using i(9) [OF cur] .
  qed (use q n ne i(4,5,10,11) in blast)+
  show "abs_sched s1 = (abs_sched s)\<lparr>a_ready := rest\<rparr>"
    by (simp add: abs_sched_def rq fs fy cur fun_eq_iff) (simp add: s1_def)
qed

lemma pick_driver:
  assumes inv: "sched_inv s" and cur: "current_thread_slot s = Some old" and r: "ready_q s = []"
    and q: "rq_ok q" "rq_items q = []" and d: "old \<noteq> d" "th_state (thread_table s d) = SCDK_THREAD_BLOCKED"
  shows "picked (set_queue s 0 q) old d"
proof -
  note i = sched_invD [OF inv]
  let ?s1 = "set_queue s 0 q"
  have rq: "ready_q ?s1 = []" and live: "thread_live ?s1 = thread_live s" using set_queue_facts [of s q "[]"] q(2) by simp_all
  show ?thesis
    unfolding picked_def rq live
  proof (intro conjI)
    show "\<forall>i. th_queued (thread_table ?s1 i) \<longleftrightarrow> th_state (thread_table ?s1 i) = SCDK_THREAD_READY \<and> i \<noteq> d"
      using i(6) d(2) by (auto simp del: thread_slot_upd)
    show "\<forall>i. th_queued (thread_table ?s1 i) \<longrightarrow> thread_live s i \<longrightarrow> i \<in> set []" using i(7) r by auto
    show "\<forall>i. th_state (thread_table ?s1 i) = SCDK_THREAD_RUNNING \<longrightarrow> current_thread_slot ?s1 = Some i" using i(8) by simp
    show "th_state (thread_table ?s1 old) \<in> {SCDK_THREAD_RUNNING, SCDK_THREAD_DEAD}" using i(9) [OF cur] by simp
    show "\<forall>i j. thread_slot_for_cap ?s1 (th_cap (thread_table ?s1 i)) = Inr j \<longrightarrow> j = i" using i(4) by simp
    show "\<forall>i. th_owner_core (thread_table ?s1 i) = 0" using i(5) by simp
    show "\<forall>i. th_state (thread_table ?s1 i) = SCDK_THREAD_BLOCKED \<longrightarrow> scheduler_driver_slot ?s1 = Some i" using i(10) by simp
    show "\<forall>d. scheduler_driver_slot ?s1 = Some d \<longrightarrow> th_state (thread_table ?s1 d) \<in> {SCDK_THREAD_RUNNING, SCDK_THREAD_BLOCKED}"
      using i(11) by simp
  qed (use q d cur in simp_all)
qed

lemma yield_idle:
  assumes inv: "sched_inv s" and r: "ready_q s = []" and q: "rq_ok q" "rq_items q = []"
  shows "yields s (set_queue s 0 q)" "abs_sched (set_queue s 0 q) = abs_sched s"
proof -
  note i = sched_invD [OF inv] and f = set_queue_facts [of s q "[]"]
  show "yields s (set_queue s 0 q)"
    unfolding yields_def sched_inv_def using f q r i(6) i(7) i(8) i(9) i(10) i(11) i(4) i(5) by (intro conjI) (simp_all, blast)
  show "abs_sched (set_queue s 0 q) = abs_sched s" using f(3) q(2) r by (simp add: abs_sched_def)
qed

lemma yield_unfold:
  assumes "current_thread_slot s = Some old" and "scheduler_initialized s"
    and "dequeue_thread s (th_owner_core (thread_table s old)) = (nx, s1)"
  shows "scdk_yield s = (case nx of
      Some n \<Rightarrow> yield_to s1 old n
    | None \<Rightarrow> (case scheduler_driver_slot s1 of
        Some d \<Rightarrow> if old \<noteq> d \<and> th_state (thread_table s1 d) = SCDK_THREAD_BLOCKED then yield_to s1 old d else s1
      | None \<Rightarrow> s1))"
  using assms by (simp add: scdk_yield_def yield_to_def Let_def split: option.splits)

lemma yield_refines:
  assumes inv: "sched_inv s" and init: "scheduler_initialized s"
  shows "yields s (scdk_yield s) \<and> abs_sched (scdk_yield s) = a_yield (thread_live s) (abs_sched s)"
proof (cases "current_thread_slot s")
  case None
  then show ?thesis using inv by (simp add: scdk_yield_def yields_def a_yield_def abs_sched_def)
next
  case (Some old)
  note i = sched_invD [OF inv]
  have rdy: "\<forall>i\<in>set (ready_q s). th_state (thread_table s i) = SCDK_THREAD_READY" using i(3,6) by blast
  from dequeue_ready [OF i(1) rdy] obtain q where q: "rq_ok q" "case ready_q s of
       [] \<Rightarrow> dequeue_thread s 0 = (None, set_queue s 0 q) \<and> rq_items q = []
     | i # rest \<Rightarrow> dequeue_thread s 0 = (Some i, set_thread (set_queue s 0 q) i ((thread_table s i)\<lparr>th_queued := False\<rparr>)) \<and>
         live_slots s (rq_items q) = rest \<and> length (rq_items q) < 128" by blast
  show ?thesis
  proof (cases "ready_q s")
    case (Cons n rest)
    let ?s1 = "set_thread (set_queue s 0 q) n ((thread_table s n)\<lparr>th_queued := False\<rparr>)"
    have d: "dequeue_thread s 0 = (Some n, ?s1)" and lq: "live_slots s (rq_items q) = rest" "length (rq_items q) < 128"
      using q(2) Cons by simp_all
    note p = pick_ready [OF inv Some Cons q(1) lq]
    have y: "scdk_yield s = yield_to ?s1 old n" using yield_unfold [OF Some init] d i(5) [of old] by simp
    have "a_yield (thread_live s) (abs_sched s) = a_dispatch (thread_live s) ((abs_sched s)\<lparr>a_ready := rest\<rparr>) old n"
      using Some Cons by (simp add: a_yield_def abs_sched_def)
    then show ?thesis using yield_to_ok [OF p(1)] p(2-5) unfolding y yields_def by simp
  next
    case Nil
    have d: "dequeue_thread s 0 = (None, set_queue s 0 q)" and lq: "rq_items q = []" using q(2) Nil by simp_all
    note f = set_queue_facts [of s q "[]"] and idle = yield_idle [OF inv Nil q(1) lq]
    show ?thesis
    proof (cases "\<exists>d. scheduler_driver_slot s = Some d \<and> old \<noteq> d \<and> th_state (thread_table s d) = SCDK_THREAD_BLOCKED")
      case True
      then obtain e where e: "scheduler_driver_slot s = Some e" "old \<noteq> e" "th_state (thread_table s e) = SCDK_THREAD_BLOCKED" by blast
      have y: "scdk_yield s = yield_to (set_queue s 0 q) old e" using yield_unfold [OF Some init] d i(5) [of old] e by simp
      have "a_yield (thread_live s) (abs_sched s) = a_dispatch (thread_live s) (abs_sched s) old e"
        using Some Nil e by (simp add: a_yield_def abs_sched_def)
      then show ?thesis
        using yield_to_ok [OF pick_driver [OF inv Some Nil q(1) lq e(2,3)]] f idle(2) lq unfolding y yields_def by simp
    next
      case False
      then have y: "scdk_yield s = set_queue s 0 q"
        using yield_unfold [OF Some init] d i(5) [of old] by (auto split: option.splits)
      have "a_yield (thread_live s) (abs_sched s) = abs_sched s"
        using False Some Nil by (auto simp: a_yield_def abs_sched_def split: option.splits)
      then show ?thesis using idle y by simp
    qed
  qed
qed

section \<open>Scheduling steps\<close>

text \<open>
  What threads do to the scheduler: compute (the registers change), yield, return from
  the entry function, start another thread, and drive the scheduler loop. A
  thread that drives the loop does not return from it.
\<close>

datatype sched_op = Work scdk_thread_context | Yield | Exit | Start u64 | DriveBegin | DriveTurn

inductive sched_step :: "'a sched_state_scheme \<Rightarrow> sched_op \<Rightarrow> 'a sched_state_scheme \<Rightarrow> bool" where
  step_work: "sched_step s (Work c) (s\<lparr>cpu := c\<rparr>)"
| step_yield: "sched_step s Yield (scdk_yield s)"
| step_exit: "thread_trampoline_return s = Some s' \<Longrightarrow> scheduler_driver_slot s \<noteq> current_thread_slot s \<Longrightarrow> sched_step s Exit s'"
| step_start: "sched_step s (Start cap) (snd (scdk_thread_start s cap))"
| step_begin: "scheduler_driver_slot s = None \<Longrightarrow> sched_step s DriveBegin (snd (scdk_scheduler_run_begin s))"
| step_turn: "scheduler_driver_slot s = current_thread_slot s \<Longrightarrow> sched_step s DriveTurn (snd (scdk_scheduler_run_turn s))"

inductive_cases sched_stepE: "sched_step s a s'"

inductive sched_run :: "'a sched_state_scheme \<Rightarrow> sched_op list \<Rightarrow> 'a sched_state_scheme \<Rightarrow> bool" where
  run_nil: "sched_run s [] s"
| run_snoc: "sched_run s as s' \<Longrightarrow> sched_step s' a s'' \<Longrightarrow> sched_run s (as @ [a]) s''"

definition sched_wf :: "'a sched_state_scheme \<Rightarrow> bool" where
  "sched_wf s \<longleftrightarrow> sched_inv s \<and> scheduler_initialized s \<and>
     (\<exists>i. current_thread_slot s = Some i \<and> th_state (thread_table s i) = SCDK_THREAD_RUNNING)"

definition switches :: "sched_op \<Rightarrow> bool" where
  "switches a \<longleftrightarrow> a \<in> {Yield, Exit, DriveTurn}"

text \<open>What one step does to the queue and to the registers.\<close>

definition queue_step :: "sched_op \<Rightarrow> asched \<Rightarrow> asched \<Rightarrow> bool" where
  "queue_step a x y \<longleftrightarrow>
     (\<exists>more. a_ready y = (if switches a then tl (a_ready x) else a_ready x) @ more) \<and>
     (switches a \<longrightarrow> a_ready x \<noteq> [] \<longrightarrow> a_cur y = Some (hd (a_ready x))) \<and>
     (\<not> switches a \<longrightarrow> a_cur y = a_cur x) \<and>
     (\<forall>i. (\<exists>c. a = Work c) \<longrightarrow> a_cur x \<noteq> Some i \<longrightarrow> a_regs y i = a_regs x i) \<and>
     ((\<forall>c. a \<noteq> Work c) \<longrightarrow> a_regs y = a_regs x)"

lemma a_yield_cases:
  assumes "a_cur a = Some old"
  obtains (pick) n rest where "a_ready a = n # rest" "a_yield alive a = a_dispatch alive (a\<lparr>a_ready := rest\<rparr>) old n"
  | (driver) d where "a_ready a = []" "a_driver a = Some d" "old \<noteq> d" "a_st a d = SCDK_THREAD_BLOCKED"
      "a_yield alive a = a_dispatch alive a old d"
  | (idle) "a_ready a = []" "a_yield alive a = a"
proof (cases "a_ready a")
  case (Cons n rest)
  then show thesis using pick assms by (simp add: a_yield_def)
next
  case Nil
  show thesis
  proof (cases "\<exists>d. a_driver a = Some d \<and> old \<noteq> d \<and> a_st a d = SCDK_THREAD_BLOCKED")
    case True
    then show thesis using Nil driver assms by (auto simp: a_yield_def)
  next
    case False
    then have "a_yield alive a = a" using Nil assms by (auto simp: a_yield_def split: option.splits)
    then show thesis using Nil idle by blast
  qed
qed

lemma a_yield_queue: "switches b \<Longrightarrow> a_cur a = Some old \<Longrightarrow> queue_step b a (a_yield alive a)"
  by (erule a_yield_cases [of a old alive]) (auto simp: queue_step_def a_dispatch_def Let_def switches_def)

lemma a_yield_running:
  assumes "a_cur a = Some old" and "a_st a old = SCDK_THREAD_RUNNING \<or> a_cur (a_yield alive a) \<noteq> Some old"
  shows "\<exists>i. a_cur (a_yield alive a) = Some i \<and> a_st (a_yield alive a) i = SCDK_THREAD_RUNNING"
  by (rule a_yield_cases [OF assms(1), of alive]) (use assms in \<open>auto simp: a_dispatch_def Let_def\<close>)

lemma abs_sched_sel [simp]:
  "a_cur (abs_sched s) = current_thread_slot s" "a_driver (abs_sched s) = scheduler_driver_slot s"
  "a_ready (abs_sched s) = ready_q s" "a_st (abs_sched s) i = th_state (thread_table s i)"
  by (simp_all add: abs_sched_def)

lemma yield_step:
  assumes inv: "sched_inv s" "scheduler_initialized s" and cur: "current_thread_slot s = Some old" and b: "switches b"
    and r: "th_state (thread_table s old) = SCDK_THREAD_RUNNING \<or> current_thread_slot (scdk_yield s) \<noteq> Some old"
  shows "sched_wf (scdk_yield s) \<and> queue_step b (abs_sched s) (abs_sched (scdk_yield s))"
proof -
  have y: "yields s (scdk_yield s)" "abs_sched (scdk_yield s) = a_yield (thread_live s) (abs_sched s)"
    using yield_refines [OF inv] by blast+
  have "\<exists>i. a_cur (abs_sched (scdk_yield s)) = Some i \<and> a_st (abs_sched (scdk_yield s)) i = SCDK_THREAD_RUNNING"
    unfolding y(2) by (rule a_yield_running [of _ old]) (use cur r in \<open>simp_all add: y(2) [symmetric]\<close>)
  then have "sched_wf (scdk_yield s)" using y(1) inv(2) by (simp add: sched_wf_def yields_def)
  moreover have "queue_step b (abs_sched s) (abs_sched (scdk_yield s))"
    unfolding y(2) using a_yield_queue [OF b, of "abs_sched s" old] cur by simp
  ultimately show ?thesis by blast
qed

text \<open>Changing the state of the current thread, or of a thread that is not yet started.\<close>

lemma set_state_facts:
  shows "thread_slot_for_cap (set_th_state s i st) = thread_slot_for_cap s"
    "ready_q (set_th_state s i st) = ready_q s" "thread_live (set_th_state s i st) = thread_live s"
    "th_cap (thread_table (set_th_state s i st) j) = th_cap (thread_table s j)"
proof -
  show sl: "thread_slot_for_cap (set_th_state s i st) = thread_slot_for_cap s" by (simp add: set_th_state_def)
  show "ready_q (set_th_state s i st) = ready_q s"
    unfolding ready_q_def live_slots_frame [OF sl] by (simp add: set_th_state_def)
  show cap: "th_cap (thread_table (set_th_state s i st) j) = th_cap (thread_table s j)" for j
    by (simp add: set_th_state_def)
  show "thread_live (set_th_state s i st) = thread_live s" by (simp add: thread_live_def fun_eq_iff sl cap)
qed

lemma set_dead_inv:
  assumes inv: "sched_inv s" and cur: "current_thread_slot s = Some i" and d: "scheduler_driver_slot s \<noteq> Some i"
  shows "sched_inv (set_th_state s i SCDK_THREAD_DEAD)"
proof -
  note k = sched_invD [OF inv]
  let ?s = "set_th_state s i SCDK_THREAD_DEAD"
  have f: "th_state (thread_table ?s j) = (if j = i then SCDK_THREAD_DEAD else th_state (thread_table s j))"
    "th_queued (thread_table ?s j) = th_queued (thread_table s j)" "th_owner_core (thread_table ?s j) = th_owner_core (thread_table s j)"
    "run_queues ?s = run_queues s" "current_thread_slot ?s = Some i" "scheduler_driver_slot ?s = scheduler_driver_slot s" for j
    by (simp_all add: set_th_state_def cur)
  have nq: "\<not> th_queued (thread_table s i)" using k(6) [of i] k(9) [OF cur] by auto
  show ?thesis
    unfolding sched_inv_def f set_state_facts
  proof (intro conjI)
    show "\<forall>j. th_queued (thread_table s j) \<longleftrightarrow> (if j = i then SCDK_THREAD_DEAD else th_state (thread_table s j)) = SCDK_THREAD_READY"
      using k(6) nq by simp
    show "\<forall>j. (if j = i then SCDK_THREAD_DEAD else th_state (thread_table s j)) = SCDK_THREAD_RUNNING \<longrightarrow> Some i = Some j"
      using k(8) cur by (metis scdk_thread_state.distinct)
    show "\<forall>j. (if j = i then SCDK_THREAD_DEAD else th_state (thread_table s j)) = SCDK_THREAD_BLOCKED \<longrightarrow> scheduler_driver_slot s = Some j"
      using k(10) by simp
    show "\<forall>j. scheduler_driver_slot s = Some j \<longrightarrow>
       (if j = i then SCDK_THREAD_DEAD else th_state (thread_table s j)) \<in> {SCDK_THREAD_RUNNING, SCDK_THREAD_BLOCKED}"
      using k(11) d by simp
  qed (use k(1-5,7) in \<open>blast | simp\<close>)+
qed

lemma exit_step:
  assumes wf: "sched_wf s" and e: "thread_trampoline_return s = Some s'" and d: "scheduler_driver_slot s \<noteq> current_thread_slot s"
  shows "sched_wf s' \<and> queue_step Exit (abs_sched s) (abs_sched s')"
proof -
  obtain i where cur: "current_thread_slot s = Some i" and inv: "sched_inv s" "scheduler_initialized s" using wf by (auto simp: sched_wf_def)
  let ?s = "set_th_state s i SCDK_THREAD_DEAD"
  have s': "s' = scdk_yield ?s" "current_thread_slot s' \<noteq> Some i"
    using e cur by (auto simp: thread_trampoline_return_def Let_def split: if_splits)
  have c: "current_thread_slot ?s = Some i" "scheduler_initialized ?s" using cur inv(2) by (simp_all add: set_th_state_def)
  have "sched_wf s' \<and> queue_step Exit (abs_sched ?s) (abs_sched s')"
    unfolding s'(1) by (rule yield_step [OF set_dead_inv c(2,1)]) (use inv cur d s' in \<open>simp_all add: switches_def\<close>)
  moreover have "a_regs (abs_sched ?s) = a_regs (abs_sched s)" by (simp add: abs_sched_def set_th_state_def fun_eq_iff)
  ultimately show ?thesis by (simp add: queue_step_def set_state_facts switches_def)
qed

text \<open>Starting a thread changes nothing or appends it to the queue.\<close>

lemma thread_start_cases:
  assumes inv: "sched_inv s"
  obtains (refused) e where "scdk_thread_start s cap = (e, s)" "e \<noteq> SCDK_OK"
  | (started) i q where "thread_slot_for_cap s cap = Inr i" "th_state (thread_table s i) = SCDK_THREAD_NEW"
      "rq_ok q" "rq_items q = rq_items (run_queues s 0) @ [th_cap (thread_table s i)]"
      "scdk_thread_start s cap = (SCDK_OK, s\<lparr>run_queues := (run_queues s)(0 := q),
         thread_table := (thread_table s)(i := (thread_table s i)\<lparr>th_state := SCDK_THREAD_READY, th_queued := True\<rparr>)\<rparr>)"
proof (cases "scdk_cap_check s cap SCDK_RIGHT_EXEC SCDK_OBJ_THREAD")
  case (Inl e)
  then show thesis using refused [of e] cap_check_Inl_OK [of s cap SCDK_RIGHT_EXEC SCDK_OBJ_THREAD] by (auto simp: scdk_thread_start_def)
next
  case c: (Inr en)
  note k = sched_invD [OF inv]
  show thesis
  proof (cases "thread_slot_for_cap s cap")
    case (Inl e)
    have "e \<noteq> SCDK_OK"
      using Inl cap_check_Inl_OK [of s cap SCDK_RIGHT_READ SCDK_OBJ_THREAD]
      by (auto simp: thread_slot_for_cap_def scdk_object_lookup_def Let_def split: sum.splits payload.splits if_splits)
    with Inl c show thesis using refused [of e] by (simp add: scdk_thread_start_def)
  next
    case (Inr i)
    let ?s1 = "set_th_state s i SCDK_THREAD_READY"
    show thesis
    proof (cases "th_entry (thread_table s i) = 0 \<or> th_kernel_stack (thread_table s i) = 0 \<or> th_state (thread_table s i) \<noteq> SCDK_THREAD_NEW")
      case True
      then have "scdk_thread_start s cap = (SCDK_ERR_INVAL, s) \<or> scdk_thread_start s cap = (SCDK_ERR_BUSY, s)"
        using c Inr by (auto simp: scdk_thread_start_def)
      then show thesis using refused by blast
    next
      case False
      then have new: "th_state (thread_table s i) = SCDK_THREAD_NEW" by blast
      then have nq: "\<not> th_queued (thread_table s i)" using k(6) by simp
      show thesis
      proof (cases "length (rq_items (run_queues s 0)) < 128")
        case True
        from enqueue_ok [of ?s1 i] k(1,5) True nq obtain q where q: "rq_ok q"
          "rq_items q = rq_items (run_queues s 0) @ [th_cap (thread_table s i)]"
          "enqueue_thread ?s1 i = (SCDK_OK, set_thread (set_queue ?s1 0 q) i ((thread_table ?s1 i)\<lparr>th_queued := True\<rparr>))"
          by (auto simp: set_th_state_def)
        show thesis by (rule started [OF Inr new q(1,2)]) (use c Inr False q(3) in \<open>simp add: scdk_thread_start_def set_th_state_def\<close>)
      next
        case full: False
        have "rq_push (run_queues s 0) (th_cap (thread_table s i)) = None"
          using rq_push_full [OF k(1)] rq_len_le [OF k(1)] full by simp
        then have "enqueue_thread ?s1 i = (SCDK_ERR_BUSY, ?s1)"
          using k(5) nq by (simp add: enqueue_thread_def set_th_state_def kconst)
        moreover have "set_th_state ?s1 i SCDK_THREAD_NEW = s" using new by (simp add: set_th_state_def fun_upd_idem)
        ultimately show thesis using c Inr False refused [of SCDK_ERR_BUSY] by (simp add: scdk_thread_start_def)
      qed
    qed
  qed
qed

lemma start_step:
  assumes wf: "sched_wf s"
  shows "sched_wf (snd (scdk_thread_start s cap)) \<and> queue_step (Start cap) (abs_sched s) (abs_sched (snd (scdk_thread_start s cap)))"
proof -
  have inv: "sched_inv s" using wf by (simp add: sched_wf_def)
  note k = sched_invD [OF inv]
  show ?thesis
  proof (rule thread_start_cases [OF inv, of cap])
    fix e
    assume "scdk_thread_start s cap = (e, s)" "e \<noteq> SCDK_OK"
    then show ?thesis using wf by (simp add: queue_step_def switches_def)
  next
    fix i q
    assume i: "thread_slot_for_cap s cap = Inr i" "th_state (thread_table s i) = SCDK_THREAD_NEW" and q: "rq_ok q"
      "rq_items q = rq_items (run_queues s 0) @ [th_cap (thread_table s i)]"
      and st: "scdk_thread_start s cap = (SCDK_OK, s\<lparr>run_queues := (run_queues s)(0 := q),
         thread_table := (thread_table s)(i := (thread_table s i)\<lparr>th_state := SCDK_THREAD_READY, th_queued := True\<rparr>)\<rparr>)"
        (is "_ = (_, ?y)")
    have sl: "thread_slot_for_cap ?y = thread_slot_for_cap s"
      by (rule thread_slot_frame) (simp_all add: core_same_def fun_eq_iff)
    have cap: "th_cap (thread_table ?y j) = th_cap (thread_table s j)" for j by simp
    have live: "thread_live ?y = thread_live s" by (rule ext) (simp only: thread_live_def sl cap)
    have f: "th_state (thread_table ?y j) = (if j = i then SCDK_THREAD_READY else th_state (thread_table s j))"
      "th_queued (thread_table ?y j) = (j = i \<or> th_queued (thread_table s j))" "th_owner_core (thread_table ?y j) = th_owner_core (thread_table s j)"
      "run_queues ?y 0 = q" "current_thread_slot ?y = current_thread_slot s" "scheduler_driver_slot ?y = scheduler_driver_slot s"
      "scheduler_initialized ?y = scheduler_initialized s" for j
      by simp_all
    have own: "live_slots s [th_cap (thread_table s i)] = (if thread_live s i then [i] else [])"
      using k(4) [of i] by (auto simp: thread_live_def split: sum.splits)
    have rq: "ready_q ?y = ready_q s @ (if thread_live s i then [i] else [])"
      unfolding ready_q_def f(4) live_slots_frame [OF sl] q(2) using own by simp
    have nq: "\<not> th_queued (thread_table s i)" "i \<notin> set (ready_q s)" using k(6) [of i] k(3) [of i] i(2) by auto
    have "sched_inv ?y"
      unfolding sched_inv_def rq f sl cap live
    proof (intro conjI)
      show "rq_ok q" by (rule q(1))
      show "distinct (ready_q s @ (if thread_live s i then [i] else []))" using k(2) nq by simp
      show "\<forall>j\<in>set (ready_q s @ (if thread_live s i then [i] else [])). j = i \<or> th_queued (thread_table s j)"
        using k(3) by (auto split: if_splits)
      show "\<forall>j. (j = i \<or> th_queued (thread_table s j)) \<longleftrightarrow> (if j = i then SCDK_THREAD_READY else th_state (thread_table s j)) = SCDK_THREAD_READY"
        using k(6) by simp
      show "\<forall>j. j = i \<or> th_queued (thread_table s j) \<longrightarrow> thread_live s j \<longrightarrow> j \<in> set (ready_q s @ (if thread_live s i then [i] else []))"
        using k(7) by (auto split: if_splits)
      show "\<forall>j. (if j = i then SCDK_THREAD_READY else th_state (thread_table s j)) = SCDK_THREAD_RUNNING \<longrightarrow> current_thread_slot s = Some j"
        using k(8) by simp
      show "\<forall>j. current_thread_slot s = Some j \<longrightarrow>
          (if j = i then SCDK_THREAD_READY else th_state (thread_table s j)) \<in> {SCDK_THREAD_RUNNING, SCDK_THREAD_DEAD}"
        using k(9) [of i] k(9) i(2) by auto
      show "\<forall>j. (if j = i then SCDK_THREAD_READY else th_state (thread_table s j)) = SCDK_THREAD_BLOCKED \<longrightarrow> scheduler_driver_slot s = Some j"
        using k(10) by simp
      show "\<forall>j. scheduler_driver_slot s = Some j \<longrightarrow>
          (if j = i then SCDK_THREAD_READY else th_state (thread_table s j)) \<in> {SCDK_THREAD_RUNNING, SCDK_THREAD_BLOCKED}"
        using k(11) [of i] k(11) i(2) by auto
    qed (use k(4,5) in blast)+
    moreover obtain c where "current_thread_slot s = Some c" "th_state (thread_table s c) = SCDK_THREAD_RUNNING" "c \<noteq> i"
      using wf i(2) unfolding sched_wf_def by (metis scdk_thread_state.distinct)
    ultimately have "sched_wf ?y" using wf by (simp add: sched_wf_def)
    moreover have "queue_step (Start cap) (abs_sched s) (abs_sched ?y)"
      unfolding queue_step_def abs_sched_sel rq f by (auto simp: switches_def abs_sched_def)
    ultimately show ?thesis using st by simp
  qed
qed

lemma drive_begin_step:
  assumes "sched_wf s" and "scheduler_driver_slot s = None"
  shows "sched_wf (snd (scdk_scheduler_run_begin s)) \<and> queue_step DriveBegin (abs_sched s) (abs_sched (snd (scdk_scheduler_run_begin s)))"
proof -
  obtain i where cur: "current_thread_slot s = Some i" "th_state (thread_table s i) = SCDK_THREAD_RUNNING"
    and inv: "sched_inv s" "scheduler_initialized s" using assms(1) by (auto simp: sched_wf_def)
  note k = sched_invD [OF inv(1)]
  let ?y = "s\<lparr>scheduler_driver_slot := Some i\<rparr>"
  have y: "snd (scdk_scheduler_run_begin s) = ?y" using cur inv(2) by (simp add: scdk_scheduler_run_begin_def)
  have rq: "ready_q ?y = ready_q s" "thread_live ?y = thread_live s"
    using live_slots_frame [of ?y s] by (simp_all add: ready_q_def thread_live_def fun_eq_iff)
  have "sched_inv ?y"
    unfolding sched_inv_def rq
  proof (intro conjI)
    show "\<forall>j. th_state (thread_table ?y j) = SCDK_THREAD_BLOCKED \<longrightarrow> scheduler_driver_slot ?y = Some j"
      using k(10) assms(2) by fastforce
    show "\<forall>i j. thread_slot_for_cap ?y (th_cap (thread_table ?y i)) = Inr j \<longrightarrow> j = i" using k(4) by simp
    show "\<forall>j. th_state (thread_table ?y j) = SCDK_THREAD_RUNNING \<longrightarrow> current_thread_slot ?y = Some j" using k(8) by simp
    show "\<forall>j. current_thread_slot ?y = Some j \<longrightarrow> th_state (thread_table ?y j) \<in> {SCDK_THREAD_RUNNING, SCDK_THREAD_DEAD}"
      using k(9) by simp
    show "\<forall>d. scheduler_driver_slot ?y = Some d \<longrightarrow> th_state (thread_table ?y d) \<in> {SCDK_THREAD_RUNNING, SCDK_THREAD_BLOCKED}"
      using cur by simp
    show "\<forall>j. th_queued (thread_table ?y j) \<longrightarrow> thread_live s j \<longrightarrow> j \<in> set (ready_q s)" using k(7) by simp
    show "\<forall>j. th_queued (thread_table ?y j) \<longleftrightarrow> th_state (thread_table ?y j) = SCDK_THREAD_READY" using k(6) by simp
  qed (use k(1,2,3,5) in simp_all)
  then show ?thesis using cur inv(2) unfolding y
    by (auto simp: sched_wf_def queue_step_def switches_def rq) (simp_all add: abs_sched_def fun_eq_iff)
qed

lemma drive_turn_step:
  assumes wf: "sched_wf s" and d: "scheduler_driver_slot s = current_thread_slot s"
  shows "sched_wf (snd (scdk_scheduler_run_turn s)) \<and> queue_step DriveTurn (abs_sched s) (abs_sched (snd (scdk_scheduler_run_turn s)))"
proof -
  obtain i where cur: "current_thread_slot s = Some i" "th_state (thread_table s i) = SCDK_THREAD_RUNNING"
    and inv: "sched_inv s" "scheduler_initialized s" using wf by (auto simp: sched_wf_def)
  note k = sched_invD [OF inv(1)]
  show ?thesis
  proof (cases "run_queue_empty s (th_owner_core (thread_table s i))")
    case False
    then have "snd (scdk_scheduler_run_turn s) = scdk_yield s" using cur d by (simp add: scdk_scheduler_run_turn_def)
    then show ?thesis using yield_step [OF inv cur(1), of DriveTurn] cur(2) by (simp add: switches_def)
  next
    case True
    let ?y = "s\<lparr>scheduler_driver_slot := None\<rparr>"
    have y: "snd (scdk_scheduler_run_turn s) = ?y" using True cur d by (simp add: scdk_scheduler_run_turn_def)
    have "rq_items (run_queues s 0) = []" using True k(5) [of i] by (simp add: run_queue_empty_def rq_items_def)
    then have e: "ready_q s = []" by (simp add: ready_q_def)
    have rq: "ready_q ?y = ready_q s" "thread_live ?y = thread_live s"
      using live_slots_frame [of ?y s] by (simp_all add: ready_q_def thread_live_def fun_eq_iff)
    have "sched_inv ?y"
      unfolding sched_inv_def rq
    proof (intro conjI)
      show "\<forall>j. th_state (thread_table ?y j) = SCDK_THREAD_BLOCKED \<longrightarrow> scheduler_driver_slot ?y = Some j"
        using k(10) cur d by fastforce
      show "\<forall>i j. thread_slot_for_cap ?y (th_cap (thread_table ?y i)) = Inr j \<longrightarrow> j = i" using k(4) by simp
      show "\<forall>j. th_state (thread_table ?y j) = SCDK_THREAD_RUNNING \<longrightarrow> current_thread_slot ?y = Some j" using k(8) by simp
      show "\<forall>j. current_thread_slot ?y = Some j \<longrightarrow> th_state (thread_table ?y j) \<in> {SCDK_THREAD_RUNNING, SCDK_THREAD_DEAD}"
        using k(9) by simp
      show "\<forall>j. th_queued (thread_table ?y j) \<longrightarrow> thread_live s j \<longrightarrow> j \<in> set (ready_q s)" using k(7) by simp
      show "\<forall>j. th_queued (thread_table ?y j) \<longleftrightarrow> th_state (thread_table ?y j) = SCDK_THREAD_READY" using k(6) by simp
    qed (use k(1,2,3,5) in simp_all)
    then show ?thesis using cur inv(2) unfolding y
      by (auto simp: sched_wf_def queue_step_def switches_def rq e) (simp_all add: abs_sched_def fun_eq_iff)
  qed
qed

lemma work_step:
  assumes "sched_wf s"
  shows "sched_wf (s\<lparr>cpu := c\<rparr>) \<and> queue_step (Work c) (abs_sched s) (abs_sched (s\<lparr>cpu := c\<rparr>))"
proof -
  let ?y = "s\<lparr>cpu := c\<rparr>"
  have rq: "ready_q ?y = ready_q s" "thread_live ?y = thread_live s"
    using live_slots_frame [of ?y s] by (simp_all add: ready_q_def thread_live_def fun_eq_iff)
  have "sched_inv ?y = sched_inv s" unfolding sched_inv_def rq by simp
  then show ?thesis using assms by (simp add: sched_wf_def queue_step_def switches_def rq) (simp add: abs_sched_def)
qed

lemma sched_step_ok:
  assumes "sched_wf s" and "sched_step s a s'"
  shows "sched_wf s' \<and> queue_step a (abs_sched s) (abs_sched s')"
  using assms(2)
proof (cases rule: sched_step.cases)
  case step_yield
  obtain i where i: "current_thread_slot s = Some i" "th_state (thread_table s i) = SCDK_THREAD_RUNNING"
    using assms(1) by (auto simp: sched_wf_def)
  show ?thesis unfolding step_yield
    by (rule yield_step [OF _ _ i(1)]) (use assms(1) i(2) in \<open>simp_all add: sched_wf_def switches_def\<close>)
qed (use assms(1) work_step exit_step start_step drive_begin_step drive_turn_step in simp_all)

lemma sched_run_wf: "sched_run s as s' \<Longrightarrow> sched_wf s \<Longrightarrow> sched_wf s'"
  by (induction rule: sched_run.induct) (auto dest: sched_step_ok)

text \<open>A thread moves towards the head of the queue by one place per switch.\<close>

lemma queue_position:
  assumes "sched_run s as s'" and "sched_wf s" and "length (filter switches as) \<le> k" and "k < length (ready_q s)"
  shows "k - length (filter switches as) < length (ready_q s') \<and>
    ready_q s' ! (k - length (filter switches as)) = ready_q s ! k"
  using assms
proof (induction rule: sched_run.induct)
  case (run_snoc s as s' a s'')
  let ?n = "length (filter switches as)"
  have n: "?n \<le> k" using run_snoc.prems(2) by simp
  with run_snoc have ih: "k - ?n < length (ready_q s')" "ready_q s' ! (k - ?n) = ready_q s ! k" by blast+
  have "queue_step a (abs_sched s') (abs_sched s'')"
    using sched_step_ok [OF sched_run_wf [OF run_snoc.hyps(1) run_snoc.prems(1)] run_snoc.hyps(2)] by blast
  then obtain more where m: "ready_q s'' = (if switches a then tl (ready_q s') else ready_q s') @ more"
    unfolding queue_step_def abs_sched_sel by blast
  show ?case
  proof (cases "switches a")
    case False
    with ih m show ?thesis by (simp add: nth_append)
  next
    case True
    then have "k - ?n = Suc (k - length (filter switches (as @ [a])))" using run_snoc.prems(2) by simp
    with ih m True show ?thesis by (cases "ready_q s'") (auto simp: nth_append)
  qed
qed simp

text \<open>\<open>idle_run i\<close>: steps in which thread \<open>i\<close> does not compute.\<close>

inductive idle_run :: "nat \<Rightarrow> 'a sched_state_scheme \<Rightarrow> 'a sched_state_scheme \<Rightarrow> bool" where
  idle_refl: "idle_run i s s"
| idle_snoc: "idle_run i s s' \<Longrightarrow> sched_step s' a s'' \<Longrightarrow> (\<exists>c. a = Work c) \<longrightarrow> current_thread_slot s' \<noteq> Some i \<Longrightarrow> idle_run i s s''"

lemma idle_regs:
  "idle_run i s s' \<Longrightarrow> sched_wf s \<Longrightarrow> sched_wf s' \<and> a_regs (abs_sched s') i = a_regs (abs_sched s) i"
proof (induction rule: idle_run.induct)
  case (idle_snoc i s s' a s'')
  then have w: "sched_wf s'" and r: "a_regs (abs_sched s') i = a_regs (abs_sched s) i" by blast+
  from sched_step_ok [OF w idle_snoc.hyps(2)] have "sched_wf s''" "queue_step a (abs_sched s') (abs_sched s'')" by blast+
  moreover have "a_regs (abs_sched s'') i = a_regs (abs_sched s') i"
    using calculation(2) idle_snoc.hyps(3) unfolding queue_step_def abs_sched_sel by metis
  ultimately show ?case using r by simp
qed simp

section \<open>A small system\<close>

text \<open>Three threads with their objects and capabilities; thread 0 runs, 1 and 2 are queued.\<close>

definition demo_regs :: "u64 \<Rightarrow> scdk_thread_context" where
  "demo_regs x = \<lparr>tc_r15 = x, tc_r14 = 0, tc_r13 = 0, tc_r12 = 0, tc_rbx = 0, tc_rbp = 0, tc_rsp = x\<rparr>"

definition demo_thread :: "u64 \<Rightarrow> scdk_thread_state \<Rightarrow> scdk_thread_slot" where
  "demo_thread k st = \<lparr>th_context = demo_regs k, th_object_id = (if st = SCDK_THREAD_NONE then 0 else 0x100000000 + k),
     th_cap = (if st = SCDK_THREAD_NONE then 0 else 0x100000000 + k), th_task_cap = 0,
     th_task_id = 0, th_entry = 0x1000, th_arg = 0, th_kernel_stack = 0x2000, th_stack_top = 0, th_owner_core = 0,
     th_state = st, th_queued = (st = SCDK_THREAD_READY)\<rparr>"

definition sched_demo :: sched_state where
  "sched_demo = aspace_state.extend
     (as_demo\<lparr>object_table := (\<lambda>i. if i < 3 then \<lparr>obj_id = 0x100000000 + of_nat i, obj_type = SCDK_OBJ_THREAD, obj_generation = 1,
                obj_owner_core = 0, obj_flags = 0, obj_payload = PThread i\<rparr> else null_object),
        object_generations := (\<lambda>i. if i < 3 then 1 else 0),
        cap_table := (\<lambda>i. if i < 3 then \<lparr>ce_object_id = 0x100000000 + of_nat i, ce_generation = 1,
                ce_object_type = SCDK_OBJ_THREAD, ce_revoked = 0, ce_rights = SCDK_RIGHT_READ OR SCDK_RIGHT_EXEC\<rparr> else null_cap_entry),
        cap_generations := (\<lambda>i. if i < 3 then 1 else 0)\<rparr>)
     \<lparr>task_table = (\<lambda>_. \<lparr>tk_object_id = 0, tk_cap = 0, tk_owner_core = 0, tk_address_space = 0, tk_main_thread = 0\<rparr>),
      thread_table = (\<lambda>_. demo_thread 0 SCDK_THREAD_NONE)(0 := demo_thread 0 SCDK_THREAD_RUNNING,
        1 := demo_thread 1 SCDK_THREAD_READY, 2 := demo_thread 2 SCDK_THREAD_READY),
      run_queues = (\<lambda>_. \<lparr>rq_entries = (\<lambda>_. 0)(0 := 0x100000001, 1 := 0x100000002), rq_head = 0, rq_tail = 2, rq_count = 2\<rparr>),
      current_thread_slot = Some 0, scheduler_driver_slot = None, current_task = 0, current_thread = 0x100000000,
      scheduler_initialized = True, cpu = demo_regs 7, trampoline_addr = 0x3000\<rparr>"

lemma sched_demo_sel:
  "object_table sched_demo = (\<lambda>i. if i < 3 then \<lparr>obj_id = 0x100000000 + of_nat i, obj_type = SCDK_OBJ_THREAD, obj_generation = 1,
                obj_owner_core = 0, obj_flags = 0, obj_payload = PThread i\<rparr> else null_object)"
  "cap_table sched_demo = (\<lambda>i. if i < 3 then \<lparr>ce_object_id = 0x100000000 + of_nat i, ce_generation = 1,
                ce_object_type = SCDK_OBJ_THREAD, ce_revoked = 0, ce_rights = SCDK_RIGHT_READ OR SCDK_RIGHT_EXEC\<rparr> else null_cap_entry)"
  "cap_generations sched_demo = (\<lambda>i. if i < 3 then 1 else 0)"
  "thread_table sched_demo = (\<lambda>_. demo_thread 0 SCDK_THREAD_NONE)(0 := demo_thread 0 SCDK_THREAD_RUNNING,
        1 := demo_thread 1 SCDK_THREAD_READY, 2 := demo_thread 2 SCDK_THREAD_READY)"
  "run_queues sched_demo = (\<lambda>_. \<lparr>rq_entries = (\<lambda>_. 0)(0 := 0x100000001, 1 := 0x100000002), rq_head = 0, rq_tail = 2, rq_count = 2\<rparr>)"
  "current_thread_slot sched_demo = Some 0" "scheduler_driver_slot sched_demo = None" "scheduler_initialized sched_demo"
  "cpu sched_demo = demo_regs 7"
  by (simp_all add: sched_demo_def aspace_state.defs)

lemma sched_demo_slots:
  "thread_slot_for_cap sched_demo 0x100000000 = Inr 0" "thread_slot_for_cap sched_demo 0x100000001 = Inr 1"
  "thread_slot_for_cap sched_demo 0x100000002 = Inr 2" "\<exists>e. thread_slot_for_cap sched_demo 0 = Inl e"
  by (simp_all add: thread_slot_for_cap_def scdk_cap_check_def scdk_cap_lookup_def validate_cap_slot_def sched_demo_sel
      cap_index_def cap_generation_def scdk_object_lookup_def object_id_index_def object_id_generation_def kconst Let_def
      demo_thread_def)

lemma sched_demo_queue: "ready_q sched_demo = [1, 2]"
  by (simp add: ready_q_def rq_items_def cb_items_def sched_demo_sel sched_demo_slots upt_rec)

lemma sched_demo_wf: "sched_wf sched_demo"
proof -
  have st: "th_state (thread_table sched_demo i) = (if i = 0 then SCDK_THREAD_RUNNING
      else if i < 3 then SCDK_THREAD_READY else SCDK_THREAD_NONE)"
    "th_owner_core (thread_table sched_demo i) = 0"
    "th_queued (thread_table sched_demo i) \<longleftrightarrow> i = 1 \<or> i = 2"
    "th_cap (thread_table sched_demo i) = (if i < 3 then 0x100000000 + of_nat i else 0)" for i
  proof -
    have "i = 0 \<or> i = 1 \<or> i = 2 \<or> \<not> i < 3" by auto
    then show "th_cap (thread_table sched_demo i) = (if i < 3 then 0x100000000 + of_nat i else 0)"
      by (auto simp: sched_demo_sel demo_thread_def)
  qed (auto simp: sched_demo_sel demo_thread_def)
  have own: "j = i" if "thread_slot_for_cap sched_demo (th_cap (thread_table sched_demo i)) = Inr j" for i j
  proof (cases "i < 3")
    case True
    then have "i = 0 \<or> i = 1 \<or> i = 2" by auto
    then show ?thesis using that sched_demo_slots by (auto simp: st)
  next
    case False
    then show ?thesis using that sched_demo_slots(4) by (auto simp: st)
  qed
  have "rq_ok (run_queues sched_demo 0)" by (simp add: rq_ok_def sched_demo_sel)
  moreover have "i \<in> set [1, 2]" if "i = 1 \<or> i = 2" for i :: nat using that by auto
  ultimately have "sched_inv sched_demo"
    unfolding sched_inv_def sched_demo_queue st
    by (intro conjI) (use own in \<open>simp_all add: st sched_demo_sel(6-8) split: if_splits\<close>, auto)
  then show ?thesis by (simp add: sched_wf_def sched_demo_sel demo_thread_def)
qed

lemma sched_demo_turns:
  defines "a \<equiv> scdk_yield sched_demo"
  defines "b \<equiv> scdk_yield (a\<lparr>cpu := demo_regs 9\<rparr>)"
  defines "c \<equiv> scdk_yield (b\<lparr>cpu := demo_regs 8\<rparr>)"
  shows "current_thread_slot a = Some 1" "current_thread_slot b = Some 2" "current_thread_slot c = Some 0"
proof -
  have r: "sched_run sched_demo ([] @ [Yield]) a" unfolding a_def by (rule run_snoc [OF run_nil step_yield])
  have live: "thread_live sched_demo 0" by (simp add: thread_live_def sched_demo_sel demo_thread_def sched_demo_slots)
  have w: "sched_inv sched_demo" "scheduler_initialized sched_demo" using sched_demo_wf by (simp_all add: sched_wf_def)
  have ya: "abs_sched a = a_yield (thread_live sched_demo) (abs_sched sched_demo)" unfolding a_def using yield_refines [OF w] by blast
  have qa: "a_ready (abs_sched a) = [2, 0]" "a_cur (abs_sched a) = Some 1"
    unfolding ya by (simp_all add: a_yield_def a_dispatch_def Let_def sched_demo_sel sched_demo_queue live demo_thread_def)
  have wa: "sched_wf a" using sched_run_wf [OF r sched_demo_wf] .
  have pa: "ready_q a ! 0 = 2" "ready_q a ! 1 = 0" "length (ready_q a) = 2" using qa by simp_all
  have ra: "sched_run a ([] @ [Work (demo_regs 9)]) (a\<lparr>cpu := demo_regs 9\<rparr>)" by (rule run_snoc [OF run_nil step_work])
  have rb: "sched_run a (([] @ [Work (demo_regs 9)]) @ [Yield]) b" unfolding b_def by (rule run_snoc [OF ra step_yield])
  have rb': "sched_run a ((([] @ [Work (demo_regs 9)]) @ [Yield]) @ [Work (demo_regs 8)]) (b\<lparr>cpu := demo_regs 8\<rparr>)"
    by (rule run_snoc [OF rb step_work])
  show "current_thread_slot a = Some 1" using qa(2) by simp
  have qb: "queue_step Yield (abs_sched (a\<lparr>cpu := demo_regs 9\<rparr>)) (abs_sched b)"
    unfolding b_def using sched_step_ok [OF sched_run_wf [OF ra wa] step_yield] by blast
  have qb': "0 < length (ready_q (b\<lparr>cpu := demo_regs 8\<rparr>))" "ready_q (b\<lparr>cpu := demo_regs 8\<rparr>) ! 0 = 0"
    using queue_position [OF rb' wa, of 1] pa by (simp_all add: switches_def)
  have qw: "ready_q (a\<lparr>cpu := demo_regs 9\<rparr>) = ready_q a" using live_slots_frame [of "a\<lparr>cpu := demo_regs 9\<rparr>" a] by (simp add: ready_q_def)
  show "current_thread_slot b = Some 2" using qb qa qw by (simp add: queue_step_def switches_def)
  have "queue_step Yield (abs_sched (b\<lparr>cpu := demo_regs 8\<rparr>)) (abs_sched c)"
    unfolding c_def using sched_step_ok [OF sched_run_wf [OF rb' wa] step_yield] by blast
  then show "current_thread_slot c = Some 0" using qb' by (auto simp: queue_step_def switches_def hd_conv_nth)
qed

section \<open>Properties\<close>

text \<open>
  (C12) \<^verbatim>\<open>scdk_yield\<close> implements the abstract scheduler: the thread at the head of the queue
  (of the threads whose capabilities are still live) becomes current, the thread
  that yields goes to the end, a thread that has died is not queued again, the
  thread that drives the loop is parked and comes back only when the queue is
  empty; every thread keeps its registers. The invariant is kept, and the
  \<^verbatim>\<open>enqueue_thread\<close> inside \<^verbatim>\<open>scdk_yield\<close> never fails.
\<close>

theorem scheduler_yield_refines:
  assumes "sched_inv s" and "scheduler_initialized s"
  shows "sched_inv (scdk_yield s) \<and> abs_sched (scdk_yield s) = a_yield (thread_live s) (abs_sched s)"
  using yield_refines [OF assms] by (simp add: yields_def)

theorem scheduler_yield_refines_witness:
  "ready_q (scdk_yield sched_demo) = [2, 0] \<and> current_thread_slot (scdk_yield sched_demo) = Some 1 \<and>
    cpu (scdk_yield sched_demo) = demo_regs 1"
proof -
  have w: "sched_inv sched_demo" "scheduler_initialized sched_demo" using sched_demo_wf by (simp_all add: sched_wf_def)
  have live: "thread_live sched_demo 0" by (simp add: thread_live_def sched_demo_sel demo_thread_def sched_demo_slots)
  note y = conjunct2 [OF scheduler_yield_refines [OF w]]
  have "a_yield (thread_live sched_demo) (abs_sched sched_demo) = a_dispatch (thread_live sched_demo) ((abs_sched sched_demo)\<lparr>a_ready := [2]\<rparr>) 0 1"
    by (simp add: a_yield_def sched_demo_sel sched_demo_queue)
  then have e: "abs_sched (scdk_yield sched_demo) = a_dispatch (thread_live sched_demo) ((abs_sched sched_demo)\<lparr>a_ready := [2]\<rparr>) 0 1"
    using y by simp
  have r: "a_ready (abs_sched (scdk_yield sched_demo)) = [2, 0]" "a_cur (abs_sched (scdk_yield sched_demo)) = Some 1"
    "a_regs (abs_sched (scdk_yield sched_demo)) 1 = demo_regs 1"
    unfolding e by (simp_all add: a_dispatch_def Let_def live sched_demo_sel demo_thread_def abs_sched_def)
  then have "cpu (scdk_yield sched_demo) = demo_regs 1" by (simp add: abs_sched_def)
  with r show ?thesis by simp
qed

text \<open>
  (C33) No thread starves: the thread at place \<open>k\<close> of the queue is the current one after
  exactly \<open>k + 1\<close> switches (yields, exits and turns of the driver), whatever the
  running threads compute and start in between.
\<close>

theorem scheduler_round_robin:
  assumes "sched_wf s" and "k < length (ready_q s)" and "sched_run s (as @ [a]) s'" and "switches a"
    and "length (filter switches as) = k"
  shows "current_thread_slot s' = Some (ready_q s ! k) \<and>
    th_state (thread_table s' (ready_q s ! k)) = SCDK_THREAD_RUNNING"
proof -
  from assms(3) obtain s1 where r: "sched_run s as s1" "sched_step s1 a s'" by (cases rule: sched_run.cases) auto
  have q: "0 < length (ready_q s1)" "ready_q s1 ! 0 = ready_q s ! k"
    using queue_position [OF r(1) assms(1), of k] assms(2,5) by simp_all
  have "sched_wf s'" "queue_step a (abs_sched s1) (abs_sched s')"
    using sched_step_ok [OF sched_run_wf [OF r(1) assms(1)] r(2)] by blast+
  then show ?thesis using q assms(4) by (auto simp: queue_step_def sched_wf_def hd_conv_nth)
qed

theorem scheduler_round_robin_witness:
  "current_thread_slot (scdk_yield ((scdk_yield sched_demo)\<lparr>cpu := demo_regs 9\<rparr>)) = Some 2"
proof -
  have "sched_run sched_demo ([] @ [Yield]) (scdk_yield sched_demo)" by (rule run_snoc [OF run_nil step_yield])
  from run_snoc [OF run_snoc [OF this step_work [of _ "demo_regs 9"]] step_yield]
  have "sched_run sched_demo ([Yield, Work (demo_regs 9)] @ [Yield]) (scdk_yield ((scdk_yield sched_demo)\<lparr>cpu := demo_regs 9\<rparr>))" by simp
  from scheduler_round_robin [OF sched_demo_wf _ this, of 1] show ?thesis by (simp add: sched_demo_queue switches_def)
qed

text \<open>
  In every state the threads can bring the scheduler into, exactly one thread runs
  and it is the current one, every ready thread with a live capability is in the
  queue exactly once and the queue holds no other thread; in particular a thread
  that has exited is neither current nor queued.
\<close>

theorem scheduler_invariant:
  assumes "sched_wf s" and "sched_run s as s'"
  shows "(\<exists>!i. th_state (thread_table s' i) = SCDK_THREAD_RUNNING) \<and>
    (\<forall>i. current_thread_slot s' = Some i \<longleftrightarrow> th_state (thread_table s' i) = SCDK_THREAD_RUNNING) \<and>
    distinct (ready_q s') \<and>
    (\<forall>i. i \<in> set (ready_q s') \<longrightarrow> th_state (thread_table s' i) = SCDK_THREAD_READY) \<and>
    (\<forall>i. th_state (thread_table s' i) = SCDK_THREAD_READY \<and> thread_live s' i \<longrightarrow> i \<in> set (ready_q s'))"
proof -
  have "sched_wf s'" using sched_run_wf [OF assms(2,1)] .
  then obtain i where i: "current_thread_slot s' = Some i" "th_state (thread_table s' i) = SCDK_THREAD_RUNNING"
    and inv: "sched_inv s'" by (auto simp: sched_wf_def)
  note k = sched_invD [OF inv]
  show ?thesis
  proof (intro conjI)
    show "\<exists>!i. th_state (thread_table s' i) = SCDK_THREAD_RUNNING" using i k(8) by (metis option.inject)
    show "\<forall>j. current_thread_slot s' = Some j \<longleftrightarrow> th_state (thread_table s' j) = SCDK_THREAD_RUNNING"
      using i k(8) by (metis option.inject)
  qed (use k(2,3,6,7) in blast)+
qed

theorem scheduler_invariant_witness:
  "\<exists>!i. th_state (thread_table (snd (scdk_thread_start (scdk_yield sched_demo) 0x100000002)) i) = SCDK_THREAD_RUNNING"
proof -
  have "sched_run sched_demo ([] @ [Yield]) (scdk_yield sched_demo)" by (rule run_snoc [OF run_nil step_yield])
  from scheduler_invariant [OF sched_demo_wf run_snoc [OF this step_start [of _ "0x100000002"]]] show ?thesis by blast
qed

text \<open>
  (C34) Switching is transparent to a thread: when it yields and is current again after
  the other threads have run, the processor has the registers it had when the
  thread yielded.
\<close>

theorem registers_restored:
  assumes "sched_wf s" and "current_thread_slot s = Some i"
    and "idle_run i (scdk_yield s) s'" and "current_thread_slot s' = Some i"
  shows "cpu s' = cpu s"
proof -
  have y: "sched_wf (scdk_yield s)" "a_regs (abs_sched (scdk_yield s)) = a_regs (abs_sched s)"
    using sched_step_ok [OF assms(1) step_yield] by (auto simp: queue_step_def)
  have "a_regs (abs_sched s') i = a_regs (abs_sched s) i" using idle_regs [OF assms(3) y(1)] y(2) by simp
  then show ?thesis using assms(2,4) by (simp add: abs_sched_def)
qed

theorem registers_restored_witness:
  "\<exists>s'. current_thread_slot s' = Some 0 \<and> cpu s' = demo_regs 7 \<and>
     s' = scdk_yield ((scdk_yield ((scdk_yield sched_demo)\<lparr>cpu := demo_regs 9\<rparr>))\<lparr>cpu := demo_regs 8\<rparr>)"
proof -
  let ?a = "scdk_yield sched_demo"
  let ?b = "scdk_yield (?a\<lparr>cpu := demo_regs 9\<rparr>)"
  let ?c = "scdk_yield (?b\<lparr>cpu := demo_regs 8\<rparr>)"
  note cur = sched_demo_turns
  have "idle_run 0 ?a ?c"
    by (rule idle_snoc [OF idle_snoc [OF idle_snoc [OF idle_snoc [OF idle_refl step_work [of _ "demo_regs 9"]] step_yield]
        step_work [of _ "demo_regs 8"]] step_yield]) (use cur in simp_all)
  from registers_restored [OF sched_demo_wf _ this] cur(3) show ?thesis by (simp add: sched_demo_sel)
qed

end
