(* ===== verification/SCDK_Task.thy ===== *)
theory SCDK_Task
  imports SCDK_Scheduler
begin

text \<open>
  User tasks (\<^verbatim>\<open>core/task.c\<close>): the tables of user tasks and user threads, and the life
  cycle of a task from its creation over its one run to its clean-up. The
  functions of \<^verbatim>\<open>arch/x86_64/usermode.c\<close> that run user code in ring 3 are arguments
  of the definitions: what they do to the kernel state is whatever system calls
  and faults the user program makes. A pointer to a slot is its index. The C file
  has its own static functions \<^verbatim>\<open>task_slot_for_cap\<close> and \<^verbatim>\<open>thread_slot_for_cap\<close>, different
  from those of the scheduler; here they are \<open>user_task_slot_for_cap\<close> and
  \<open>user_thread_slot_for_cap\<close>.
\<close>

section \<open>State\<close>

definition SCDK_USER_TEST_CODE_VIRT :: u64 where [kconst]: "SCDK_USER_TEST_CODE_VIRT = 0x400000"
definition SCDK_USER_TEST_STACK_TOP :: u64 where [kconst]: "SCDK_USER_TEST_STACK_TOP = 0x70000000"

datatype scdk_task_state = SCDK_TASK_NONE | SCDK_TASK_NEW | SCDK_TASK_RUNNING | SCDK_TASK_DEAD | SCDK_TASK_CLEANED

record scdk_user_task_slot =
  ut_in_use :: bool
  ut_task_cap :: u64
  ut_task_id :: u64
  ut_address_space_cap :: u64
  ut_address_space_id :: u64
  ut_main_thread_cap :: u64
  ut_capability_table_placeholder :: u64
  ut_owner_core :: u32
  ut_state :: scdk_task_state
  ut_exit_status :: u32

record scdk_user_thread_slot =
  uth_in_use :: bool
  uth_thread_cap :: u64
  uth_thread_id :: u64
  uth_task_id :: u64
  uth_user_stack_top :: u64
  uth_instruction_pointer :: u64
  uth_owner_core :: u32
  uth_state :: scdk_thread_state

record task_state = sched_state +
  user_tasks :: "nat \<Rightarrow> scdk_user_task_slot"
  user_threads :: "nat \<Rightarrow> scdk_user_thread_slot"
  current_user_task :: u64

abbreviation set_utask :: "'a task_state_scheme \<Rightarrow> nat \<Rightarrow> scdk_user_task_slot \<Rightarrow> 'a task_state_scheme" where
  "set_utask s i t \<equiv> s\<lparr>user_tasks := (user_tasks s)(i := t)\<rparr>"

abbreviation set_uthread :: "'a task_state_scheme \<Rightarrow> nat \<Rightarrow> scdk_user_thread_slot \<Rightarrow> 'a task_state_scheme" where
  "set_uthread s i t \<equiv> s\<lparr>user_threads := (user_threads s)(i := t)\<rparr>"

section \<open>Operations\<close>

definition object_id_from_cap :: "'a task_state_scheme \<Rightarrow> u64 \<Rightarrow> scdk_object_type \<Rightarrow> u64 res" where
  "object_id_from_cap s cap expected_type =
     (case scdk_cap_check s cap SCDK_RIGHT_READ expected_type of Inl e \<Rightarrow> Inl e | Inr entry \<Rightarrow> Inr (ce_object_id entry))"

definition user_task_slot_for_cap :: "'a task_state_scheme \<Rightarrow> u64 \<Rightarrow> nat res" where
  "user_task_slot_for_cap s task =
     (case first_slot (\<lambda>i. ut_in_use (user_tasks s i) \<and> ut_task_cap (user_tasks s i) = task) SCDK_MAX_TASKS of
        None \<Rightarrow> Inl SCDK_ERR_NOENT | Some i \<Rightarrow> Inr i)"

definition user_thread_slot_for_cap :: "'a task_state_scheme \<Rightarrow> u64 \<Rightarrow> nat res" where
  "user_thread_slot_for_cap s thread =
     (case first_slot (\<lambda>i. uth_in_use (user_threads s i) \<and> uth_thread_cap (user_threads s i) = thread) SCDK_MAX_THREADS of
        None \<Rightarrow> Inl SCDK_ERR_NOENT | Some i \<Rightarrow> Inr i)"

definition alloc_task_slot :: "'a task_state_scheme \<Rightarrow> nat option" where
  "alloc_task_slot s = first_slot (\<lambda>i. \<not> ut_in_use (user_tasks s i)) SCDK_MAX_TASKS"

definition alloc_thread_slot :: "'a task_state_scheme \<Rightarrow> nat option" where
  "alloc_thread_slot s = first_slot (\<lambda>i. \<not> uth_in_use (user_threads s i)) SCDK_MAX_THREADS"

definition scdk_user_thread_create :: "'a task_state_scheme \<Rightarrow> u64 \<Rightarrow> u64 res \<times> 'a task_state_scheme" where
  "scdk_user_thread_create s task =
     (case user_task_slot_for_cap s task of
        Inl e \<Rightarrow> (Inl e, s)
      | Inr ti \<Rightarrow>
          (case alloc_thread_slot s of
             None \<Rightarrow> (Inl SCDK_ERR_NOMEM, s)
           | Some i \<Rightarrow>
               (case scdk_thread_create s task 0 0 of
                  (Inl e, s1) \<Rightarrow> (Inl e, s1)
                | (Inr thread, s1) \<Rightarrow>
                    (case object_id_from_cap s1 thread SCDK_OBJ_THREAD of
                       Inl e \<Rightarrow> (Inl e, s1)
                     | Inr thread_id \<Rightarrow>
                         (let s2 = set_uthread s1 i \<lparr>uth_in_use = True, uth_thread_cap = thread, uth_thread_id = thread_id,
                                uth_task_id = ut_task_id (user_tasks s1 ti), uth_user_stack_top = SCDK_USER_TEST_STACK_TOP,
                                uth_instruction_pointer = SCDK_USER_TEST_CODE_VIRT,
                                uth_owner_core = ut_owner_core (user_tasks s1 ti), uth_state = SCDK_THREAD_NEW\<rparr>
                          in (Inr thread, set_utask s2 ti ((user_tasks s2 ti)\<lparr>ut_main_thread_cap := thread\<rparr>)))))))"

definition scdk_user_task_create :: "'a task_state_scheme \<Rightarrow> (u64 \<times> u64 \<times> u64) res \<times> 'a task_state_scheme" where
  "scdk_user_task_create s =
     (case alloc_task_slot s of
        None \<Rightarrow> (Inl SCDK_ERR_NOMEM, s)
      | Some i \<Rightarrow>
          (case scdk_address_space_create s of
             (Inl e, s1) \<Rightarrow> (Inl e, s1)
           | (Inr aspace, s1) \<Rightarrow>
               (case object_id_from_cap s1 aspace SCDK_OBJ_ADDRESS_SPACE of
                  Inl e \<Rightarrow> (Inl e, s1)
                | Inr aspace_id \<Rightarrow>
                    (case scdk_task_create s1 SCDK_BOOT_CORE aspace_id of
                       (Inl e, s2) \<Rightarrow> (Inl e, s2)
                     | (Inr task, s2) \<Rightarrow>
                         (case object_id_from_cap s2 task SCDK_OBJ_TASK of
                            Inl e \<Rightarrow> (Inl e, s2)
                          | Inr task_id \<Rightarrow>
                              (let s3 = set_utask s2 i \<lparr>ut_in_use = True, ut_task_cap = task, ut_task_id = task_id,
                                     ut_address_space_cap = aspace, ut_address_space_id = aspace_id, ut_main_thread_cap = 0,
                                     ut_capability_table_placeholder = 0, ut_owner_core = SCDK_BOOT_CORE,
                                     ut_state = SCDK_TASK_NEW, ut_exit_status = 0\<rparr>
                               in case scdk_user_thread_create s3 task of
                                    (Inl e, s4) \<Rightarrow> (Inl e, set_utask s4 i ((user_tasks s4 i)\<lparr>ut_in_use := False\<rparr>))
                                  | (Inr main_thread, s4) \<Rightarrow> (Inr (task, aspace, main_thread), s4)))))))"

definition set_ut_state :: "'a task_state_scheme \<Rightarrow> nat \<Rightarrow> scdk_task_state \<Rightarrow> 'a task_state_scheme" where
  "set_ut_state s i st = set_utask s i ((user_tasks s i)\<lparr>ut_state := st\<rparr>)"

definition set_uth_state :: "'a task_state_scheme \<Rightarrow> nat \<Rightarrow> scdk_thread_state \<Rightarrow> 'a task_state_scheme" where
  "set_uth_state s i st = set_uthread s i ((user_threads s i)\<lparr>uth_state := st\<rparr>)"

text \<open>\<^verbatim>\<open>if (thread_slot_for_cap(task_slot->main_thread_cap, ...) == SCDK_OK) thread_slot->state = SCDK_THREAD_DEAD\<close>\<close>

definition kill_main_thread :: "'a task_state_scheme \<Rightarrow> nat \<Rightarrow> 'a task_state_scheme" where
  "kill_main_thread s ti =
     (case user_thread_slot_for_cap s (ut_main_thread_cap (user_tasks s ti)) of
        Inl _ \<Rightarrow> s | Inr i \<Rightarrow> set_uth_state s i SCDK_THREAD_DEAD)"

definition scdk_task_exit :: "'a task_state_scheme \<Rightarrow> u64 \<Rightarrow> u32 \<Rightarrow> scdk_status \<times> 'a task_state_scheme" where
  "scdk_task_exit s task status_code =
     (case user_task_slot_for_cap s task of
        Inl e \<Rightarrow> (e, s)
      | Inr ti \<Rightarrow>
          if ut_state (user_tasks s ti) \<noteq> SCDK_TASK_RUNNING then (SCDK_ERR_BUSY, s)
          else (SCDK_OK, kill_main_thread
                 (set_utask s ti ((user_tasks s ti)\<lparr>ut_exit_status := status_code, ut_state := SCDK_TASK_DEAD\<rparr>)) ti))"

definition scdk_task_fault_current :: "'a task_state_scheme \<Rightarrow> u32 \<Rightarrow> scdk_status \<times> 'a task_state_scheme" where
  "scdk_task_fault_current s status_code =
     (if current_user_task s = 0 then (SCDK_ERR_NOENT, s)
      else case user_task_slot_for_cap s (current_user_task s) of
        Inl e \<Rightarrow> (e, s)
      | Inr ti \<Rightarrow>
          (SCDK_OK, kill_main_thread
             (set_utask s ti ((user_tasks s ti)\<lparr>ut_exit_status := status_code, ut_state := SCDK_TASK_DEAD\<rparr>)) ti))"

definition scdk_task_cleanup :: "'a task_state_scheme \<Rightarrow> u64 \<Rightarrow> scdk_status \<times> 'a task_state_scheme" where
  "scdk_task_cleanup s task =
     (case user_task_slot_for_cap s task of
        Inl e \<Rightarrow> (e, s)
      | Inr ti \<Rightarrow>
          if ut_state (user_tasks s ti) \<noteq> SCDK_TASK_DEAD then (SCDK_ERR_BUSY, s)
          else (SCDK_OK, set_ut_state (kill_main_thread s ti) ti SCDK_TASK_CLEANED))"

text \<open>
  The checks the three run functions start with, and the state in which user code is
  entered: task and thread running, the task current.
\<close>

definition user_task_runnable :: "'a task_state_scheme \<Rightarrow> u64 \<Rightarrow> (nat \<times> nat) res" where
  "user_task_runnable s task =
     (case user_task_slot_for_cap s task of
        Inl e \<Rightarrow> Inl e
      | Inr ti \<Rightarrow>
          (case user_thread_slot_for_cap s (ut_main_thread_cap (user_tasks s ti)) of
             Inl e \<Rightarrow> Inl e
           | Inr i \<Rightarrow>
               if ut_state (user_tasks s ti) \<noteq> SCDK_TASK_NEW \<or> uth_state (user_threads s i) \<noteq> SCDK_THREAD_NEW
               then Inl SCDK_ERR_BUSY else Inr (ti, i)))"

definition user_task_enter :: "'a task_state_scheme \<Rightarrow> u64 \<Rightarrow> nat \<Rightarrow> nat \<Rightarrow> 'a task_state_scheme" where
  "user_task_enter s task ti i =
     (set_uth_state (set_ut_state s ti SCDK_TASK_RUNNING) i SCDK_THREAD_RUNNING)\<lparr>current_user_task := task\<rparr>"

text \<open>\<open>run s aspace thread ...\<close> stands for the functions of \<^verbatim>\<open>usermode.c\<close>.\<close>

definition scdk_user_task_run_builtin ::
  "('a task_state_scheme \<Rightarrow> u64 \<Rightarrow> u64 \<Rightarrow> scdk_status \<times> 'a task_state_scheme) \<Rightarrow> 'a task_state_scheme \<Rightarrow> u64
     \<Rightarrow> scdk_status \<times> 'a task_state_scheme"
where
  "scdk_user_task_run_builtin run s task =
     (case user_task_runnable s task of
        Inl e \<Rightarrow> (e, s)
      | Inr (ti, i) \<Rightarrow>
          (case run (user_task_enter s task ti i) (ut_address_space_cap (user_tasks s ti)) (uth_thread_cap (user_threads s i)) of
             (status, s1) \<Rightarrow>
               (let s2 = s1\<lparr>current_user_task := current_user_task s\<rparr>
                in if status \<noteq> SCDK_OK then (status, s2) else scdk_task_exit s2 task 0)))"

definition scdk_user_task_run_flat ::
  "('a task_state_scheme \<Rightarrow> u64 \<Rightarrow> u64 \<Rightarrow> u64 \<Rightarrow> u8 list \<Rightarrow> u64 \<Rightarrow> scdk_status \<times> 'a task_state_scheme)
     \<Rightarrow> 'a task_state_scheme \<Rightarrow> u64 \<Rightarrow> u8 list \<Rightarrow> u64 \<Rightarrow> scdk_status \<times> 'a task_state_scheme"
where
  "scdk_user_task_run_flat run s task img bootstrap_endpoint =
     (if img = [] then (SCDK_ERR_INVAL, s)
      else case user_task_runnable s task of
        Inl e \<Rightarrow> (e, s)
      | Inr (ti, i) \<Rightarrow>
          (case run (user_task_enter s task ti i) (ut_address_space_cap (user_tasks s ti)) (uth_thread_cap (user_threads s i))
                  (uth_instruction_pointer (user_threads s i)) img bootstrap_endpoint of
             (status, s1) \<Rightarrow>
               (let s2 = s1\<lparr>current_user_task := current_user_task s\<rparr>
                in if status \<noteq> SCDK_OK
                   then (status, set_uth_state (set_ut_state s2 ti SCDK_TASK_DEAD) i SCDK_THREAD_DEAD)
                   else scdk_task_exit s2 task 0)))"

definition scdk_user_task_run_fault_test ::
  "('a task_state_scheme \<Rightarrow> u64 \<Rightarrow> u64 \<Rightarrow> u32 \<Rightarrow> u64 \<Rightarrow> scdk_status \<times> 'a task_state_scheme)
     \<Rightarrow> 'a task_state_scheme \<Rightarrow> u64 \<Rightarrow> u32 \<Rightarrow> scdk_status \<times> 'a task_state_scheme"
where
  "scdk_user_task_run_fault_test run s task test =
     (case user_task_runnable s task of
        Inl e \<Rightarrow> (e, s)
      | Inr (ti, i) \<Rightarrow>
          (case scdk_service_lookup s SCDK_SERVICE_CONSOLE of
             Inl e \<Rightarrow> (e, s)
           | Inr bootstrap_endpoint \<Rightarrow>
               (case run (user_task_enter s task ti i) (ut_address_space_cap (user_tasks s ti)) (uth_thread_cap (user_threads s i))
                       test bootstrap_endpoint of
                  (status, s1) \<Rightarrow>
                    (let s2 = s1\<lparr>current_user_task := current_user_task s\<rparr>
                     in if status \<noteq> SCDK_OK
                        then (status, set_uth_state (set_ut_state s2 ti SCDK_TASK_DEAD) i SCDK_THREAD_DEAD)
                        else if ut_state (user_tasks s2 ti) \<noteq> SCDK_TASK_DEAD then (SCDK_ERR_BUSY, s2)
                        else (SCDK_OK, s2)))))"

definition scdk_user_task_state :: "'a task_state_scheme \<Rightarrow> u64 \<Rightarrow> scdk_task_state res" where
  "scdk_user_task_state s task =
     (case user_task_slot_for_cap s task of Inl e \<Rightarrow> Inl e | Inr i \<Rightarrow> Inr (ut_state (user_tasks s i)))"

definition scdk_user_thread_state :: "'a task_state_scheme \<Rightarrow> u64 \<Rightarrow> scdk_thread_state res" where
  "scdk_user_thread_state s thread =
     (case user_thread_slot_for_cap s thread of Inl e \<Rightarrow> Inl e | Inr i \<Rightarrow> Inr (uth_state (user_threads s i)))"

definition scdk_user_task_current :: "'a task_state_scheme \<Rightarrow> u64 res" where
  "scdk_user_task_current s = (if current_user_task s = 0 then Inl SCDK_ERR_NOENT else Inr (current_user_task s))"

section \<open>Frames\<close>

lemma task_low_frame [kframe]:
  "scdk_object_create s ty c f p = (r, s') \<Longrightarrow> user_tasks s' = user_tasks s \<and> user_threads s' = user_threads s \<and> current_user_task s' = current_user_task s"
  "scdk_cap_create s oid rights = (r, s') \<Longrightarrow> user_tasks s' = user_tasks s \<and> user_threads s' = user_threads s \<and> current_user_task s' = current_user_task s"
  by (auto elim: object_create_cases cap_create_cases)

lemma task_create_frame:
  assumes "scdk_task_create s core aspace = (r, s')"
  shows "user_tasks s' = user_tasks s \<and> user_threads s' = user_threads s \<and> current_user_task s' = current_user_task s"
proof -
  have b: "user_tasks s1 = user_tasks s \<and> user_threads s1 = user_threads s \<and> current_user_task s1 = current_user_task s"
    if "bind_slot s SCDK_OBJ_TASK core (PTask i) (\<lambda>oid s. set_task s i (f oid)) (\<lambda>s. set_task s i (g s)) rights = (q, s1)" for i f g rights q s1
    using that by (cases rule: bind_slot_cases) (auto dest!: task_low_frame)
  show ?thesis
    using assms by (auto simp: scdk_task_create_def split: if_splits option.splits prod.splits sum.splits dest!: b)
qed

lemma aspace_create_frame:
  assumes "scdk_address_space_create s = (r, s')"
  shows "user_tasks s' = user_tasks s \<and> user_threads s' = user_threads s \<and> current_user_task s' = current_user_task s"
  using assms
  by (auto simp: scdk_address_space_create_def write_aspace_def split: if_splits option.splits prod.splits sum.splits dest!: task_low_frame)

lemma thread_bind_frame:
  assumes "thread_bind_cap s ti i oid = (r, s')"
  shows "user_tasks s' = user_tasks s \<and> user_threads s' = user_threads s \<and> current_user_task s' = current_user_task s"
  using assms by (auto simp: thread_bind_cap_def Let_def split: if_splits prod.splits sum.splits dest!: task_low_frame)

lemma thread_create_frame:
  assumes "scdk_thread_create s task entry arg = (r, s')"
  shows "user_tasks s' = user_tasks s \<and> user_threads s' = user_threads s \<and> current_user_task s' = current_user_task s"
  using assms
  by (auto simp: scdk_thread_create_def Let_def make_kernel_thread_context_def split: if_splits option.splits prod.splits sum.splits
      dest!: task_low_frame thread_bind_frame)


section \<open>The life cycle of a task\<close>

fun task_rank :: "scdk_task_state \<Rightarrow> nat" where
  "task_rank SCDK_TASK_NONE = 0" | "task_rank SCDK_TASK_NEW = 1" | "task_rank SCDK_TASK_RUNNING = 2"
| "task_rank SCDK_TASK_DEAD = 3" | "task_rank SCDK_TASK_CLEANED = 4"

text \<open>
  \<open>slot_advance\<close>: a slot in use stays in use, keeps its capability, its id and its address
  space, and its state does not go back. \<open>slots_prefix\<close>: slots are taken in order.
\<close>

definition slot_advance :: "scdk_user_task_slot \<Rightarrow> scdk_user_task_slot \<Rightarrow> bool" where
  "slot_advance t t' \<longleftrightarrow> ut_in_use t' \<and> ut_task_cap t' = ut_task_cap t \<and> ut_task_id t' = ut_task_id t \<and>
     ut_address_space_cap t' = ut_address_space_cap t \<and> ut_address_space_id t' = ut_address_space_id t \<and>
     task_rank (ut_state t) \<le> task_rank (ut_state t')"

definition tasks_advance :: "'a task_state_scheme \<Rightarrow> 'a task_state_scheme \<Rightarrow> bool" where
  "tasks_advance s s' \<longleftrightarrow> (\<forall>i. ut_in_use (user_tasks s i) \<longrightarrow> slot_advance (user_tasks s i) (user_tasks s' i))"

definition slots_prefix :: "'a task_state_scheme \<Rightarrow> bool" where
  "slots_prefix s \<longleftrightarrow> (\<forall>i j. ut_in_use (user_tasks s i) \<longrightarrow> j < i \<longrightarrow> ut_in_use (user_tasks s j))"

lemma tasks_advance_refl: "user_tasks s' = user_tasks s \<Longrightarrow> tasks_advance s s'"
  by (simp add: tasks_advance_def slot_advance_def)

lemma tasks_advance_trans: "tasks_advance s s' \<Longrightarrow> tasks_advance s' s'' \<Longrightarrow> tasks_advance s s''"
proof -
  have "slot_advance a c" if "slot_advance a b" "slot_advance b c" for a b c
    using that by (simp add: slot_advance_def)
  moreover assume "tasks_advance s s'" "tasks_advance s' s''"
  ultimately show "tasks_advance s s''" unfolding tasks_advance_def by (meson slot_advance_def)
qed

lemma tasks_advance_upd:
  assumes "user_tasks s' = (user_tasks s)(i := t)" and "ut_in_use (user_tasks s i) \<Longrightarrow> slot_advance (user_tasks s i) t"
  shows "tasks_advance s s'"
  using assms by (simp add: tasks_advance_def slot_advance_def)

lemma prefix_upd:
  assumes "slots_prefix s" and "user_tasks s' = (user_tasks s)(i := t)" and "ut_in_use (user_tasks s i)" and "ut_in_use t"
  shows "slots_prefix s'"
  using assms by (auto simp: slots_prefix_def)

lemma prefix_frame: "slots_prefix s \<Longrightarrow> user_tasks s' = user_tasks s \<Longrightarrow> slots_prefix s'"
  by (simp add: slots_prefix_def)

lemma task_slot_Inr:
  "user_task_slot_for_cap s task = Inr i \<longleftrightarrow>
     i < SCDK_MAX_TASKS \<and> ut_in_use (user_tasks s i) \<and> ut_task_cap (user_tasks s i) = task \<and>
     (\<forall>j<i. \<not> (ut_in_use (user_tasks s j) \<and> ut_task_cap (user_tasks s j) = task))"
proof -
  have "user_task_slot_for_cap s task = Inr i \<longleftrightarrow>
      first_slot (\<lambda>i. ut_in_use (user_tasks s i) \<and> ut_task_cap (user_tasks s i) = task) SCDK_MAX_TASKS = Some i"
    by (simp add: user_task_slot_for_cap_def split: option.splits)
  then show ?thesis by (simp add: first_slot_Some conj_assoc)
qed

text \<open>A task keeps its slot.\<close>

lemma task_slot_stable:
  assumes "slots_prefix s" and "tasks_advance s s'" and "user_task_slot_for_cap s task = Inr i"
  shows "user_task_slot_for_cap s' task = Inr i"
proof -
  have i: "i < SCDK_MAX_TASKS" "ut_in_use (user_tasks s i)" "ut_task_cap (user_tasks s i) = task"
    "\<forall>j<i. \<not> (ut_in_use (user_tasks s j) \<and> ut_task_cap (user_tasks s j) = task)"
    using assms(3) unfolding task_slot_Inr by blast+
  have "\<not> (ut_in_use (user_tasks s' j) \<and> ut_task_cap (user_tasks s' j) = task)" if "j < i" for j
  proof -
    have "ut_in_use (user_tasks s j)" using assms(1) i(2) that by (auto simp: slots_prefix_def)
    then show ?thesis using assms(2) i(4) that by (auto simp: tasks_advance_def slot_advance_def)
  qed
  then show ?thesis using i assms(2) unfolding task_slot_Inr by (auto simp: tasks_advance_def slot_advance_def)
qed

lemma kill_main_frame [simp]: "user_tasks (kill_main_thread s ti) = user_tasks s" "current_user_task (kill_main_thread s ti) = current_user_task s"
  by (auto simp: kill_main_thread_def set_uth_state_def split: sum.splits)

definition advances :: "'a task_state_scheme \<Rightarrow> 'a task_state_scheme \<Rightarrow> bool" where
  "advances s s' \<longleftrightarrow> slots_prefix s' \<and> tasks_advance s s'"

lemma advances_same: "slots_prefix s \<Longrightarrow> user_tasks s' = user_tasks s \<Longrightarrow> advances s s'"
  by (simp add: advances_def prefix_frame tasks_advance_refl)

lemma advances_upd:
  assumes "slots_prefix s" and "user_tasks s' = (user_tasks s)(i := t)" and "ut_in_use (user_tasks s i)"
    and "slot_advance (user_tasks s i) t"
  shows "advances s s'"
  unfolding advances_def
proof
  show "slots_prefix s'" by (rule prefix_upd [OF assms(1,2,3)]) (use assms(4) in \<open>simp add: slot_advance_def\<close>)
  show "tasks_advance s s'" by (rule tasks_advance_upd [OF assms(2)]) (rule assms(4))
qed

lemma exit_advances:
  assumes "slots_prefix s" and "scdk_task_exit s task c = (r, s')"
  shows "advances s s' \<and> current_user_task s' = current_user_task s"
proof (cases "user_task_slot_for_cap s task")
  case (Inr ti)
  then have "ut_in_use (user_tasks s ti)" by (simp add: task_slot_Inr)
  with Inr assms show ?thesis
    by (cases "s' = s", simp add: advances_same)
      (auto simp: scdk_task_exit_def split: if_splits
        intro!: advances_upd [where t = "(user_tasks s ti)\<lparr>ut_exit_status := c, ut_state := SCDK_TASK_DEAD\<rparr>"] simp: slot_advance_def)
qed (use assms in \<open>simp add: scdk_task_exit_def advances_same\<close>)

lemma cleanup_advances:
  assumes "slots_prefix s" and "scdk_task_cleanup s task = (r, s')"
  shows "advances s s' \<and> current_user_task s' = current_user_task s"
proof (cases "user_task_slot_for_cap s task")
  case (Inr ti)
  then have "ut_in_use (user_tasks s ti)" by (simp add: task_slot_Inr)
  with Inr assms show ?thesis
    by (cases "s' = s", simp add: advances_same)
      (auto simp: scdk_task_cleanup_def set_ut_state_def split: if_splits
        intro!: advances_upd [where t = "(user_tasks s ti)\<lparr>ut_state := SCDK_TASK_CLEANED\<rparr>"] simp: slot_advance_def)
qed (use assms in \<open>simp add: scdk_task_cleanup_def advances_same\<close>)

lemma fault_advances:
  assumes "slots_prefix s" and "scdk_task_fault_current s c = (r, s')"
    and "\<And>ti. user_task_slot_for_cap s (current_user_task s) = Inr ti \<Longrightarrow> ut_state (user_tasks s ti) = SCDK_TASK_RUNNING"
  shows "advances s s' \<and> current_user_task s' = current_user_task s"
proof (cases "user_task_slot_for_cap s (current_user_task s)")
  case (Inr ti)
  then have "ut_in_use (user_tasks s ti)" "ut_state (user_tasks s ti) = SCDK_TASK_RUNNING" using assms(3) by (simp_all add: task_slot_Inr)
  with Inr assms show ?thesis
    by (cases "s' = s", simp add: advances_same)
      (auto simp: scdk_task_fault_current_def split: if_splits
        intro!: advances_upd [where t = "(user_tasks s ti)\<lparr>ut_exit_status := c, ut_state := SCDK_TASK_DEAD\<rparr>"] simp: slot_advance_def)
qed (use assms in \<open>simp add: scdk_task_fault_current_def advances_same split: if_splits\<close>)


lemma advances_trans: "advances s s' \<Longrightarrow> advances s' s'' \<Longrightarrow> advances s s''"
  by (auto simp: advances_def intro: tasks_advance_trans)

lemma runnable_Inr:
  "user_task_runnable s task = Inr (ti, i) \<longleftrightarrow> user_task_slot_for_cap s task = Inr ti \<and>
     user_thread_slot_for_cap s (ut_main_thread_cap (user_tasks s ti)) = Inr i \<and>
     ut_state (user_tasks s ti) = SCDK_TASK_NEW \<and> uth_state (user_threads s i) = SCDK_THREAD_NEW"
  by (auto simp: user_task_runnable_def split: sum.splits)

lemma runnable_cases:
  obtains (refused) e where "user_task_runnable s task = Inl e" | (runs) ti i where "user_task_runnable s task = Inr (ti, i)"
  by (cases "user_task_runnable s task") (blast, metis surj_pair)

lemma enter_advances:
  assumes "slots_prefix s" and "user_task_runnable s task = Inr (ti, i)"
  shows "advances s (user_task_enter s task ti i)"
  using assms
  by (intro advances_upd [where i = ti and t = "(user_tasks s ti)\<lparr>ut_state := SCDK_TASK_RUNNING\<rparr>"])
    (auto simp: runnable_Inr task_slot_Inr user_task_enter_def set_ut_state_def set_uth_state_def slot_advance_def)

text \<open>What the run functions do after user code has come back.\<close>

lemma dead_advances:
  assumes p: "slots_prefix s" and u: "ut_in_use (user_tasks s ti)" and r: "task_rank (ut_state (user_tasks s ti)) \<le> 3"
  shows "advances s (set_uth_state (set_ut_state s ti SCDK_TASK_DEAD) i SCDK_THREAD_DEAD)"
  by (rule advances_upd [OF p _ u, where t = "(user_tasks s ti)\<lparr>ut_state := SCDK_TASK_DEAD\<rparr>"])
    (use u r in \<open>auto simp: set_ut_state_def set_uth_state_def slot_advance_def\<close>)

lemma thread_create_advances:
  assumes p: "slots_prefix s" and c: "scdk_user_thread_create s task = (r, s')"
  shows "advances s s' \<and> current_user_task s' = current_user_task s \<and> (\<forall>j. ut_in_use (user_tasks s' j) = ut_in_use (user_tasks s j))"
proof (cases "\<exists>t s1. scdk_thread_create s task 0 0 = (Inr t, s1) \<and> r = Inr t")
  case False
  then have "user_tasks s' = user_tasks s \<and> current_user_task s' = current_user_task s"
    using c by (auto simp: scdk_user_thread_create_def Let_def split: sum.splits option.splits prod.splits dest!: thread_create_frame)
  then show ?thesis using advances_same [OF p] by simp
next
  case True
  then obtain t s1 where t: "scdk_thread_create s task 0 0 = (Inr t, s1)" "r = Inr t" by blast
  note f = thread_create_frame [OF t(1)]
  from c t obtain ti where ti: "user_task_slot_for_cap s task = Inr ti"
    and s': "user_tasks s' = (user_tasks s)(ti := (user_tasks s ti)\<lparr>ut_main_thread_cap := t\<rparr>)" "current_user_task s' = current_user_task s"
    using f by (auto simp: scdk_user_thread_create_def Let_def split: sum.splits option.splits prod.splits)
  then have "ut_in_use (user_tasks s ti)" by (simp add: task_slot_Inr)
  with s' p show ?thesis by (auto intro!: advances_upd simp: slot_advance_def)
qed

lemma task_create_cases:
  assumes "scdk_user_task_create s = (r, s')"
  obtains (early) "user_tasks s' = user_tasks s" "current_user_task s' = current_user_task s" "\<exists>e. r = Inl e"
  | (late) i s2 s3 s4 task aspace aid tid rt where "alloc_task_slot s = Some i" "user_tasks s2 = user_tasks s"
      "current_user_task s2 = current_user_task s"
      "s3 = set_utask s2 i \<lparr>ut_in_use = True, ut_task_cap = task, ut_task_id = tid,
         ut_address_space_cap = aspace, ut_address_space_id = aid, ut_main_thread_cap = 0,
         ut_capability_table_placeholder = 0, ut_owner_core = SCDK_BOOT_CORE, ut_state = SCDK_TASK_NEW, ut_exit_status = 0\<rparr>"
      "scdk_user_thread_create s3 task = (rt, s4)"
      "case rt of Inl e \<Rightarrow> r = Inl e \<and> s' = set_utask s4 i ((user_tasks s4 i)\<lparr>ut_in_use := False\<rparr>)
         | Inr t \<Rightarrow> r = Inr (task, aspace, t) \<and> s' = s4"
      "object_id_from_cap s2 task SCDK_OBJ_TASK = Inr tid"
proof (cases "alloc_task_slot s")
  case None
  then show thesis using assms by (intro early) (auto simp: scdk_user_task_create_def)
next
  case i: (Some i)
  obtain ra s1 where a: "scdk_address_space_create s = (ra, s1)" by fastforce
  note fa = aspace_create_frame [OF a]
  show thesis
  proof (cases "\<exists>aspace aid. ra = Inr aspace \<and> object_id_from_cap s1 aspace SCDK_OBJ_ADDRESS_SPACE = Inr aid")
    case False
    then show thesis using assms i a fa
      by (intro early) (auto simp: scdk_user_task_create_def split: sum.splits)
  next
    case True
    then obtain aspace aid where as: "ra = Inr aspace" "object_id_from_cap s1 aspace SCDK_OBJ_ADDRESS_SPACE = Inr aid" by blast
    obtain rk s2 where k: "scdk_task_create s1 SCDK_BOOT_CORE aid = (rk, s2)" by fastforce
    note fk = task_create_frame [OF k]
    show thesis
    proof (cases "\<exists>task tid. rk = Inr task \<and> object_id_from_cap s2 task SCDK_OBJ_TASK = Inr tid")
      case False
      then show thesis using assms i a as fa k fk
        by (intro early) (auto simp: scdk_user_task_create_def split: sum.splits)
    next
      case True
      then obtain task tid where tk: "rk = Inr task" "object_id_from_cap s2 task SCDK_OBJ_TASK = Inr tid" by blast
      let ?s3 = "set_utask s2 i \<lparr>ut_in_use = True, ut_task_cap = task, ut_task_id = tid,
         ut_address_space_cap = aspace, ut_address_space_id = aid, ut_main_thread_cap = 0,
         ut_capability_table_placeholder = 0, ut_owner_core = SCDK_BOOT_CORE, ut_state = SCDK_TASK_NEW, ut_exit_status = 0\<rparr>"
      obtain rt s4 where t: "scdk_user_thread_create ?s3 task = (rt, s4)" by fastforce
      show thesis
        by (rule late [OF i _ _ refl t _ tk(2)])
          (use assms i a as fa k fk tk t in \<open>auto simp: scdk_user_task_create_def Let_def split: sum.splits\<close>)
    qed
  qed
qed

lemma task_create_advances:
  assumes p: "slots_prefix s" and c: "scdk_user_task_create s = (r, s')"
  shows "advances s s' \<and> current_user_task s' = current_user_task s"
  using c
proof (cases rule: task_create_cases)
  case early
  then show ?thesis using advances_same [OF p] by blast
next
  case (late i s2 s3 s4 task aspace aid tid rt)
  have i: "\<not> ut_in_use (user_tasks s i)" "\<And>j. j < i \<Longrightarrow> ut_in_use (user_tasks s j)"
    using late(1) by (auto simp: alloc_task_slot_def scan_facts)
  have above: "ut_in_use (user_tasks s j) \<longleftrightarrow> j < i" for j using i p unfolding slots_prefix_def by (metis linorder_neqE_nat)
  have u3: "ut_in_use (user_tasks s3 j) \<longleftrightarrow> j \<le> i" for j using above [of j] late(2,4) by auto
  then have p3: "slots_prefix s3" by (auto simp: slots_prefix_def)
  have t3: "tasks_advance s s3" by (rule tasks_advance_upd [of _ _ i]) (use late(2,4) i in auto)
  note t = thread_create_advances [OF p3 late(5)]
  have t4: "tasks_advance s s4" using tasks_advance_trans [OF t3] t by (auto simp: advances_def)
  show ?thesis
  proof (cases rt)
    case (Inr x)
    with late t t4 show ?thesis by (auto simp: advances_def)
  next
    case (Inl e)
    with late(6) have s': "s' = set_utask s4 i ((user_tasks s4 i)\<lparr>ut_in_use := False\<rparr>)" by simp
    have "ut_in_use (user_tasks s' j) \<longleftrightarrow> j < i" for j using u3 [of j] t by (auto simp: s')
    then have "slots_prefix s'" by (auto simp: slots_prefix_def)
    moreover have "tasks_advance s s'" using t4 i(1) by (auto simp: tasks_advance_def s')
    ultimately show ?thesis using t late(3,4) by (simp add: advances_def s')
  qed
qed

section \<open>Histories\<close>

text \<open>
  What the kernel and the user programs it runs can do to the tasks. A run of a task is
  itself a history, in the state in which user code is entered: user code may
  create and run further tasks before it comes back, and may end with a fault,
  which is taken while its task is current. \<^verbatim>\<open>scdk_task_exit\<close> and \<^verbatim>\<open>scdk_task_fault_current\<close> are
  no steps of their own, because the kernel has no other calls of them: the first
  is called at the end of the run functions only, the second by the fault handlers,
  after which the program does not go on. (The boot-time self tests, which call them
  directly, are not modelled.)
\<close>

definition user_returns :: "'a task_state_scheme \<Rightarrow> 'a task_state_scheme \<Rightarrow> bool" where
  "user_returns s s' \<longleftrightarrow> s' = s \<or> (\<exists>code. s' = snd (scdk_task_fault_current s code))"

inductive user_hist :: "'a task_state_scheme \<Rightarrow> 'a task_state_scheme \<Rightarrow> bool" where
  uh_refl: "user_hist s s"
| uh_other: "user_hist s s' \<Longrightarrow> user_tasks s'' = user_tasks s' \<Longrightarrow> current_user_task s'' = current_user_task s' \<Longrightarrow> user_hist s s''"
| uh_create: "user_hist s s' \<Longrightarrow> scdk_user_task_create s' = (rc, s'') \<Longrightarrow> user_hist s s''"
| uh_thread: "user_hist s s' \<Longrightarrow> scdk_user_thread_create s' task = (rt, s'') \<Longrightarrow> user_hist s s''"
| uh_cleanup: "user_hist s s' \<Longrightarrow> scdk_task_cleanup s' task = (r, s'') \<Longrightarrow> user_hist s s''"
| uh_builtin: "user_hist s s' \<Longrightarrow> scdk_user_task_run_builtin run s' task = (r, s'') \<Longrightarrow>
    (\<forall>ti i. user_task_runnable s' task = Inr (ti, i) \<longrightarrow> (\<exists>s1. user_hist (user_task_enter s' task ti i) s1 \<and>
       user_returns s1 (snd (run (user_task_enter s' task ti i)
         (ut_address_space_cap (user_tasks s' ti)) (uth_thread_cap (user_threads s' i)))))) \<Longrightarrow>
    user_hist s s''"
| uh_flat: "user_hist s s' \<Longrightarrow> scdk_user_task_run_flat runf s' task img ep = (r, s'') \<Longrightarrow>
    (\<forall>ti i. user_task_runnable s' task = Inr (ti, i) \<longrightarrow> (\<exists>s1. user_hist (user_task_enter s' task ti i) s1 \<and>
       user_returns s1 (snd (runf (user_task_enter s' task ti i)
         (ut_address_space_cap (user_tasks s' ti)) (uth_thread_cap (user_threads s' i))
         (uth_instruction_pointer (user_threads s' i)) img ep)))) \<Longrightarrow>
    user_hist s s''"
| uh_fault_test: "user_hist s s' \<Longrightarrow> scdk_user_task_run_fault_test runt s' task test = (r, s'') \<Longrightarrow>
    (\<forall>ti i ep. user_task_runnable s' task = Inr (ti, i) \<longrightarrow> (\<exists>s1. user_hist (user_task_enter s' task ti i) s1 \<and>
       user_returns s1 (snd (runt (user_task_enter s' task ti i)
         (ut_address_space_cap (user_tasks s' ti)) (uth_thread_cap (user_threads s' i)) test ep)))) \<Longrightarrow>
    user_hist s s''"

text \<open>A history keeps the current task and does not touch the tasks that are running.\<close>

definition keeps_running :: "'a task_state_scheme \<Rightarrow> 'a task_state_scheme \<Rightarrow> bool" where
  "keeps_running s s' \<longleftrightarrow> (\<forall>i. ut_in_use (user_tasks s i) \<longrightarrow> ut_state (user_tasks s i) = SCDK_TASK_RUNNING \<longrightarrow>
     ut_state (user_tasks s' i) = SCDK_TASK_RUNNING)"

definition task_step_ok :: "'a task_state_scheme \<Rightarrow> 'a task_state_scheme \<Rightarrow> bool" where
  "task_step_ok s s' \<longleftrightarrow> advances s s' \<and> current_user_task s' = current_user_task s \<and> keeps_running s s'"

lemma restore_current [simp]: "slots_prefix (s\<lparr>current_user_task := c\<rparr>) = slots_prefix s"
    "user_task_slot_for_cap (s\<lparr>current_user_task := c\<rparr>) = user_task_slot_for_cap s"
    "tasks_advance t (s\<lparr>current_user_task := c\<rparr>) = tasks_advance t s" "keeps_running t (s\<lparr>current_user_task := c\<rparr>) = keeps_running t s"
  by (simp_all add: slots_prefix_def user_task_slot_for_cap_def fun_eq_iff tasks_advance_def keeps_running_def)

lemma step_ok_trans:
  assumes "task_step_ok s s'" and "task_step_ok s' s''"
  shows "task_step_ok s s''"
proof -
  have "ut_in_use (user_tasks s' i)" if "ut_in_use (user_tasks s i)" for i
    using assms(1) that by (auto simp: task_step_ok_def advances_def tasks_advance_def slot_advance_def)
  then have "keeps_running s s''" using assms by (simp add: task_step_ok_def keeps_running_def)
  moreover have "advances s s''" using assms advances_trans by (auto simp: task_step_ok_def)
  ultimately show ?thesis using assms by (simp add: task_step_ok_def)
qed

lemma keeps_running_same: "user_tasks s' = user_tasks s \<Longrightarrow> keeps_running s s'"
  by (simp add: keeps_running_def)

lemma keeps_running_upd:
  "user_tasks s' = (user_tasks s)(i := t) \<Longrightarrow> \<not> ut_in_use (user_tasks s i) \<or> ut_state (user_tasks s i) \<noteq> SCDK_TASK_RUNNING \<or>
     ut_state t = SCDK_TASK_RUNNING \<Longrightarrow> keeps_running s s'"
  by (simp add: keeps_running_def)

lemma thread_create_keeps:
  assumes "scdk_user_thread_create s task = (r, s')"
  shows "ut_state (user_tasks s' j) = ut_state (user_tasks s j)"
  using assms by (auto simp: scdk_user_thread_create_def Let_def split: sum.splits option.splits prod.splits dest!: thread_create_frame)

lemma thread_create_ok:
  assumes "slots_prefix s" and "scdk_user_thread_create s task = (r, s')"
  shows "task_step_ok s s'"
  using thread_create_advances [OF assms] thread_create_keeps [OF assms(2)] by (simp add: task_step_ok_def keeps_running_def)

lemma task_create_ok:
  assumes "slots_prefix s" and c: "scdk_user_task_create s = (r, s')"
  shows "task_step_ok s s'"
proof -
  have "keeps_running s s'"
    using c
  proof (cases rule: task_create_cases)
    case (late i s2 s3 s4 task aspace aid tid rt)
    have "\<not> ut_in_use (user_tasks s i)" using late(1) by (auto simp: alloc_task_slot_def scan_facts)
    with late(2,4,6) thread_create_keeps [OF late(5)] show ?thesis by (auto simp: keeps_running_def split: sum.splits)
  qed (simp add: keeps_running_same)
  then show ?thesis using task_create_advances [OF assms] by (simp add: task_step_ok_def)
qed

lemma cleanup_ok:
  assumes "slots_prefix s" and c: "scdk_task_cleanup s task = (r, s')"
  shows "task_step_ok s s'"
proof -
  have "keeps_running s s'"
    using c by (auto simp: scdk_task_cleanup_def set_ut_state_def keeps_running_def split: sum.splits if_splits)
  then show ?thesis using cleanup_advances [OF assms] by (simp add: task_step_ok_def)
qed

text \<open>The state in which user code has come back.\<close>

lemma user_run_back:
  assumes p: "slots_prefix s" and r: "user_task_runnable s task = Inr (ti, i)"
    and h: "task_step_ok (user_task_enter s task ti i) s1" and u: "user_returns s1 s2"
  shows "slots_prefix s2" "tasks_advance s s2" "keeps_running s s2" "user_task_slot_for_cap s2 task = Inr ti"
    "ut_in_use (user_tasks s2 ti)" "ut_state (user_tasks s2 ti) \<in> {SCDK_TASK_RUNNING, SCDK_TASK_DEAD}"
proof -
  let ?e = "user_task_enter s task ti i"
  have e: "advances s ?e" using enter_advances [OF p r] .
  have ti: "user_task_slot_for_cap s task = Inr ti" "ut_state (user_tasks s ti) = SCDK_TASK_NEW" "ut_in_use (user_tasks s ti)"
    using r by (auto simp: runnable_Inr task_slot_Inr)
  have ue: "user_tasks ?e = (user_tasks s)(ti := (user_tasks s ti)\<lparr>ut_state := SCDK_TASK_RUNNING\<rparr>)" "current_user_task ?e = task"
    by (simp_all add: user_task_enter_def set_ut_state_def set_uth_state_def)
  have s1: "advances s s1" "keeps_running s s1" "current_user_task s1 = task" "ut_state (user_tasks s1 ti) = SCDK_TASK_RUNNING"
    using h e ti ue by (auto simp: task_step_ok_def keeps_running_def intro: advances_trans)
  have slot: "user_task_slot_for_cap s1 task = Inr ti" using task_slot_stable [OF p _ ti(1)] s1(1) by (simp add: advances_def)
  have in1: "ut_in_use (user_tasks s1 ti)" using slot by (simp add: task_slot_Inr)
  have s2: "advances s1 s2 \<and> (s2 = s1 \<or> (\<exists>c. user_tasks s2 = (user_tasks s1)(ti := (user_tasks s1 ti)\<lparr>ut_exit_status := c, ut_state := SCDK_TASK_DEAD\<rparr>)))"
  proof (cases "s2 = s1")
    case True
    then show ?thesis using s1(1) by (auto simp: advances_def intro: tasks_advance_refl)
  next
    case False
    then obtain c where c: "s2 = snd (scdk_task_fault_current s1 c)" using u by (auto simp: user_returns_def)
    have nz: "task \<noteq> 0" using False c s1(3) by (auto simp: scdk_task_fault_current_def)
    have "user_tasks s2 = (user_tasks s1)(ti := (user_tasks s1 ti)\<lparr>ut_exit_status := c, ut_state := SCDK_TASK_DEAD\<rparr>)"
      using c slot s1(3) nz by (simp add: scdk_task_fault_current_def)
    moreover have "advances s1 s2"
      using fault_advances [of s1 c _ s2] c slot s1 by (auto simp: advances_def prod_eq_iff)
    ultimately show ?thesis by blast
  qed
  show "slots_prefix s2" using s2 by (simp add: advances_def)
  show "tasks_advance s s2" using s1(1) s2 tasks_advance_trans by (auto simp: advances_def)
  have ntr: "ut_state (user_tasks s ti) \<noteq> SCDK_TASK_RUNNING" using ti(2) by simp
  show "keeps_running s s2"
    using s2
  proof (elim conjE disjE exE)
    fix c
    assume "user_tasks s2 = (user_tasks s1)(ti := (user_tasks s1 ti)\<lparr>ut_exit_status := c, ut_state := SCDK_TASK_DEAD\<rparr>)"
    then show ?thesis using s1(2) ntr by (auto simp: keeps_running_def)
  qed (use s1(2) in simp)
  show "user_task_slot_for_cap s2 task = Inr ti"
    using task_slot_stable [of s1 s2 task ti] slot s1(1) s2 by (simp add: advances_def)
  then show "ut_in_use (user_tasks s2 ti)" by (simp add: task_slot_Inr)
  show "ut_state (user_tasks s2 ti) \<in> {SCDK_TASK_RUNNING, SCDK_TASK_DEAD}" using s2 s1(4) by auto
qed

lemma exit_after_run:
  assumes p: "slots_prefix s" and ti: "user_task_slot_for_cap s task = Inr ti"
    and st: "ut_state (user_tasks s ti) \<in> {SCDK_TASK_RUNNING, SCDK_TASK_DEAD}" and x: "scdk_task_exit s task c = (r, s')"
  shows "ut_state (user_tasks s' ti) = SCDK_TASK_DEAD" "\<forall>j. j \<noteq> ti \<longrightarrow> user_tasks s' j = user_tasks s j"
    "r = SCDK_OK \<longleftrightarrow> ut_state (user_tasks s ti) = SCDK_TASK_RUNNING"
  using assms by (auto simp: scdk_task_exit_def split: if_splits)

text \<open>The common end of the three run functions: other tasks keep what the user program left.\<close>

lemma run_step_ok:
  assumes p: "slots_prefix s" and r: "user_task_runnable s task = Inr (ti, i)"
    and h: "task_step_ok (user_task_enter s task ti i) s1" and u: "user_returns s1 s2"
    and f: "user_tasks s' = (user_tasks s2)(ti := t)" "slot_advance (user_tasks s2 ti) t" "current_user_task s' = current_user_task s"
  shows "task_step_ok s s'"
proof -
  note b = user_run_back [OF p r h u]
  have a: "advances s2 s'" by (rule advances_upd [OF b(1) f(1) b(5) f(2)])
  have "ut_state (user_tasks s ti) = SCDK_TASK_NEW" using r by (simp add: runnable_Inr)
  then have "keeps_running s s'" using b(3) f(1) by (auto simp: keeps_running_def)
  moreover have "advances s s'" using a b(2) tasks_advance_trans by (auto simp: advances_def)
  ultimately show ?thesis using f(3) by (simp add: task_step_ok_def)
qed

lemma slot_advance_refl: "ut_in_use t \<Longrightarrow> slot_advance t t" by (simp add: slot_advance_def)

lemma run_exit_ok:
  assumes p: "slots_prefix s" and r: "user_task_runnable s task = Inr (ti, i)"
    and h: "task_step_ok (user_task_enter s task ti i) s1" and u: "user_returns s1 s2"
    and x: "scdk_task_exit (s2\<lparr>current_user_task := current_user_task s\<rparr>) task 0 = (q, s')"
  shows "task_step_ok s s'" "ut_state (user_tasks s' ti) = SCDK_TASK_DEAD"
proof -
  note b = user_run_back [OF p r h u]
  have x': "ut_state (user_tasks s' ti) = SCDK_TASK_DEAD" "\<forall>j. j \<noteq> ti \<longrightarrow> user_tasks s' j = user_tasks s2 j"
    using exit_after_run [OF _ _ _ x, of ti] b by simp_all
  have "slot_advance (user_tasks s2 ti) (user_tasks s' ti)" "current_user_task s' = current_user_task s"
    using exit_advances [OF _ x] b(1,5) by (auto simp: advances_def tasks_advance_def)
  then show "task_step_ok s s'"
    by (intro run_step_ok [OF p r h u, where t = "user_tasks s' ti"]) (use x'(2) in \<open>auto simp: fun_eq_iff\<close>)
  show "ut_state (user_tasks s' ti) = SCDK_TASK_DEAD" by (rule x'(1))
qed

lemma run_dead_ok:
  assumes p: "slots_prefix s" and r: "user_task_runnable s task = Inr (ti, i)"
    and h: "task_step_ok (user_task_enter s task ti i) s1" and u: "user_returns s1 s2"
    and d: "s' = set_uth_state (set_ut_state (s2\<lparr>current_user_task := current_user_task s\<rparr>) ti SCDK_TASK_DEAD) i SCDK_THREAD_DEAD"
  shows "task_step_ok s s'" "ut_state (user_tasks s' ti) = SCDK_TASK_DEAD"
proof -
  note b = user_run_back [OF p r h u]
  show "task_step_ok s s'"
    by (rule run_step_ok [OF p r h u, where t = "(user_tasks s2 ti)\<lparr>ut_state := SCDK_TASK_DEAD\<rparr>"])
      (use b(5,6) in \<open>auto simp: d set_ut_state_def set_uth_state_def slot_advance_def\<close>)
  show "ut_state (user_tasks s' ti) = SCDK_TASK_DEAD" by (simp add: d set_ut_state_def set_uth_state_def)
qed

lemma run_left_ok:
  assumes p: "slots_prefix s" and r: "user_task_runnable s task = Inr (ti, i)"
    and h: "task_step_ok (user_task_enter s task ti i) s1" and u: "user_returns s1 s2"
  shows "task_step_ok s (s2\<lparr>current_user_task := current_user_task s\<rparr>)"
  by (rule run_step_ok [OF p r h u, where t = "user_tasks s2 ti"]) (simp_all add: slot_advance_refl user_run_back(5) [OF p r h u])

lemma run_refused_ok: "slots_prefix s \<Longrightarrow> task_step_ok s s"
  by (simp add: task_step_ok_def advances_same keeps_running_same)

lemma run_builtin_ok:
  assumes p: "slots_prefix s" and c: "scdk_user_task_run_builtin run s task = (r, s')"
    and h: "\<And>ti i. user_task_runnable s task = Inr (ti, i) \<Longrightarrow> \<exists>s1. task_step_ok (user_task_enter s task ti i) s1 \<and>
       user_returns s1 (snd (run (user_task_enter s task ti i) (ut_address_space_cap (user_tasks s ti)) (uth_thread_cap (user_threads s i))))"
  shows "task_step_ok s s'"
proof (cases rule: runnable_cases [of s task])
  case (refused e)
  then show ?thesis using c run_refused_ok [OF p] by (simp add: scdk_user_task_run_builtin_def)
next
  case (runs ti i)
  obtain st s2 where rn: "run (user_task_enter s task ti i) (ut_address_space_cap (user_tasks s ti)) (uth_thread_cap (user_threads s i)) = (st, s2)"
    by fastforce
  from h [OF runs] rn obtain s1 where s1: "task_step_ok (user_task_enter s task ti i) s1" "user_returns s1 s2" by auto
  show ?thesis
    using c runs rn run_left_ok [OF p runs s1] run_exit_ok(1) [OF p runs s1, of r s']
    by (simp add: scdk_user_task_run_builtin_def Let_def split: if_splits)
qed

lemma run_flat_ok:
  assumes p: "slots_prefix s" and c: "scdk_user_task_run_flat run s task img ep = (r, s')"
    and h: "\<And>ti i. user_task_runnable s task = Inr (ti, i) \<Longrightarrow> \<exists>s1. task_step_ok (user_task_enter s task ti i) s1 \<and>
       user_returns s1 (snd (run (user_task_enter s task ti i) (ut_address_space_cap (user_tasks s ti)) (uth_thread_cap (user_threads s i))
         (uth_instruction_pointer (user_threads s i)) img ep))"
  shows "task_step_ok s s' \<and> (\<forall>ti i. img \<noteq> [] \<longrightarrow> user_task_runnable s task = Inr (ti, i) \<longrightarrow> ut_state (user_tasks s' ti) = SCDK_TASK_DEAD)"
proof (cases rule: runnable_cases [of s task])
  case (refused e)
  then show ?thesis using c run_refused_ok [OF p] by (auto simp: scdk_user_task_run_flat_def split: if_splits)
next
  case (runs ti i)
  obtain st s2 where rn: "run (user_task_enter s task ti i) (ut_address_space_cap (user_tasks s ti)) (uth_thread_cap (user_threads s i))
      (uth_instruction_pointer (user_threads s i)) img ep = (st, s2)" by fastforce
  from h [OF runs] rn obtain s1 where s1: "task_step_ok (user_task_enter s task ti i) s1" "user_returns s1 s2" by auto
  show ?thesis
    using c runs rn run_refused_ok [OF p] run_dead_ok [OF p runs s1 refl] run_exit_ok [OF p runs s1, of r s']
    by (simp add: scdk_user_task_run_flat_def Let_def split: if_splits)
qed

lemma run_fault_test_ok:
  assumes p: "slots_prefix s" and c: "scdk_user_task_run_fault_test run s task test = (r, s')"
    and h: "\<And>ti i ep. user_task_runnable s task = Inr (ti, i) \<Longrightarrow> \<exists>s1. task_step_ok (user_task_enter s task ti i) s1 \<and>
       user_returns s1 (snd (run (user_task_enter s task ti i) (ut_address_space_cap (user_tasks s ti)) (uth_thread_cap (user_threads s i)) test ep))"
  shows "task_step_ok s s'"
proof (cases rule: runnable_cases [of s task])
  case (refused e)
  then show ?thesis using c run_refused_ok [OF p] by (simp add: scdk_user_task_run_fault_test_def)
next
  case (runs ti i)
  show ?thesis
  proof (cases "scdk_service_lookup s SCDK_SERVICE_CONSOLE")
    case (Inl e)
    then show ?thesis using c runs run_refused_ok [OF p] by (simp add: scdk_user_task_run_fault_test_def)
  next
    case (Inr ep)
    obtain st s2 where rn: "run (user_task_enter s task ti i) (ut_address_space_cap (user_tasks s ti)) (uth_thread_cap (user_threads s i)) test ep = (st, s2)"
      by fastforce
    from h [OF runs, of ep] rn obtain s1 where s1: "task_step_ok (user_task_enter s task ti i) s1" "user_returns s1 s2" by auto
    show ?thesis
      using c runs Inr rn run_left_ok [OF p runs s1] run_dead_ok(1) [OF p runs s1 refl]
      by (auto simp: scdk_user_task_run_fault_test_def Let_def split: if_splits)
  qed
qed

lemma step_ok_prefix: "task_step_ok s s' \<Longrightarrow> slots_prefix s'"
  by (simp add: task_step_ok_def advances_def)

lemma user_hist_ok: "user_hist s s' \<Longrightarrow> slots_prefix s \<Longrightarrow> task_step_ok s s'"
proof (induction rule: user_hist.induct)
  case (uh_refl s)
  then show ?case by (rule run_refused_ok)
next
  case (uh_other s s' s'')
  then have a: "task_step_ok s s'" by blast
  have "task_step_ok s' s''"
    using uh_other.hyps advances_same [OF step_ok_prefix [OF a], of s''] by (simp add: task_step_ok_def keeps_running_same)
  then show ?case by (rule step_ok_trans [OF a])
next
  case (uh_create s s' rc s'')
  then have a: "task_step_ok s s'" by blast
  show ?case by (rule step_ok_trans [OF a task_create_ok [OF step_ok_prefix [OF a] uh_create.hyps(2)]])
next
  case (uh_thread s s' task rt s'')
  then have a: "task_step_ok s s'" by blast
  show ?case by (rule step_ok_trans [OF a thread_create_ok [OF step_ok_prefix [OF a] uh_thread.hyps(2)]])
next
  case (uh_cleanup s s' task r s'')
  then have a: "task_step_ok s s'" by blast
  show ?case by (rule step_ok_trans [OF a cleanup_ok [OF step_ok_prefix [OF a] uh_cleanup.hyps(2)]])
next
  case (uh_builtin s s' run task r s'')
  then have a: "task_step_ok s s'" by blast
  have "task_step_ok s' s''"
    by (rule run_builtin_ok [OF step_ok_prefix [OF a] uh_builtin.hyps(2)])
      (use uh_builtin.IH(2) enter_advances [OF step_ok_prefix [OF a]] in \<open>fastforce simp: advances_def\<close>)
  then show ?case by (rule step_ok_trans [OF a])
next
  case (uh_flat s s' runf task img ep r s'')
  then have a: "task_step_ok s s'" by blast
  have "task_step_ok s' s''"
    by (rule run_flat_ok [OF step_ok_prefix [OF a] uh_flat.hyps(2), THEN conjunct1])
      (use uh_flat.IH(2) enter_advances [OF step_ok_prefix [OF a]] in \<open>fastforce simp: advances_def\<close>)
  then show ?case by (rule step_ok_trans [OF a])
next
  case (uh_fault_test s s' runt task test r s'')
  then have a: "task_step_ok s s'" by blast
  have "task_step_ok s' s''"
    by (rule run_fault_test_ok [OF step_ok_prefix [OF a] uh_fault_test.hyps(2)])
      (use uh_fault_test.IH(2) enter_advances [OF step_ok_prefix [OF a]] in \<open>fastforce simp: advances_def\<close>)
  then show ?case by (rule step_ok_trans [OF a])
qed

section \<open>Properties\<close>

text \<open>One user task, not yet run.\<close>

definition task_demo :: task_state where
  "task_demo = sched_state.extend sched_demo
     \<lparr>user_tasks = (\<lambda>i. \<lparr>ut_in_use = (i = 0), ut_task_cap = 5, ut_task_id = 6, ut_address_space_cap = 8, ut_address_space_id = 9,
        ut_main_thread_cap = 7, ut_capability_table_placeholder = 0, ut_owner_core = 0, ut_state = SCDK_TASK_NEW, ut_exit_status = 0\<rparr>),
      user_threads = (\<lambda>i. \<lparr>uth_in_use = (i = 0), uth_thread_cap = 7, uth_thread_id = 10, uth_task_id = 6,
        uth_user_stack_top = SCDK_USER_TEST_STACK_TOP, uth_instruction_pointer = SCDK_USER_TEST_CODE_VIRT, uth_owner_core = 0,
        uth_state = SCDK_THREAD_NEW\<rparr>),
      current_user_task = 0\<rparr>"

lemma task_demo_sel:
  "user_tasks task_demo = (\<lambda>i. \<lparr>ut_in_use = (i = 0), ut_task_cap = 5, ut_task_id = 6, ut_address_space_cap = 8, ut_address_space_id = 9,
        ut_main_thread_cap = 7, ut_capability_table_placeholder = 0, ut_owner_core = 0, ut_state = SCDK_TASK_NEW, ut_exit_status = 0\<rparr>)"
  "user_threads task_demo = (\<lambda>i. \<lparr>uth_in_use = (i = 0), uth_thread_cap = 7, uth_thread_id = 10, uth_task_id = 6,
        uth_user_stack_top = SCDK_USER_TEST_STACK_TOP, uth_instruction_pointer = SCDK_USER_TEST_CODE_VIRT, uth_owner_core = 0,
        uth_state = SCDK_THREAD_NEW\<rparr>)"
  by (simp_all add: task_demo_def sched_state.defs)

lemma task_demo_slots:
  "slots_prefix task_demo" "user_task_slot_for_cap task_demo 5 = Inr 0" "user_thread_slot_for_cap task_demo 7 = Inr 0"
  "user_task_runnable task_demo 5 = Inr (0, 0)"
proof -
  show "slots_prefix task_demo" by (simp add: slots_prefix_def task_demo_sel)
  show t: "user_task_slot_for_cap task_demo 5 = Inr 0" by (simp add: task_slot_Inr task_demo_sel kconst)
  show u: "user_thread_slot_for_cap task_demo 7 = Inr 0"
    by (simp add: user_thread_slot_for_cap_def first_slot_hit task_demo_sel kconst)
  show "user_task_runnable task_demo 5 = Inr (0, 0)" by (simp add: runnable_Inr t u) (simp add: task_demo_sel u)
qed

text \<open>
  (C18) The life cycle of a user task: over any history of the kernel, with nested runs of
  other tasks, a task keeps its slot, its object id and its address space, its
  state only moves forward (new, running, dead, cleaned up), and a task that is
  running keeps running until its own run function ends it.
\<close>

theorem user_task_lifecycle:
  assumes "slots_prefix s" and "user_hist s s'" and "user_task_slot_for_cap s task = Inr i"
  shows "slots_prefix s' \<and> user_task_slot_for_cap s' task = Inr i \<and>
    ut_task_id (user_tasks s' i) = ut_task_id (user_tasks s i) \<and>
    ut_address_space_cap (user_tasks s' i) = ut_address_space_cap (user_tasks s i) \<and>
    task_rank (ut_state (user_tasks s i)) \<le> task_rank (ut_state (user_tasks s' i)) \<and>
    (ut_state (user_tasks s i) = SCDK_TASK_RUNNING \<longrightarrow> ut_state (user_tasks s' i) = SCDK_TASK_RUNNING) \<and>
    current_user_task s' = current_user_task s"
proof -
  note h = user_hist_ok [OF assms(2,1)]
  have u: "ut_in_use (user_tasks s i)" using assms(3) by (simp add: task_slot_Inr)
  have "user_task_slot_for_cap s' task = Inr i"
    by (rule task_slot_stable [OF assms(1) _ assms(3)]) (use h in \<open>simp add: task_step_ok_def advances_def\<close>)
  then show ?thesis
    using h u by (auto simp: task_step_ok_def advances_def tasks_advance_def slot_advance_def keeps_running_def)
qed

theorem user_task_lifecycle_witness:
  "user_task_slot_for_cap (snd (scdk_task_cleanup task_demo 5)) 5 = Inr 0"
proof -
  have "user_hist task_demo (snd (scdk_task_cleanup task_demo 5))" by (rule uh_cleanup [OF uh_refl]) (rule prod.collapse [symmetric])
  from user_task_lifecycle [OF task_demo_slots(1) this task_demo_slots(2)] show ?thesis by blast
qed

text \<open>
  (C35) A task that \<^verbatim>\<open>scdk_user_task_run_flat\<close> has run does not run again: when the function is
  called on a runnable task with an image, the task is dead when it returns,
  whatever the program did in a history of the kind above (nested runs of other tasks
  included, ended by a fault or not), and the task that was current before is current
  again; after any further history it is dead or cleaned up, and
  all three run functions refuse it and change nothing. (For
  \<^verbatim>\<open>scdk_user_task_run_builtin\<close> this is not so: it returns an error of the program
  without ending the task.)
\<close>

theorem user_task_runs_once:
  assumes p: "slots_prefix s" and run: "user_task_runnable s task = Inr (ti, i)" and img: "img \<noteq> []"
    and user: "user_hist (user_task_enter s task ti i) s0"
      "user_returns s0 (snd (prog (user_task_enter s task ti i) (ut_address_space_cap (user_tasks s ti))
         (uth_thread_cap (user_threads s i)) (uth_instruction_pointer (user_threads s i)) img ep))"
    and r: "scdk_user_task_run_flat prog s task img ep = (r, s1)" and later: "user_hist s1 s2"
  shows "ut_state (user_tasks s1 ti) = SCDK_TASK_DEAD \<and> current_user_task s1 = current_user_task s \<and>
    ut_state (user_tasks s2 ti) \<in> {SCDK_TASK_DEAD, SCDK_TASK_CLEANED} \<and>
    (\<exists>e. user_task_runnable s2 task = Inl e \<and>
       scdk_user_task_run_builtin prog1 s2 task = (e, s2) \<and> scdk_user_task_run_fault_test prog2 s2 task test = (e, s2) \<and>
       (img' \<noteq> [] \<longrightarrow> scdk_user_task_run_flat prog3 s2 task img' ep' = (e, s2)))"
proof -
  have e: "slots_prefix (user_task_enter s task ti i)" using enter_advances [OF p run] by (simp add: advances_def)
  have f: "task_step_ok s s1 \<and> (\<forall>ti i. img \<noteq> [] \<longrightarrow> user_task_runnable s task = Inr (ti, i) \<longrightarrow> ut_state (user_tasks s1 ti) = SCDK_TASK_DEAD)"
    by (rule run_flat_ok [OF p r]) (use user_hist_ok [OF user(1) e] user(2) run in auto)
  have dead: "ut_state (user_tasks s1 ti) = SCDK_TASK_DEAD" using f run img by blast
  have "user_task_slot_for_cap s task = Inr ti" using run by (simp add: runnable_Inr)
  then have t1: "user_task_slot_for_cap s1 task = Inr ti"
    using task_slot_stable [OF p] f by (simp add: task_step_ok_def advances_def)
  then have u1: "ut_in_use (user_tasks s1 ti)" by (simp add: task_slot_Inr)
  have h: "task_step_ok s1 s2" using user_hist_ok [OF later step_ok_prefix] f by blast
  have t2: "user_task_slot_for_cap s2 task = Inr ti"
    using task_slot_stable [OF step_ok_prefix [OF conjunct1 [OF f]] _ t1] h by (simp add: task_step_ok_def advances_def)
  have "3 \<le> task_rank (ut_state (user_tasks s2 ti))"
    using h u1 dead by (auto simp: task_step_ok_def advances_def tasks_advance_def slot_advance_def)
  then have st: "ut_state (user_tasks s2 ti) \<in> {SCDK_TASK_DEAD, SCDK_TASK_CLEANED}" by (cases "ut_state (user_tasks s2 ti)") auto
  then have "\<exists>e. user_task_runnable s2 task = Inl e" by (cases rule: runnable_cases [of s2 task]) (auto simp: runnable_Inr t2)
  then obtain e where "user_task_runnable s2 task = Inl e" by blast
  then show ?thesis
    using dead f st by (auto simp: task_step_ok_def scdk_user_task_run_builtin_def scdk_user_task_run_fault_test_def scdk_user_task_run_flat_def)
qed

theorem user_task_runs_once_witness:
  "\<exists>r s1 e. scdk_user_task_run_flat (\<lambda>s _ _ _ _ _. (SCDK_OK, s)) task_demo 5 [0x90] 0 = (r, s1) \<and>
     ut_state (user_tasks s1 0) = SCDK_TASK_DEAD \<and> user_task_runnable s1 5 = Inl e"
proof -
  obtain r s1 where r: "scdk_user_task_run_flat (\<lambda>s _ _ _ _ _. (SCDK_OK, s)) task_demo 5 [0x90] 0 = (r, s1)" by fastforce
  from user_task_runs_once [OF task_demo_slots(1,4) _ uh_refl _ r uh_refl]
  show ?thesis using r by (fastforce simp: user_returns_def)
qed

text \<open>
  Exit and clean-up refuse a task in any other state without effect: \<^verbatim>\<open>scdk_task_exit\<close>
  succeeds exactly on a running task and \<^verbatim>\<open>scdk_task_cleanup\<close> exactly on a dead one; an
  unknown capability is refused with \<^verbatim>\<open>SCDK_ERR_NOENT\<close>, a task in another state with
  \<^verbatim>\<open>SCDK_ERR_BUSY\<close>, and a second clean-up is always refused.
\<close>

theorem task_end_errors:
  "case user_task_slot_for_cap s task of
     Inl e \<Rightarrow> e = SCDK_ERR_NOENT \<and> scdk_task_exit s task code = (SCDK_ERR_NOENT, s) \<and> scdk_task_cleanup s task = (SCDK_ERR_NOENT, s)
   | Inr i \<Rightarrow>
       (if ut_state (user_tasks s i) = SCDK_TASK_RUNNING
        then fst (scdk_task_exit s task code) = SCDK_OK \<and> user_tasks (snd (scdk_task_exit s task code)) =
          (user_tasks s)(i := (user_tasks s i)\<lparr>ut_exit_status := code, ut_state := SCDK_TASK_DEAD\<rparr>)
        else scdk_task_exit s task code = (SCDK_ERR_BUSY, s)) \<and>
       (if ut_state (user_tasks s i) = SCDK_TASK_DEAD
        then fst (scdk_task_cleanup s task) = SCDK_OK \<and> user_tasks (snd (scdk_task_cleanup s task)) =
            (user_tasks s)(i := (user_tasks s i)\<lparr>ut_state := SCDK_TASK_CLEANED\<rparr>) \<and>
          scdk_task_cleanup (snd (scdk_task_cleanup s task)) task = (SCDK_ERR_BUSY, snd (scdk_task_cleanup s task))
        else scdk_task_cleanup s task = (SCDK_ERR_BUSY, s))"
proof (cases "user_task_slot_for_cap s task")
  case (Inl e)
  then have "e = SCDK_ERR_NOENT" by (auto simp: user_task_slot_for_cap_def split: option.splits)
  with Inl show ?thesis by (simp add: scdk_task_exit_def scdk_task_cleanup_def)
next
  case (Inr i)
  let ?t = "snd (scdk_task_cleanup s task)"
  have "scdk_task_cleanup ?t task = (SCDK_ERR_BUSY, ?t)" if "ut_state (user_tasks s i) = SCDK_TASK_DEAD"
  proof -
    have t: "user_tasks ?t = (user_tasks s)(i := (user_tasks s i)\<lparr>ut_state := SCDK_TASK_CLEANED\<rparr>)"
      using that Inr by (simp add: scdk_task_cleanup_def set_ut_state_def)
    have "user_task_slot_for_cap ?t task = Inr i" using Inr unfolding task_slot_Inr t by auto
    then show ?thesis by (simp add: scdk_task_cleanup_def [of ?t] t)
  qed
  then show ?thesis using Inr by (auto simp: scdk_task_exit_def scdk_task_cleanup_def set_ut_state_def)
qed

end
