(* ===== verification/SCDK_UserIpc.thy ===== *)
theory SCDK_UserIpc
  imports SCDK_Task
begin

text \<open>
  The border between user programs and the kernel: user memory and the checked
  copies to and from it, and the endpoint-call system call (\<^verbatim>\<open>ipc/user_ipc.c\<close>), the
  fault handlers that end the current task (\<^verbatim>\<open>arch/x86_64/fault.c\<close>), and the
  per-task system-call state (the globals of \<^verbatim>\<open>core/syscall_dispatch.c\<close> and
  \<^verbatim>\<open>arch/x86_64/syscall.c\<close>). User memory is physical memory seen through the page
  tables of the active root, a byte at a time; kernel buffers are the field \<open>kmem\<close>.
\<close>

section \<open>State\<close>

record user_state = task_state +
  kmem :: "u64 \<Rightarrow> u8"
  scdk_syscall_kernel_stack_top :: u64
  scdk_syscall_user_rsp :: u64
  scdk_syscall_user_rip :: u64
  scdk_syscall_user_rflags :: u64
  scdk_syscall_arg0 :: u64
  scdk_syscall_arg1 :: u64
  scdk_syscall_arg2 :: u64
  scdk_syscall_arg3 :: u64
  scdk_syscall_return_value :: u64
  scdk_user_return_rsp :: u64
  scdk_user_return_rip :: u64
  user_exited :: bool
  endpoint_call_passed :: bool
  user_faulted :: bool
  user_fault_status :: scdk_status
  syscall_initialized :: bool
  saw_user_page_fault :: bool
  saw_invalid_syscall :: bool
  saw_bad_user_pointer :: bool

section \<open>Faults\<close>

definition scdk_syscall_mark_user_fault :: "'a user_state_scheme \<Rightarrow> scdk_status \<Rightarrow> 'a user_state_scheme" where
  "scdk_syscall_mark_user_fault s status =
     s\<lparr>user_faulted := True, user_fault_status := status, user_exited := True, scdk_syscall_return_value := status_word status\<rparr>"

definition mark_user_fault :: "'a user_state_scheme \<Rightarrow> scdk_status \<Rightarrow> 'a user_state_scheme" where
  "mark_user_fault s status =
     scdk_syscall_mark_user_fault (snd (scdk_task_fault_current s (ucast (status_word status)))) status"

definition scdk_fault_handle_invalid_syscall :: "'a user_state_scheme \<Rightarrow> u64 \<Rightarrow> 'a user_state_scheme" where
  "scdk_fault_handle_invalid_syscall s number = mark_user_fault (s\<lparr>saw_invalid_syscall := True\<rparr>) SCDK_ERR_NOTSUP"

definition scdk_fault_handle_bad_user_pointer :: "'a user_state_scheme \<Rightarrow> u64 \<Rightarrow> scdk_status \<Rightarrow> 'a user_state_scheme" where
  "scdk_fault_handle_bad_user_pointer s user_ptr status = mark_user_fault (s\<lparr>saw_bad_user_pointer := True\<rparr>) status"

definition scdk_fault_handle_capability_failure :: "'a user_state_scheme \<Rightarrow> scdk_status \<Rightarrow> 'a user_state_scheme" where
  "scdk_fault_handle_capability_failure s status = mark_user_fault s status"

record scdk_fault_frame =
  ff_vector :: u64
  ff_error_code :: u64
  ff_rip :: u64
  ff_cs :: u64
  ff_rflags :: u64
  ff_rsp :: u64
  ff_ss :: u64

definition SCDK_FAULT_INVALID_OPCODE :: u64 where [kconst]: "SCDK_FAULT_INVALID_OPCODE = 6"
definition SCDK_FAULT_GENERAL_PROTECTION :: u64 where [kconst]: "SCDK_FAULT_GENERAL_PROTECTION = 13"
definition SCDK_FAULT_PAGE :: u64 where [kconst]: "SCDK_FAULT_PAGE = 14"

definition frame_from_user :: "scdk_fault_frame \<Rightarrow> bool" where
  "frame_from_user frame \<longleftrightarrow> ff_cs frame AND 3 = 3"

text \<open>\<open>None\<close> is the panic on a fault of the kernel itself; the result 1 leaves user mode.\<close>

definition scdk_fault_dispatch :: "'a user_state_scheme \<Rightarrow> scdk_fault_frame \<Rightarrow> (u64 \<times> 'a user_state_scheme) option" where
  "scdk_fault_dispatch s frame =
     (if \<not> frame_from_user frame then None
      else let s1 = (if ff_vector frame = SCDK_FAULT_PAGE then s\<lparr>saw_user_page_fault := True\<rparr> else s)
           in Some (1, mark_user_fault s1 SCDK_ERR_PERM))"

definition scdk_fault_reset_test_state :: "'a user_state_scheme \<Rightarrow> 'a user_state_scheme" where
  "scdk_fault_reset_test_state s = s\<lparr>saw_user_page_fault := False, saw_invalid_syscall := False, saw_bad_user_pointer := False\<rparr>"

section \<open>Memory\<close>

text \<open>The byte at a physical address: \<^verbatim>\<open>phys_mem\<close> holds eight bytes per cell, lowest first.\<close>

definition get_byte :: "u64 \<Rightarrow> nat \<Rightarrow> u8" where "get_byte w k = ucast (drop_bit (8 * k) w)"
definition put_byte :: "u64 \<Rightarrow> nat \<Rightarrow> u8 \<Rightarrow> u64" where
  "put_byte w k b = (w AND NOT (push_bit (8 * k) 0xff)) OR push_bit (8 * k) (ucast b)"

definition phys_byte :: "'a vmm_state_scheme \<Rightarrow> u64 \<Rightarrow> u8" where
  "phys_byte m pa = get_byte (phys_mem m (pa AND NOT 7)) (unat (pa AND 7))"

definition set_phys_byte :: "'a vmm_state_scheme \<Rightarrow> u64 \<Rightarrow> u8 \<Rightarrow> 'a vmm_state_scheme" where
  "set_phys_byte m pa b =
     m\<lparr>phys_mem := (phys_mem m)(pa AND NOT 7 := put_byte (phys_mem m (pa AND NOT 7)) (unat (pa AND 7)) b)\<rparr>"

text \<open>
  A load or store at a user address goes through the page tables. After a successful
  \<^verbatim>\<open>scdk_user_validate_range\<close> every address of the range translates
  (\<open>validate_range_exact\<close>), so the case of an untranslated address does not occur.
\<close>

definition load_byte :: "'a user_state_scheme \<Rightarrow> u64 \<Rightarrow> u8" where
  "load_byte s va = (case scdk_vmm_virt_to_phys (mm s) va of Inl _ \<Rightarrow> 0 | Inr (pa, _) \<Rightarrow> phys_byte (mm s) pa)"

definition store_byte :: "'a user_state_scheme \<Rightarrow> u64 \<Rightarrow> u8 \<Rightarrow> 'a user_state_scheme" where
  "store_byte s va b = (case scdk_vmm_virt_to_phys (mm s) va of Inl _ \<Rightarrow> s | Inr (pa, _) \<Rightarrow> s\<lparr>mm := set_phys_byte (mm s) pa b\<rparr>)"

fun load_bytes :: "'a user_state_scheme \<Rightarrow> u64 \<Rightarrow> nat \<Rightarrow> u8 list" where
  "load_bytes s va 0 = []"
| "load_bytes s va (Suc n) = load_byte s va # load_bytes s (va + 1) n"

fun store_bytes :: "'a user_state_scheme \<Rightarrow> u64 \<Rightarrow> u8 list \<Rightarrow> 'a user_state_scheme" where
  "store_bytes s va [] = s"
| "store_bytes s va (b # bs) = store_bytes (store_byte s va b) (va + 1) bs"

definition kmem_write :: "'a user_state_scheme \<Rightarrow> u64 \<Rightarrow> u8 list \<Rightarrow> 'a user_state_scheme" where
  "kmem_write s a bs = s\<lparr>kmem := (\<lambda>x. if unat (x - a) < length bs then bs ! unat (x - a) else kmem s x)\<rparr>"

text \<open>The objects that cross the border are structures of 64-bit words, stored low byte first.\<close>

definition le_bytes :: "u64 \<Rightarrow> u8 list" where "le_bytes w = map (get_byte w) [0..<8]"
fun le_word :: "u8 list \<Rightarrow> u64" where
  "le_word [] = 0"
| "le_word (b # bs) = ucast b OR push_bit 8 (le_word bs)"

definition le_words :: "u8 list \<Rightarrow> nat \<Rightarrow> u64" where "le_words bs i = le_word (take 8 (drop (8 * i) bs))"

definition message_size :: u64 where [kconst]: "message_size = 64"

definition message_bytes :: "scdk_message \<Rightarrow> u8 list" where
  "message_bytes m = concat (map le_bytes [sender m, target m, mtype m, arg0 m, arg1 m, arg2 m, arg3 m, mstatus m])"

definition message_of_bytes :: "u8 list \<Rightarrow> scdk_message" where
  "message_of_bytes bs = \<lparr>sender = le_words bs 0, target = le_words bs 1, mtype = le_words bs 2, arg0 = le_words bs 3,
     arg1 = le_words bs 4, arg2 = le_words bs 5, arg3 = le_words bs 6, mstatus = le_words bs 7\<rparr>"

section \<open>Checked copies\<close>

text \<open>\<open>Some last\<close> is \<^verbatim>\<open>true\<close> with \<open>last\<close> written through \<^verbatim>\<open>out_last\<close>.\<close>

definition checked_user_end :: "u64 \<Rightarrow> u64 \<Rightarrow> u64 option" where
  "checked_user_end user_ptr n =
     (if user_ptr = 0 \<or> n = 0 then None
      else if user_ptr > (- 1) - (n - 1) then None
      else let last = user_ptr + n - 1
           in if user_ptr < SCDK_USER_VIRT_BASE \<or> last \<ge> SCDK_USER_VIRT_TOP then None else Some last)"

text \<open>
  The loop over the pages of the range. \<open>i\<close> is the number of the page, so \<^verbatim>\<open>page\<close> is
  \<open>4096 * i\<close>, and \<open>k\<close> that of the last page: \<^verbatim>\<open>last & ~(SCDK_PAGE_SIZE - 1)\<close> is \<open>4096 * k\<close>.
\<close>

function validate_pages :: "'a user_state_scheme \<Rightarrow> bool \<Rightarrow> nat \<Rightarrow> nat \<Rightarrow> scdk_status" where
  "validate_pages s writable i k =
     (case scdk_vmm_virt_to_phys (mm s) (of_nat i * SCDK_PAGE_SIZE) of
        Inl status \<Rightarrow> status
      | Inr (phys, flags) \<Rightarrow>
          if flags AND SCDK_VMM_MAP_USER = 0 then SCDK_ERR_PERM
          else if writable \<and> flags AND SCDK_VMM_MAP_WRITE = 0 then SCDK_ERR_PERM
          else if i \<ge> k then SCDK_OK
          else validate_pages s writable (Suc i) k)"
  by pat_completeness auto

termination
  by (relation "measure (\<lambda>(s, w, i, k). k - i)") auto

declare validate_pages.simps [simp del]

definition scdk_user_validate_range :: "'a user_state_scheme \<Rightarrow> u64 \<Rightarrow> u64 \<Rightarrow> bool \<Rightarrow> scdk_status" where
  "scdk_user_validate_range s user_ptr n writable =
     (case checked_user_end user_ptr n of
        None \<Rightarrow> SCDK_ERR_BOUNDS
      | Some last_byte \<Rightarrow> validate_pages s writable (unat user_ptr div 4096) (unat last_byte div 4096))"

text \<open>
  The bytes for \<^verbatim>\<open>kernel_dst\<close>; every caller passes the address of a local object, or has
  checked the pointer before.
\<close>

definition scdk_user_copy_from :: "'a user_state_scheme \<Rightarrow> u64 \<Rightarrow> u64 \<Rightarrow> u8 list res" where
  "scdk_user_copy_from s user_ptr n =
     (if n = 0 then Inl SCDK_ERR_INVAL
      else let status = scdk_user_validate_range s user_ptr n False
           in if status \<noteq> SCDK_OK then Inl status else Inr (load_bytes s user_ptr (unat n)))"

definition scdk_user_copy_to :: "'a user_state_scheme \<Rightarrow> u64 \<Rightarrow> u8 list \<Rightarrow> scdk_status \<times> 'a user_state_scheme" where
  "scdk_user_copy_to s user_ptr bs =
     (if bs = [] then (SCDK_ERR_INVAL, s)
      else let status = scdk_user_validate_range s user_ptr (of_nat (length bs)) True
           in if status \<noteq> SCDK_OK then (status, s) else (SCDK_OK, store_bytes s user_ptr bs))"

section \<open>The endpoint-call system call\<close>

definition SCDK_USER_IPC_MAX_WRITE :: u64 where [kconst]: "SCDK_USER_IPC_MAX_WRITE = 256"

definition validate_user_message_target :: "'a user_state_scheme \<Rightarrow> u64 \<Rightarrow> scdk_message \<Rightarrow> scdk_status" where
  "validate_user_message_target s endpoint_cap msg =
     (if target msg = SCDK_SERVICE_NONE then SCDK_ERR_INVAL
      else case scdk_service_lookup s (target msg) of
        Inl e \<Rightarrow> e
      | Inr service_endpoint \<Rightarrow> if service_endpoint \<noteq> endpoint_cap then SCDK_ERR_PERM else SCDK_OK)"

definition prepare_user_buffer_arg ::
  "'a user_state_scheme \<Rightarrow> scdk_message \<Rightarrow> u64 \<Rightarrow> u64 \<Rightarrow> scdk_message res \<times> 'a user_state_scheme"
where
  "prepare_user_buffer_arg s msg buffer buffer_size =
     (if buffer = 0 \<or> buffer_size = 0 then (Inl SCDK_ERR_INVAL, s)
      else if mtype msg \<noteq> SCDK_MSG_WRITE \<and> mtype msg \<noteq> SCDK_MSG_OPEN \<and> mtype msg \<noteq> SCDK_MSG_PROCESS_SPAWN \<and>
              mtype msg \<noteq> SCDK_MSG_STAT \<and> mtype msg \<noteq> SCDK_MSG_LISTDIR then (Inl SCDK_ERR_NOTSUP, s)
      else if arg0 msg = 0 \<or> arg1 msg = 0 \<or> arg1 msg > buffer_size - 1 then (Inl SCDK_ERR_BOUNDS, s)
      else case scdk_user_copy_from s (arg0 msg) (arg1 msg) of
        Inl e \<Rightarrow> (Inl e, s)
      | Inr bs \<Rightarrow> (Inr (msg\<lparr>arg0 := buffer\<rparr>), kmem_write s buffer (bs @ [0])))"

text \<open>
  The \<^verbatim>\<open>switch\<close> on the message type: \<open>None\<close> goes on to the call; \<open>Some (status, fault)\<close> is
  an early return, with the pointer the fault handler is told about, if any.
\<close>

definition sys_message_args ::
  "'a user_state_scheme \<Rightarrow> u64 \<Rightarrow> scdk_message \<Rightarrow> (scdk_status \<times> u64 option) option \<times> scdk_message \<times> 'a user_state_scheme"
where
  "sys_message_args s payload_buffer msg =
     (if mtype msg \<in> {SCDK_MSG_WRITE, SCDK_MSG_OPEN, SCDK_MSG_PROCESS_SPAWN, SCDK_MSG_STAT, SCDK_MSG_LISTDIR}
      then (case prepare_user_buffer_arg s msg payload_buffer (SCDK_USER_IPC_MAX_WRITE + 1) of
              (Inl status, s1) \<Rightarrow>
                (Some (status, if status \<in> {SCDK_ERR_BOUNDS, SCDK_ERR_NOENT, SCDK_ERR_PERM} then Some (arg0 msg) else None), msg, s1)
            | (Inr msg1, s1) \<Rightarrow>
                if mtype msg1 = SCDK_MSG_LISTDIR
                then (let status = scdk_user_validate_range s1 (arg2 msg1) (arg3 msg1) True
                      in (if status \<noteq> SCDK_OK then Some (status, Some (arg2 msg1)) else None, msg1, s1))
                else (None, msg1, s1))
      else if mtype msg = SCDK_MSG_READ
      then (if target msg = SCDK_SERVICE_VFS
            then (let status = scdk_user_validate_range s (arg2 msg) (arg3 msg) True
                  in (if status \<noteq> SCDK_OK then Some (status, Some (arg2 msg)) else None, msg, s))
            else (None, msg, s))
      else if mtype msg \<in> {SCDK_MSG_CONSOLE_WRITE, SCDK_MSG_CONSOLE_CLEAR, SCDK_MSG_CONSOLE_GET_INFO, SCDK_MSG_CONSOLE_SCROLL,
              SCDK_MSG_TTY_POLL_EVENT, SCDK_MSG_TTY_GET_INFO, SCDK_MSG_CLOSE, SCDK_MSG_SERVICE_LOOKUP}
      then (None, msg, s)
      else (Some (SCDK_ERR_NOTSUP, None), msg, s))"

text \<open>\<open>payload_buffer\<close> is the address of the local array of that name.\<close>

definition scdk_sys_endpoint_call ::
  "'a user_state_scheme run_handler \<Rightarrow> u64 \<Rightarrow> 'a user_state_scheme \<Rightarrow> u64 \<Rightarrow> u64 \<Rightarrow> scdk_status \<times> 'a user_state_scheme"
where
  "scdk_sys_endpoint_call run payload_buffer s endpoint_cap user_message_ptr =
     (case scdk_cap_check s endpoint_cap SCDK_RIGHT_SEND SCDK_OBJ_ENDPOINT of
        Inl status \<Rightarrow> (status, scdk_fault_handle_capability_failure s status)
      | Inr _ \<Rightarrow>
          (case scdk_user_copy_from s user_message_ptr message_size of
             Inl status \<Rightarrow> (status, scdk_fault_handle_bad_user_pointer s user_message_ptr status)
           | Inr bs \<Rightarrow>
               (let msg = message_of_bytes bs;
                    status = validate_user_message_target s endpoint_cap msg;
                    reply = (\<lambda>s m status. snd (scdk_user_copy_to s user_message_ptr (message_bytes (m\<lparr>mstatus := status_word status\<rparr>))))
                in if status \<noteq> SCDK_OK
                   then (status, scdk_fault_handle_capability_failure (reply s msg status) status)
                   else case sys_message_args s payload_buffer msg of
                     (Some (status, fault), msg1, s1) \<Rightarrow>
                       (status, case fault of
                          None \<Rightarrow> reply s1 msg1 status
                        | Some p \<Rightarrow> scdk_fault_handle_bad_user_pointer (reply s1 msg1 status) p status)
                   | (None, msg1, s1) \<Rightarrow>
                       (case scdk_endpoint_call run s1 endpoint_cap msg1 of
                          (status, msg2, s2) \<Rightarrow>
                            (case scdk_user_copy_to s2 user_message_ptr (message_bytes (msg2\<lparr>mstatus := status_word status\<rparr>)) of
                               (st, s3) \<Rightarrow> (if st \<noteq> SCDK_OK then SCDK_ERR_PERM else status, s3))))))"

section \<open>Ranges of user addresses\<close>

lemma page_of_number: "unat (page_of v) = 4096 * (unat v div 4096)"
  using unat_and_not_mask [of 12 v] by (simp add: page_mask)

lemma same_page:
  assumes "unat v div 4096 = unat w div 4096"
  shows "full_path v = full_path w" "page_of v = page_of w"
proof -
  have "unat (page_of v) = unat (page_of w)" by (simp only: page_of_number assms)
  then show "page_of v = page_of w" by (simp only: word_unat_eq_iff)
  have "unat (pml4_index v) = unat (pml4_index w)" "unat (pdpt_index v) = unat (pdpt_index w)"
    "unat (pd_index v) = unat (pd_index w)" "unat (pt_index v) = unat (pt_index w)"
    by (simp_all only: unat_index assms)
  then have "pml4_index v = pml4_index w" "pdpt_index v = pdpt_index w" "pd_index v = pd_index w" "pt_index v = pt_index w"
    by (simp_all only: word_unat_eq_iff)
  then show "full_path v = full_path w" by (simp only: full_path_def table_path_def)
qed

text \<open>
  An address user code may read (and write) through the active page tables, by the flags
  of the leaf entry, which is what \<^verbatim>\<open>scdk_vmm_virt_to_phys\<close> reports. The processor grants the
  conjunction of the flags of all four levels; the tables that \<^verbatim>\<open>vmm.c\<close> links for a user
  page carry the user and the write flag (\<^verbatim>\<open>next_table\<close>), so that the leaf decides.
\<close>

definition user_access :: "'a user_state_scheme \<Rightarrow> bool \<Rightarrow> u64 \<Rightarrow> bool" where
  "user_access s writable v \<longleftrightarrow>
     (case scdk_vmm_virt_to_phys (mm s) v of
        Inl _ \<Rightarrow> False
      | Inr (pa, flags) \<Rightarrow> flags AND SCDK_VMM_MAP_USER \<noteq> 0 \<and> (writable \<longrightarrow> flags AND SCDK_VMM_MAP_WRITE \<noteq> 0))"

lemma user_access_page:
  assumes "unat v div 4096 = unat w div 4096"
  shows "user_access s wr v = user_access s wr w"
  unfolding user_access_def scdk_vmm_virt_to_phys_def virt_to_phys_leaf same_page [OF assms]
  by (simp split: sum.split)

lemma leaf_entry_Inl: "leaf_entry m t p = Inl e \<Longrightarrow> e \<noteq> SCDK_OK"
  by (induction m t p rule: leaf_entry.induct) (auto split: if_splits)

lemma virt_to_phys_not_OK: "scdk_vmm_virt_to_phys m v \<noteq> Inl SCDK_OK"
  by (auto simp: scdk_vmm_virt_to_phys_def virt_to_phys_leaf dest: leaf_entry_Inl split: sum.splits)

lemma validate_pages_step:
  "validate_pages s wr i k = SCDK_OK \<longleftrightarrow>
     user_access s wr (of_nat i * SCDK_PAGE_SIZE) \<and> (i < k \<longrightarrow> validate_pages s wr (Suc i) k = SCDK_OK)"
  using virt_to_phys_not_OK [of "mm s" "of_nat i * SCDK_PAGE_SIZE"]
  by (subst validate_pages.simps) (auto simp: user_access_def not_less split: sum.splits)

lemma validate_pages_OK:
  "i \<le> k \<Longrightarrow> validate_pages s wr i k = SCDK_OK \<longleftrightarrow> (\<forall>j\<in>{i..k}. user_access s wr (of_nat j * SCDK_PAGE_SIZE))"
proof (induction "k - i" arbitrary: i)
  case 0
  then show ?case using validate_pages_step [of s wr i k] by simp
next
  case (Suc n)
  then have "i < k" "n = k - Suc i" by simp_all
  moreover from \<open>i < k\<close> have "{i..k} = insert i {Suc i..k}" by auto
  ultimately show ?case using validate_pages_step [of s wr i k] Suc.hyps(1) [of "Suc i"] by simp
qed

text \<open>The pages of the range are exactly the pages of its bytes.\<close>

lemma range_pages:
  assumes n: "0 < n" and e: "p + n \<le> 2 ^ 64"
    and acc: "\<And>v w. unat v div 4096 = unat w div 4096 \<Longrightarrow> Q v = Q w"
  shows "(\<forall>j\<in>{p div 4096..(p + n - 1) div 4096}. Q (of_nat j * SCDK_PAGE_SIZE)) \<longleftrightarrow> (\<forall>a\<in>{p..<p + n}. Q (of_nat a :: u64))"
proof -
  have q: "Q (of_nat (a div 4096) * SCDK_PAGE_SIZE) = Q (of_nat a :: u64)" if "a < p + n" for a
  proof (rule acc)
    have "a < 2 ^ 64" using that e by simp
    then have u: "unat (of_nat a :: u64) = a" by (simp add: unsigned_of_nat take_bit_nat_eq_self)
    have "4096 * (a div 4096) < 2 ^ 64" using \<open>a < 2 ^ 64\<close> by (meson le_less_trans times_div_less_eq_dividend)
    then have "unat (of_nat (4096 * (a div 4096)) :: u64) = 4096 * (a div 4096)"
      by (simp only: unsigned_of_nat) (simp add: take_bit_nat_eq_self)
    moreover have "(of_nat (4096 * (a div 4096)) :: u64) = of_nat (a div 4096) * SCDK_PAGE_SIZE" by (simp add: kconst mult.commute)
    ultimately have "unat (of_nat (a div 4096) * SCDK_PAGE_SIZE :: u64) = 4096 * (a div 4096)" by (simp only:)
    with u show "unat (of_nat (a div 4096) * SCDK_PAGE_SIZE :: u64) div 4096 = unat (of_nat a :: u64) div 4096" by simp
  qed
  show ?thesis
  proof (intro iffI ballI)
    fix a assume h: "\<forall>j\<in>{p div 4096..(p + n - 1) div 4096}. Q (of_nat j * SCDK_PAGE_SIZE)" and a: "a \<in> {p..<p + n}"
    then have "a div 4096 \<in> {p div 4096..(p + n - 1) div 4096}" by (auto intro!: div_le_mono)
    with h have "Q (of_nat (a div 4096) * SCDK_PAGE_SIZE)" by blast
    with a q [of a] show "Q (of_nat a)" by simp
  next
    fix j assume h: "\<forall>a\<in>{p..<p + n}. Q (of_nat a)" and j: "j \<in> {p div 4096..(p + n - 1) div 4096}"
    define a where "a = max p (4096 * j)"
    have "4096 * j \<le> p + n - 1" using j by (simp add: less_eq_div_iff_mult_less_eq mult.commute)
    then have a: "a \<in> {p..<p + n}" using n by (auto simp: a_def)
    moreover have "a div 4096 = j"
    proof (cases "p \<le> 4096 * j")
      case False
      then have "p div 4096 = j" using j div_le_mono [of "4096 * j" p 4096] by simp
      with False show ?thesis by (simp add: a_def max_def)
    qed (simp add: a_def max_def)
    ultimately show "Q (of_nat j * SCDK_PAGE_SIZE)" using h q [of a] by auto
  qed
qed

lemma checked_user_end_Some:
  "checked_user_end p n = Some e \<longleftrightarrow> n \<noteq> 0 \<and> unat SCDK_USER_VIRT_BASE \<le> unat p \<and> unat p + unat n \<le> unat SCDK_USER_VIRT_TOP \<and>
     unat e = unat p + unat n - 1"
proof (cases "n = 0 \<or> p = 0")
  case False
  have n1: "unat (n - 1) = unat n - 1" "0 < unat n" using False by (simp_all add: unat_minus_one unat_gt_0)
  have "unat (- 1 - (n - 1)) = 2 ^ 64 - 1 - (unat n - 1)"
    using n1 by (subst unat_sub) (simp_all add: unsigned_minus_1_eq_mask mask_eq_exp_minus_1)
  then have w: "p > - 1 - (n - 1) \<longleftrightarrow> 2 ^ 64 < unat p + unat n"
    using n1 unat_u64_less [of n] by (auto simp: word_less_nat_alt)
  show ?thesis
  proof (cases "2 ^ 64 < unat p + unat n")
    case True
    then have "checked_user_end p n = None" using w by (simp add: checked_user_end_def)
    moreover have "\<not> unat p + unat n \<le> unat SCDK_USER_VIRT_TOP" using True by (simp add: kconst)
    ultimately show ?thesis by simp
  next
    case nw: False
    have "p + n - 1 = p + (n - 1)" by simp
    moreover have "unat (p + (n - 1)) = unat p + unat n - 1"
      using n1 nw by (simp add: unat_word_ariths)
    ultimately have l: "unat (p + n - 1) = unat p + unat n - 1" by (simp only:)
    have "p + n - 1 = e \<longleftrightarrow> unat e = unat p + unat n - 1" using l by (metis word_unat_eq_iff)
    moreover have "p + n - 1 \<ge> SCDK_USER_VIRT_TOP \<longleftrightarrow> \<not> unat p + unat n \<le> unat SCDK_USER_VIRT_TOP"
      using l n1(2) by (auto simp: word_le_nat_alt)
    moreover have "p < SCDK_USER_VIRT_BASE \<longleftrightarrow> \<not> unat SCDK_USER_VIRT_BASE \<le> unat p" by (auto simp: word_less_nat_alt)
    ultimately show ?thesis using False w nw unfolding checked_user_end_def Let_def by auto
  qed
qed (auto simp: checked_user_end_def kconst)

lemma validate_range_OK:
  "scdk_user_validate_range s p n wr = SCDK_OK \<longleftrightarrow>
     n \<noteq> 0 \<and> unat SCDK_USER_VIRT_BASE \<le> unat p \<and> unat p + unat n \<le> unat SCDK_USER_VIRT_TOP \<and>
     (\<forall>a\<in>{unat p..<unat p + unat n}. user_access s wr (of_nat a))"
proof (cases "checked_user_end p n")
  case None
  define e :: u64 where "e = of_nat (unat p + unat n - 1)"
  have "\<not> (n \<noteq> 0 \<and> unat SCDK_USER_VIRT_BASE \<le> unat p \<and> unat p + unat n \<le> unat SCDK_USER_VIRT_TOP)"
  proof
    assume h: "n \<noteq> 0 \<and> unat SCDK_USER_VIRT_BASE \<le> unat p \<and> unat p + unat n \<le> unat SCDK_USER_VIRT_TOP"
    have "unat p + unat n - 1 < 2 ^ 64" using conjunct2 [OF conjunct2 [OF h]] by (simp add: kconst)
    then have "unat e = unat p + unat n - 1" unfolding e_def by (simp add: unsigned_of_nat take_bit_nat_eq_self)
    with h None checked_user_end_Some [of p n e] show False by simp
  qed
  with None show ?thesis by (auto simp: scdk_user_validate_range_def)
next
  case (Some e)
  then have h: "n \<noteq> 0" "unat SCDK_USER_VIRT_BASE \<le> unat p" "unat p + unat n \<le> unat SCDK_USER_VIRT_TOP"
    "unat e = unat p + unat n - 1" by (simp_all add: checked_user_end_Some)
  have "0 < unat n" using h(1) by (simp add: unat_gt_0)
  moreover have "unat p + unat n \<le> 2 ^ 64" using h(3) by (simp add: kconst)
  moreover have "unat p div 4096 \<le> (unat p + unat n - 1) div 4096" using \<open>0 < unat n\<close> by (intro div_le_mono) simp
  ultimately have "scdk_user_validate_range s p n wr = SCDK_OK \<longleftrightarrow> (\<forall>a\<in>{unat p..<unat p + unat n}. user_access s wr (of_nat a))"
    unfolding scdk_user_validate_range_def Some option.case h(4)
    by (simp only: validate_pages_OK) (rule range_pages [OF _ _ user_access_page])
  then show ?thesis using h(1-3) by blast
qed

section \<open>Messages across the border\<close>

lemma le_word_from: "le_word (map (get_byte w) [k..<k + n]) = take_bit (8 * n) (drop_bit (8 * k) w)"
proof (induction n arbitrary: k)
  case (Suc n)
  have "[k..<k + Suc n] = k # [Suc k..<Suc k + n]" by (simp add: upt_rec)
  then have "le_word (map (get_byte w) [k..<k + Suc n]) =
      ucast (get_byte w k) OR push_bit 8 (take_bit (8 * n) (drop_bit (8 * Suc k) w))"
    using Suc.IH [of "Suc k"] by simp
  also have "\<dots> = take_bit (8 * Suc n) (drop_bit (8 * k) w)"
  proof (rule bit_word_eqI)
    fix i assume "i < LENGTH(64)"
    then show "bit (ucast (get_byte w k) OR push_bit 8 (take_bit (8 * n) (drop_bit (8 * Suc k) w))) i =
        bit (take_bit (8 * Suc n) (drop_bit (8 * k) w)) i"
      by (cases "i < 8") (auto simp: get_byte_def bit_simps)
  qed
  finally show ?case .
qed simp

lemma le_word_bytes: "le_word (le_bytes w) = w"
  using le_word_from [of w 0 8] by (simp add: le_bytes_def take_bit_word_eq_self)

lemma le_bytes_length [simp]: "length (le_bytes w) = 8" by (simp add: le_bytes_def)

lemma le_words_Cons:
  "le_words (le_bytes w @ bs) 0 = w" "le_words (le_bytes w @ bs) (Suc i) = le_words bs i"
  by (simp_all add: le_words_def le_word_bytes)

lemma message_roundtrip: "message_of_bytes (message_bytes m) = m" "length (message_bytes m) = 64"
  by (simp_all add: message_of_bytes_def message_bytes_def le_words_Cons le_words_Cons(1) [where bs = "[]", simplified] numeral_eq_Suc)


section \<open>What a handler gets to see\<close>

lemma load_bytes_length [simp]: "length (load_bytes s va n) = n"
  by (induction s va n rule: load_bytes.induct) simp_all

lemma copy_from_Inr:
  "scdk_user_copy_from s p n = Inr bs \<longleftrightarrow>
     scdk_user_validate_range s p n False = SCDK_OK \<and> bs = load_bytes s p (unat n)"
  by (auto simp: scdk_user_copy_from_def Let_def validate_range_OK)

definition payload_message :: "u64 \<Rightarrow> bool" where
  "payload_message ty \<longleftrightarrow> ty \<in> {SCDK_MSG_WRITE, SCDK_MSG_OPEN, SCDK_MSG_PROCESS_SPAWN, SCDK_MSG_STAT, SCDK_MSG_LISTDIR}"

definition user_message_type :: "u64 \<Rightarrow> bool" where
  "user_message_type ty \<longleftrightarrow> payload_message ty \<or>
     ty \<in> {SCDK_MSG_READ, SCDK_MSG_CONSOLE_WRITE, SCDK_MSG_CONSOLE_CLEAR, SCDK_MSG_CONSOLE_GET_INFO, SCDK_MSG_CONSOLE_SCROLL,
           SCDK_MSG_TTY_POLL_EVENT, SCDK_MSG_TTY_GET_INFO, SCDK_MSG_CLOSE, SCDK_MSG_SERVICE_LOOKUP}"

text \<open>
  What the system call checks of the user's message \<open>m0\<close> before it enters a handler with the
  message \<open>m\<close> in the state \<open>t\<close>: the type is one of the fourteen that user code may send; a
  payload is in kernel memory, bounded and terminated, with the bytes user code could
  read; the result buffer of a directory listing, and that of a read addressed to the
  file-system router, is writable for user code. The remaining fields are passed on as they are: the
  sender, the plain arguments, and also the buffer of a read addressed to another service.
\<close>

definition message_prepared :: "'a user_state_scheme \<Rightarrow> u64 \<Rightarrow> scdk_message \<Rightarrow> scdk_message \<Rightarrow> 'a user_state_scheme \<Rightarrow> bool" where
  "message_prepared s buf m0 m t \<longleftrightarrow> user_message_type (mtype m0) \<and>
     (if payload_message (mtype m0)
      then m = m0\<lparr>arg0 := buf\<rparr> \<and> 0 < arg1 m0 \<and> arg1 m0 \<le> SCDK_USER_IPC_MAX_WRITE \<and>
        scdk_user_validate_range s (arg0 m0) (arg1 m0) False = SCDK_OK \<and>
        t = kmem_write s buf (load_bytes s (arg0 m0) (unat (arg1 m0)) @ [0])
      else m = m0 \<and> t = s) \<and>
     (mtype m0 = SCDK_MSG_LISTDIR \<or> mtype m0 = SCDK_MSG_READ \<and> target m0 = SCDK_SERVICE_VFS \<longrightarrow>
        scdk_user_validate_range s (arg2 m0) (arg3 m0) True = SCDK_OK)"

definition handler_sees :: "'a user_state_scheme \<Rightarrow> u64 \<Rightarrow> u64 \<Rightarrow> u64 \<Rightarrow> scdk_message \<Rightarrow> 'a user_state_scheme \<Rightarrow> bool" where
  "handler_sees s buf cap ptr m t \<longleftrightarrow>
     (\<exists>e m0. scdk_cap_check s cap SCDK_RIGHT_SEND SCDK_OBJ_ENDPOINT = Inr e \<and>
        scdk_user_validate_range s ptr message_size False = SCDK_OK \<and> m0 = message_of_bytes (load_bytes s ptr 64) \<and>
        scdk_service_lookup s (target m0) = Inr cap \<and> target m = ce_object_id e \<and>
        message_prepared s buf m0 (m\<lparr>target := target m0\<rparr>) t)"

lemma user_upd [simp]:
  "scdk_object_lookup (s\<lparr>kmem := x\<rparr>) = scdk_object_lookup s"
  "scdk_cap_check (s\<lparr>kmem := x\<rparr>) = scdk_cap_check s"
  by (rule frame_rules; simp)+

lemma validate_pages_cong: "mm t = mm s \<Longrightarrow> validate_pages t wr i k = validate_pages s wr i k"
proof (induction "k - i" arbitrary: i)
  case 0
  then show ?case by (subst (1 2) validate_pages.simps) (simp split: sum.split)
next
  case (Suc n)
  then have "validate_pages t wr (Suc i) k = validate_pages s wr (Suc i) k" by simp
  with Suc.prems show ?case by (subst (1 2) validate_pages.simps) (simp split: sum.split)
qed

lemma validate_range_cong:
  assumes "mm t = mm s"
  shows "scdk_user_validate_range t = scdk_user_validate_range s"
  by (simp add: fun_eq_iff scdk_user_validate_range_def validate_pages_cong [OF assms] split: option.split)

lemma kmem_write_mm [simp]: "mm (kmem_write s a bs) = mm s"
  by (simp add: kmem_write_def)

lemma sys_args_prepared:
  assumes "sys_message_args s buf m0 = (None, m, t)"
  shows "message_prepared s buf m0 m t"
proof (cases "payload_message (mtype m0)")
  case True
  obtain r s1 where p: "prepare_user_buffer_arg s m0 buf (SCDK_USER_IPC_MAX_WRITE + 1) = (r, s1)" by fastforce
  with assms True have r: "r = Inr m" "t = s1"
    by (auto simp: sys_message_args_def payload_message_def Let_def split: sum.splits if_splits)
  then have "m = m0\<lparr>arg0 := buf\<rparr> \<and> 0 < arg1 m0 \<and> arg1 m0 \<le> SCDK_USER_IPC_MAX_WRITE \<and>
        scdk_user_validate_range s (arg0 m0) (arg1 m0) False = SCDK_OK \<and>
        t = kmem_write s buf (load_bytes s (arg0 m0) (unat (arg1 m0)) @ [0])"
    using p by (auto simp: prepare_user_buffer_arg_def copy_from_Inr word_neq_0_conv not_less split: if_splits sum.splits)
  moreover from this have "scdk_user_validate_range s (arg2 m0) (arg3 m0) True = SCDK_OK" if "mtype m0 = SCDK_MSG_LISTDIR"
    using assms p r True that validate_range_cong [of t s]
    by (auto simp: sys_message_args_def payload_message_def Let_def split: if_splits)
  moreover have "mtype m0 \<noteq> SCDK_MSG_READ" using True by (auto simp: payload_message_def kconst)
  ultimately show ?thesis using True by (simp add: message_prepared_def user_message_type_def)
next
  case False
  then show ?thesis using assms
    by (auto simp: sys_message_args_def message_prepared_def user_message_type_def payload_message_def Let_def split: if_splits)
qed

lemma prepared_frame:
  assumes "message_prepared s buf m0 m t"
  shows "scdk_cap_check t = scdk_cap_check s" "target m = target m0"
proof -
  have "t = s \<or> t = kmem_write s buf (load_bytes s (arg0 m0) (unat (arg1 m0)) @ [0])" "m = m0 \<or> m = m0\<lparr>arg0 := buf\<rparr>"
    using assms unfolding message_prepared_def by presburger+
  then show "scdk_cap_check t = scdk_cap_check s" "target m = target m0" by (auto simp: kmem_write_def)
qed

lemma endpoint_call_agree:
  assumes "\<And>h c e. scdk_cap_check s cap SCDK_RIGHT_SEND SCDK_OBJ_ENDPOINT = Inr e \<Longrightarrow>
    run h cap (m\<lparr>target := ce_object_id e\<rparr>) c s = run' h cap (m\<lparr>target := ce_object_id e\<rparr>) c s"
  shows "scdk_endpoint_call run s cap m = scdk_endpoint_call run' s cap m"
  using assms by (auto simp: scdk_endpoint_call_def split: sum.split option.split)

lemma target_OK:
  "validate_user_message_target s cap m = SCDK_OK \<longleftrightarrow> scdk_service_lookup s (target m) = Inr cap"
  by (auto simp: validate_user_message_target_def scdk_service_lookup_def split: if_splits option.splits)

text \<open>
  (C4) What the endpoint-call system call checks before a handler runs (\<open>handler_sees\<close>): the
  capability is a live SEND capability of an endpoint, the message lies in readable
  user memory, its target names the service registered for exactly this capability, its type is
  one user code may send, a payload has been copied to the kernel, bounded and
  terminated, and the result buffer of a directory listing or of a read addressed to the
  file-system router is writable for user code. Two systems whose handlers agree on messages of this
  form behave alike on every call a user program can make, so no handler is entered
  with another one. The sender field, the plain arguments and the
  buffer of a read addressed to another service than the router are not checked.
\<close>

theorem endpoint_call_mediated:
  assumes "\<forall>h c m t. handler_sees s buf cap ptr m t \<longrightarrow> run h cap m c t = run' h cap m c t"
  shows "scdk_sys_endpoint_call run buf s cap ptr = scdk_sys_endpoint_call run' buf s cap ptr"
proof (cases "scdk_cap_check s cap SCDK_RIGHT_SEND SCDK_OBJ_ENDPOINT")
  case (Inl e)
  then show ?thesis by (simp add: scdk_sys_endpoint_call_def)
next
  case c: (Inr e)
  show ?thesis
  proof (cases "scdk_user_copy_from s ptr message_size")
    case (Inl st)
    then show ?thesis by (simp add: scdk_sys_endpoint_call_def c)
  next
    case cp: (Inr bs)
    define m0 where "m0 = message_of_bytes bs"
    obtain r m t where a: "sys_message_args s buf m0 = (r, m, t)" by (cases "sys_message_args s buf m0") auto
    have "scdk_endpoint_call run t cap m = scdk_endpoint_call run' t cap m"
      if "r = None" "scdk_service_lookup s (target m0) = Inr cap"
    proof -
      have p: "message_prepared s buf m0 m t" using sys_args_prepared a that(1) by simp
      note k = prepared_frame [OF p]
      have "m\<lparr>target := ce_object_id e\<rparr>\<lparr>target := target m0\<rparr> = m" using k(2) by simp
      moreover have "scdk_user_validate_range s ptr message_size False = SCDK_OK" "m0 = message_of_bytes (load_bytes s ptr 64)"
        using cp by (simp_all add: copy_from_Inr m0_def message_size_def)
      ultimately have "handler_sees s buf cap ptr (m\<lparr>target := ce_object_id e\<rparr>) t"
        unfolding handler_sees_def using c that(2) p by (intro exI [of _ e] exI [of _ m0]) simp
      then have "run h cap (m\<lparr>target := ce_object_id e\<rparr>) ctx t = run' h cap (m\<lparr>target := ce_object_id e\<rparr>) ctx t" for h ctx
        using assms by blast
      then show ?thesis by (intro endpoint_call_agree) (simp add: k(1) c)
    qed
    then show ?thesis
      by (cases r) (auto simp: scdk_sys_endpoint_call_def c cp Let_def m0_def [symmetric] a target_OK)
  qed
qed

section \<open>A concrete system\<close>

text \<open>
  One task and one registered service, and a page of user memory at \<^verbatim>\<open>0x400000\<close>, mapped
  writable to the frame \<^verbatim>\<open>0x5000\<close>.
\<close>

definition user_demo_mm :: heap_state where
  "user_demo_mm = \<lparr>page_stack = (\<lambda>_. 0), free_pages = 0, managed_pages = 0, allocated_pages = 0, usable_regions = [],
     reserved_regions = [], pmm_initialized = True,
     phys_mem = (\<lambda>_. 0)(0x1000 := 0x2007, 0x2000 := 0x3007, 0x3010 := 0x4007, 0x4000 := 0x5007, 0x5000 := 0x6f6c6c6568),
     cr3_register = 0x1000, active_cr3_phys = 0x1000, active_hhdm_offset = 0, vmm_initialized = True,
     heap_head = 0, heap_tail = 0, heap_commit_end = 0, heap_initialized = False, heap_mem = (\<lambda>_. 0)\<rparr>"

definition user_boot :: user_state where
  "user_boot = task_state.extend (sched_state.extend (aspace_state.extend (grant_state.extend grant_boot \<lparr>mm = user_demo_mm\<rparr>)
     \<lparr>task_table = (\<lambda>_. \<lparr>tk_object_id = 0, tk_cap = 0, tk_owner_core = 0, tk_address_space = 0, tk_main_thread = 0\<rparr>),
      thread_table = (\<lambda>_. demo_thread 0 SCDK_THREAD_NONE),
      run_queues = (\<lambda>_. \<lparr>rq_entries = (\<lambda>_. 0), rq_head = 0, rq_tail = 0, rq_count = 0\<rparr>),
      current_thread_slot = None, scheduler_driver_slot = None, current_task = 0, current_thread = 0,
      scheduler_initialized = False, cpu = demo_regs 0, trampoline_addr = 0\<rparr>)
     \<lparr>user_tasks = (\<lambda>i. \<lparr>ut_in_use = False, ut_task_cap = 0, ut_task_id = 0, ut_address_space_cap = 0, ut_address_space_id = 0,
        ut_main_thread_cap = 0, ut_capability_table_placeholder = 0, ut_owner_core = 0, ut_state = SCDK_TASK_NONE, ut_exit_status = 0\<rparr>),
      user_threads = (\<lambda>i. \<lparr>uth_in_use = False, uth_thread_cap = 0, uth_thread_id = 0, uth_task_id = 0,
        uth_user_stack_top = 0, uth_instruction_pointer = 0, uth_owner_core = 0, uth_state = SCDK_THREAD_NONE\<rparr>),
      current_user_task = 0\<rparr>)
     \<lparr>kmem = (\<lambda>_. 0), scdk_syscall_kernel_stack_top = 0, scdk_syscall_user_rsp = 0, scdk_syscall_user_rip = 0,
      scdk_syscall_user_rflags = 0, scdk_syscall_arg0 = 0, scdk_syscall_arg1 = 0, scdk_syscall_arg2 = 0, scdk_syscall_arg3 = 0,
      scdk_syscall_return_value = 0, scdk_user_return_rsp = 0, scdk_user_return_rip = 0, user_exited = False,
      endpoint_call_passed = False, user_faulted = False, user_fault_status = SCDK_OK, syscall_initialized = True,
      saw_user_page_fault = False, saw_invalid_syscall = False, saw_bad_user_pointer = False\<rparr>"

definition user_demo :: user_state where
  "user_demo = snd (scdk_service_register (snd (scdk_cap_create
     (snd (scdk_object_create (snd (scdk_endpoint_create user_boot 0 (Some HConsole) 0)) SCDK_OBJ_TASK 0 0 (PTask 0)))
     0x100000001 (SCDK_RIGHT_READ OR SCDK_RIGHT_WRITE OR SCDK_RIGHT_BIND))) SCDK_SERVICE_CONSOLE 0x100000000)"

lemma null_tables_inv:
  fixes s :: "'a grant_state_scheme"
  assumes e: "object_table s = (\<lambda>i. null_object)" "object_generations s = (\<lambda>i. 0)" "cap_table s = (\<lambda>i. null_cap_entry)"
    "cap_generations s = (\<lambda>i. 0)" "endpoint_table s = (\<lambda>i. null_endpoint)" "service_table s = (\<lambda>i. null_service_slot)"
    "ring_table s = (\<lambda>i. null_ring_slot)" "grant_table s = (\<lambda>i. null_grant_slot)" "user_grants s = (\<lambda>i. null_user_grant)"
  shows "kern_inv s" "grant_inv s" "ep_inv s" "ring_inv s"
proof -
  have n: "scdk_object_lookup s x \<noteq> Inr ob" for x ob
    by (simp add: scdk_object_lookup_def Let_def e null_object_def)
  have o: "obj_inv s" unfolding obj_inv_def e by (simp add: null_object_def)
  moreover have "objs_ok s" unfolding objs_ok_def using n by blast
  moreover have "cap_inv s" unfolding cap_inv_def cap_live_def e using o by (simp add: null_cap_entry_def)
  ultimately show "kern_inv s" by (simp add: kern_inv_def)
  show "grant_inv s" unfolding grant_inv_def slot_bound_def comp_def e by (simp add: null_grant_slot_def null_user_grant_def)
  show "ep_inv s" unfolding ep_inv_def slot_bound_def comp_def e by (simp add: null_endpoint_def null_service_slot_def SCDK_SERVICE_NONE_def)
  show "ring_inv s" unfolding ring_inv_def slot_bound_def comp_def e by (simp add: null_ring_slot_def)
qed

lemma user_boot_tables:
  "object_table user_boot = (\<lambda>i. null_object)" "object_generations user_boot = (\<lambda>i. 0)" "cap_table user_boot = (\<lambda>i. null_cap_entry)"
  "cap_generations user_boot = (\<lambda>i. 0)" "endpoint_table user_boot = (\<lambda>i. null_endpoint)" "service_table user_boot = (\<lambda>i. null_service_slot)"
  "ring_table user_boot = (\<lambda>i. null_ring_slot)" "grant_table user_boot = (\<lambda>i. null_grant_slot)" "user_grants user_boot = (\<lambda>i. null_user_grant)"
  by (simp_all add: user_boot_def grant_boot_def grant_state.defs aspace_state.defs sched_state.defs task_state.defs)

lemmas user_boot_inv = null_tables_inv [OF user_boot_tables]

lemma one_page_OK:
  assumes "user_access s wr p" "n \<noteq> 0" "unat SCDK_USER_VIRT_BASE \<le> unat p" "unat p mod 4096 + unat n \<le> 4096" "unat p + unat n \<le> unat SCDK_USER_VIRT_TOP"
  shows "scdk_user_validate_range s p n wr = SCDK_OK"
proof -
  have "user_access s wr (of_nat a)" if "a \<in> span p n" for a
  proof -
    have "unat (of_nat a :: u64) = a" using that unat_u64_less [of p] assms(5) by (simp add: kconst unsigned_of_nat take_bit_nat_eq_self)
    moreover have "a div 4096 = unat p div 4096"
    proof -
      have "a = 4096 * (unat p div 4096) + (unat p mod 4096 + (a - unat p))" using that by simp
      moreover have "a - unat p < unat n" using that by auto
      then have "unat p mod 4096 + (a - unat p) < 4096" using assms(4) by linarith
      ultimately have "a div 4096 = (4096 * (unat p div 4096) + (unat p mod 4096 + (a - unat p))) div 4096" "(unat p mod 4096 + (a - unat p)) div 4096 = 0"
        by simp_all
      then show ?thesis by (simp only: div_mult_self4 zero_neq_numeral not_False_eq_True add_0_right)
    qed
    ultimately show ?thesis using user_access_page [of "of_nat a" p s wr] assms(1) by simp
  qed
  then show ?thesis using assms unfolding validate_range_OK by blast
qed

lemma user_demo_facts:
  "scdk_service_lookup user_demo SCDK_SERVICE_CONSOLE = Inr 0x100000000"
  "user_access user_demo True 0x400000"
  "res_status (scdk_cap_check user_demo 0x100000000 SCDK_RIGHT_SEND SCDK_OBJ_ENDPOINT) = SCDK_OK"
  "res_status (scdk_cap_check user_demo 0x100000001 SCDK_RIGHT_READ SCDK_OBJ_TASK) = SCDK_OK"
  by code_simp+

lemma user_demo_page: "scdk_user_validate_range user_demo 0x400000 64 wr = SCDK_OK"
  by (rule one_page_OK) (use user_demo_facts(2) in \<open>auto simp: kconst user_access_def split: sum.splits\<close>)

lemma bind_slot_grants:
  assumes "bind_slot s ty core pay fill undo rights = (r, s')"
    and "\<And>oid s. user_grants (fill oid s) = user_grants s \<and> grant_table (fill oid s) = grant_table s"
    and "\<And>s. user_grants (undo s) = user_grants s \<and> grant_table (undo s) = grant_table s"
  shows "user_grants s' = user_grants s \<and> grant_table s' = grant_table s"
  using assms(1) by (cases rule: bind_slot_cases) (use assms(2,3) in \<open>auto dest!: grant_low_frame\<close>)

lemma service_register_grants:
  "scdk_service_register s sid ep = (r, s') \<Longrightarrow> user_grants s' = user_grants s \<and> grant_table s' = grant_table s"
  by (erule service_register_cases) simp_all

lemma user_demo_inv: "kern_inv user_demo" "grant_inv user_demo" "user_grants user_demo = (\<lambda>_. null_user_grant)" "grant_table user_demo = (\<lambda>_. null_grant_slot)"
proof -
  obtain r1 s1 where c1: "scdk_endpoint_create user_boot 0 (Some HConsole) 0 = (r1, s1)" by fastforce
  obtain r2 s2 where c2: "scdk_object_create s1 SCDK_OBJ_TASK 0 0 (PTask 0) = (r2, s2)" by fastforce
  obtain r3 s3 where c3: "scdk_cap_create s2 0x100000001 (SCDK_RIGHT_READ OR SCDK_RIGHT_WRITE OR SCDK_RIGHT_BIND) = (r3, s3)" by fastforce
  obtain r4 where c4: "scdk_service_register s3 SCDK_SERVICE_CONSOLE 0x100000000 = (r4, user_demo)"
    by (metis user_demo_def c1 c2 c3 prod.collapse snd_conv)
  have k: "khist user_boot user_demo"
    by (rule khist_then [OF kh_create [OF kh_object [OF endpoint_create_khist [OF c1] c2] c3] service_register_khist [OF c4]])
      (simp add: kconst)
  have g1: "user_grants s1 = user_grants user_boot \<and> grant_table s1 = grant_table user_boot"
    using c1 by (cases rule: endpoint_create_cases) (auto elim!: bind_slot_grants)
  have g: "user_grants user_demo = user_grants user_boot \<and> grant_table user_demo = grant_table user_boot"
    using service_register_grants [OF c4] g1 grant_low_frame(1) [OF c2] grant_low_frame(2) [OF c3] by simp
  with user_boot_tables show "user_grants user_demo = (\<lambda>_. null_user_grant)" "grant_table user_demo = (\<lambda>_. null_grant_slot)" by simp_all
  show "kern_inv user_demo" by (rule khist_inv [OF k user_boot_inv(1)])
  show "grant_inv user_demo" by (rule grant_inv_khist [OF k user_boot_inv(1,2)]) (use g in simp_all)
qed

text \<open>
  A program that writes: its page holds a message to the console, and the text \<^verbatim>\<open>hello\<close>
  behind it.
\<close>

definition user_call_demo :: user_state where
  "user_call_demo = user_demo\<lparr>mm := user_demo_mm\<lparr>phys_mem := (phys_mem user_demo_mm)
     (0x5000 := 0, 0x5008 := SCDK_SERVICE_CONSOLE, 0x5010 := SCDK_MSG_WRITE, 0x5018 := 0x400040, 0x5020 := 5,
      0x5040 := 0x6f6c6c6568)\<rparr>\<rparr>"

lemma page_load:
  assumes "scdk_vmm_virt_to_phys (mm s) w = Inr (pa, fl)" and "w AND 0xfff = 0" and "unat v div 4096 = unat w div 4096"
  shows "load_byte s v = phys_byte (mm s) (pa OR (v AND 0xfff))"
proof -
  obtain e where "leaf_entry (mm s) (active_cr3_phys (mm s)) (full_path w) = Inr e" "pa = e AND X86_PTE_ADDR"
      "validate_root (mm s) (active_cr3_phys (mm s)) = SCDK_OK" "validate_vmm_address (mm s) (w AND NOT (SCDK_PAGE_SIZE - 1)) = SCDK_OK"
    using assms(1,2) by (auto simp: scdk_vmm_virt_to_phys_def virt_to_phys_leaf SCDK_PAGE_SIZE_def split: sum.splits if_splits)
  then show ?thesis
    using same_page [OF assms(3)] by (simp add: load_byte_def scdk_vmm_virt_to_phys_def virt_to_phys_leaf SCDK_PAGE_SIZE_def)
qed

lemma load_bytes_numeral: "load_bytes s va (numeral k) = load_byte s va # load_bytes s (va + 1) (pred_numeral k)"
  by (simp add: numeral_eq_Suc)

lemma call_demo_page: "scdk_vmm_virt_to_phys (mm user_call_demo) 0x400000 = Inr (0x5000, 3)" by code_simp

lemma call_demo_byte:
  "unat v div 4096 = 1024 \<Longrightarrow> load_byte user_call_demo v = phys_byte (mm user_call_demo) (0x5000 OR (v AND 0xfff))"
  by (rule page_load [OF call_demo_page]) simp_all

lemma call_demo_mem:
  "phys_mem (mm user_call_demo) = (\<lambda>_. 0)(0x1000 := 0x2007, 0x2000 := 0x3007, 0x3010 := 0x4007, 0x4000 := 0x5007, 0x5000 := 0,
     0x5008 := 1, 0x5010 := 4, 0x5018 := 0x400040, 0x5020 := 5, 0x5040 := 0x6f6c6c6568)"
  by (simp add: user_call_demo_def user_demo_mm_def kconst)

lemma call_demo_facts:
  "load_bytes user_call_demo 0x400000 64 =
     message_bytes \<lparr>sender = 0, target = SCDK_SERVICE_CONSOLE, mtype = SCDK_MSG_WRITE, arg0 = 0x400040, arg1 = 5, arg2 = 0, arg3 = 0, mstatus = 0\<rparr>"
  "load_bytes user_call_demo 0x400040 5 = [0x68, 0x65, 0x6c, 0x6c, 0x6f]"
  by (simp_all add: load_bytes_numeral call_demo_byte phys_byte_def call_demo_mem get_byte_def upt_rec message_bytes_def le_bytes_def kconst)

lemma call_demo_cap:
  "scdk_service_lookup user_call_demo SCDK_SERVICE_CONSOLE = Inr 0x100000000"
  "res_status (scdk_cap_check user_call_demo 0x100000000 SCDK_RIGHT_SEND SCDK_OBJ_ENDPOINT) = SCDK_OK"
  "user_access user_call_demo True 0x400000"
  by code_simp+

lemma call_demo_valid:
  "scdk_user_validate_range user_call_demo 0x400000 64 wr = SCDK_OK" "scdk_user_validate_range user_call_demo 0x400040 5 False = SCDK_OK"
proof -
  have u: "user_access user_call_demo wr 0x400000" for wr
    using call_demo_cap(3) by (cases wr) (auto simp: user_access_def split: sum.splits)
  show "scdk_user_validate_range user_call_demo 0x400000 64 wr = SCDK_OK"
    by (rule one_page_OK) (use u in \<open>simp_all add: kconst\<close>)
  show "scdk_user_validate_range user_call_demo 0x400040 5 False = SCDK_OK"
    by (rule one_page_OK) (use u [of False] user_access_page [of "0x400040" "0x400000" user_call_demo False] in \<open>simp_all add: kconst\<close>)
qed

definition call_demo_entered :: user_state where
  "call_demo_entered = kmem_write user_call_demo 0xffff800000001000 [0x68, 0x65, 0x6c, 0x6c, 0x6f, 0]"

lemma call_demo_args:
  "sys_message_args user_call_demo 0xffff800000001000
     \<lparr>sender = 0, target = SCDK_SERVICE_CONSOLE, mtype = SCDK_MSG_WRITE, arg0 = 0x400040, arg1 = 5, arg2 = 0, arg3 = 0, mstatus = 0\<rparr> =
   (None, \<lparr>sender = 0, target = SCDK_SERVICE_CONSOLE, mtype = SCDK_MSG_WRITE, arg0 = 0xffff800000001000, arg1 = 5, arg2 = 0, arg3 = 0, mstatus = 0\<rparr>,
    call_demo_entered)"
proof -
  have "scdk_user_copy_from user_call_demo 0x400040 5 = Inr [0x68, 0x65, 0x6c, 0x6c, 0x6f]"
    by (simp add: copy_from_Inr call_demo_valid(2) call_demo_facts(2))
  then show ?thesis by (simp add: sys_message_args_def prepare_user_buffer_arg_def call_demo_entered_def kconst)
qed

text \<open>The call of \<open>user_call_demo\<close> enters the console's handler with the copied payload.\<close>

lemma call_demo_enters:
  assumes r: "\<And>tgt. run HConsole 0x100000000
       \<lparr>sender = 0, target = tgt, mtype = SCDK_MSG_WRITE, arg0 = 0xffff800000001000, arg1 = 5, arg2 = 0, arg3 = 0, mstatus = 0\<rparr> 0
       call_demo_entered = (st, reply tgt, call_demo_entered)"
  shows "fst (scdk_sys_endpoint_call run 0xffff800000001000 user_call_demo 0x100000000 0x400000) = st"
proof -
  obtain e where e: "scdk_cap_check user_call_demo 0x100000000 SCDK_RIGHT_SEND SCDK_OBJ_ENDPOINT = Inr e"
    using call_demo_cap(2) cap_check_Inl_OK by (metis res_status.simps(1) sum.exhaust)
  have "case scdk_cap_check user_call_demo 0x100000000 SCDK_RIGHT_SEND SCDK_OBJ_ENDPOINT of Inl _ \<Rightarrow> False
     | Inr e \<Rightarrow> case scdk_object_lookup user_call_demo (ce_object_id e) of Inl _ \<Rightarrow> False
       | Inr ob \<Rightarrow> endpoint_of user_call_demo (obj_payload ob) (ce_object_id e) = Some (HConsole, 0)" by code_simp
  then obtain ob where ob: "scdk_object_lookup user_call_demo (ce_object_id e) = Inr ob"
    "endpoint_of user_call_demo (obj_payload ob) (ce_object_id e) = Some (HConsole, 0)"
    unfolding e by (auto split: sum.splits)
  have k: "scdk_cap_check call_demo_entered = scdk_cap_check user_call_demo" "scdk_object_lookup call_demo_entered = scdk_object_lookup user_call_demo"
    "endpoint_of call_demo_entered = endpoint_of user_call_demo" "mm call_demo_entered = mm user_call_demo"
    by (simp_all add: call_demo_entered_def kmem_write_def endpoint_of_def fun_eq_iff split: payload.split)
  have v: "scdk_user_validate_range call_demo_entered 0x400000 64 True = SCDK_OK"
    using validate_range_cong [of call_demo_entered user_call_demo] k(4) call_demo_valid(1) by simp
  have cp: "scdk_user_copy_from user_call_demo 0x400000 message_size = Inr (load_bytes user_call_demo 0x400000 64)"
    by (simp add: copy_from_Inr call_demo_valid(1) message_size_def)
  have t: "validate_user_message_target user_call_demo 0x100000000
      \<lparr>sender = 0, target = SCDK_SERVICE_CONSOLE, mtype = SCDK_MSG_WRITE, arg0 = 0x400040, arg1 = 5, arg2 = 0, arg3 = 0, mstatus = 0\<rparr> = SCDK_OK"
    using call_demo_cap(1) by (simp add: validate_user_message_target_def kconst)
  have c: "scdk_endpoint_call run call_demo_entered 0x100000000
      \<lparr>sender = 0, target = SCDK_SERVICE_CONSOLE, mtype = SCDK_MSG_WRITE, arg0 = 0xffff800000001000, arg1 = 5, arg2 = 0, arg3 = 0, mstatus = 0\<rparr> =
      (st, (reply (ce_object_id e))\<lparr>mstatus := status_word st\<rparr>, call_demo_entered)"
    using e ob r by (simp add: scdk_endpoint_call_def k)
  have "fst (scdk_user_copy_to call_demo_entered 0x400000 (message_bytes x)) = SCDK_OK" for x
    using v message_roundtrip(2) [of x] by (cases "message_bytes x") (simp_all add: scdk_user_copy_to_def Let_def)
  then show ?thesis
    using e cp t call_demo_args c
    by (simp add: scdk_sys_endpoint_call_def call_demo_facts(1) message_roundtrip(1) split: prod.split) (metis fst_conv)
qed

theorem endpoint_call_mediated_witness:
  "fst (scdk_sys_endpoint_call
     (\<lambda>h ep m c t. if payload_message (mtype m) \<and> arg0 m = 0xffff800000001000 then (SCDK_ERR_BUSY, m, t) else (SCDK_ERR_PERM, m, t))
     0xffff800000001000 user_call_demo 0x100000000 0x400000) = SCDK_ERR_BUSY"
proof -
  let ?buf = "0xffff800000001000 :: u64"
  let ?m = "\<lparr>sender = 0, target = SCDK_SERVICE_CONSOLE, mtype = SCDK_MSG_WRITE, arg0 = 0x400040, arg1 = 5, arg2 = 0, arg3 = 0, mstatus = 0\<rparr>"
  let ?run = "\<lambda>h ep m c t. (SCDK_ERR_BUSY, m, t :: user_state)"
  let ?run' = "\<lambda>h ep m c t. if payload_message (mtype m) \<and> arg0 m = ?buf then (SCDK_ERR_BUSY, m, t :: user_state) else (SCDK_ERR_PERM, m, t)"
  have a: "payload_message (mtype m) \<and> arg0 m = ?buf" if sees: "handler_sees user_call_demo ?buf 0x100000000 0x400000 m t" for m and t :: user_state
  proof -
    obtain m0 where m0: "m0 = message_of_bytes (load_bytes user_call_demo 0x400000 64)" and p: "message_prepared user_call_demo ?buf m0 (m\<lparr>target := target m0\<rparr>) t"
      using sees unfolding handler_sees_def by (elim exE conjE) (rule that, assumption+)
    have m: "m0 = ?m" by (simp only: m0 call_demo_facts(1) message_roundtrip(1))
    have "payload_message (mtype ?m)" by (simp add: payload_message_def)
    then have e: "m\<lparr>target := target m0\<rparr> = ?m\<lparr>arg0 := ?buf\<rparr>" using p unfolding m message_prepared_def by presburger
    have "arg0 m = ?buf" "mtype m = SCDK_MSG_WRITE"
      using arg_cong [OF e, of arg0] arg_cong [OF e, of mtype] by simp_all
    then show ?thesis by (simp add: payload_message_def)
  qed
  have "scdk_sys_endpoint_call ?run ?buf user_call_demo 0x100000000 0x400000 = scdk_sys_endpoint_call ?run' ?buf user_call_demo 0x100000000 0x400000"
    by (rule endpoint_call_mediated) (use a in simp)
  moreover have "fst (scdk_sys_endpoint_call ?run' ?buf user_call_demo 0x100000000 0x400000) = SCDK_ERR_BUSY"
    by (rule call_demo_enters [where reply = "\<lambda>tgt. ?m\<lparr>target := tgt, arg0 := ?buf\<rparr>"]) (simp add: payload_message_def)
  ultimately show ?thesis by simp
qed

text \<open>
  (C3) A range that the kernel accepts from a user program is exactly a non-empty range of
  user space, without wrap-around, every byte of which the program itself may
  access through the active page tables (and may write, when the kernel is going to
  write). The page-by-page check of \<^verbatim>\<open>scdk_user_validate_range\<close> misses no byte and
  refuses no good range.
\<close>

theorem user_range_exact:
  "scdk_user_validate_range s p n wr = SCDK_OK \<longleftrightarrow>
     n \<noteq> 0 \<and> span p n \<subseteq> {unat SCDK_USER_VIRT_BASE..<unat SCDK_USER_VIRT_TOP} \<and> span p n \<subseteq> {a. user_access s wr (of_nat a)}"
proof -
  have "unat SCDK_USER_VIRT_BASE \<le> unat p \<and> unat p + unat n \<le> unat SCDK_USER_VIRT_TOP \<longleftrightarrow>
      span p n \<subseteq> {unat SCDK_USER_VIRT_BASE..<unat SCDK_USER_VIRT_TOP}" if "n \<noteq> 0"
  proof -
    have "unat p < unat p + unat n" using that by (simp add: unat_gt_0)
    then show ?thesis using atLeastLessThan_subset_iff [of "unat p" "unat p + unat n" "unat SCDK_USER_VIRT_BASE" "unat SCDK_USER_VIRT_TOP"]
      by (auto simp del: atLeastLessThan_iff)
  qed
  then show ?thesis unfolding validate_range_OK by blast
qed

end
