(* ===== verification/SCDK_UserGrant.thy ===== *)
theory SCDK_UserGrant
  imports SCDK_UserIpc
begin

text \<open>
  User grants (\<^verbatim>\<open>core/user_grant.c\<close>): a task lends a range of its own memory to the
  service behind an endpoint. The table is declared in \<open>SCDK_Grant\<close>, because
  kernel and user grants share \<^verbatim>\<open>SCDK_OBJ_GRANT\<close>. \<open>user_grant_inv\<close> says that every
  active grant is a non-empty range of user space and that no kernel grant can
  pass for an active user grant.
\<close>

section \<open>Operations\<close>

definition SCDK_USER_GRANT_RIGHTS_MASK :: u64 where
  [kconst]: "SCDK_USER_GRANT_RIGHTS_MASK = SCDK_RIGHT_READ OR SCDK_RIGHT_WRITE OR SCDK_RIGHT_MAP"

definition checked_user_range :: "'a user_state_scheme \<Rightarrow> u64 \<Rightarrow> u64 \<Rightarrow> bool \<Rightarrow> scdk_status" where
  "checked_user_range s user_base len writable =
     (if len = 0 then SCDK_ERR_INVAL else scdk_user_validate_range s user_base len writable)"

text \<open>
  \<^verbatim>\<open>object->payload\<close> read as a user slot. The payload of a kernel grant has the same
  layout, with the byte of \<^verbatim>\<open>revoked\<close> the lowest one of \<^verbatim>\<open>refcount\<close>.
\<close>

definition grant_as_user_slot :: "scdk_grant_slot \<Rightarrow> scdk_user_grant_slot" where
  "grant_as_user_slot k =
     (let g = gs_grant k
      in \<lparr>ug_object_id = gs_object_id k, ug_source_task = g_frame_cap g, ug_target_endpoint = g_base g, ug_user_base = g_offset g,
          ug_length = g_length g, ug_rights = g_rights g, ug_lifetime = g_lifetime g, ug_revoked = (g_refcount g AND 0xff \<noteq> 0)\<rparr>)"

definition user_grant_view :: "'a grant_state_scheme \<Rightarrow> payload \<Rightarrow> scdk_user_grant_slot option" where
  "user_grant_view s p =
     (case p of
        PUserGrant i \<Rightarrow> Some (user_grants s i)
      | PGrant i \<Rightarrow> Some (grant_as_user_slot (grant_table s i))
      | _ \<Rightarrow> None)"

text \<open>\<^verbatim>\<open>slot->revoked = true\<close> through the same pointer.\<close>

definition set_grant_revoked :: "'a grant_state_scheme \<Rightarrow> payload \<Rightarrow> 'a grant_state_scheme" where
  "set_grant_revoked s p =
     (case p of
        PUserGrant i \<Rightarrow> s\<lparr>user_grants := (user_grants s)(i := (user_grants s i)\<lparr>ug_revoked := True\<rparr>)\<rparr>
      | PGrant i \<Rightarrow>
          (let k = grant_table s i; g = gs_grant k
           in set_grant_slot s i (k\<lparr>gs_grant := g\<lparr>g_refcount := (g_refcount g AND NOT 0xff) OR 1\<rparr>\<rparr>))
      | _ \<Rightarrow> s)"

text \<open>The result is the pointer and the slot it points to.\<close>

definition user_grant_lookup :: "'a grant_state_scheme \<Rightarrow> u64 \<Rightarrow> u64 \<Rightarrow> bool \<Rightarrow> (payload \<times> scdk_user_grant_slot) res" where
  "user_grant_lookup s grant_cap required_rights require_live_binding =
     (case scdk_cap_check s grant_cap required_rights SCDK_OBJ_GRANT of
        Inl e \<Rightarrow> Inl e
      | Inr entry \<Rightarrow>
          (case scdk_object_lookup s (ce_object_id entry) of
             Inl e \<Rightarrow> Inl e
           | Inr object \<Rightarrow>
               (case user_grant_view s (obj_payload object) of
                  None \<Rightarrow> Inl SCDK_ERR_NOENT
                | Some slot \<Rightarrow>
                    if ug_object_id slot \<noteq> ce_object_id entry then Inl SCDK_ERR_NOENT
                    else if ug_revoked slot then Inl SCDK_ERR_PERM
                    else if require_live_binding
                    then (case scdk_cap_check s (ug_source_task slot) SCDK_RIGHT_READ SCDK_OBJ_TASK of
                            Inl e \<Rightarrow> Inl e
                          | Inr _ \<Rightarrow>
                              (case scdk_cap_check s (ug_target_endpoint slot) SCDK_RIGHT_SEND SCDK_OBJ_ENDPOINT of
                                 Inl e \<Rightarrow> Inl e
                               | Inr _ \<Rightarrow> Inr (obj_payload object, slot)))
                    else Inr (obj_payload object, slot))))"

definition check_grant_range :: "scdk_user_grant_slot \<Rightarrow> u64 \<Rightarrow> u64 \<Rightarrow> u64 \<Rightarrow> scdk_status" where
  "check_grant_range slot offset len required_rights =
     (if len = 0 \<or> required_rights = 0 \<or> required_rights AND NOT SCDK_USER_GRANT_RIGHTS_MASK \<noteq> 0 then SCDK_ERR_INVAL
      else if ug_rights slot AND required_rights \<noteq> required_rights then SCDK_ERR_PERM
      else if offset > ug_length slot \<or> len > ug_length slot - offset then SCDK_ERR_BOUNDS
      else SCDK_OK)"

abbreviation set_user_grant :: "'a grant_state_scheme \<Rightarrow> nat \<Rightarrow> scdk_user_grant_slot \<Rightarrow> 'a grant_state_scheme" where
  "set_user_grant s i u \<equiv> s\<lparr>user_grants := (user_grants s)(i := u)\<rparr>"

definition scdk_user_grant_create ::
  "'a user_state_scheme \<Rightarrow> u64 \<Rightarrow> u64 \<Rightarrow> u64 \<Rightarrow> u64 \<Rightarrow> u64 \<Rightarrow> u64 res \<times> 'a user_state_scheme"
where
  "scdk_user_grant_create s source_task user_base len rights target_endpoint =
     (if source_task = 0 \<or> user_base = 0 \<or> len = 0 \<or> rights = 0 \<or> rights AND NOT SCDK_USER_GRANT_RIGHTS_MASK \<noteq> 0 \<or>
         target_endpoint = 0 then (Inl SCDK_ERR_INVAL, s)
      else case scdk_cap_check s source_task SCDK_RIGHT_READ SCDK_OBJ_TASK of
        Inl e \<Rightarrow> (Inl e, s)
      | Inr _ \<Rightarrow>
          (case scdk_cap_check s target_endpoint SCDK_RIGHT_SEND SCDK_OBJ_ENDPOINT of
             Inl e \<Rightarrow> (Inl e, s)
           | Inr _ \<Rightarrow>
               (let status = checked_user_range s user_base len (rights AND SCDK_RIGHT_WRITE \<noteq> 0)
                in if status \<noteq> SCDK_OK then (Inl status, s)
                   else case first_slot (\<lambda>i. ug_object_id (user_grants s i) = 0 \<or> ug_revoked (user_grants s i)) SCDK_MAX_USER_GRANTS of
                     None \<Rightarrow> (Inl SCDK_ERR_NOMEM, s)
                   | Some i \<Rightarrow>
                       (let fill = (\<lambda>oid s. set_user_grant s i \<lparr>ug_object_id = oid, ug_source_task = source_task,
                              ug_target_endpoint = target_endpoint, ug_user_base = user_base, ug_length = len, ug_rights = rights,
                              ug_lifetime = 1, ug_revoked = False\<rparr>);
                            oid = ug_object_id (user_grants s i)
                        in if oid \<noteq> 0 \<and> ug_revoked (user_grants s i)
                           then (case scdk_cap_create (fill oid s) oid (rights OR SCDK_RIGHT_REVOKE) of
                                   (Inl e, s1) \<Rightarrow>
                                     (Inl e, set_user_grant s1 i (null_user_grant\<lparr>ug_object_id := oid, ug_revoked := True\<rparr>))
                                 | (Inr grant, s1) \<Rightarrow> (Inr grant, s1))
                           else bind_slot s SCDK_OBJ_GRANT SCDK_BOOT_CORE (PUserGrant i) fill
                                  (\<lambda>s. set_user_grant s i null_user_grant) (rights OR SCDK_RIGHT_REVOKE)))))"

definition scdk_user_grant_revoke :: "'a user_state_scheme \<Rightarrow> u64 \<Rightarrow> scdk_status \<times> 'a user_state_scheme" where
  "scdk_user_grant_revoke s grant_cap =
     (case user_grant_lookup s grant_cap SCDK_RIGHT_REVOKE False of
        Inl e \<Rightarrow> (e, s)
      | Inr (p, slot) \<Rightarrow> scdk_cap_revoke (set_grant_revoked s p) grant_cap)"

definition scdk_validate_grant_access :: "'a user_state_scheme \<Rightarrow> u64 \<Rightarrow> u64 \<Rightarrow> u64 \<Rightarrow> u64 \<Rightarrow> scdk_status" where
  "scdk_validate_grant_access s grant_cap offset len required_rights =
     (case user_grant_lookup s grant_cap required_rights True of
        Inl e \<Rightarrow> e
      | Inr (p, slot) \<Rightarrow> check_grant_range slot offset len required_rights)"

text \<open>The bytes for \<^verbatim>\<open>kernel_dst\<close>.\<close>

definition scdk_user_grant_copy_from :: "'a user_state_scheme \<Rightarrow> u64 \<Rightarrow> u64 \<Rightarrow> u64 \<Rightarrow> u64 \<Rightarrow> u64 \<Rightarrow> u8 list res" where
  "scdk_user_grant_copy_from s target_endpoint grant_cap offset kernel_dst len =
     (if target_endpoint = 0 \<or> kernel_dst = 0 then Inl SCDK_ERR_INVAL
      else case user_grant_lookup s grant_cap SCDK_RIGHT_READ True of
        Inl e \<Rightarrow> Inl e
      | Inr (p, slot) \<Rightarrow>
          if ug_target_endpoint slot \<noteq> target_endpoint then Inl SCDK_ERR_PERM
          else (let status = check_grant_range slot offset len SCDK_RIGHT_READ
                in if status \<noteq> SCDK_OK then Inl status else scdk_user_copy_from s (ug_user_base slot + offset) len))"

section \<open>Invariant\<close>

definition grant_active :: "scdk_user_grant_slot \<Rightarrow> bool" where
  "grant_active u \<longleftrightarrow> ug_object_id u \<noteq> 0 \<and> \<not> ug_revoked u"

definition grant_range_ok :: "scdk_user_grant_slot \<Rightarrow> bool" where
  "grant_range_ok u \<longleftrightarrow> ug_length u \<noteq> 0 \<and> unat SCDK_USER_VIRT_BASE \<le> unat (ug_user_base u) \<and>
     unat (ug_user_base u) + unat (ug_length u) \<le> unat SCDK_USER_VIRT_TOP \<and>
     ug_rights u AND NOT SCDK_USER_GRANT_RIGHTS_MASK = 0"

definition user_grant_inv :: "'a grant_state_scheme \<Rightarrow> bool" where
  "user_grant_inv s \<longleftrightarrow> kern_inv s \<and> grant_inv s \<and> (\<forall>i. grant_active (user_grants s i) \<longrightarrow> grant_range_ok (user_grants s i)) \<and>
     (\<forall>i. gs_object_id (grant_table s i) \<noteq> 0 \<longrightarrow> g_refcount (gs_grant (grant_table s i)) = 1)"

lemma user_grant_lookup_Inr:
  "user_grant_lookup s cap r live_only = Inr (p, u) \<longleftrightarrow> (\<exists>e ob. scdk_cap_check s cap r SCDK_OBJ_GRANT = Inr e \<and>
     scdk_object_lookup s (ce_object_id e) = Inr ob \<and> obj_payload ob = p \<and> user_grant_view s p = Some u \<and>
     ug_object_id u = ce_object_id e \<and> \<not> ug_revoked u \<and>
     (live_only \<longrightarrow> res_status (scdk_cap_check s (ug_source_task u) SCDK_RIGHT_READ SCDK_OBJ_TASK) = SCDK_OK \<and>
       res_status (scdk_cap_check s (ug_target_endpoint u) SCDK_RIGHT_SEND SCDK_OBJ_ENDPOINT) = SCDK_OK))"
  using cap_check_Inl_OK [of s "ug_source_task u" SCDK_RIGHT_READ SCDK_OBJ_TASK]
    cap_check_Inl_OK [of s "ug_target_endpoint u" SCDK_RIGHT_SEND SCDK_OBJ_ENDPOINT]
  by (auto simp: user_grant_lookup_def split: sum.splits option.splits if_splits)

lemma check_grant_range_OK:
  "check_grant_range u off len r = SCDK_OK \<longleftrightarrow>
     r \<noteq> 0 \<and> r AND NOT SCDK_USER_GRANT_RIGHTS_MASK = 0 \<and> ug_rights u AND r = r \<and> len \<noteq> 0 \<and>
     unat off + unat len \<le> unat (ug_length u)"
proof -
  have "(\<not> off > ug_length u \<and> \<not> len > ug_length u - off) \<longleftrightarrow> unat off + unat len \<le> unat (ug_length u)"
  proof (cases "off \<le> ug_length u")
    case True
    then have "unat (ug_length u - off) = unat (ug_length u) - unat off" by (simp add: unat_sub)
    with True show ?thesis by (auto simp: word_le_nat_alt not_less)
  qed (auto simp: word_le_nat_alt not_less)
  then show ?thesis unfolding check_grant_range_def by auto
qed

lemma user_grant_invD:
  assumes "user_grant_inv s"
  shows "kern_inv s" "grant_inv s" "grant_active (user_grants s i) \<Longrightarrow> grant_range_ok (user_grants s i)"
    "gs_object_id (grant_table s i) \<noteq> 0 \<Longrightarrow> g_refcount (gs_grant (grant_table s i)) = 1"
  using assms unfolding user_grant_inv_def by (elim conjE, blast)+

text \<open>An entry that a lookup accepts is an active user grant, never a kernel grant.\<close>

lemma kernel_grant_refused:
  assumes inv: "user_grant_inv s" and v: "user_grant_view s p = Some u" and u: "ug_object_id u \<noteq> 0" "\<not> ug_revoked u"
  obtains i where "p = PUserGrant i" "u = user_grants s i" "grant_range_ok u"
proof (cases p)
  case (PGrant i)
  then have "u = grant_as_user_slot (grant_table s i)" using v by (simp add: user_grant_view_def)
  then have "g_refcount (gs_grant (grant_table s i)) = 1" "g_refcount (gs_grant (grant_table s i)) AND 0xff = 0"
    using u user_grant_invD(4) [OF inv, of i] by (auto simp: grant_as_user_slot_def Let_def)
  then show thesis by simp
next
  case (PUserGrant i)
  then show thesis using v u user_grant_invD(3) [OF inv, of i] that [of i] by (simp add: user_grant_view_def grant_active_def)
qed (use v in \<open>simp_all add: user_grant_view_def\<close>)

section \<open>Creation\<close>

abbreviation new_user_grant :: "u64 \<Rightarrow> u64 \<Rightarrow> u64 \<Rightarrow> u64 \<Rightarrow> u64 \<Rightarrow> u64 \<Rightarrow> scdk_user_grant_slot" where
  "new_user_grant oid task base n rights ep \<equiv> \<lparr>ug_object_id = oid, ug_source_task = task, ug_target_endpoint = ep,
     ug_user_base = base, ug_length = n, ug_rights = rights, ug_lifetime = 1, ug_revoked = False\<rparr>"

text \<open>What the last step of a creation establishes, with a new object or a reused one.\<close>

definition grant_minted :: "'a user_state_scheme \<Rightarrow> nat \<Rightarrow> scdk_user_grant_slot \<Rightarrow> u64 \<Rightarrow> 'a user_state_scheme \<Rightarrow> bool" where
  "grant_minted s i u cap s' \<longleftrightarrow>
     user_grants s' = (user_grants s)(i := u) \<and> grant_table s' = grant_table s \<and> mm s' = mm s \<and>
     (\<exists>e ob. scdk_cap_lookup s' cap = Inr e \<and> ce_object_id e = ug_object_id u \<and> ce_object_type e = SCDK_OBJ_GRANT \<and>
        ce_rights e = ug_rights u OR SCDK_RIGHT_REVOKE \<and> scdk_object_lookup s' (ug_object_id u) = Inr ob \<and>
        obj_type ob = SCDK_OBJ_GRANT \<and> obj_payload ob = PUserGrant i) \<and>
     (\<forall>c q ty e. scdk_cap_check s c q ty = Inr e \<longrightarrow> scdk_cap_check s' c q ty = Inr e)"

lemma mint_ok:
  assumes inv: "kern_inv s" and ob: "scdk_object_lookup s (ug_object_id u) = Inr ob" "obj_type ob = SCDK_OBJ_GRANT" "obj_payload ob = PUserGrant i"
    and c: "scdk_cap_create (set_user_grant s i u) (ug_object_id u) (ug_rights u OR SCDK_RIGHT_REVOKE) = (Inr cap, s')"
  shows "grant_minted s i u cap s'"
proof -
  have ci: "cap_inv (set_user_grant s i u)" using inv by (simp add: kern_invD(1))
  from cap_create_look [OF ci c] obtain e ob1 where e: "scdk_cap_lookup s' cap = Inr e" "scdk_object_lookup s (ug_object_id u) = Inr ob1"
    "ce_object_id e = ug_object_id u" "ce_object_type e = obj_type ob1" "ce_rights e = ug_rights u OR SCDK_RIGHT_REVOKE" by auto
  moreover have "scdk_object_lookup s' = scdk_object_lookup s" using cap_create_objects(3) [OF c] by simp
  moreover have "user_grants s' = (user_grants s)(i := u)" "grant_table s' = grant_table s"
    using grant_low_frame(2) [OF c] by simp_all
  moreover have "mm s' = mm s" using mm_low_frame(2) [OF c] by simp
  moreover have "scdk_cap_check s' c' q ty = Inr e'" if "scdk_cap_check s c' q ty = Inr e'" for c' q ty e'
    using cap_check_keep(1) [OF ci _ c, of c' q ty e'] that by simp
  ultimately show ?thesis using ob unfolding grant_minted_def by auto
qed

lemma ug_create_cases:
  assumes inv: "kern_inv s" "grant_inv s" and c: "scdk_user_grant_create s task base n rights ep = (q, s')"
  obtains (refused) e where "q = Inl e" "s' = s"
  | (failed) e i u where "q = Inl e" "khist s s'" "user_grants s' = (user_grants s)(i := u)" "grant_table s' = grant_table s"
      "\<not> grant_active u" "ug_object_id u = 0 \<or> ug_object_id u = ug_object_id (user_grants s i)"
  | (created) cap i oid where "q = Inr cap" "khist s s'" "i < SCDK_MAX_USER_GRANTS" "\<not> grant_active (user_grants s i)" "oid \<noteq> 0"
      "grant_minted s i (new_user_grant oid task base n rights ep) cap s'"
      "rights \<noteq> 0" "rights AND NOT SCDK_USER_GRANT_RIGHTS_MASK = 0"
      "scdk_user_validate_range s base n (rights AND SCDK_RIGHT_WRITE \<noteq> 0) = SCDK_OK"
      "res_status (scdk_cap_check s task SCDK_RIGHT_READ SCDK_OBJ_TASK) = SCDK_OK"
      "res_status (scdk_cap_check s ep SCDK_RIGHT_SEND SCDK_OBJ_ENDPOINT) = SCDK_OK"
proof -
  let ?slot = "first_slot (\<lambda>i. ug_object_id (user_grants s i) = 0 \<or> ug_revoked (user_grants s i)) SCDK_MAX_USER_GRANTS"
  let ?guard = "rights \<noteq> 0 \<and> rights AND NOT SCDK_USER_GRANT_RIGHTS_MASK = 0 \<and>
      scdk_user_validate_range s base n (rights AND SCDK_RIGHT_WRITE \<noteq> 0) = SCDK_OK \<and>
      res_status (scdk_cap_check s task SCDK_RIGHT_READ SCDK_OBJ_TASK) = SCDK_OK \<and>
      res_status (scdk_cap_check s ep SCDK_RIGHT_SEND SCDK_OBJ_ENDPOINT) = SCDK_OK"
  let ?fill = "\<lambda>i oid s. set_user_grant s i (new_user_grant oid task base n rights ep)"
  show thesis
  proof (cases "?guard \<and> ?slot \<noteq> None \<and> \<not> (\<exists>e. q = Inl e \<and> s' = s)")
    case False
    then show thesis
      using c refused cap_check_Inl_OK
      by (fastforce simp: scdk_user_grant_create_def checked_user_range_def Let_def split: if_splits sum.splits option.splits)
  next
    case True
    then have g: ?guard and nr: "\<not> (\<exists>e. q = Inl e \<and> s' = s)" by blast+
    from True obtain i where i: "?slot = Some i" by blast
    then have ib: "i < SCDK_MAX_USER_GRANTS" "\<not> grant_active (user_grants s i)" by (auto simp: scan_facts grant_active_def)
    let ?oid = "ug_object_id (user_grants s i)"
    have u: "(q, s') = (if ?oid \<noteq> 0 \<and> ug_revoked (user_grants s i)
        then (case scdk_cap_create (?fill i ?oid s) ?oid (rights OR SCDK_RIGHT_REVOKE) of
            (Inl e, s1) \<Rightarrow> (Inl e, set_user_grant s1 i (null_user_grant\<lparr>ug_object_id := ?oid, ug_revoked := True\<rparr>))
          | (Inr grant, s1) \<Rightarrow> (Inr grant, s1))
        else bind_slot s SCDK_OBJ_GRANT SCDK_BOOT_CORE (PUserGrant i) (?fill i)
            (\<lambda>s. set_user_grant s i null_user_grant) (rights OR SCDK_RIGHT_REVOKE))"
    proof -
      have nz: "task \<noteq> 0" "base \<noteq> 0" "n \<noteq> 0" "ep \<noteq> 0" using c nr by (auto simp: scdk_user_grant_create_def)
      obtain e1 e2 where "scdk_cap_check s task SCDK_RIGHT_READ SCDK_OBJ_TASK = Inr e1" "scdk_cap_check s ep SCDK_RIGHT_SEND SCDK_OBJ_ENDPOINT = Inr e2"
        using g cap_check_Inl_OK by (metis res_status.simps(1) sum.exhaust)
      then show ?thesis using nz g i by (simp add: c [symmetric] scdk_user_grant_create_def checked_user_range_def Let_def)
    qed
    show thesis
    proof (cases "?oid \<noteq> 0 \<and> ug_revoked (user_grants s i)")
      case reuse: True
      have sb: "slot_bound s SCDK_OBJ_GRANT PUserGrant SCDK_MAX_USER_GRANTS (ug_object_id \<circ> user_grants s)"
        using inv(2) by (simp add: grant_inv_def)
      obtain ob where ob: "scdk_object_lookup s ?oid = Inr ob" "obj_type ob = SCDK_OBJ_GRANT" "obj_payload ob = PUserGrant i"
        by (rule slot_boundD [OF sb ib(1)]) (use reuse in simp_all)
      obtain r1 s1 where cc: "scdk_cap_create (?fill i ?oid s) ?oid (rights OR SCDK_RIGHT_REVOKE) = (r1, s1)" by fastforce
      have kh: "khist s s1" by (rule kh_create [OF core_same_khist [OF grant_upd_same(2)] cc])
      show thesis
      proof (cases r1)
        case (Inl e)
        then have "q = Inl e" and s': "s' = set_user_grant s1 i (null_user_grant\<lparr>ug_object_id := ?oid, ug_revoked := True\<rparr>)"
          using u reuse cc by simp_all
        then show thesis
          by (intro failed [of e i "null_user_grant\<lparr>ug_object_id := ?oid, ug_revoked := True\<rparr>"])
            (use grant_low_frame(2) [OF cc] khist_then [OF kh core_same_khist [OF grant_upd_same(2)]] in \<open>simp_all add: grant_active_def\<close>)
      next
        case (Inr cap)
        then have "q = Inr cap" "s' = s1" using u reuse cc by simp_all
        moreover have "grant_minted s i (new_user_grant ?oid task base n rights ep) cap s1"
          by (rule mint_ok [OF inv(1), where ob = ob]) (use ob cc Inr in simp_all)
        ultimately show thesis using created [of cap i ?oid] kh ib reuse g by blast
      qed
    next
      case fresh: False
      have b: "bind_slot s SCDK_OBJ_GRANT SCDK_BOOT_CORE (PUserGrant i) (?fill i)
            (\<lambda>s. set_user_grant s i null_user_grant) (rights OR SCDK_RIGHT_REVOKE) = (q, s')" using u [unfolded if_not_P [OF fresh]] by (rule sym)
      have kh: "khist s s'" by (rule bind_slot_khist [OF b]) (use ib in simp_all)
      from b show thesis
      proof (cases rule: bind_slot_cases)
        case (noobj e)
        then show thesis using nr by blast
      next
        case (nocap oid s1 s3 e)
        then show thesis
          by (intro failed [of e i null_user_grant])
            (use kh grant_low_frame(1) [OF nocap(1)] grant_low_frame(2) [OF nocap(2)] in \<open>simp_all add: grant_active_def null_user_grant_def\<close>)
      next
        case (created oid s1 cap)
        have ob: "\<exists>ob. scdk_object_lookup s1 oid = Inr ob \<and> obj_type ob = SCDK_OBJ_GRANT \<and> obj_payload ob = PUserGrant i" "oid \<noteq> 0"
          using object_create_look [OF created(1)] object_create_nonzero [OF created(1)] by auto
        have k1: "kern_inv s1" by (rule khist_inv [OF kh_object [OF kh_refl created(1)] inv(1)]) (use ib in simp)
        have m: "grant_minted s1 i (new_user_grant oid task base n rights ep) cap s'"
          using ob(1) mint_ok [OF k1, of "new_user_grant oid task base n rights ep" _ i cap s'] created(2) by auto
        have "grant_minted s i (new_user_grant oid task base n rights ep) cap s'"
          using m grant_low_frame(1) [OF created(1)] mm_low_frame(1) [OF created(1)]
            cap_check_keep(2) [OF kern_invD(1) [OF inv(1)] _ created(1)] unfolding grant_minted_def by auto
        then show thesis using that(3) [of cap i oid] created(3) kh ib ob(2) g by blast
      qed
    qed
  qed
qed

section \<open>The operations keep the invariant\<close>

lemma slot_bound_set:
  assumes "slot_bound s ty pay n oids" and "scdk_object_lookup s oid = Inr ob" "obj_type ob = ty" "obj_payload ob = pay i"
  shows "slot_bound s ty pay n (oids(i := oid))"
  using assms by (auto simp: slot_bound_def)

lemma user_grant_inv_upd:
  assumes inv: "user_grant_inv s" and kh: "khist s s'" and u: "user_grants s' = (user_grants s)(i := u)" "grant_table s' = grant_table s"
    and sb: "slot_bound s' SCDK_OBJ_GRANT PUserGrant SCDK_MAX_USER_GRANTS ((ug_object_id \<circ> user_grants s)(i := ug_object_id u))"
    and ok: "grant_active u \<Longrightarrow> grant_range_ok u"
  shows "user_grant_inv s'"
proof -
  have "grant_inv s'"
    using khist_slot_bound [OF kh user_grant_invD(1) [OF inv], of SCDK_OBJ_GRANT PGrant SCDK_MAX_GRANTS "gs_object_id \<circ> grant_table s"]
      user_grant_invD(2) [OF inv] sb by (simp add: grant_inv_def u comp_fun_upd)
  moreover have "kern_inv s'" by (rule khist_inv [OF kh user_grant_invD(1) [OF inv]])
  ultimately show ?thesis
    using ok user_grant_invD(3,4) [OF inv] unfolding user_grant_inv_def u by simp
qed

lemma ug_create_inv:
  assumes inv: "user_grant_inv s" and c: "scdk_user_grant_create s task base n rights ep = (q, s')"
  shows "user_grant_inv s'"
  using user_grant_invD(1,2) [OF inv] c
proof (cases rule: ug_create_cases)
  case (failed e i u)
  have sb: "slot_bound s' SCDK_OBJ_GRANT PUserGrant SCDK_MAX_USER_GRANTS (ug_object_id \<circ> user_grants s)"
    using khist_slot_bound [OF failed(2) user_grant_invD(1) [OF inv]] user_grant_invD(2) [OF inv] by (simp add: grant_inv_def)
  have "slot_bound s' SCDK_OBJ_GRANT PUserGrant SCDK_MAX_USER_GRANTS ((ug_object_id \<circ> user_grants s)(i := ug_object_id u))"
    using failed(6) slot_bound_clear [OF sb, of i] sb by (auto simp: fun_upd_idem)
  then show ?thesis by (rule user_grant_inv_upd [OF inv failed(2-4)]) (use failed(5) in simp)
next
  case (created cap i oid)
  have sb: "slot_bound s' SCDK_OBJ_GRANT PUserGrant SCDK_MAX_USER_GRANTS (ug_object_id \<circ> user_grants s)"
    using khist_slot_bound [OF created(2) user_grant_invD(1) [OF inv]] user_grant_invD(2) [OF inv] by (simp add: grant_inv_def)
  show ?thesis
  proof (rule user_grant_inv_upd [OF inv created(2)])
    show "user_grants s' = (user_grants s)(i := new_user_grant oid task base n rights ep)" "grant_table s' = grant_table s"
      using created(6) by (simp_all add: grant_minted_def)
    show "slot_bound s' SCDK_OBJ_GRANT PUserGrant SCDK_MAX_USER_GRANTS
        ((ug_object_id \<circ> user_grants s)(i := ug_object_id (new_user_grant oid task base n rights ep)))"
      using slot_bound_set [OF sb, of oid _ i] created(6) by (auto simp: grant_minted_def)
    show "grant_range_ok (new_user_grant oid task base n rights ep)"
      using created(8,9) by (simp add: grant_range_ok_def validate_range_OK)
  qed
qed (use inv in simp)

lemma ug_lookup_active:
  assumes inv: "user_grant_inv s" and l: "user_grant_lookup s cap r b = Inr (p, u)"
  obtains i e where "p = PUserGrant i" "u = user_grants s i" "grant_range_ok u" "ug_object_id u \<noteq> 0" "\<not> ug_revoked u"
    "scdk_cap_check s cap r SCDK_OBJ_GRANT = Inr e" "ce_object_id e = ug_object_id u"
proof -
  from l obtain e ob where e: "scdk_cap_check s cap r SCDK_OBJ_GRANT = Inr e" "scdk_object_lookup s (ce_object_id e) = Inr ob"
    "user_grant_view s p = Some u" "ug_object_id u = ce_object_id e" "\<not> ug_revoked u" unfolding user_grant_lookup_Inr by blast
  have nz: "ug_object_id u \<noteq> 0" using e(2,4) by (auto simp: scdk_object_lookup_def)
  show thesis by (rule kernel_grant_refused [OF inv e(3) nz e(5)]) (use that e nz in simp)
qed

lemma ug_revoke_inv:
  assumes inv: "user_grant_inv s" and c: "scdk_user_grant_revoke s cap = (q, s')"
  shows "user_grant_inv s'"
proof (cases "user_grant_lookup s cap SCDK_RIGHT_REVOKE False")
  case (Inl e)
  then show ?thesis using c inv by (simp add: scdk_user_grant_revoke_def)
next
  case (Inr pu)
  obtain p u where pu: "pu = (p, u)" by fastforce
  obtain i where i: "p = PUserGrant i" "u = user_grants s i" by (rule ug_lookup_active [OF inv Inr [unfolded pu]])
  let ?u = "(user_grants s i)\<lparr>ug_revoked := True\<rparr>"
  have r: "scdk_cap_revoke (set_user_grant s i ?u) cap = (q, s')"
    using c Inr pu i by (simp add: scdk_user_grant_revoke_def set_grant_revoked_def)
  have kh: "khist s s'" by (rule kh_revoke [OF core_same_khist [OF grant_upd_same(2)] r])
  have sb: "slot_bound s' SCDK_OBJ_GRANT PUserGrant SCDK_MAX_USER_GRANTS (ug_object_id \<circ> user_grants s)"
    using khist_slot_bound [OF kh user_grant_invD(1) [OF inv]] user_grant_invD(2) [OF inv] by (simp add: grant_inv_def)
  show ?thesis
    by (rule user_grant_inv_upd [OF inv kh, of i ?u]) (use grant_low_frame(3) [OF r] sb in \<open>simp_all add: fun_upd_idem grant_active_def\<close>)
qed

section \<open>Properties\<close>

text \<open>
  (C9) What a copy through a user grant has checked: whenever \<^verbatim>\<open>scdk_user_grant_copy_from\<close>
  returns bytes in a well-formed state, the grant is an active user grant made for
  exactly that endpoint, with the READ right in the grant and in the capability; the
  capabilities of the source task and of the endpoint are still alive; and the
  bytes are those at the requested part of the lent address range, which lies in user
  space and is readable for user code, in the address space that is active at
  the time of the copy. The code does not compare that address space with the one of the
  source task, and the statement does not claim that they are the same.
\<close>

theorem user_grant_copy_confined:
  assumes inv: "user_grant_inv s" and c: "scdk_user_grant_copy_from s ep cap off dst len = Inr bs"
  shows "\<exists>i e u. u = user_grants s i \<and> scdk_cap_lookup s cap = Inr e \<and> ce_object_id e = ug_object_id u \<and>
    \<not> ug_revoked u \<and> ug_target_endpoint u = ep \<and> ug_rights u AND SCDK_RIGHT_READ \<noteq> 0 \<and> ce_rights e AND SCDK_RIGHT_READ \<noteq> 0 \<and>
    res_status (scdk_cap_check s (ug_source_task u) SCDK_RIGHT_READ SCDK_OBJ_TASK) = SCDK_OK \<and>
    res_status (scdk_cap_check s ep SCDK_RIGHT_SEND SCDK_OBJ_ENDPOINT) = SCDK_OK \<and>
    bs = load_bytes s (ug_user_base u + off) (unat len) \<and>
    span (ug_user_base u + off) len \<subseteq> span (ug_user_base u) (ug_length u) \<and>
    span (ug_user_base u) (ug_length u) \<subseteq> {unat SCDK_USER_VIRT_BASE..<unat SCDK_USER_VIRT_TOP} \<and>
    span (ug_user_base u + off) len \<subseteq> {a. user_access s False (of_nat a)}"
proof -
  obtain p u where l: "user_grant_lookup s cap SCDK_RIGHT_READ True = Inr (p, u)" and t: "ug_target_endpoint u = ep"
    and r: "check_grant_range u off len SCDK_RIGHT_READ = SCDK_OK"
    and cp: "scdk_user_copy_from s (ug_user_base u + off) len = Inr bs"
    using c by (auto simp: scdk_user_grant_copy_from_def Let_def split: if_splits sum.splits prod.splits)
  obtain i e where i: "u = user_grants s i" "grant_range_ok u" "\<not> ug_revoked u"
    "scdk_cap_check s cap SCDK_RIGHT_READ SCDK_OBJ_GRANT = Inr e" "ce_object_id e = ug_object_id u"
    by (rule ug_lookup_active [OF inv l])
  have range: "unat off + unat len \<le> unat (ug_length u)" "ug_rights u AND SCDK_RIGHT_READ = SCDK_RIGHT_READ" "len \<noteq> 0"
    using r by (simp_all add: check_grant_range_OK)
  have "unat (ug_user_base u) + unat off < 2 ^ 64"
    using i(2) range(1) by (simp add: grant_range_ok_def kconst)
  then have o: "unat (ug_user_base u + off) = unat (ug_user_base u) + unat off" by (simp add: unat_word_ariths)
  have v: "scdk_user_validate_range s (ug_user_base u + off) len False = SCDK_OK" "bs = load_bytes s (ug_user_base u + off) (unat len)"
    using cp by (simp_all add: copy_from_Inr)
  have "scdk_cap_lookup s cap = Inr e" "ce_rights e AND SCDK_RIGHT_READ \<noteq> 0"
    using i(4) by (auto simp: cap_check_Inr kconst)
  moreover have "res_status (scdk_cap_check s (ug_source_task u) SCDK_RIGHT_READ SCDK_OBJ_TASK) = SCDK_OK"
      "res_status (scdk_cap_check s ep SCDK_RIGHT_SEND SCDK_OBJ_ENDPOINT) = SCDK_OK"
    using l t unfolding user_grant_lookup_Inr by blast+
  moreover have "span (ug_user_base u + off) len \<subseteq> span (ug_user_base u) (ug_length u)" using o range(1) by auto
  moreover have "span (ug_user_base u) (ug_length u) \<subseteq> {unat SCDK_USER_VIRT_BASE..<unat SCDK_USER_VIRT_TOP}"
    using i(2) by (auto simp: grant_range_ok_def)
  moreover have "span (ug_user_base u + off) len \<subseteq> {a. user_access s False (of_nat a)}"
    using v(1) unfolding validate_range_OK by blast
  moreover have "ug_rights u AND SCDK_RIGHT_READ \<noteq> 0" using range(2) by (simp add: kconst)
  ultimately show ?thesis using i t v(2) by (intro exI [of _ i] exI [of _ e] exI [of _ u]) simp
qed

text \<open>
  (C11) A user grant gives exactly what it was created with. For a non-empty access that asks for
  some of the rights a grant can carry, the capability that \<^verbatim>\<open>scdk_user_grant_create\<close>
  returned passes \<^verbatim>\<open>scdk_validate_grant_access\<close> exactly when the rights are among those the grant
  was made with and the access lies inside the range; it is refused with
  \<^verbatim>\<open>SCDK_ERR_PERM\<close> for other rights and with \<^verbatim>\<open>SCDK_ERR_BOUNDS\<close> for another range.
\<close>

theorem user_grant_create_exact:
  assumes inv: "user_grant_inv s" and c: "scdk_user_grant_create s task base n rights ep = (Inr cap, s')"
    and r: "r \<noteq> 0" "r AND NOT SCDK_USER_GRANT_RIGHTS_MASK = 0" "len \<noteq> 0"
  shows "scdk_validate_grant_access s' cap off len r =
    (if rights AND r \<noteq> r then SCDK_ERR_PERM else if unat off + unat len \<le> unat n then SCDK_OK else SCDK_ERR_BOUNDS)"
  using user_grant_invD(1,2) [OF inv] c
proof (cases rule: ug_create_cases)
  case (created cap' i oid)
  let ?u = "new_user_grant oid task base n rights ep"
  have m: "grant_minted s i ?u cap s'" using created(1,6) by simp
  obtain e ob where e: "scdk_cap_lookup s' cap = Inr e" "ce_object_id e = oid" "ce_object_type e = SCDK_OBJ_GRANT"
    "ce_rights e = rights OR SCDK_RIGHT_REVOKE" and ob: "scdk_object_lookup s' oid = Inr ob" "obj_payload ob = PUserGrant i"
    using m by (auto simp: grant_minted_def)
  have keep: "res_status (scdk_cap_check s' c' q ty) = SCDK_OK" if "res_status (scdk_cap_check s c' q ty) = SCDK_OK" for c' q ty
    using that m cap_check_Inl_OK [of s c' q ty] by (cases "scdk_cap_check s c' q ty") (auto simp: grant_minted_def)
  have ug: "user_grants s' i = ?u" using m by (simp add: grant_minted_def)
  have rr: "(rights OR SCDK_RIGHT_REVOKE) AND r = rights AND r"
  proof -
    have z: "SCDK_USER_GRANT_RIGHTS_MASK AND SCDK_RIGHT_REVOKE = 0" by (simp add: kconst)
    have "r AND SCDK_RIGHT_REVOKE = (r AND (SCDK_USER_GRANT_RIGHTS_MASK AND SCDK_RIGHT_REVOKE)) OR
        ((r AND NOT SCDK_USER_GRANT_RIGHTS_MASK) AND SCDK_RIGHT_REVOKE)"
      by (rule bit_word_eqI) (auto simp: bit_simps)
    also have "\<dots> = 0" unfolding r(2) z by simp
    finally have "SCDK_RIGHT_REVOKE AND r = 0" by (simp only: and.commute)
    then show ?thesis by (simp only: bit.conj_disj_distrib2) simp
  qed
  show ?thesis
  proof (cases "rights AND r = r")
    case False
    then have "scdk_cap_check s' cap r SCDK_OBJ_GRANT = Inl SCDK_ERR_PERM" using e rr r(1) by (simp add: scdk_cap_check_def)
    with False show ?thesis by (simp add: scdk_validate_grant_access_def user_grant_lookup_def)
  next
    case True
    then have "scdk_cap_check s' cap r SCDK_OBJ_GRANT = Inr e" using e rr r(1) by (simp add: cap_check_Inr)
    then have "user_grant_lookup s' cap r True = Inr (PUserGrant i, ?u)"
      unfolding user_grant_lookup_Inr using e ob ug keep [OF created(10)] keep [OF created(11)] by (simp add: user_grant_view_def)
    then have v: "scdk_validate_grant_access s' cap off len r = check_grant_range ?u off len r"
      by (simp add: scdk_validate_grant_access_def)
    show ?thesis
    proof (cases "unat off + unat len \<le> unat n")
      case fits: True
      then show ?thesis using v True r check_grant_range_OK [of ?u off len r] by simp
    next
      case out: False
      then have "check_grant_range ?u off len r \<noteq> SCDK_OK" by (simp add: check_grant_range_OK)
      then have "check_grant_range ?u off len r = SCDK_ERR_BOUNDS" using True r by (auto simp: check_grant_range_def split: if_splits)
      then show ?thesis using v True out by simp
    qed
  qed
qed simp_all

lemma user_grant_lookup_Inl: "user_grant_lookup s cap r b \<noteq> Inl SCDK_OK"
proof -
  have "scdk_object_lookup s x \<noteq> Inl SCDK_OK" for x by (auto simp: scdk_object_lookup_def Let_def)
  then show ?thesis by (auto simp: user_grant_lookup_def cap_check_Inl_OK split: sum.splits option.splits)
qed

text \<open>
  (C10) Revoking a user grant is final: after \<^verbatim>\<open>scdk_user_grant_revoke\<close> succeeded, no access
  check, no copy and no second revocation through that capability succeeds any more,
  although the slot and its object are given to new grants, for the next
  \<open>2\<^sup>32 - 3\<close> capability operations.
\<close>

theorem user_grant_revoke_final:
  assumes inv: "user_grant_inv s" and c: "scdk_user_grant_revoke s cap = (SCDK_OK, s1)"
    and run: "cap_run n s1 s2" "Suc n < 2 ^ 32 - 1"
  shows "scdk_validate_grant_access s2 cap off len r \<in> {SCDK_ERR_INVAL, SCDK_ERR_NOENT} \<and>
    scdk_user_grant_copy_from s2 ep cap off dst len \<in> {Inl SCDK_ERR_INVAL, Inl SCDK_ERR_NOENT} \<and>
    scdk_user_grant_revoke s2 cap = (SCDK_ERR_NOENT, s2)"
proof -
  obtain p u where l: "user_grant_lookup s cap SCDK_RIGHT_REVOKE False = Inr (p, u)"
    using c user_grant_lookup_Inl [of s cap SCDK_RIGHT_REVOKE False]
    by (cases "user_grant_lookup s cap SCDK_RIGHT_REVOKE False") (auto simp: scdk_user_grant_revoke_def)
  obtain i where i: "p = PUserGrant i" by (rule ug_lookup_active [OF inv l])
  have r: "scdk_cap_revoke (set_grant_revoked s p) cap = (SCDK_OK, s1)" using c l by (simp add: scdk_user_grant_revoke_def)
  have "cap_inv (set_grant_revoked s p)" using user_grant_invD(1) [OF inv] by (simp add: set_grant_revoked_def i kern_invD(1))
  then have d: "scdk_cap_lookup s2 cap = Inl SCDK_ERR_NOENT" by (rule cap_run_revoked [OF _ r run])
  have "user_grant_lookup s2 cap q b \<in> {Inl SCDK_ERR_INVAL, Inl SCDK_ERR_NOENT}"
    "q \<noteq> 0 \<Longrightarrow> user_grant_lookup s2 cap q b = Inl SCDK_ERR_NOENT" for q b
    by (auto simp: user_grant_lookup_def scdk_cap_check_def d)
  from this(1) [of r True] this(2) [of SCDK_RIGHT_READ True] this(2) [of SCDK_RIGHT_REVOKE False] show ?thesis
    by (auto simp: scdk_validate_grant_access_def scdk_user_grant_copy_from_def scdk_user_grant_revoke_def kconst)
qed

lemma user_demo_grant_inv: "user_grant_inv user_demo"
  using user_demo_inv(1,2) by (simp add: user_grant_inv_def user_demo_inv(3,4) grant_active_def null_user_grant_def null_grant_slot_def)

text \<open>The task lends the first 64 bytes of its page to the service.\<close>

definition user_grant_demo :: user_state where
  "user_grant_demo = snd (bind_slot user_demo SCDK_OBJ_GRANT SCDK_BOOT_CORE (PUserGrant 0)
     (\<lambda>oid s. set_user_grant s 0 (new_user_grant oid 0x100000001 0x400000 64 SCDK_RIGHT_READ 0x100000000))
     (\<lambda>s. set_user_grant s 0 null_user_grant) (SCDK_RIGHT_READ OR SCDK_RIGHT_REVOKE))"

lemma user_grant_demo_create:
  "scdk_user_grant_create user_demo 0x100000001 0x400000 64 SCDK_RIGHT_READ 0x100000000 = (Inr 0x100000002, user_grant_demo)"
proof -
  let ?b = "bind_slot user_demo SCDK_OBJ_GRANT SCDK_BOOT_CORE (PUserGrant 0)
     (\<lambda>oid s. set_user_grant s 0 (new_user_grant oid 0x100000001 0x400000 64 SCDK_RIGHT_READ 0x100000000))
     (\<lambda>s. set_user_grant s 0 null_user_grant) (SCDK_RIGHT_READ OR SCDK_RIGHT_REVOKE)"
  obtain e1 e2 where "scdk_cap_check user_demo 0x100000001 SCDK_RIGHT_READ SCDK_OBJ_TASK = Inr e1"
    "scdk_cap_check user_demo 0x100000000 SCDK_RIGHT_SEND SCDK_OBJ_ENDPOINT = Inr e2"
    using user_demo_facts(3,4) cap_check_Inl_OK by (metis res_status.simps(1) sum.exhaust)
  moreover have "SCDK_RIGHT_READ AND NOT SCDK_USER_GRANT_RIGHTS_MASK = 0" "SCDK_RIGHT_READ \<noteq> 0" "0 < SCDK_MAX_USER_GRANTS"
    "ug_object_id null_user_grant = 0" by (simp_all add: kconst null_user_grant_def)
  moreover have "first_slot (\<lambda>i. ug_object_id (user_grants user_demo i) = 0 \<or> ug_revoked (user_grants user_demo i)) SCDK_MAX_USER_GRANTS = Some 0"
    using calculation(5,6) by (intro first_slot_hit) (simp_all add: user_demo_inv(3))
  ultimately have a: "scdk_user_grant_create user_demo 0x100000001 0x400000 64 SCDK_RIGHT_READ 0x100000000 = ?b"
    by (simp add: scdk_user_grant_create_def checked_user_range_def user_demo_page user_demo_inv(3) Let_def)
  have b: "fst ?b = Inr 0x100000002" by code_simp
  show ?thesis by (rule prod_eqI) (simp_all only: a b fst_conv snd_conv user_grant_demo_def)
qed

lemma user_grant_demo_mm: "mm user_grant_demo = mm user_demo"
  using user_demo_inv(1,2) user_grant_demo_create
  by (cases rule: ug_create_cases) (simp_all add: grant_minted_def)

theorem user_grant_copy_confined_witness:
  "scdk_user_grant_copy_from user_grant_demo 0x100000000 0x100000002 0 1 5 = Inr [0x68, 0x65, 0x6c, 0x6c, 0x6f] \<and>
   (\<exists>i. span (ug_user_base (user_grants user_grant_demo i)) 5 \<subseteq>
      span (ug_user_base (user_grants user_grant_demo i)) (ug_length (user_grants user_grant_demo i)))"
proof -
  have "scdk_user_validate_range user_grant_demo 0x400000 5 False = SCDK_OK"
    by (rule one_page_OK) (use user_demo_facts(2) in \<open>auto simp: kconst user_access_def user_grant_demo_mm split: sum.splits\<close>)
  moreover have "load_bytes user_demo 0x400000 5 = [0x68, 0x65, 0x6c, 0x6c, 0x6f]" by code_simp
  moreover have "load_bytes user_grant_demo a k = load_bytes user_demo a k" for a k
    by (induction k arbitrary: a) (simp_all add: load_byte_def user_grant_demo_mm split: sum.split)
  ultimately have "scdk_user_copy_from user_grant_demo 0x400000 5 = Inr [0x68, 0x65, 0x6c, 0x6c, 0x6f]" by (simp add: copy_from_Inr)
  moreover have "user_grant_lookup user_grant_demo 0x100000002 SCDK_RIGHT_READ True =
      Inr (PUserGrant 0, new_user_grant 0x100000002 0x100000001 0x400000 64 SCDK_RIGHT_READ 0x100000000)" by code_simp
  moreover have "check_grant_range (new_user_grant 0x100000002 0x100000001 0x400000 64 SCDK_RIGHT_READ 0x100000000) 0 5 SCDK_RIGHT_READ = SCDK_OK"
    by (simp add: check_grant_range_OK kconst)
  ultimately have c: "scdk_user_grant_copy_from user_grant_demo 0x100000000 0x100000002 0 1 5 = Inr [0x68, 0x65, 0x6c, 0x6c, 0x6f]"
    by (simp add: scdk_user_grant_copy_from_def)
  have "user_grant_inv user_grant_demo" by (rule ug_create_inv [OF user_demo_grant_inv user_grant_demo_create])
  from user_grant_copy_confined [OF this c] c show ?thesis by auto
qed

theorem user_grant_create_exact_witness:
  "scdk_validate_grant_access user_grant_demo 0x100000002 60 4 SCDK_RIGHT_READ = SCDK_OK \<and>
   scdk_validate_grant_access user_grant_demo 0x100000002 61 4 SCDK_RIGHT_READ = SCDK_ERR_BOUNDS \<and>
   scdk_validate_grant_access user_grant_demo 0x100000002 0 4 SCDK_RIGHT_WRITE = SCDK_ERR_PERM"
  using user_grant_create_exact [OF user_demo_grant_inv user_grant_demo_create, of SCDK_RIGHT_READ 4 60]
    user_grant_create_exact [OF user_demo_grant_inv user_grant_demo_create, of SCDK_RIGHT_READ 4 61]
    user_grant_create_exact [OF user_demo_grant_inv user_grant_demo_create, of SCDK_RIGHT_WRITE 4 0]
  by (simp add: kconst)

theorem user_grant_revoke_final_witness:
  "\<exists>s1. scdk_user_grant_revoke user_grant_demo 0x100000002 = (SCDK_OK, s1) \<and>
     scdk_user_grant_revoke s1 0x100000002 = (SCDK_ERR_NOENT, s1)"
proof -
  have "fst (scdk_user_grant_revoke user_grant_demo 0x100000002) = SCDK_OK" by code_simp
  then obtain s1 where r: "scdk_user_grant_revoke user_grant_demo 0x100000002 = (SCDK_OK, s1)" by (metis prod.collapse)
  have "user_grant_inv user_grant_demo" by (rule ug_create_inv [OF user_demo_grant_inv user_grant_demo_create])
  from user_grant_revoke_final [OF this r run_refl] r show ?thesis by simp
qed

end
