(* ===== verification/SCDK_UserRing.thy ===== *)
theory SCDK_UserRing
  imports SCDK_UserGrant
begin

text \<open>
  User rings (\<^verbatim>\<open>core/user_ring.c\<close>): a table that records which task owns which ring, and the
  system-call helpers that copy batches of descriptors and completions between
  user memory and the ring.
\<close>

section \<open>State\<close>

definition SCDK_MAX_USER_RINGS :: nat where [kconst]: "SCDK_MAX_USER_RINGS = 64"

record scdk_user_ring_slot =
  ur_in_use :: bool
  ur_source_task :: u64
  ur_ring_cap :: u64
  ur_target_endpoint :: u64

record user_ring_state = user_state +
  user_rings :: "nat \<Rightarrow> scdk_user_ring_slot"

abbreviation set_user_ring :: "'a user_ring_state_scheme \<Rightarrow> nat \<Rightarrow> scdk_user_ring_slot \<Rightarrow> 'a user_ring_state_scheme" where
  "set_user_ring s i u \<equiv> s\<lparr>user_rings := (user_rings s)(i := u)\<rparr>"

text \<open>The structures as they lie in user memory: six and four 64-bit words.\<close>

definition desc_size :: u64 where [kconst]: "desc_size = 48"
definition completion_size :: u64 where [kconst]: "completion_size = 32"

definition desc_of_bytes :: "u8 list \<Rightarrow> scdk_ring_desc" where
  "desc_of_bytes bs = \<lparr>rd_op = le_words bs 0, rd_cap = le_words bs 1, rd_grant = le_words bs 2, rd_offset = le_words bs 3,
     rd_length = le_words bs 4, rd_flags = le_words bs 5\<rparr>"

definition completion_bytes :: "scdk_completion \<Rightarrow> u8 list" where
  "completion_bytes c = concat (map le_bytes [rc_op c, rc_status c, rc_result0 c, rc_result1 c])"

section \<open>Operations\<close>

definition validate_count :: "u32 \<Rightarrow> scdk_status" where
  "validate_count count = (if count = 0 \<or> count > SCDK_RING_MAX_ENTRIES then SCDK_ERR_BOUNDS else SCDK_OK)"

text \<open>The result is the index of the slot.\<close>

definition user_ring_slot_for :: "'a user_ring_state_scheme \<Rightarrow> u64 \<Rightarrow> u64 \<Rightarrow> nat res" where
  "user_ring_slot_for s source_task ring_cap =
     (if source_task = 0 \<or> ring_cap = 0 then Inl SCDK_ERR_INVAL
      else case scdk_cap_check s source_task SCDK_RIGHT_READ SCDK_OBJ_TASK of
        Inl e \<Rightarrow> Inl e
      | Inr _ \<Rightarrow>
          (case scdk_cap_check s ring_cap SCDK_RIGHT_READ SCDK_OBJ_RING of
             Inl e \<Rightarrow> Inl e
           | Inr _ \<Rightarrow>
               (case first_slot (\<lambda>i. ur_in_use (user_rings s i) \<and> ur_source_task (user_rings s i) = source_task \<and>
                       ur_ring_cap (user_rings s i) = ring_cap) SCDK_MAX_USER_RINGS of
                  None \<Rightarrow> Inl SCDK_ERR_NOENT
                | Some i \<Rightarrow> Inr i)))"

definition scdk_user_ring_create :: "'a user_ring_state_scheme \<Rightarrow> u64 \<Rightarrow> u32 \<Rightarrow> u64 res \<times> 'a user_ring_state_scheme" where
  "scdk_user_ring_create s source_task n =
     (if source_task = 0 then (Inl SCDK_ERR_INVAL, s)
      else if validate_count n \<noteq> SCDK_OK then (Inl (validate_count n), s)
      else case scdk_cap_check s source_task SCDK_RIGHT_READ SCDK_OBJ_TASK of
        Inl e \<Rightarrow> (Inl e, s)
      | Inr _ \<Rightarrow>
          (case first_slot (\<lambda>i. \<not> ur_in_use (user_rings s i)) SCDK_MAX_USER_RINGS of
             None \<Rightarrow> (Inl SCDK_ERR_NOMEM, s)
           | Some i \<Rightarrow>
               (case scdk_ring_create s SCDK_BOOT_CORE n 0 of
                  (Inl e, s1) \<Rightarrow> (Inl e, s1)
                | (Inr ring, s1) \<Rightarrow>
                    (Inr ring, set_user_ring s1 i \<lparr>ur_in_use = True, ur_source_task = source_task, ur_ring_cap = ring,
                       ur_target_endpoint = 0\<rparr>))))"

definition scdk_user_ring_bind :: "'a user_ring_state_scheme \<Rightarrow> u64 \<Rightarrow> u64 \<Rightarrow> u64 \<Rightarrow> scdk_status \<times> 'a user_ring_state_scheme" where
  "scdk_user_ring_bind s source_task ring_cap target_endpoint =
     (if target_endpoint = 0 then (SCDK_ERR_INVAL, s)
      else case user_ring_slot_for s source_task ring_cap of
        Inl e \<Rightarrow> (e, s)
      | Inr i \<Rightarrow>
          (case scdk_ring_bind_target s ring_cap target_endpoint of
             (status, s1) \<Rightarrow>
               if status \<noteq> SCDK_OK then (status, s1)
               else (SCDK_OK, set_user_ring s1 i ((user_rings s1 i)\<lparr>ur_target_endpoint := target_endpoint\<rparr>))))"

text \<open>The checks \<^verbatim>\<open>submit\<close> and \<^verbatim>\<open>poll\<close> share: the owner's slot, its target, and that the target is alive.\<close>

definition user_ring_target :: "'a user_ring_state_scheme \<Rightarrow> u64 \<Rightarrow> u64 \<Rightarrow> u64 res" where
  "user_ring_target s source_task ring_cap =
     (case user_ring_slot_for s source_task ring_cap of
        Inl e \<Rightarrow> Inl e
      | Inr i \<Rightarrow>
          (let target_endpoint = ur_target_endpoint (user_rings s i)
           in if target_endpoint = 0 then Inl SCDK_ERR_BUSY
              else case scdk_cap_check s target_endpoint SCDK_RIGHT_SEND SCDK_OBJ_ENDPOINT of
                Inl e \<Rightarrow> Inl e | Inr _ \<Rightarrow> Inr target_endpoint))"

text \<open>The loop over the descriptors; \<open>n\<close> are left, the next one is at \<open>user_desc\<close>.\<close>

fun submit_batch :: "'a user_ring_state_scheme \<Rightarrow> u64 \<Rightarrow> u64 \<Rightarrow> nat \<Rightarrow> scdk_status \<times> 'a user_ring_state_scheme" where
  "submit_batch s ring_cap user_desc 0 = (SCDK_OK, s)"
| "submit_batch s ring_cap user_desc (Suc n) =
     (case scdk_user_copy_from s user_desc desc_size of
        Inl e \<Rightarrow> (e, s)
      | Inr bs \<Rightarrow>
          (case scdk_ring_submit s ring_cap (desc_of_bytes bs) of
             (status, s1) \<Rightarrow>
               if status \<noteq> SCDK_OK then (status, s1) else submit_batch s1 ring_cap (user_desc + desc_size) n))"

definition scdk_user_ring_submit ::
  "'a user_ring_state_scheme run_handler \<Rightarrow> 'a user_ring_state_scheme \<Rightarrow> u64 \<Rightarrow> u64 \<Rightarrow> u64 \<Rightarrow> u32
     \<Rightarrow> scdk_status \<times> 'a user_ring_state_scheme"
where
  "scdk_user_ring_submit run s source_task ring_cap user_descs count =
     (if validate_count count \<noteq> SCDK_OK then (validate_count count, s)
      else if user_descs = 0 then (SCDK_ERR_INVAL, s)
      else case user_ring_target s source_task ring_cap of
        Inl e \<Rightarrow> (e, s)
      | Inr target_endpoint \<Rightarrow>
          (let status = scdk_user_validate_range s user_descs (desc_size * ucast count) False
           in if status \<noteq> SCDK_OK then (status, s)
              else case submit_batch s ring_cap user_descs (unat count) of
                (status, s1) \<Rightarrow>
                  if status \<noteq> SCDK_OK then (status, s1)
                  else case scdk_endpoint_call run s1 target_endpoint
                      ((scdk_message_init source_task 0 SCDK_MSG_RING_PROCESS)\<lparr>arg0 := ring_cap, arg1 := ucast count\<rparr>) of
                    (status, msg, s2) \<Rightarrow> (status, s2)))"

text \<open>The loop over the completions: \<open>n\<close> may still be polled. The result counts the polled ones.\<close>

fun poll_batch :: "'a user_ring_state_scheme \<Rightarrow> u64 \<Rightarrow> u64 \<Rightarrow> nat \<Rightarrow> u32 \<Rightarrow> u32 res \<times> 'a user_ring_state_scheme" where
  "poll_batch s ring_cap user_completion 0 polled = (Inr polled, s)"
| "poll_batch s ring_cap user_completion (Suc n) polled =
     (case scdk_ring_poll s ring_cap of
        (Inl e, s1) \<Rightarrow> (if e = SCDK_ERR_NOENT then Inr polled else Inl e, s1)
      | (Inr completion, s1) \<Rightarrow>
          (case scdk_user_copy_to s1 user_completion (completion_bytes completion) of
             (status, s2) \<Rightarrow>
               if status \<noteq> SCDK_OK then (Inl status, s2)
               else poll_batch s2 ring_cap (user_completion + completion_size) n (polled + 1)))"

definition scdk_user_ring_poll ::
  "'a user_ring_state_scheme \<Rightarrow> u64 \<Rightarrow> u64 \<Rightarrow> u64 \<Rightarrow> u32 \<Rightarrow> u32 res \<times> 'a user_ring_state_scheme"
where
  "scdk_user_ring_poll s source_task ring_cap user_completions max_count =
     (if validate_count max_count \<noteq> SCDK_OK then (Inl (validate_count max_count), s)
      else if user_completions = 0 then (Inl SCDK_ERR_INVAL, s)
      else case user_ring_target s source_task ring_cap of
        Inl e \<Rightarrow> (Inl e, s)
      | Inr target_endpoint \<Rightarrow>
          (let status = scdk_user_validate_range s user_completions (completion_size * ucast max_count) True
           in if status \<noteq> SCDK_OK then (Inl status, s)
              else poll_batch s ring_cap user_completions (unat max_count) 0))"

section \<open>Submitting a batch\<close>

lemma user_ring_upd [simp]:
  "scdk_object_lookup (s\<lparr>user_rings := x\<rparr>) = scdk_object_lookup s"
  "scdk_cap_lookup (s\<lparr>user_rings := x\<rparr>) = scdk_cap_lookup s"
  "scdk_cap_check (s\<lparr>user_rings := x\<rparr>) = scdk_cap_check s"
  "kern_inv (s\<lparr>user_rings := x\<rparr>) = kern_inv s"
  by (rule frame_rules; simp)+

definition descs_at :: "'a user_state_scheme \<Rightarrow> u64 \<Rightarrow> nat \<Rightarrow> scdk_ring_desc list" where
  "descs_at s p n = map (\<lambda>k. desc_of_bytes (load_bytes s (p + of_nat k * desc_size) 48)) [0..<n]"

lemma descs_at_length [simp]: "length (descs_at s p n) = n" by (simp add: descs_at_def)

lemma descs_at_Suc: "descs_at s p (Suc n) = desc_of_bytes (load_bytes s p 48) # descs_at s (p + desc_size) n"
proof -
  have "[0..<Suc n] = 0 # map Suc [0..<n]" by (simp add: map_Suc_upt upt_conv_Cons)
  then show ?thesis by (simp only: descs_at_def list.map map_map) (simp add: distrib_right algebra_simps)
qed

lemma load_bytes_cong: "mm t = mm s \<Longrightarrow> load_bytes t p n = load_bytes s p n"
  by (induction n arbitrary: p) (simp_all add: load_byte_def split: sum.split)

lemma descs_at_cong: "mm t = mm s \<Longrightarrow> descs_at t p n = descs_at s p n"
  by (simp add: descs_at_def load_bytes_cong [of t s])

lemma copy_from_cong:
  assumes "mm t = mm s"
  shows "scdk_user_copy_from t p n = scdk_user_copy_from s p n"
  by (simp add: scdk_user_copy_from_def validate_range_cong [OF assms] load_bytes_cong [OF assms] Let_def)

text \<open>A part of an accepted range is accepted.\<close>

lemma validate_range_sub:
  assumes "scdk_user_validate_range s p n wr = SCDK_OK" and "unat a + unat m \<le> unat n" "m \<noteq> 0"
  shows "scdk_user_validate_range s (p + a) m wr = SCDK_OK"
proof -
  have b: "unat SCDK_USER_VIRT_BASE \<le> unat p" "unat p + unat n \<le> unat SCDK_USER_VIRT_TOP"
    "\<forall>x\<in>span p n. user_access s wr (of_nat x)" using assms(1) unfolding validate_range_OK by blast+
  have "unat p + unat a < 2 ^ 64" using b(2) assms(2,3) by (simp add: kconst)
  then have u: "unat (p + a) = unat p + unat a" by (simp add: unat_word_ariths)
  have "span (p + a) m \<subseteq> span p n" using assms(2) u by auto
  then show ?thesis using b assms u unfolding validate_range_OK by auto
qed

lemma ring_submit_mm: "scdk_ring_submit s cap d = (st, s') \<Longrightarrow> mm s' = mm s"
  by (auto simp: scdk_ring_submit_def split: sum.splits option.splits)

lemma submit_step:
  assumes "ring_session w r i s"
  shows "if length (sq_items (ring_at s i)) < unat (entries (ring_at s i))
    then \<exists>s'. scdk_ring_submit s w d = (SCDK_OK, s') \<and> ring_session w r i s' \<and> entries (ring_at s' i) = entries (ring_at s i) \<and>
       sq_items (ring_at s' i) = sq_items (ring_at s i) @ [d]
    else scdk_ring_submit s w d = (SCDK_ERR_BUSY, s)"
proof -
  have l: "ring_lookup s w SCDK_RIGHT_WRITE = Inr i" using assms by (simp add: ring_session_def)
  note f = ksubmit.len [OF assms] ksubmit.enq_full [OF assms, of d] ksubmit.enq_ok [OF assms, of d]
  show ?thesis
  proof (cases "sq_push (ring_at s i) d")
    case None
    then show ?thesis using f(1,2) l by (simp add: scdk_ring_submit_def submit_op_def)
  next
    case (Some t)
    then have "submit_op w s d = Some (set_ring s i t)" "scdk_ring_submit s w d = (SCDK_OK, set_ring s i t)"
      using l by (simp_all add: scdk_ring_submit_def submit_op_def)
    moreover from this f(3) have "unat (entries t) = unat (entries (ring_at s i))" by simp
    then have "entries t = entries (ring_at s i)" by (simp only: word_unat_eq_iff)
    ultimately show ?thesis using f by (auto simp: le_less)
  qed
qed

lemma submit_batch_exact:
  assumes "ring_session w r i s" and "\<forall>k<n. scdk_user_validate_range s (p + of_nat k * desc_size) desc_size False = SCDK_OK"
    and c: "room = unat (entries (ring_at s i)) - length (sq_items (ring_at s i))"
  shows "\<exists>s'. submit_batch s w p n = (if n \<le> room then SCDK_OK else SCDK_ERR_BUSY, s') \<and> mm s' = mm s \<and> ring_session w r i s' \<and>
     sq_items (ring_at s' i) = sq_items (ring_at s i) @ take room (descs_at s p n) \<and> scdk_cap_check s' = scdk_cap_check s"
  using assms
proof (induction n arbitrary: s p room)
  case 0
  then show ?case by (intro exI [of _ s]) (simp add: descs_at_def)
next
  case (Suc n)
  have cp: "scdk_user_copy_from s p desc_size = Inr (load_bytes s p 48)"
    using Suc.prems(2) by (auto simp: copy_from_Inr desc_size_def dest!: spec [of _ 0])
  let ?d = "desc_of_bytes (load_bytes s p 48)"
  note st = submit_step [OF Suc.prems(1), of ?d]
  show ?case
  proof (cases "length (sq_items (ring_at s i)) < unat (entries (ring_at s i))")
    case False
    then have "scdk_ring_submit s w ?d = (SCDK_ERR_BUSY, s)" "room = 0" using st Suc.prems(3) by auto
    then show ?thesis using cp Suc.prems(1) by simp
  next
    case True
    then obtain s1 where s1: "scdk_ring_submit s w ?d = (SCDK_OK, s1)" "ring_session w r i s1" "entries (ring_at s1 i) = entries (ring_at s i)"
      "sq_items (ring_at s1 i) = sq_items (ring_at s i) @ [?d]" using st by auto
    have m: "mm s1 = mm s" by (rule ring_submit_mm [OF s1(1)])
    have cc: "scdk_cap_check s1 = scdk_cap_check s" using s1(1) by (auto simp: scdk_ring_submit_def split: sum.splits option.splits)
    have "\<forall>k<n. scdk_user_validate_range s1 (p + desc_size + of_nat k * desc_size) desc_size False = SCDK_OK"
    proof (intro allI impI)
      fix k assume "k < n"
      with Suc.prems(2) have "scdk_user_validate_range s (p + of_nat (Suc k) * desc_size) desc_size False = SCDK_OK" by blast
      then show "scdk_user_validate_range s1 (p + desc_size + of_nat k * desc_size) desc_size False = SCDK_OK"
        by (simp add: validate_range_cong [OF m] algebra_simps)
    qed
    from Suc.IH [OF s1(2) this refl] obtain s2 where s2:
      "submit_batch s1 w (p + desc_size) n = (if n \<le> room - 1 then SCDK_OK else SCDK_ERR_BUSY, s2)" "mm s2 = mm s1" "ring_session w r i s2"
      "sq_items (ring_at s2 i) = sq_items (ring_at s1 i) @ take (room - 1) (descs_at s1 (p + desc_size) n)" "scdk_cap_check s2 = scdk_cap_check s1"
      using s1(3,4) Suc.prems(3) by auto
    have r: "room = Suc (room - 1)" using True Suc.prems(3) by simp
    have "take room (descs_at s p (Suc n)) = ?d # take (room - 1) (descs_at s (p + desc_size) n)"
      by (subst r) (simp add: descs_at_Suc)
    moreover have "Suc n \<le> room \<longleftrightarrow> n \<le> room - 1" using r by linarith
    ultimately show ?thesis using s1 s2 cp m cc by (simp add: descs_at_cong [OF m])
  qed
qed


lemma batch_ranges:
  assumes v: "scdk_user_validate_range s p (desc_size * ucast (count :: u32)) False = SCDK_OK" and c: "validate_count count = SCDK_OK"
  shows "\<forall>k<unat count. scdk_user_validate_range s (p + of_nat k * desc_size) desc_size False = SCDK_OK"
proof (intro allI impI)
  fix k assume k: "k < unat count"
  have cb: "unat count \<le> 64" using c by (auto simp: validate_count_def kconst word_le_nat_alt not_less split: if_splits)
  have n: "unat (desc_size * ucast count) = 48 * unat count"
  proof -
    have "unat (ucast count :: u64) = unat count" using unat_u32_less [of count] by (simp add: unsigned_ucast_eq take_bit_nat_eq_self)
    then show ?thesis using cb by (simp add: desc_size_def unat_word_ariths)
  qed
  have "unat (of_nat k * desc_size) = 48 * k"
    using k cb by (simp add: desc_size_def unat_word_ariths unsigned_of_nat take_bit_nat_eq_self)
  then show "scdk_user_validate_range s (p + of_nat k * desc_size) desc_size False = SCDK_OK"
    using k n by (intro validate_range_sub [OF v]) (simp_all add: desc_size_def)
qed

section \<open>Properties\<close>

text \<open>
  (C14) A batch submitted through the system call reaches the ring in order: when the owner
  of a ring (of a size that divides \<open>2\<^sup>32\<close>) submits \<^verbatim>\<open>count\<close> descriptors from readable
  user memory, exactly as many of them as fit are appended, in the order in which
  they lie in user memory; the bound endpoint is called when all of them fitted,
  and otherwise the call returns \<^verbatim>\<open>SCDK_ERR_BUSY\<close> with the first ones queued.
\<close>

theorem user_ring_submit_exact:
  assumes "ring_session ring r i s" and t: "user_ring_target s task ring = Inr ep"
    and c: "validate_count count = SCDK_OK" "p \<noteq> 0" and v: "scdk_user_validate_range s p (desc_size * ucast count) False = SCDK_OK"
    and room: "room = unat (entries (ring_at s i)) - length (sq_items (ring_at s i))"
  shows "\<exists>s1. sq_items (ring_at s1 i) = sq_items (ring_at s i) @ take room (descs_at s p (unat count)) \<and>
     mm s1 = mm s \<and> scdk_cap_check s1 = scdk_cap_check s \<and> ring_session ring r i s1 \<and>
     scdk_user_ring_submit run s task ring p count =
       (if unat count \<le> room
        then (case scdk_endpoint_call run s1 ep
                ((scdk_message_init task 0 SCDK_MSG_RING_PROCESS)\<lparr>arg0 := ring, arg1 := ucast count\<rparr>) of (status, m, s2) \<Rightarrow> (status, s2))
        else (SCDK_ERR_BUSY, s1))"
proof -
  obtain s1 where s1: "submit_batch s ring p (unat count) = (if unat count \<le> room then SCDK_OK else SCDK_ERR_BUSY, s1)" "mm s1 = mm s"
    "ring_session ring r i s1" "sq_items (ring_at s1 i) = sq_items (ring_at s i) @ take room (descs_at s p (unat count))"
    "scdk_cap_check s1 = scdk_cap_check s"
    using submit_batch_exact [OF assms(1) batch_ranges [OF v c(1)] room] by blast
  then show ?thesis
    by (intro exI [of _ s1]) (simp add: scdk_user_ring_submit_def c t v)
qed


text \<open>The task of the concrete system, with a ring of two entries bound to the service.\<close>

definition user_ring_demo :: user_ring_state where
  "user_ring_demo = (let ob = (\<lambda>i ty p. \<lparr>obj_id = 0x100000000 + of_nat i, obj_type = ty, obj_generation = 1, obj_owner_core = 0,
         obj_flags = 0, obj_payload = p\<rparr>);
       cp = (\<lambda>i ty r. \<lparr>ce_object_id = 0x100000000 + of_nat i, ce_generation = 1, ce_object_type = ty, ce_revoked = 0, ce_rights = r\<rparr>)
     in user_state.extend (user_boot
       \<lparr>object_table := (\<lambda>_. null_object)(0 := ob 0 SCDK_OBJ_ENDPOINT (PEndpoint 0), 1 := ob 1 SCDK_OBJ_TASK (PTask 0),
          2 := ob 2 SCDK_OBJ_RING (PRing 0)),
        cap_table := (\<lambda>_. null_cap_entry)(0 := cp 0 SCDK_OBJ_ENDPOINT SCDK_RIGHT_SEND, 1 := cp 1 SCDK_OBJ_TASK SCDK_RIGHT_READ,
          2 := cp 2 SCDK_OBJ_RING (SCDK_RIGHT_READ OR SCDK_RIGHT_WRITE OR SCDK_RIGHT_BIND)),
        cap_generations := (\<lambda>i. if i < 3 then 1 else 0),
        endpoint_table := (\<lambda>_. null_endpoint)(0 := \<lparr>ep_object_id = 0x100000000, ep_handler = Some HConsole, ep_context = 0\<rparr>),
        ring_table := (\<lambda>_. null_ring_slot)(0 := \<lparr>rs_object_id = 0x100000002, rs_ring = \<lparr>entries = 2, submit_head = 0, submit_tail = 0,
          complete_head = 0, complete_tail = 0, sq = (\<lambda>_. null_desc), cq = (\<lambda>_. null_completion), bound_target = 0x100000000\<rparr>\<rparr>)\<rparr>)
       \<lparr>user_rings = (\<lambda>i. \<lparr>ur_in_use = (i = 0), ur_source_task = 0x100000001, ur_ring_cap = 0x100000002,
          ur_target_endpoint = 0x100000000\<rparr>)\<rparr>)"

lemma user_ring_demo_facts:
  "user_ring_target user_ring_demo 0x100000001 0x100000002 = Inr 0x100000000"
  "user_access user_ring_demo False 0x400000"
  "ring_lookup user_ring_demo 0x100000002 SCDK_RIGHT_WRITE = Inr 0"
  "ring_lookup user_ring_demo 0x100000002 SCDK_RIGHT_READ = Inr 0"
  "(entries (ring_at user_ring_demo 0), submit_head (ring_at user_ring_demo 0), submit_tail (ring_at user_ring_demo 0),
    complete_head (ring_at user_ring_demo 0), complete_tail (ring_at user_ring_demo 0)) = (2, 0, 0, 0, 0)"
  by code_simp+

theorem user_ring_submit_exact_witness:
  "\<exists>s1. sq_items (ring_at s1 0) = descs_at user_ring_demo 0x400000 1 \<and>
     scdk_user_ring_submit (\<lambda>h ep m c s. (SCDK_ERR_PERM, m, s)) user_ring_demo 0x100000001 0x100000002 0x400000 1 =
       (case scdk_endpoint_call (\<lambda>h ep m c s. (SCDK_ERR_PERM, m, s)) s1 0x100000000
          ((scdk_message_init 0x100000001 0 SCDK_MSG_RING_PROCESS)\<lparr>arg0 := 0x100000002, arg1 := 1\<rparr>) of (status, m, s2) \<Rightarrow> (status, s2))"
proof -
  note f = user_ring_demo_facts
  let ?run = "\<lambda>h ep m c s. (SCDK_ERR_PERM, m, s)"
  have a: "ring_session 0x100000002 0x100000002 0 user_ring_demo"
    using f(3-5) by (simp add: ring_session_def pow2_ring_def ring_ok_def rb_ok_def SCDK_RING_MAX_ENTRIES_def)
  have b: "validate_count 1 = SCDK_OK" by (simp add: validate_count_def kconst)
  have c: "scdk_user_validate_range user_ring_demo 0x400000 (desc_size * ucast (1 :: u32)) False = SCDK_OK"
    by (rule one_page_OK) (use f(2) in \<open>simp_all add: kconst\<close>)
  have e: "sq_items (ring_at user_ring_demo 0) = []" "unat (entries (ring_at user_ring_demo 0)) = 2"
    using f(5) by (simp_all add: sq_items_def rb_items_def)
  have room: "2 = unat (entries (ring_at user_ring_demo 0)) - length (sq_items (ring_at user_ring_demo 0))" by (simp add: e)
  have nz: "(0x400000 :: u64) \<noteq> 0" by simp
  from user_ring_submit_exact [OF a f(1) b nz c room, of ?run] obtain s1 where
    "sq_items (ring_at s1 0) = [] @ take 2 (descs_at user_ring_demo 0x400000 (unat (1 :: u32)))"
    "scdk_user_ring_submit ?run user_ring_demo 0x100000001 0x100000002 0x400000 1 =
      (if unat (1 :: u32) \<le> 2 then (case scdk_endpoint_call ?run s1 0x100000000
          ((scdk_message_init 0x100000001 0 SCDK_MSG_RING_PROCESS)\<lparr>arg0 := 0x100000002, arg1 := ucast (1 :: u32)\<rparr>) of (status, m, s2) \<Rightarrow> (status, s2))
       else (SCDK_ERR_BUSY, s1))" unfolding e by blast
  then show ?thesis by (intro exI [of _ s1]) simp
qed

end
