(* ===== verification/SCDK_Syscall.thy ===== *)
theory SCDK_Syscall
  imports SCDK_UserRing
begin


record scdk_syscall_task_state =
  ss_kernel_stack_top :: u64
  ss_user_rsp :: u64
  ss_user_rip :: u64
  ss_user_rflags :: u64
  ss_arg0 :: u64
  ss_arg1 :: u64
  ss_arg2 :: u64
  ss_arg3 :: u64
  ss_return_value :: u64
  ss_user_return_rsp :: u64
  ss_user_return_rip :: u64
  ss_user_exited :: bool
  ss_endpoint_call_passed :: bool
  ss_user_faulted :: bool
  ss_user_fault_status :: scdk_status

section \<open>Operations\<close>

definition scdk_syscall_reset_task_state :: "'a user_state_scheme \<Rightarrow> 'a user_state_scheme" where
  "scdk_syscall_reset_task_state s =
     s\<lparr>user_exited := False, endpoint_call_passed := False, user_faulted := False, user_fault_status := SCDK_OK,
       scdk_syscall_return_value := status_word SCDK_OK\<rparr>"

definition scdk_syscall_save_task_state :: "'a user_state_scheme \<Rightarrow> scdk_syscall_task_state" where
  "scdk_syscall_save_task_state s =
     \<lparr>ss_kernel_stack_top = scdk_syscall_kernel_stack_top s, ss_user_rsp = scdk_syscall_user_rsp s,
      ss_user_rip = scdk_syscall_user_rip s, ss_user_rflags = scdk_syscall_user_rflags s, ss_arg0 = scdk_syscall_arg0 s,
      ss_arg1 = scdk_syscall_arg1 s, ss_arg2 = scdk_syscall_arg2 s, ss_arg3 = scdk_syscall_arg3 s,
      ss_return_value = scdk_syscall_return_value s, ss_user_return_rsp = scdk_user_return_rsp s,
      ss_user_return_rip = scdk_user_return_rip s, ss_user_exited = user_exited s,
      ss_endpoint_call_passed = endpoint_call_passed s, ss_user_faulted = user_faulted s,
      ss_user_fault_status = user_fault_status s\<rparr>"

definition scdk_syscall_restore_task_state :: "'a user_state_scheme \<Rightarrow> scdk_syscall_task_state \<Rightarrow> 'a user_state_scheme" where
  "scdk_syscall_restore_task_state s st =
     s\<lparr>scdk_syscall_kernel_stack_top := ss_kernel_stack_top st, scdk_syscall_user_rsp := ss_user_rsp st,
       scdk_syscall_user_rip := ss_user_rip st, scdk_syscall_user_rflags := ss_user_rflags st,
       scdk_syscall_arg0 := ss_arg0 st, scdk_syscall_arg1 := ss_arg1 st, scdk_syscall_arg2 := ss_arg2 st,
       scdk_syscall_arg3 := ss_arg3 st, scdk_syscall_return_value := ss_return_value st,
       scdk_user_return_rsp := ss_user_return_rsp st, scdk_user_return_rip := ss_user_return_rip st,
       user_exited := ss_user_exited st, endpoint_call_passed := ss_endpoint_call_passed st,
       user_faulted := ss_user_faulted st, user_fault_status := ss_user_fault_status st\<rparr>"

text \<open>The state part of \<^verbatim>\<open>scdk_syscall_init\<close>; the writes to the model-specific registers are not modelled.\<close>

definition scdk_syscall_init :: "'a user_state_scheme \<Rightarrow> u64 \<Rightarrow> scdk_status \<times> 'a user_state_scheme" where
  "scdk_syscall_init s kernel_stack_top =
     (if kernel_stack_top = 0 \<or> kernel_stack_top AND 0xf \<noteq> 0 then (SCDK_ERR_INVAL, s)
      else (SCDK_OK, (scdk_syscall_reset_task_state (s\<lparr>scdk_syscall_kernel_stack_top := kernel_stack_top\<rparr>))\<lparr>syscall_initialized := True\<rparr>))"




section \<open>The object tables across a system call\<close>

text \<open>
  \<open>kernel_types\<close>: every object id stored in an endpoint, ring or grant slot designates an
  object of that type which points back at the slot, every live capability
  designates a live object of its type, and the rings and user grants are well formed.
\<close>

definition kernel_types :: "'a grant_state_scheme \<Rightarrow> bool" where
  "kernel_types s \<longleftrightarrow> ep_inv s \<and> ring_inv s \<and> user_grant_inv s"

definition tables where
  "tables s = (object_table s, object_generations s, cap_table s, cap_generations s, endpoint_table s, service_table s,
     ring_table s, grant_table s, user_grants s)"

lemma kernel_types_frame:
  fixes s s' :: "'a grant_state_scheme"
  assumes "tables s' = tables s" and "kernel_types s"
  shows "kernel_types s'"
proof -
  have e: "object_table s' = object_table s" "object_generations s' = object_generations s" "cap_table s' = cap_table s"
    "cap_generations s' = cap_generations s" "endpoint_table s' = endpoint_table s" "service_table s' = service_table s"
    "ring_table s' = ring_table s" "grant_table s' = grant_table s" "user_grants s' = user_grants s"
    using assms(1) by (simp_all add: tables_def)
  have i: "kern_inv s" "ep_inv s" "ring_inv s" "user_grant_inv s" using assms(2) by (simp_all add: kernel_types_def user_grant_invD(1))
  have kh: "khist s s'" by (rule kh_other [OF kh_refl e(1-4)])
  have "grant_inv s'" by (rule grant_inv_khist [OF kh i(1) _ e(8,9)]) (rule user_grant_invD(2) [OF i(4)])
  then have "user_grant_inv s'"
    using i(4) khist_inv [OF kh i(1)] by (simp add: user_grant_inv_def e(8,9))
  then show ?thesis
    using ep_inv_khist [OF kh i(1,2) e(5,6)] ring_inv_khist [OF kh i(1,3) e(7)] by (simp add: kernel_types_def)
qed


lemma tables_upd [simp]:
  "tables (s1\<lparr>mm := x1\<rparr>) = tables s1" "tables (s2\<lparr>task_table := x2\<rparr>) = tables s2" "tables (s3\<lparr>thread_table := x3\<rparr>) = tables s3"
  "tables (s4\<lparr>run_queues := x4\<rparr>) = tables s4" "tables (s5\<lparr>current_thread_slot := x5\<rparr>) = tables s5"
  "tables (s6\<lparr>current_task := x6\<rparr>) = tables s6" "tables (s7\<lparr>current_thread := x7\<rparr>) = tables s7" "tables (s8\<lparr>cpu := x8\<rparr>) = tables s8"
  "tables (s9\<lparr>user_tasks := x9\<rparr>) = tables s9" "tables (s10\<lparr>user_threads := x10\<rparr>) = tables s10" "tables (s11\<lparr>kmem := x11\<rparr>) = tables s11"
  "tables (s12\<lparr>scdk_syscall_return_value := x12\<rparr>) = tables s12" "tables (s13\<lparr>user_exited := x13\<rparr>) = tables s13"
  "tables (s14\<lparr>endpoint_call_passed := x14\<rparr>) = tables s14" "tables (s15\<lparr>user_faulted := x15\<rparr>) = tables s15"
  "tables (s16\<lparr>user_fault_status := x16\<rparr>) = tables s16" "tables (s17\<lparr>saw_bad_user_pointer := x17\<rparr>) = tables s17"
  "tables (s18\<lparr>saw_invalid_syscall := x18\<rparr>) = tables s18" "tables (s19\<lparr>user_rings := x19\<rparr>) = tables s19"
  by (simp_all add: tables_def)























lemma flag_types [simp]:
  "kernel_types (s\<lparr>scdk_syscall_return_value := v\<rparr>) = kernel_types s" "kernel_types (s\<lparr>endpoint_call_passed := b\<rparr>) = kernel_types s"
  "kernel_types (s\<lparr>user_exited := b\<rparr>) = kernel_types s"
  by (rule iffI; erule kernel_types_frame [rotated]; simp)+


section \<open>Properties\<close>


text \<open>The state after a fault of the task in slot \<open>i\<close>: that task is dead, nothing else has changed.\<close>

definition contained :: "'a user_state_scheme \<Rightarrow> nat \<Rightarrow> scdk_status \<Rightarrow> 'a user_state_scheme \<Rightarrow> bool" where
  "contained s i st s' \<longleftrightarrow> tables s' = tables s \<and> mm s' = mm s \<and> kmem s' = kmem s \<and>
     user_tasks s' = (user_tasks s)(i := (user_tasks s i)\<lparr>ut_exit_status := ucast (status_word st), ut_state := SCDK_TASK_DEAD\<rparr>) \<and>
     current_user_task s' = current_user_task s \<and> thread_table s' = thread_table s \<and> run_queues s' = run_queues s \<and>
     user_faulted s' \<and> user_exited s' \<and> user_fault_status s' = st \<and> scdk_syscall_return_value s' = status_word st"


lemma slot_flag [simp]:
  "user_task_slot_for_cap (s1\<lparr>saw_invalid_syscall := b1\<rparr>) = user_task_slot_for_cap s1"
  "user_task_slot_for_cap (s2\<lparr>saw_bad_user_pointer := b2\<rparr>) = user_task_slot_for_cap s2"
  "user_task_slot_for_cap (s3\<lparr>saw_user_page_fault := b3\<rparr>) = user_task_slot_for_cap s3"
  by (simp_all add: fun_eq_iff user_task_slot_for_cap_def)

lemma contained_flag [simp]:
  "contained (s1\<lparr>saw_invalid_syscall := b1\<rparr>) i st t1 = contained s1 i st t1"
  "contained (s2\<lparr>saw_bad_user_pointer := b2\<rparr>) i st t2 = contained s2 i st t2"
  "contained (s3\<lparr>saw_user_page_fault := b3\<rparr>) i st t3 = contained s3 i st t3"
  by (simp_all add: contained_def tables_def)







end
