(* ===== verification/SCDK_Initrd.thy ===== *)
theory SCDK_Initrd
  imports SCDK_Heap
begin

text \<open>
  The boot archive (\<^verbatim>\<open>mm/initrd.c\<close>): parsing of a ustar image into a file table, and
  look-up, stat and directory listing on it. Memory is a function from addresses
  to bytes, an argument of the definitions that read it; C strings are lists of
  bytes without the terminating zero. The string routines of \<^verbatim>\<open>kernel/string.c\<close>
  appear as the list operations they compute: \<^verbatim>\<open>strlen\<close> is \<open>length\<close>, \<^verbatim>\<open>memcmp\<close> on equal
  lengths is equality of lists. Writing to the log has no effect on the model.
\<close>

section \<open>Data\<close>

type_synonym cstr = "u8 list"
type_synonym memory = "u64 \<Rightarrow> u8"

definition SCDK_TAR_BLOCK_SIZE :: u64 where [kconst]: "SCDK_TAR_BLOCK_SIZE = 512"
definition SCDK_TAR_TYPE_FILE :: u8 where [kconst]: "SCDK_TAR_TYPE_FILE = 0x30"
definition SCDK_TAR_TYPE_OLD_FILE :: u8 where [kconst]: "SCDK_TAR_TYPE_OLD_FILE = 0"
definition SCDK_INITRD_MAX_FILES :: u32 where [kconst]: "SCDK_INITRD_MAX_FILES = 32"
definition SCDK_INITRD_MAX_PATH :: nat where [kconst]: "SCDK_INITRD_MAX_PATH = 128"
definition SCDK_VFS_MAX_NAME :: nat where [kconst]: "SCDK_VFS_MAX_NAME = 64"

definition slash :: u8 where [kconst]: "slash = 0x2f"

datatype scdk_vfs_node_type = SCDK_VFS_NODE_NONE | SCDK_VFS_NODE_FILE | SCDK_VFS_NODE_DIR

record scdk_vfs_stat =
  st_type :: scdk_vfs_node_type
  st_size :: u64

record scdk_vfs_dirent =
  de_name :: cstr
  de_type :: scdk_vfs_node_type
  de_size :: u64

record scdk_tar_header =
  th_name :: "u8 list"
  th_size :: "u8 list"
  th_typeflag :: u8
  th_prefix :: "u8 list"

record scdk_initrd_entry =
  ie_path :: cstr
  ie_data :: u64
  ie_size :: u64
  ie_flags :: u32

text \<open>The fields of Limine's \<^verbatim>\<open>struct limine_file\<close> that are read; a null string is \<open>None\<close>.\<close>

record limine_file =
  lf_address :: u64
  lf_size :: u64
  lf_path :: "cstr option"
  lf_string :: "cstr option"

record initrd_state =
  limine_modules :: "limine_file option list option"
  initrd_files :: "nat \<Rightarrow> scdk_initrd_entry"
  initrd_file_count :: u32
  initrd_initialized :: bool

definition null_initrd_entry :: scdk_initrd_entry where
  "null_initrd_entry = \<lparr>ie_path = [], ie_data = 0, ie_size = 0, ie_flags = 0\<rparr>"

section \<open>Operations\<close>

definition scdk_initrd_set_limine_response :: "'a initrd_state_scheme \<Rightarrow> limine_file option list option \<Rightarrow> 'a initrd_state_scheme" where
  "scdk_initrd_set_limine_response s response = s\<lparr>limine_modules := response\<rparr>"

text \<open>The bytes at an address; \<open>tar_header_at\<close> reads the packed \<^verbatim>\<open>struct scdk_tar_header\<close>.\<close>

definition bytes_at :: "memory \<Rightarrow> u64 \<Rightarrow> nat \<Rightarrow> u8 list" where
  "bytes_at mem p n = map (\<lambda>k. mem (p + of_nat k)) [0..<n]"

definition tar_header_at :: "memory \<Rightarrow> u64 \<Rightarrow> scdk_tar_header" where
  "tar_header_at mem p = \<lparr>th_name = bytes_at mem p 100, th_size = bytes_at mem (p + 124) 12,
     th_typeflag = mem (p + 156), th_prefix = bytes_at mem (p + 345) 155\<rparr>"

definition memory_is_zero :: "memory \<Rightarrow> u64 \<Rightarrow> nat \<Rightarrow> bool" where
  "memory_is_zero mem p n \<longleftrightarrow> list_all (\<lambda>b. b = 0) (bytes_at mem p n)"

definition str_eq :: "cstr option \<Rightarrow> cstr option \<Rightarrow> bool" where
  "str_eq a b = (case (a, b) of (Some x, Some y) \<Rightarrow> x = y | _ \<Rightarrow> False)"

definition str_ends_with :: "cstr option \<Rightarrow> cstr option \<Rightarrow> bool" where
  "str_ends_with value suffix =
     (case (value, suffix) of
        (Some v, Some x) \<Rightarrow> if length x > length v then False else drop (length v - length x) v = x
      | _ \<Rightarrow> False)"

text \<open>The loop of \<^verbatim>\<open>parse_octal\<close>, with the flag \<^verbatim>\<open>saw_digit\<close> and the value so far.\<close>

fun parse_octal_from :: "u8 list \<Rightarrow> bool \<Rightarrow> u64 \<Rightarrow> u64 res" where
  "parse_octal_from [] saw value = (if \<not> saw then Inl SCDK_ERR_INVAL else Inr value)"
| "parse_octal_from (c # cs) saw value =
     (if c = 0 \<or> c = 0x20 then if \<not> saw then Inl SCDK_ERR_INVAL else Inr value
      else if c < 0x30 \<or> c > 0x37 then Inl SCDK_ERR_INVAL
      else parse_octal_from cs True (push_bit 3 value OR ucast (c - 0x30)))"

definition parse_octal :: "u8 list \<Rightarrow> u64 res" where
  "parse_octal field = parse_octal_from field False 0"

definition bounded_cstr_len :: "u8 list \<Rightarrow> nat \<Rightarrow> nat" where
  "bounded_cstr_len s mx = length (takeWhile (\<lambda>b. b \<noteq> 0) (take mx s))"

definition append_path_component :: "cstr \<Rightarrow> nat \<Rightarrow> u8 list \<Rightarrow> nat \<Rightarrow> cstr res" where
  "append_path_component out out_size component component_max =
     (if out_size = 0 then Inl SCDK_ERR_INVAL
      else let n = bounded_cstr_len component component_max
           in if n = 0 then Inr out
              else if length out + n \<ge> out_size then Inl SCDK_ERR_BOUNDS
              else Inr (out @ take n component))"

definition normalize_tar_path :: "scdk_tar_header \<Rightarrow> nat \<Rightarrow> cstr res" where
  "normalize_tar_path header out_size =
     (if out_size < 2 then Inl SCDK_ERR_INVAL
      else case append_path_component [slash] out_size (th_prefix header) 155 of
        Inl e \<Rightarrow> Inl e
      | Inr out1 \<Rightarrow>
          if length out1 > 1 \<and> length out1 + 1 \<ge> out_size then Inl SCDK_ERR_BOUNDS
          else (let out2 = (if length out1 > 1 then out1 @ [slash] else out1)
                in case (if th_name header ! 0 = 0x2e \<and> th_name header ! 1 = slash
                         then append_path_component out2 out_size (drop 2 (th_name header)) 98
                         else append_path_component out2 out_size (th_name header) 100) of
                     Inl e \<Rightarrow> Inl e
                   | Inr out3 \<Rightarrow> if length out3 \<le> 1 then Inl SCDK_ERR_NOENT else Inr out3))"

definition tar_header_is_file :: "scdk_tar_header \<Rightarrow> bool" where
  "tar_header_is_file header \<longleftrightarrow> th_typeflag header = SCDK_TAR_TYPE_FILE \<or> th_typeflag header = SCDK_TAR_TYPE_OLD_FILE"

definition remember_file :: "'a initrd_state_scheme \<Rightarrow> cstr \<Rightarrow> u64 \<Rightarrow> u64 \<Rightarrow> scdk_status \<times> 'a initrd_state_scheme" where
  "remember_file s path data sz =
     (if data = 0 \<or> initrd_file_count s \<ge> SCDK_INITRD_MAX_FILES then (SCDK_ERR_NOMEM, s)
      else (SCDK_OK, s\<lparr>initrd_files := (initrd_files s)(unat (initrd_file_count s) :=
              \<lparr>ie_path = path, ie_data = data, ie_size = sz, ie_flags = 0\<rparr>),
            initrd_file_count := initrd_file_count s + 1\<rparr>))"

definition padded_size :: "u64 \<Rightarrow> u64" where
  "padded_size file_size = (file_size + SCDK_TAR_BLOCK_SIZE - 1) AND NOT (SCDK_TAR_BLOCK_SIZE - 1)"

text \<open>
  The loop of \<^verbatim>\<open>parse_tar_image\<close>, with a bound on its iterations: \<open>None\<close> is the
  bound being reached, which the lemmas below exclude.
\<close>

fun parse_tar_loop :: "nat \<Rightarrow> memory \<Rightarrow> 'a initrd_state_scheme \<Rightarrow> u64 \<Rightarrow> u64 \<Rightarrow> u64 \<Rightarrow> (scdk_status \<times> 'a initrd_state_scheme) option" where
  "parse_tar_loop 0 mem s base sz offset = None"
| "parse_tar_loop (Suc n) mem s base sz offset =
     (if \<not> offset + SCDK_TAR_BLOCK_SIZE \<le> sz \<or> memory_is_zero mem (base + offset) 512
      then Some (if initrd_file_count s = 0 then SCDK_ERR_NOENT else SCDK_OK, s)
      else let header = tar_header_at mem (base + offset); data_offset = offset + SCDK_TAR_BLOCK_SIZE
           in case parse_octal (th_size header) of
                Inl e \<Rightarrow> Some (e, s)
              | Inr file_size \<Rightarrow>
                  if data_offset > sz \<or> padded_size file_size > sz - data_offset then Some (SCDK_ERR_BOUNDS, s)
                  else if tar_header_is_file header
                  then (case normalize_tar_path header SCDK_INITRD_MAX_PATH of
                          Inl e \<Rightarrow> Some (e, s)
                        | Inr path \<Rightarrow>
                            (case remember_file s path (base + data_offset) file_size of
                               (status, s1) \<Rightarrow>
                                 if status \<noteq> SCDK_OK then Some (status, s1)
                                 else parse_tar_loop n mem s1 base sz (data_offset + padded_size file_size)))
                  else parse_tar_loop n mem s base sz (data_offset + padded_size file_size))"

definition parse_tar_image :: "memory \<Rightarrow> 'a initrd_state_scheme \<Rightarrow> u64 \<Rightarrow> u64 \<Rightarrow> (scdk_status \<times> 'a initrd_state_scheme) option" where
  "parse_tar_image mem s base sz =
     (if base = 0 \<or> sz < SCDK_TAR_BLOCK_SIZE then Some (SCDK_ERR_INVAL, s)
      else parse_tar_loop (unat sz div 512 + 1) mem
             (s\<lparr>initrd_file_count := 0, initrd_files := (\<lambda>_. null_initrd_entry)\<rparr>) base sz 0)"

definition bytes_of :: "string \<Rightarrow> cstr" where
  "bytes_of = map of_char"

fun find_module :: "limine_file option list \<Rightarrow> limine_file option" where
  "find_module [] = None"
| "find_module (None # fs) = find_module fs"
| "find_module (Some f # fs) =
     (if str_eq (lf_string f) (Some (bytes_of ''scdk.initrd'')) \<or> str_ends_with (lf_path f) (Some (bytes_of ''/scdk.initrd''))
      then Some f else find_module fs)"

definition find_initrd_module :: "'a initrd_state_scheme \<Rightarrow> limine_file option" where
  "find_initrd_module s =
     (case limine_modules s of
        None \<Rightarrow> None
      | Some [] \<Rightarrow> None
      | Some (f # fs) \<Rightarrow> (case find_module (f # fs) of Some x \<Rightarrow> Some x | None \<Rightarrow> f))"

definition scdk_initrd_init_from_limine :: "memory \<Rightarrow> 'a initrd_state_scheme \<Rightarrow> (scdk_status \<times> 'a initrd_state_scheme) option" where
  "scdk_initrd_init_from_limine mem s =
     (case find_initrd_module s of
        None \<Rightarrow> Some (SCDK_ERR_NOENT, s)
      | Some module \<Rightarrow>
          if lf_address module = 0 \<or> lf_size module = 0 then Some (SCDK_ERR_NOENT, s)
          else (case parse_tar_image mem s (lf_address module) (lf_size module) of
                  None \<Rightarrow> None
                | Some (status, s1) \<Rightarrow>
                    if status \<noteq> SCDK_OK then Some (status, s1) else Some (SCDK_OK, s1\<lparr>initrd_initialized := True\<rparr>)))"

definition scdk_initrd_list :: "'a initrd_state_scheme \<Rightarrow> scdk_status" where
  "scdk_initrd_list s = (if \<not> initrd_initialized s then SCDK_ERR_NOTSUP else SCDK_OK)"

definition initrd_nfiles :: "'a initrd_state_scheme \<Rightarrow> nat" where
  "initrd_nfiles s = unat (initrd_file_count s)"

definition scdk_initrd_find :: "'a initrd_state_scheme \<Rightarrow> cstr option \<Rightarrow> scdk_initrd_entry res" where
  "scdk_initrd_find s path =
     (if \<not> initrd_initialized s then Inl SCDK_ERR_NOTSUP
      else if path = None then Inl SCDK_ERR_INVAL
      else case first_slot (\<lambda>i. str_eq path (Some (ie_path (initrd_files s i)))) (initrd_nfiles s) of
        None \<Rightarrow> Inl SCDK_ERR_NOENT
      | Some i \<Rightarrow> Inr (initrd_files s i))"

fun strip_slashes :: "cstr \<Rightarrow> nat \<Rightarrow> nat" where
  "strip_slashes path 0 = 0"
| "strip_slashes path (Suc n) = (if Suc n > 1 \<and> path ! n = slash then strip_slashes path n else Suc n)"

definition normalized_query_len :: "cstr \<Rightarrow> nat" where
  "normalized_query_len path = strip_slashes path (length path)"

definition path_eq_len :: "cstr \<Rightarrow> cstr \<Rightarrow> nat \<Rightarrow> bool" where
  "path_eq_len path query query_len \<longleftrightarrow> length path = query_len \<and> take query_len path = take query_len query"

definition path_has_dir_prefix :: "cstr \<Rightarrow> cstr \<Rightarrow> nat \<Rightarrow> bool" where
  "path_has_dir_prefix path query query_len \<longleftrightarrow>
     (if query_len = 1 \<and> query ! 0 = slash then length path > 1 \<and> path ! 0 = slash
      else length path > query_len + 1 \<and> take query_len path = take query_len query \<and> path ! query_len = slash)"

definition dirent_name_eq :: "cstr \<Rightarrow> cstr \<Rightarrow> nat \<Rightarrow> bool" where
  "dirent_name_eq lhs rhs rhs_len \<longleftrightarrow> length lhs = rhs_len \<and> lhs = take rhs_len rhs"

text \<open>The entries written so far, in order; the list has length \<^verbatim>\<open>*inout_count\<close>.\<close>

definition add_dirent :: "scdk_vfs_dirent list \<Rightarrow> u64 \<Rightarrow> cstr \<Rightarrow> nat \<Rightarrow> scdk_vfs_node_type \<Rightarrow> u64 \<Rightarrow> scdk_vfs_dirent list res" where
  "add_dirent entries capacity name name_len type sz =
     (if name_len = 0 then Inl SCDK_ERR_INVAL
      else if name_len \<ge> SCDK_VFS_MAX_NAME then Inl SCDK_ERR_BOUNDS
      else case first_slot (\<lambda>i. dirent_name_eq (de_name (entries ! i)) name name_len) (length entries) of
        Some i \<Rightarrow> Inr (if type = SCDK_VFS_NODE_DIR
                       then entries[i := (entries ! i)\<lparr>de_type := SCDK_VFS_NODE_DIR, de_size := 0\<rparr>] else entries)
      | None \<Rightarrow> if length entries \<ge> unat capacity then Inl SCDK_ERR_BOUNDS
                else Inr (entries @ [\<lparr>de_name = take name_len name, de_type = type, de_size = sz\<rparr>]))"

definition scdk_initrd_stat :: "'a initrd_state_scheme \<Rightarrow> cstr option \<Rightarrow> scdk_vfs_stat res" where
  "scdk_initrd_stat s path =
     (if \<not> initrd_initialized s then Inl SCDK_ERR_NOTSUP
      else case path of
        None \<Rightarrow> Inl SCDK_ERR_INVAL
      | Some query \<Rightarrow>
          if query = [] \<or> query ! 0 \<noteq> slash then Inl SCDK_ERR_INVAL
          else let query_len = normalized_query_len query
               in if query_len = 1 then Inr \<lparr>st_type = SCDK_VFS_NODE_DIR, st_size = 0\<rparr>
                  else case first_slot (\<lambda>i. path_eq_len (ie_path (initrd_files s i)) query query_len) (initrd_nfiles s) of
                    Some i \<Rightarrow> Inr \<lparr>st_type = SCDK_VFS_NODE_FILE, st_size = ie_size (initrd_files s i)\<rparr>
                  | None \<Rightarrow>
                      (case first_slot (\<lambda>i. path_has_dir_prefix (ie_path (initrd_files s i)) query query_len) (initrd_nfiles s) of
                         Some _ \<Rightarrow> Inr \<lparr>st_type = SCDK_VFS_NODE_DIR, st_size = 0\<rparr>
                       | None \<Rightarrow> Inl SCDK_ERR_NOENT))"

text \<open>One file of the table in the loop of \<^verbatim>\<open>scdk_initrd_listdir\<close>.\<close>

definition listdir_file :: "cstr \<Rightarrow> nat \<Rightarrow> u64 \<Rightarrow> scdk_initrd_entry \<Rightarrow> scdk_vfs_dirent list \<Rightarrow> scdk_vfs_dirent list res" where
  "listdir_file query query_len capacity file entries =
     (if \<not> path_has_dir_prefix (ie_path file) query query_len then Inr entries
      else let remainder = drop (if query_len = 1 then 1 else query_len + 1) (ie_path file)
           in if remainder = [] then Inr entries
              else let name_len = length (takeWhile (\<lambda>b. b \<noteq> slash) remainder);
                       sub = name_len < length remainder
                   in add_dirent entries capacity remainder name_len
                        (if sub then SCDK_VFS_NODE_DIR else SCDK_VFS_NODE_FILE) (if sub then 0 else ie_size file))"

fun listdir_loop :: "cstr \<Rightarrow> nat \<Rightarrow> u64 \<Rightarrow> scdk_initrd_entry list \<Rightarrow> scdk_vfs_dirent list \<Rightarrow> scdk_vfs_dirent list res" where
  "listdir_loop query query_len capacity [] entries = Inr entries"
| "listdir_loop query query_len capacity (f # fs) entries =
     (case listdir_file query query_len capacity f entries of
        Inl e \<Rightarrow> Inl e
      | Inr entries1 \<Rightarrow> listdir_loop query query_len capacity fs entries1)"

definition scdk_initrd_listdir :: "'a initrd_state_scheme \<Rightarrow> cstr option \<Rightarrow> u64 \<Rightarrow> scdk_vfs_dirent list res" where
  "scdk_initrd_listdir s path capacity =
     (if \<not> initrd_initialized s then Inl SCDK_ERR_NOTSUP
      else case path of
        None \<Rightarrow> Inl SCDK_ERR_INVAL
      | Some query \<Rightarrow>
          if capacity = 0 \<or> query = [] \<or> query ! 0 \<noteq> slash then Inl SCDK_ERR_INVAL
          else (case scdk_initrd_stat s path of
                  Inl e \<Rightarrow> Inl e
                | Inr stat \<Rightarrow>
                    if st_type stat \<noteq> SCDK_VFS_NODE_DIR then Inl SCDK_ERR_NOTSUP
                    else listdir_loop query (normalized_query_len query) capacity
                           (map (initrd_files s) [0..<initrd_nfiles s]) []))"

section \<open>Fields of a header\<close>

lemma octal_step:
  assumes "unat v < 8 ^ k" and "k \<le> 20" and "\<not> c < 0x30" and "\<not> c > (0x37 :: u8)"
  shows "unat (push_bit 3 v OR ucast (c - 0x30) :: u64) = 8 * unat v + unat (c - 0x30)" "unat (c - 0x30) < 8"
proof -
  have "unat (c - 0x30) = unat c - 48" using assms(3) by (simp add: unat_sub not_less)
  moreover have "unat c \<le> 55" using assms(4) by (simp add: word_less_nat_alt not_less)
  ultimately show d: "unat (c - 0x30) < 8" by simp
  have "(8 :: nat) ^ k \<le> 8 ^ 20" using assms(2) by (intro power_increasing) auto
  then have v: "8 * unat v < 2 ^ 64" using assms(1) by simp
  have p: "unat (push_bit 3 v) = 8 * unat v"
    using v by (simp add: push_bit_eq_mult unat_word_ariths mult.commute)
  have "push_bit 3 v AND (ucast (c - 0x30) :: u64) = 0"
  proof (rule bit_word_eqI)
    fix n
    have "take_bit 3 (unat (c - 0x30)) = unat (c - 0x30)" using d by (simp add: take_bit_nat_eq_self)
    then have "\<not> bit (unat (c - 0x30)) n" if "3 \<le> n" using that by (metis bit_take_bit_iff not_le)
    then show "bit (push_bit 3 v AND (ucast (c - 0x30) :: u64)) n = bit (0 :: u64) n"
      by (auto simp: bit_simps bit_unsigned_iff)
  qed
  then have "push_bit 3 v OR ucast (c - 0x30) = push_bit 3 v + (ucast (c - 0x30) :: u64)" by (simp add: disjunctive_add_eq_or)
  moreover have "unat (ucast (c - 0x30) :: u64) = unat (c - 0x30)"
    using d by (simp add: unsigned_ucast_eq take_bit_nat_eq_self)
  ultimately show "unat (push_bit 3 v OR ucast (c - 0x30) :: u64) = 8 * unat v + unat (c - 0x30)"
    using v d p unat_plus [of "push_bit 3 v" "ucast (c - 0x30)"] assms(2) by simp
qed

lemma parse_octal_bound:
  "parse_octal_from cs saw v = Inr x \<Longrightarrow> unat v < 8 ^ k \<Longrightarrow> k + length cs \<le> 20 \<Longrightarrow> unat x < 8 ^ (k + length cs)"
proof (induction cs arbitrary: saw v k)
  case (Cons c cs)
  have mono: "(8 :: nat) ^ k \<le> 8 ^ (k + length (c # cs))" by (intro power_increasing) auto
  show ?case
  proof (cases "c = 0 \<or> c = 0x20")
    case True
    with Cons.prems mono show ?thesis by (auto split: if_splits)
  next
    case False
    with Cons.prems(1) have c: "\<not> c < 0x30" "\<not> c > 0x37" "parse_octal_from cs True (push_bit 3 v OR ucast (c - 0x30)) = Inr x"
      by (auto split: if_splits)
    have k: "k \<le> 20" using Cons.prems(3) by simp
    note st = octal_step [OF Cons.prems(2) k c(1,2)]
    then have "unat (push_bit 3 v OR ucast (c - 0x30) :: u64) < 8 ^ Suc k" using Cons.prems(2) by simp
    from Cons.IH [OF c(3) this] Cons.prems(3) show ?thesis by simp
  qed
qed (auto split: if_splits)

lemma bytes_at_len [simp]: "length (bytes_at mem p n) = n"
  by (simp add: bytes_at_def)

lemma header_size_bound: "parse_octal (th_size (tar_header_at mem p)) = Inr x \<Longrightarrow> unat x < 2 ^ 36"
  using parse_octal_bound [of "th_size (tar_header_at mem p)" False 0 x 0]
  by (simp add: parse_octal_def tar_header_at_def)

lemma unat_padded: "unat x < 2 ^ 36 \<Longrightarrow> unat (padded_size x) = (unat x + 511) div 512 * 512"
  using unat_align_up_size [of 9 x] by (simp add: padded_size_def align_up_size_def kconst)

lemma padded_ge: "unat x < 2 ^ 36 \<Longrightarrow> unat x \<le> unat (padded_size x)"
  by (simp add: unat_padded)

definition path_ok :: "cstr \<Rightarrow> bool" where
  "path_ok p \<longleftrightarrow> 1 < length p \<and> length p < SCDK_INITRD_MAX_PATH \<and> hd p = slash \<and> 0 \<notin> set p"

lemma append_component:
  assumes "append_path_component out n c m = Inr out'"
  shows "\<exists>x. out' = out @ x \<and> 0 \<notin> set x \<and> (x \<noteq> [] \<longrightarrow> length out' < n)"
proof -
  have "take (bounded_cstr_len c m) c = takeWhile (\<lambda>b. b \<noteq> 0) (take m c)"
  proof -
    let ?n = "length (takeWhile (\<lambda>b. b \<noteq> 0) (take m c))"
    have "takeWhile (\<lambda>b. b \<noteq> 0) (take m c) = take ?n (take m c)" by (rule takeWhile_eq_take)
    moreover have "?n \<le> m" using length_takeWhile_le [of "\<lambda>b. b \<noteq> 0" "take m c"] by simp
    ultimately show ?thesis by (simp add: bounded_cstr_len_def min_absorb1)
  qed
  moreover have "0 \<notin> set (takeWhile (\<lambda>b. b \<noteq> 0) (take m c))" by (auto dest: set_takeWhileD)
  ultimately show ?thesis using assms
    by (auto simp: append_path_component_def Let_def split: if_splits) (simp add: bounded_cstr_len_def)
qed

lemma normalize_path_ok:
  assumes "normalize_tar_path header SCDK_INITRD_MAX_PATH = Inr p"
  shows "path_ok p"
proof -
  let ?n = SCDK_INITRD_MAX_PATH
  from assms obtain o1 o2 o3 c m where a: "append_path_component [slash] ?n (th_prefix header) 155 = Inr o1"
    and o1: "length o1 > 1 \<longrightarrow> length o1 + 1 < ?n" and o2: "o2 = (if length o1 > 1 then o1 @ [slash] else o1)"
    and b: "append_path_component o2 ?n c m = Inr p" and p: "1 < length p"
    by (auto simp: normalize_tar_path_def Let_def split: sum.splits if_splits)
  from append_component [OF a] obtain x where x: "o1 = [slash] @ x" "0 \<notin> set x" by blast
  from append_component [OF b] obtain y where y: "p = o2 @ y" "0 \<notin> set y" "y \<noteq> [] \<longrightarrow> length p < ?n" by blast
  have z: "0 \<notin> set o2" using x o2 by (auto simp: kconst)
  have "length p < ?n" using y o1 o2 p x by (cases "y = []") (auto simp: kconst split: if_splits)
  moreover have "hd p = slash" using x y(1) o2 by (auto split: if_splits)
  ultimately show ?thesis using p y z by (auto simp: path_ok_def)
qed

section \<open>Parsing stays inside the image\<close>

definition entry_ok :: "u64 \<Rightarrow> u64 \<Rightarrow> scdk_initrd_entry \<Rightarrow> bool" where
  "entry_ok base sz e \<longleftrightarrow> path_ok (ie_path e) \<and>
     (\<exists>off. ie_data e = base + of_nat off \<and> 512 \<le> off \<and> off + unat (ie_size e) \<le> unat sz)"

definition initrd_ok :: "'a initrd_state_scheme \<Rightarrow> u64 \<Rightarrow> u64 \<Rightarrow> bool" where
  "initrd_ok s base sz \<longleftrightarrow> initrd_nfiles s \<le> 32 \<and> (\<forall>i<initrd_nfiles s. entry_ok base sz (initrd_files s i))"

lemma remember_ok:
  assumes "initrd_ok s base sz" and "remember_file s p d n = (r, s')" and "entry_ok base sz \<lparr>ie_path = p, ie_data = d, ie_size = n, ie_flags = 0\<rparr>"
  shows "initrd_ok s' base sz"
proof (cases "d = 0 \<or> initrd_file_count s \<ge> SCDK_INITRD_MAX_FILES")
  case True
  then show ?thesis using assms by (simp add: remember_file_def)
next
  case False
  then have c: "unat (initrd_file_count s) < 32" by (simp add: kconst word_le_nat_alt)
  then have "unat (initrd_file_count s + 1) = Suc (unat (initrd_file_count s))" by (simp add: unat_word_ariths)
  then show ?thesis using assms False c by (auto simp: remember_file_def initrd_ok_def initrd_nfiles_def less_Suc_eq)
qed

text \<open>One round of the loop on an image that does not reach the end of the address space.\<close>

lemma tar_offsets:
  assumes big: "unat sz + 512 < 2 ^ 64" and off: "unat offset \<le> unat sz" and len: "offset + SCDK_TAR_BLOCK_SIZE \<le> sz"
    and fs: "unat fs < 2 ^ 36" and pad: "\<not> padded_size fs > sz - (offset + SCDK_TAR_BLOCK_SIZE)"
  shows "unat (offset + SCDK_TAR_BLOCK_SIZE) = unat offset + 512"
    "unat (offset + SCDK_TAR_BLOCK_SIZE + padded_size fs) = unat offset + 512 + unat (padded_size fs)"
    "unat offset + 512 + unat (padded_size fs) \<le> unat sz"
proof -
  show d: "unat (offset + SCDK_TAR_BLOCK_SIZE) = unat offset + 512"
    using unat_plus [of offset SCDK_TAR_BLOCK_SIZE] big off unat_u64_less [of sz] len
    by (auto simp: kconst word_le_nat_alt unat_word_ariths)
  have "unat (padded_size fs) \<le> unat (sz - (offset + SCDK_TAR_BLOCK_SIZE))" using pad by (simp add: word_le_nat_alt not_less)
  then show b: "unat offset + 512 + unat (padded_size fs) \<le> unat sz" using unat_minus [OF len] d len by (simp add: word_le_nat_alt)
  show "unat (offset + SCDK_TAR_BLOCK_SIZE + padded_size fs) = unat offset + 512 + unat (padded_size fs)"
    using unat_plus [of "offset + SCDK_TAR_BLOCK_SIZE" "padded_size fs"] d b unat_u64_less [of sz] by simp
qed

lemma parse_loop_safe:
  assumes "unat sz + 512 < 2 ^ 64"
  shows "unat offset \<le> unat sz \<Longrightarrow> (unat sz - unat offset) div 512 < n \<Longrightarrow> initrd_ok s base sz \<Longrightarrow>
    \<exists>r s'. parse_tar_loop n mem s base sz offset = Some (r, s') \<and> initrd_ok s' base sz"
proof (induction n arbitrary: s offset)
  case (Suc n)
  let ?h = "tar_header_at mem (base + offset)" and ?d = "offset + SCDK_TAR_BLOCK_SIZE"
  show ?case
  proof (cases "\<not> ?d \<le> sz \<or> memory_is_zero mem (base + offset) 512")
    case True
    then show ?thesis using Suc.prems(3) by simp
  next
    case False
    then have len: "?d \<le> sz" by blast
    show ?thesis
    proof (cases "parse_octal (th_size ?h)")
      case (Inl e)
      then show ?thesis using False Suc.prems(3) by (simp add: Let_def)
    next
      case (Inr fs)
      note b = header_size_bound [OF Inr]
      show ?thesis
      proof (cases "?d > sz \<or> padded_size fs > sz - ?d")
        case True
        then show ?thesis using False Inr Suc.prems(3) by (simp add: Let_def)
      next
        case fit: False
        then have nf: "\<not> padded_size fs > sz - ?d" by blast
        note o = tar_offsets [OF assms Suc.prems(1) len b nf]
        let ?o = "?d + padded_size fs"
        have o1: "unat ?o \<le> unat sz" using o by simp
        have "Suc ((unat sz - unat ?o) div 512) \<le> (unat sz - unat offset) div 512"
        proof -
          have "unat sz - unat ?o + 512 \<le> unat sz - unat offset" using o by simp
          then show ?thesis by (metis div_add_self2 div_le_mono plus_1_eq_Suc add.commute numeral_neq_zero Suc_eq_plus1)
        qed
        then have o2: "(unat sz - unat ?o) div 512 < n" using Suc.prems(2) by simp
        have ent: "entry_ok base sz \<lparr>ie_path = p, ie_data = base + ?d, ie_size = fs, ie_flags = 0\<rparr>" if "path_ok p" for p
        proof -
          have "?d = of_nat (unat offset + 512)" unfolding o(1) [symmetric] by simp
          then have "base + ?d = base + of_nat (unat offset + 512)" by simp
          moreover have "unat offset + 512 + unat fs \<le> unat sz" using o(3) padded_ge [OF b] by simp
          ultimately show ?thesis using that unfolding entry_ok_def by (metis le_add2 scdk_initrd_entry.select_convs(1-3))
        qed
        have step: "parse_tar_loop (Suc n) mem s base sz offset =
            (if tar_header_is_file ?h
             then (case normalize_tar_path ?h SCDK_INITRD_MAX_PATH of
                     Inl e \<Rightarrow> Some (e, s)
                   | Inr path \<Rightarrow> (case remember_file s path (base + ?d) fs of
                       (status, s1) \<Rightarrow> if status \<noteq> SCDK_OK then Some (status, s1) else parse_tar_loop n mem s1 base sz ?o))
             else parse_tar_loop n mem s base sz ?o)"
          using False Inr fit by (simp add: Let_def)
        show ?thesis
        proof (cases "tar_header_is_file ?h")
          case nofile: False
          then show ?thesis using step Suc.IH [OF o1 o2 Suc.prems(3)] by simp
        next
          case isf: True
          show ?thesis
          proof (cases "normalize_tar_path ?h SCDK_INITRD_MAX_PATH")
            case (Inl e)
            then show ?thesis using step isf Suc.prems(3) by simp
          next
            case path: (Inr p)
            obtain st s1 where r: "remember_file s p (base + ?d) fs = (st, s1)" by fastforce
            have "initrd_ok s1 base sz" by (rule remember_ok [OF Suc.prems(3) r ent [OF normalize_path_ok [OF path]]])
            then show ?thesis using step isf path r Suc.IH [OF o1 o2, of s1] by simp
          qed
        qed
      qed
    qed
  qed
qed simp

section \<open>Writing an archive\<close>

text \<open>
  A writer for archives of the form the build packs (\<^verbatim>\<open>tar --format=ustar\<close> with a list of
  regular files named without a leading dot): one header block per file with name,
  size in eleven octal digits, type and an empty prefix; the content filled up to
  a whole number of blocks; zero blocks at the end, as many as the packer likes but at
  least two. The fields that \<^verbatim>\<open>initrd.c\<close> does not read (mode, owner, time,
  checksum, magic, version, device) may hold any bytes: they are taken from a template
  block \<open>meta\<close> per file.
\<close>

fun octal :: "nat \<Rightarrow> nat \<Rightarrow> u8 list" where
  "octal 0 n = []"
| "octal (Suc w) n = octal w (n div 8) @ [0x30 + of_nat (n mod 8)]"

definition tar_header_bytes :: "u8 list \<Rightarrow> cstr \<Rightarrow> nat \<Rightarrow> u8 list" where
  "tar_header_bytes tm nm n = (nm @ replicate (100 - length nm) 0) @ take 24 (drop 100 tm) @ (octal 11 n @ [0]) @
     take 20 (drop 136 tm) @ [SCDK_TAR_TYPE_FILE] @ take 188 (drop 157 tm) @ replicate 155 0 @ take 12 (drop 500 tm)"

definition block_pad :: "nat \<Rightarrow> nat" where
  "block_pad n = (n + 511) div 512 * 512"

definition tar_file :: "(cstr \<times> u8 list \<Rightarrow> u8 list) \<Rightarrow> cstr \<times> u8 list \<Rightarrow> u8 list" where
  "tar_file meta f = tar_header_bytes (meta f) (fst f) (length (snd f)) @ snd f @ replicate (block_pad (length (snd f)) - length (snd f)) 0"

definition tar_archive :: "(cstr \<times> u8 list \<Rightarrow> u8 list) \<Rightarrow> nat \<Rightarrow> (cstr \<times> u8 list) list \<Rightarrow> u8 list" where
  "tar_archive meta k fs = concat (map (tar_file meta) fs) @ replicate k 0"

definition file_ok :: "cstr \<times> u8 list \<Rightarrow> bool" where
  "file_ok f \<longleftrightarrow> fst f \<noteq> [] \<and> length (fst f) \<le> 100 \<and> 0 \<notin> set (fst f) \<and> take 2 (fst f) \<noteq> [0x2e, slash] \<and> length (snd f) < 8 ^ 11"

definition stored :: "memory \<Rightarrow> u64 \<Rightarrow> u8 list \<Rightarrow> bool" where
  "stored mem p bs \<longleftrightarrow> bytes_at mem p (length bs) = bs"

lemma octal_len [simp]: "length (octal w n) = w"
  by (induction w arbitrary: n) auto

lemma header_len [simp]: "length nm \<le> 100 \<Longrightarrow> length tm = 512 \<Longrightarrow> length (tar_header_bytes tm nm n) = 512"
  by (simp add: tar_header_bytes_def)

lemma block_pad_ge: "n \<le> block_pad n" by (simp add: block_pad_def)

lemma file_len: "file_ok f \<Longrightarrow> length (meta f) = 512 \<Longrightarrow> length (tar_file meta f) = 512 + block_pad (length (snd f))"
  using block_pad_ge [of "length (snd f)"] by (simp add: tar_file_def file_ok_def)

lemma bytes_at_append: "bytes_at mem p (m + n) = bytes_at mem p m @ bytes_at mem (p + of_nat m) n"
  by (rule nth_equalityI) (auto simp: bytes_at_def nth_append add.assoc of_nat_diff)

lemma stored_append: "stored mem p (xs @ ys) \<longleftrightarrow> stored mem p xs \<and> stored mem (p + of_nat (length xs)) ys"
  by (simp add: stored_def bytes_at_append)

lemma stored_nth: "stored mem p bs \<Longrightarrow> i < length bs \<Longrightarrow> mem (p + of_nat i) = bs ! i"
  unfolding stored_def by (metis (no_types, lifting) add_0 bytes_at_def diff_zero length_upt nth_map nth_upt)

lemma parse_octal_digits:
  "n < 8 ^ w \<Longrightarrow> w \<le> 12 \<Longrightarrow> parse_octal_from (octal w n @ cs) False 0 = parse_octal_from cs (0 < w) (of_nat n)"
proof (induction w arbitrary: n cs)
  case (Suc w)
  let ?d = "0x30 + of_nat (n mod 8) :: u8" and ?v = "of_nat (n div 8) :: u64"
  have q: "n div 8 < 8 ^ w" using Suc.prems(1) by (simp add: less_mult_imp_div_less mult.commute)
  have un: "unat (of_nat (n mod 8) :: u8) = n mod 8" by (simp add: unat_of_nat)
  have ud: "unat ?d = 48 + n mod 8" by (simp add: unat_word_ariths un)
  have m: "n mod 8 < 8" by simp
  have ne: "?d \<noteq> x" if "unat x < 48" for x using that ud by fastforce
  have d: "\<not> ?d < 0x30" "\<not> ?d > 0x37" "?d \<noteq> 0" "?d \<noteq> 0x20"
    using ud m ne [of 0] ne [of "0x20"] by (simp_all add: word_less_nat_alt)
  have p12: "(8 :: nat) ^ w \<le> 8 ^ 12" using Suc.prems(2) by (intro power_increasing) auto
  have v: "unat ?v = n div 8" using q p12 by (simp add: unat_of_nat)
  have vb: "unat ?v < 8 ^ w" using q v by simp
  have w20: "w \<le> 20" using Suc.prems(2) by simp
  have "unat (push_bit 3 ?v OR ucast (?d - 0x30)) = 8 * (n div 8) + n mod 8"
    using octal_step(1) [OF vb w20 d(1,2)] v un by simp
  then have u: "unat (push_bit 3 ?v OR ucast (?d - 0x30)) = n" by simp
  have e: "push_bit 3 ?v OR ucast (?d - 0x30) = of_nat n" 
  proof -
    have "push_bit 3 ?v OR ucast (?d - 0x30) = of_nat (unat (push_bit 3 ?v OR ucast (?d - 0x30)))" by (simp only: of_nat_unat ucast_id)
    then show ?thesis by (simp only: u)
  qed
  have "parse_octal_from (octal (Suc w) n @ cs) False 0 = parse_octal_from (?d # cs) (0 < w) ?v"
    using Suc.IH [OF q, of "?d # cs"] Suc.prems(2) by simp
  also have "\<dots> = parse_octal_from cs True (push_bit 3 ?v OR ucast (?d - 0x30))"
    using d by simp
  finally show ?case unfolding e by simp
qed simp

lemma parse_octal_octal: "n < 8 ^ 11 \<Longrightarrow> parse_octal (octal 11 n @ [0]) = Inr (of_nat n)"
  using parse_octal_digits [of n 11 "[0]"] by (simp add: parse_octal_def)

lemma stored_header:
  assumes h: "stored mem p (tar_header_bytes tm nm n)" and l: "length nm \<le> 100" "length tm = 512"
  shows "tar_header_at mem p = \<lparr>th_name = nm @ replicate (100 - length nm) 0, th_size = octal 11 n @ [0],
     th_typeflag = SCDK_TAR_TYPE_FILE, th_prefix = replicate 155 0\<rparr>" "\<not> memory_is_zero mem p 512"
proof -
  have f: "stored mem p (nm @ replicate (100 - length nm) 0)" "stored mem (p + 124) (octal 11 n @ [0])"
    "stored mem (p + 156) [SCDK_TAR_TYPE_FILE]" "stored mem (p + 345) (replicate 155 0)"
    using h l unfolding tar_header_bytes_def stored_append by (simp_all add: add.assoc)
  then show "tar_header_at mem p = \<lparr>th_name = nm @ replicate (100 - length nm) 0, th_size = octal 11 n @ [0],
     th_typeflag = SCDK_TAR_TYPE_FILE, th_prefix = replicate 155 0\<rparr>"
    using l by (simp add: tar_header_at_def stored_def bytes_at_def)
  have "mem (p + 156) \<noteq> 0" using f(3) by (simp add: stored_def bytes_at_def kconst)
  then have "mem (p + of_nat 156) \<noteq> 0" by simp
  moreover have "mem (p + of_nat 156) \<in> set (bytes_at mem p 512)"
    unfolding bytes_at_def set_map set_upt by (rule imageI) simp
  ultimately show "\<not> memory_is_zero mem p 512" unfolding memory_is_zero_def list_all_iff by blast
qed

lemma name_component:
  assumes "nm \<noteq> []" and "length nm \<le> 100" and "0 \<notin> set nm" and "take 2 nm \<noteq> [0x2e, slash]"
  shows "normalize_tar_path \<lparr>th_name = nm @ replicate (100 - length nm) 0, th_size = sz, th_typeflag = t, th_prefix = replicate 155 0\<rparr>
     SCDK_INITRD_MAX_PATH = Inr (slash # nm)"
proof -
  let ?n = "nm @ replicate (100 - length nm) 0"
  have "takeWhile (\<lambda>b. b \<noteq> 0) ?n = nm"
    using assms(3) by (subst takeWhile_append2) (auto simp: takeWhile_replicate)
  then have b: "bounded_cstr_len ?n 100 = length nm" using assms(2) by (simp add: bounded_cstr_len_def)
  have z: "bounded_cstr_len (replicate 155 0) 155 = 0" by (simp add: bounded_cstr_len_def takeWhile_replicate)
  have dot: "\<not> (?n ! 0 = 0x2e \<and> ?n ! 1 = slash)"
  proof
    assume d: "?n ! 0 = 0x2e \<and> ?n ! 1 = slash"
    obtain a as where a: "nm = a # as" using assms(1) by (cases nm) auto
    with d assms(2) have "as \<noteq> []" by (auto simp: kconst nth_append nth_Cons')
    with a d show False using assms(4) by (cases as) auto
  qed
  have p: "append_path_component [slash] SCDK_INITRD_MAX_PATH (replicate 155 0) 155 = Inr [slash]"
    unfolding append_path_component_def z by (simp add: kconst)
  have "append_path_component [slash] SCDK_INITRD_MAX_PATH ?n 100 = Inr (slash # nm)"
    unfolding append_path_component_def b using assms(1,2) by (simp add: kconst)
  then show ?thesis using p dot assms(1) by (auto simp: normalize_tar_path_def Let_def kconst)
qed

definition add_entry :: "'a initrd_state_scheme \<Rightarrow> scdk_initrd_entry \<Rightarrow> 'a initrd_state_scheme" where
  "add_entry s e = s\<lparr>initrd_files := (initrd_files s)(initrd_nfiles s := e), initrd_file_count := initrd_file_count s + 1\<rparr>"

fun tar_entries :: "(cstr \<times> u8 list \<Rightarrow> u8 list) \<Rightarrow> u64 \<Rightarrow> (cstr \<times> u8 list) list \<Rightarrow> scdk_initrd_entry list" where
  "tar_entries meta p [] = []"
| "tar_entries meta p (f # fs) = \<lparr>ie_path = slash # fst f, ie_data = p + 512, ie_size = of_nat (length (snd f)), ie_flags = 0\<rparr>
     # tar_entries meta (p + of_nat (length (tar_file meta f))) fs"

lemma parse_file_step:
  assumes f: "file_ok f" "length (meta f) = 512" and m: "stored mem (base + offset) (tar_file meta f)" and big: "unat sz + 512 < 2 ^ 64"
    and fit: "unat offset + length (tar_file meta f) \<le> unat sz" and room: "initrd_nfiles s < 32" and nz: "base + offset + 512 \<noteq> 0"
  shows "parse_tar_loop (Suc n) mem s base sz offset = parse_tar_loop n mem
    (add_entry s \<lparr>ie_path = slash # fst f, ie_data = base + offset + 512, ie_size = of_nat (length (snd f)), ie_flags = 0\<rparr>)
    base sz (offset + of_nat (length (tar_file meta f)))"
proof -
  let ?k = "length (snd f)" and ?d = "offset + SCDK_TAR_BLOCK_SIZE"
  have fo: "fst f \<noteq> []" "length (fst f) \<le> 100" "0 \<notin> set (fst f)" "take 2 (fst f) \<noteq> [0x2e, slash]" "?k < 8 ^ 11"
    using f(1) by (auto simp: file_ok_def)
  have "stored mem (base + offset) (tar_header_bytes (meta f) (fst f) ?k)" using m by (simp add: tar_file_def stored_append)
  note h = stored_header [OF this fo(2) f(2)]
  have k: "unat (of_nat ?k :: u64) = ?k" using fo(5) by (simp add: unat_of_nat)
  then have k36: "unat (of_nat ?k :: u64) < 2 ^ 36" using fo(5) by simp
  have pad: "unat (padded_size (of_nat ?k)) = block_pad ?k" using unat_padded [OF k36] k by (simp add: block_pad_def)
  have len: "length (tar_file meta f) = 512 + block_pad ?k" using file_len [of f meta, OF f] .
  have ud: "unat ?d = unat offset + 512" using fit len big by (subst unat_plus) (simp_all add: kconst)
  have dsz: "?d \<le> sz" using ud fit len by (simp add: word_le_nat_alt)
  have np: "\<not> padded_size (of_nat ?k) > sz - ?d" using unat_minus [OF dsz] ud fit len pad by (simp add: word_less_nat_alt)
  have o: "?d + padded_size (of_nat ?k) = offset + of_nat (length (tar_file meta f))"
  proof -
    have "padded_size (of_nat ?k) = of_nat (block_pad ?k)" using arg_cong [OF pad, of "of_nat :: nat \<Rightarrow> u64"] by simp
    then show ?thesis by (simp add: len kconst)
  qed
  have cnt: "\<not> initrd_file_count s \<ge> SCDK_INITRD_MAX_FILES" using room by (simp add: kconst word_le_nat_alt initrd_nfiles_def)
  have r: "remember_file s (slash # fst f) (base + ?d) (of_nat ?k) = (SCDK_OK,
      add_entry s \<lparr>ie_path = slash # fst f, ie_data = base + offset + 512, ie_size = of_nat ?k, ie_flags = 0\<rparr>)"
    using cnt nz by (simp add: remember_file_def add_entry_def initrd_nfiles_def kconst add.assoc)
  have nd: "\<not> sz < ?d" using dsz by simp
  show ?thesis
    using h dsz nd np r parse_octal_octal [OF fo(5)] name_component [OF fo(1-4)]
    by (simp add: Let_def tar_header_is_file_def o)
qed

lemma add_entry_facts:
  assumes "initrd_nfiles s < 32"
  shows "initrd_nfiles (add_entry s e) = Suc (initrd_nfiles s)"
    "initrd_files (add_entry s e) = (initrd_files s)(initrd_nfiles s := e)"
  using assms by (simp_all add: add_entry_def initrd_nfiles_def unat_word_ariths)

lemma add_entries:
  "initrd_nfiles s + length es \<le> 32 \<Longrightarrow>
     initrd_nfiles (fold (\<lambda>e s. add_entry s e) es s) = initrd_nfiles s + length es \<and>
     (\<forall>i<initrd_nfiles s. initrd_files (fold (\<lambda>e s. add_entry s e) es s) i = initrd_files s i) \<and>
     (\<forall>i<length es. initrd_files (fold (\<lambda>e s. add_entry s e) es s) (initrd_nfiles s + i) = es ! i)"
proof (induction es arbitrary: s)
  case (Cons e es)
  note f = add_entry_facts [of s e]
  have l: "initrd_nfiles s < 32" using Cons.prems by simp
  note ih = Cons.IH [of "add_entry s e"]
  have p: "initrd_nfiles (add_entry s e) + length es \<le> 32" using Cons.prems f [OF l] by simp
  have "initrd_files (fold (\<lambda>e s. add_entry s e) es (add_entry s e)) (initrd_nfiles s + i) = (e # es) ! i"
    if "i < length (e # es)" for i
    using ih [OF p] f [OF l] that by (cases i) auto
  then show ?case using ih [OF p] f [OF l] by auto
qed simp

lemma tar_entries_len [simp]: "length (tar_entries meta p fs) = length fs"
  by (induction fs arbitrary: p) auto

lemma parse_archive_loop:
  assumes big: "unat sz + 512 < 2 ^ 64" and nw: "unat base + unat sz < 2 ^ 64" and bz: "base \<noteq> 0"
    and me: "\<And>f. length (meta f) = 512" and k: "512 < k"
  shows "\<forall>f\<in>set fs. file_ok f \<Longrightarrow> stored mem (base + offset) (concat (map (tar_file meta) fs) @ replicate k 0) \<Longrightarrow>
    unat offset + length (concat (map (tar_file meta) fs)) + k = unat sz \<Longrightarrow> initrd_nfiles s + length fs \<le> 32 \<Longrightarrow>
    length fs < n \<Longrightarrow> 0 < initrd_nfiles s + length fs \<Longrightarrow>
    parse_tar_loop n mem s base sz offset = Some (SCDK_OK, fold (\<lambda>e s. add_entry s e) (tar_entries meta (base + offset) fs) s)"
proof (induction fs arbitrary: s offset n)
  case Nil
  then obtain m where m: "n = Suc m" by (cases n) auto
  have "stored mem (base + offset) (replicate 512 0 @ replicate (k - 512) 0)"
    using Nil.prems(2) k by (simp add: replicate_add [symmetric])
  then have "stored mem (base + offset) (replicate 512 0)" by (simp only: stored_append)
  then have "memory_is_zero mem (base + offset) 512" by (simp add: memory_is_zero_def stored_def list_all_iff)
  moreover have "initrd_file_count s \<noteq> 0" using Nil.prems(6) by (auto simp: initrd_nfiles_def)
  ultimately show ?case by (simp add: m)
next
  case (Cons f fs)
  obtain m where m: "n = Suc m" using Cons.prems(5) by (cases n) auto
  let ?l = "length (tar_file meta f)"
  let ?e = "\<lparr>ie_path = slash # fst f, ie_data = base + offset + 512, ie_size = of_nat (length (snd f)), ie_flags = 0\<rparr>"
  have st: "stored mem (base + offset) (tar_file meta f)"
    "stored mem (base + offset + of_nat ?l) (concat (map (tar_file meta) fs) @ replicate k 0)"
    using Cons.prems(2) by (simp_all add: stored_append)
  have fit: "unat offset + ?l \<le> unat sz" "unat offset + 512 < unat sz" using Cons.prems(3) k by simp_all
  have l: "initrd_nfiles s < 32" using Cons.prems(4) by simp
  have ul: "unat (of_nat ?l :: u64) = ?l" using fit unat_u64_less [of sz] by (simp add: unat_of_nat)
  have uo: "unat (offset + of_nat ?l) = unat offset + ?l" using fit unat_u64_less [of sz] ul by (subst unat_plus) simp_all
  have "unat (base + offset) = unat base + unat offset" using nw fit by (subst unat_plus) simp_all
  then have "unat (base + offset + 512) = unat base + unat offset + 512" using nw fit by (subst unat_plus) simp_all
  then have nz: "base + offset + 512 \<noteq> 0" by (metis add_gr_0 less_numeral_extra(3) unat_0 zero_less_numeral)
  have "parse_tar_loop n mem s base sz offset = parse_tar_loop m mem (add_entry s ?e) base sz (offset + of_nat ?l)"
    unfolding m by (rule parse_file_step [OF _ me st(1) big fit(1) l nz]) (use Cons.prems(1) in simp)
  also have "\<dots> = Some (SCDK_OK, fold (\<lambda>e s. add_entry s e) (tar_entries meta (base + (offset + of_nat ?l)) fs) (add_entry s ?e))"
    by (rule Cons.IH) (use Cons.prems m st(2) uo add_entry_facts [OF l, of ?e] in \<open>simp_all add: add.assoc\<close>)
  finally show ?case by (simp add: add.assoc)
qed

lemma tar_entry_nth:
  "i < length fs \<Longrightarrow> \<forall>f\<in>set fs. file_ok f \<Longrightarrow> (\<And>f. length (meta f) = 512) \<Longrightarrow> stored mem p (concat (map (tar_file meta) fs) @ rest) \<Longrightarrow>
     ie_path (tar_entries meta p fs ! i) = slash # fst (fs ! i) \<and>
     bytes_at mem (ie_data (tar_entries meta p fs ! i)) (unat (ie_size (tar_entries meta p fs ! i))) = snd (fs ! i)"
proof (induction fs arbitrary: p i)
  case (Cons f fs)
  show ?case
  proof (cases i)
    case 0
    have f: "length (snd f) < 8 ^ 11" "length (fst f) \<le> 100" using Cons.prems(2) by (auto simp: file_ok_def)
    have "stored mem (p + 512) (snd f)"
      using Cons.prems(4) f(2) Cons.prems(3) by (simp add: tar_file_def stored_append)
    moreover have "unat (of_nat (length (snd f)) :: u64) = length (snd f)" using f(1) by (simp add: unat_of_nat)
    ultimately show ?thesis by (simp add: 0 stored_def)
  next
    case (Suc j)
    have "stored mem (p + of_nat (length (tar_file meta f))) (concat (map (tar_file meta) fs) @ rest)"
      using Cons.prems(4) by (simp add: stored_append)
    with Cons.IH [of j "p + of_nat (length (tar_file meta f))"] Cons.prems Suc show ?thesis by simp
  qed
qed simp

lemma stored_image:
  "length bs < 2 ^ 64 \<Longrightarrow> stored (\<lambda>x. if unat (x - base) < length bs then bs ! unat (x - base) else 0) base bs"
  unfolding stored_def bytes_at_def by (rule nth_equalityI) (auto simp: unat_of_nat)

section \<open>Directories\<close>

text \<open>
  What a directory contains, independently of the code. \<open>dir_of\<close> is the queried path less
  its trailing slashes (empty for the root directory). A file of the archive with path
  \<open>path\<close> makes \<open>nm\<close> a child of the directory when the path is the directory, a slash and
  \<open>nm\<close>, and nothing more (\<open>sub\<close> false) or a slash and something below it (\<open>sub\<close> true).
\<close>

definition dir_of :: "cstr \<Rightarrow> cstr" where
  "dir_of query = rev (dropWhile (\<lambda>b. b = slash) (rev query))"

definition child :: "cstr \<Rightarrow> cstr \<Rightarrow> cstr \<Rightarrow> bool \<Rightarrow> bool" where
  "child dir path nm sub \<longleftrightarrow> slash \<notin> set nm \<and>
     (if sub then \<exists>rest. path = dir @ [slash] @ nm @ [slash] @ rest else nm \<noteq> [] \<and> path = dir @ [slash] @ nm)"

definition children :: "cstr \<Rightarrow> scdk_initrd_entry list \<Rightarrow> cstr set" where
  "children dir fs = {nm. \<exists>f\<in>set fs. \<exists>sub. child dir (ie_path f) nm sub}"

text \<open>What one round of the loop computes for a file.\<close>

definition kid :: "cstr \<Rightarrow> nat \<Rightarrow> scdk_initrd_entry \<Rightarrow> (cstr \<times> bool) option" where
  "kid query ql f =
     (if path_has_dir_prefix (ie_path f) query ql \<and> drop (if ql = 1 then 1 else ql + 1) (ie_path f) \<noteq> []
      then let r = drop (if ql = 1 then 1 else ql + 1) (ie_path f); nm = takeWhile (\<lambda>b. b \<noteq> slash) r
           in Some (nm, length nm < length r)
      else None)"

definition kid_names :: "cstr \<Rightarrow> nat \<Rightarrow> scdk_initrd_entry list \<Rightarrow> cstr set" where
  "kid_names query ql fs = {nm. \<exists>f\<in>set fs. \<exists>sub. kid query ql f = Some (nm, sub)}"

definition lists_kids :: "cstr \<Rightarrow> nat \<Rightarrow> scdk_initrd_entry list \<Rightarrow> scdk_vfs_dirent list \<Rightarrow> bool" where
  "lists_kids query ql fs es \<longleftrightarrow> distinct (map de_name es) \<and> set (map de_name es) = kid_names query ql fs \<and>
     (\<forall>e\<in>set es. de_type e = (if \<exists>f\<in>set fs. kid query ql f = Some (de_name e, True) then SCDK_VFS_NODE_DIR else SCDK_VFS_NODE_FILE))"

lemma listdir_file_None: "kid query ql f = None \<Longrightarrow> listdir_file query ql cap f es = Inr es"
  by (auto simp: kid_def listdir_file_def Let_def split: if_splits)

lemma listdir_file_Some:
  assumes "kid query ql f = Some (nm, sub)"
  shows "listdir_file query ql cap f es =
    (if nm = [] then Inl SCDK_ERR_INVAL
     else if length nm \<ge> SCDK_VFS_MAX_NAME then Inl SCDK_ERR_BOUNDS
     else case first_slot (\<lambda>i. de_name (es ! i) = nm) (length es) of
       Some i \<Rightarrow> Inr (if sub then es[i := (es ! i)\<lparr>de_type := SCDK_VFS_NODE_DIR, de_size := 0\<rparr>] else es)
     | None \<Rightarrow> if length es \<ge> unat cap then Inl SCDK_ERR_BOUNDS
               else Inr (es @ [\<lparr>de_name = nm, de_type = (if sub then SCDK_VFS_NODE_DIR else SCDK_VFS_NODE_FILE),
                                de_size = (if sub then 0 else ie_size f)\<rparr>]))"
proof -
  define r where "r = drop (if ql = 1 then 1 else ql + 1) (ie_path f)"
  have k: "path_has_dir_prefix (ie_path f) query ql" "r \<noteq> []" "nm = takeWhile (\<lambda>b. b \<noteq> slash) r" "sub = (length nm < length r)"
    using assms unfolding kid_def Let_def r_def [symmetric] by (auto split: if_splits)
  have t: "take (length nm) r = nm" unfolding k(3) by (rule takeWhile_eq_take [symmetric])
  have eq: "dirent_name_eq x r (length nm) \<longleftrightarrow> x = nm" for x using t by (auto simp: dirent_name_eq_def)
  have "listdir_file query ql cap f es = add_dirent es cap r (length nm)
      (if sub then SCDK_VFS_NODE_DIR else SCDK_VFS_NODE_FILE) (if sub then 0 else ie_size f)"
    unfolding listdir_file_def Let_def r_def [symmetric] using k by simp
  then show ?thesis by (simp add: add_dirent_def eq t cong: option.case_cong)
qed

lemma lists_kids_skip:
  assumes "kid query ql f = None" and "lists_kids query ql fs es"
  shows "lists_kids query ql (fs @ [f]) es"
  using assms by (simp add: lists_kids_def kid_names_def)

lemma lists_kids_new:
  assumes "kid query ql f = Some (nm, sub)" and "lists_kids query ql fs es" and "nm \<notin> de_name ` set es"
  shows "lists_kids query ql (fs @ [f]) (es @ [\<lparr>de_name = nm, de_type = (if sub then SCDK_VFS_NODE_DIR else SCDK_VFS_NODE_FILE), de_size = x\<rparr>])"
proof -
  have n: "nm \<notin> kid_names query ql fs" using assms(2,3) by (simp add: lists_kids_def)
  then have "\<not> (\<exists>f\<in>set fs. kid query ql f = Some (nm, True))" by (auto simp: kid_names_def)
  moreover have "\<forall>e\<in>set es. de_name e \<noteq> nm" using assms(3) by blast
  ultimately show ?thesis using assms n by (auto simp: lists_kids_def kid_names_def split: if_splits)
qed

lemma lists_kids_old:
  assumes k: "kid query ql f = Some (nm, sub)" and l: "lists_kids query ql fs es" and i: "i < length es" "de_name (es ! i) = nm"
  shows "lists_kids query ql (fs @ [f]) (if sub then es[i := (es ! i)\<lparr>de_type := SCDK_VFS_NODE_DIR, de_size := 0\<rparr>] else es)"
proof -
  let ?es = "if sub then es[i := (es ! i)\<lparr>de_type := SCDK_VFS_NODE_DIR, de_size := 0\<rparr>] else es"
  have names: "map de_name ?es = map de_name es"
    using i by (auto simp: map_update intro!: list_update_same_conv [THEN iffD2])
  have "nm \<in> kid_names query ql fs" using l i by (auto simp: lists_kids_def dest!: equalityD1)
  then have n: "kid_names query ql (fs @ [f]) = kid_names query ql fs" using k by (auto simp: kid_names_def)
  have d: "distinct (map de_name es)" using l by (simp add: lists_kids_def)
  have ty: "de_type (?es ! j) = (if \<exists>g\<in>set (fs @ [f]). kid query ql g = Some (de_name (?es ! j), True) then SCDK_VFS_NODE_DIR else SCDK_VFS_NODE_FILE)"
    if j: "j < length es" for j
  proof (cases "j = i")
    case True
    have "de_type (es ! i) = (if \<exists>g\<in>set fs. kid query ql g = Some (nm, True) then SCDK_VFS_NODE_DIR else SCDK_VFS_NODE_FILE)"
      using l i by (auto simp: lists_kids_def)
    then show ?thesis using True i k by (auto simp: nth_list_update)
  next
    case False
    then have "de_name (es ! j) \<noteq> nm" using d i j by (auto simp: distinct_conv_nth)
    moreover have "de_type (es ! j) = (if \<exists>g\<in>set fs. kid query ql g = Some (de_name (es ! j), True) then SCDK_VFS_NODE_DIR else SCDK_VFS_NODE_FILE)"
      using l j by (auto simp: lists_kids_def)
    moreover have "?es ! j = es ! j" using False by simp
    ultimately show ?thesis using k by auto
  qed
  have "length ?es = length es" by simp
  then have "\<forall>e\<in>set ?es. de_type e = (if \<exists>g\<in>set (fs @ [f]). kid query ql g = Some (de_name e, True) then SCDK_VFS_NODE_DIR else SCDK_VFS_NODE_FILE)"
    using ty by (metis in_set_conv_nth)
  moreover have "set (map de_name es) = kid_names query ql fs" using l by (simp add: lists_kids_def)
  ultimately show ?thesis unfolding lists_kids_def names n using d by blast
qed

lemma listdir_file_step:
  assumes l: "lists_kids query ql fs es" and f: "listdir_file query ql cap f es = Inr es'"
  shows "lists_kids query ql (fs @ [f]) es'"
proof (cases "kid query ql f")
  case None
  then show ?thesis using lists_kids_skip [OF _ l] listdir_file_None f by auto
next
  case (Some k)
  obtain nm sub where k: "kid query ql f = Some (nm, sub)" using Some by (cases k) auto
  show ?thesis
  proof (cases "first_slot (\<lambda>i. de_name (es ! i) = nm) (length es)")
    case None
    then have "nm \<notin> de_name ` set es" by (auto simp: first_slot_None in_set_conv_nth)
    then show ?thesis using lists_kids_new [OF k l] f None listdir_file_Some [OF k] by (auto split: if_splits)
  next
    case (Some i)
    then have "i < length es" "de_name (es ! i) = nm" by (auto simp: scan_facts)
    then show ?thesis using lists_kids_old [OF k l, of i] f Some listdir_file_Some [OF k] by (auto split: if_splits)
  qed
qed

lemma listdir_loop_exact:
  "listdir_loop query ql cap gs es = Inr es' \<Longrightarrow> lists_kids query ql fs es \<Longrightarrow> lists_kids query ql (fs @ gs) es'"
proof (induction gs arbitrary: fs es)
  case (Cons g gs)
  from Cons.prems obtain es1 where e: "listdir_file query ql cap g es = Inr es1" "listdir_loop query ql cap gs es1 = Inr es'"
    by (auto split: sum.splits)
  show ?case using Cons.IH [OF e(2) listdir_file_step [OF Cons.prems(2) e(1)]] by simp
qed simp

lemma listdir_loop_total:
  assumes names: "\<And>f nm sub. f \<in> set gs \<Longrightarrow> kid query ql f = Some (nm, sub) \<Longrightarrow> nm \<noteq> [] \<and> length nm < SCDK_VFS_MAX_NAME"
    and l: "lists_kids query ql fs es" and cap: "card (kid_names query ql (fs @ gs)) \<le> unat cap"
  shows "\<exists>es'. listdir_loop query ql cap gs es = Inr es'"
  using assms
proof (induction gs arbitrary: fs es)
  case (Cons g gs)
  have fin: "finite (kid_names query ql (fs @ g # gs))"
  proof -
    have "kid_names query ql (fs @ g # gs) \<subseteq> (\<lambda>f. fst (the (kid query ql f))) ` set (fs @ g # gs)"
    proof
      fix nm
      assume "nm \<in> kid_names query ql (fs @ g # gs)"
      then obtain f sub where "f \<in> set (fs @ g # gs)" "kid query ql f = Some (nm, sub)" unfolding kid_names_def by blast
      then show "nm \<in> (\<lambda>f. fst (the (kid query ql f))) ` set (fs @ g # gs)" by (intro rev_image_eqI [of f]) simp_all
    qed
    then show ?thesis by (rule finite_subset) simp
  qed
  have "\<exists>es1. listdir_file query ql cap g es = Inr es1"
  proof (cases "kid query ql g")
    case None
    then show ?thesis using listdir_file_None by blast
  next
    case (Some k)
    obtain nm sub where k: "kid query ql g = Some (nm, sub)" using Some by (cases k) auto
    have ok: "nm \<noteq> []" "\<not> length nm \<ge> SCDK_VFS_MAX_NAME" using Cons.prems(1) [OF _ k] by auto
    show ?thesis
    proof (cases "first_slot (\<lambda>i. de_name (es ! i) = nm) (length es)")
      case None
      then have "nm \<notin> de_name ` set es" by (auto simp: first_slot_None in_set_conv_nth)
      moreover have e: "set (map de_name es) = kid_names query ql fs" "distinct (map de_name es)"
        using Cons.prems(2) by (simp_all add: lists_kids_def)
      ultimately have "insert nm (set (map de_name es)) \<subseteq> kid_names query ql (fs @ g # gs)" "nm \<notin> set (map de_name es)"
        using k by (auto simp: kid_names_def)
      then have "card (insert nm (set (map de_name es))) \<le> unat cap" using card_mono [OF fin] Cons.prems(3) le_trans by blast
      then have "length es < unat cap" using distinct_card [OF e(2)] \<open>nm \<notin> set (map de_name es)\<close> by simp
      then show ?thesis using listdir_file_Some [OF k] ok None by simp
    next
      case (Some i)
      then show ?thesis using listdir_file_Some [OF k] ok by simp
    qed
  qed
  then obtain es1 where e: "listdir_file query ql cap g es = Inr es1" by blast
  have "\<exists>es'. listdir_loop query ql cap gs es1 = Inr es'"
    by (rule Cons.IH [of "fs @ [g]"]) (use Cons.prems listdir_file_step [OF Cons.prems(2) e] in auto)
  then show ?case using e by simp
qed simp

text \<open>An entry of type file carries the size of a file of that name.\<close>

definition lists_sizes :: "cstr \<Rightarrow> nat \<Rightarrow> scdk_initrd_entry list \<Rightarrow> scdk_vfs_dirent list \<Rightarrow> bool" where
  "lists_sizes query ql fs es \<longleftrightarrow>
     (\<forall>e\<in>set es. de_type e = SCDK_VFS_NODE_FILE \<longrightarrow> (\<exists>f\<in>set fs. kid query ql f = Some (de_name e, False) \<and> de_size e = ie_size f))"

lemma listdir_file_sizes:
  assumes l: "lists_sizes query ql fs es" and f: "listdir_file query ql cap f es = Inr es'" and "f \<in> set fs"
  shows "lists_sizes query ql fs es'"
proof (cases "kid query ql f")
  case None
  then show ?thesis using listdir_file_None f l by auto
next
  case (Some k)
  obtain nm sub where k: "kid query ql f = Some (nm, sub)" using Some by (cases k) auto
  show ?thesis
  proof (cases "first_slot (\<lambda>i. de_name (es ! i) = nm) (length es)")
    case None
    then have "es' = es @ [\<lparr>de_name = nm, de_type = (if sub then SCDK_VFS_NODE_DIR else SCDK_VFS_NODE_FILE), de_size = (if sub then 0 else ie_size f)\<rparr>]"
      using f listdir_file_Some [OF k] by (auto split: if_splits)
    moreover have "\<exists>g\<in>set fs. kid query ql g = Some (nm, sub) \<and> ie_size f = ie_size g" using k assms(3) by blast
    ultimately show ?thesis using l unfolding lists_sizes_def by (auto split: if_splits)
  next
    case (Some i)
    then have "es' = (if sub then es[i := (es ! i)\<lparr>de_type := SCDK_VFS_NODE_DIR, de_size := 0\<rparr>] else es)"
      using f listdir_file_Some [OF k] by (auto split: if_splits)
    then show ?thesis using l set_update_subset_insert [of es i] unfolding lists_sizes_def by (fastforce split: if_splits)
  qed
qed

lemma listdir_loop_sizes:
  "listdir_loop query ql cap gs es = Inr es' \<Longrightarrow> lists_sizes query ql fs es \<Longrightarrow> set gs \<subseteq> set fs \<Longrightarrow> lists_sizes query ql fs es'"
proof (induction gs arbitrary: es)
  case (Cons g gs)
  from Cons.prems(1) obtain es1 where e: "listdir_file query ql cap g es = Inr es1" "listdir_loop query ql cap gs es1 = Inr es'"
    by (auto split: sum.splits)
  show ?case using Cons.IH [OF e(2) listdir_file_sizes [OF Cons.prems(2) e(1)]] Cons.prems(3) by simp
qed simp

text \<open>The code's view of a query agrees with \<open>dir_of\<close>.\<close>

lemma strip_slashes_dir:
  "n \<noteq> 0 \<Longrightarrow> n \<le> length q \<Longrightarrow> q ! 0 = slash \<Longrightarrow>
   strip_slashes q n = (let d = dir_of (take n q) in if d = [] then 1 else length d) \<and>
   take (length (dir_of (take n q))) q = dir_of (take n q)"
proof (induction n)
  case (Suc n)
  have t: "take (Suc n) q = take n q @ [q ! n]" using Suc.prems by (simp add: take_Suc_conv_app_nth)
  show ?case
  proof (cases "q ! n = slash")
    case True
    then have d: "dir_of (take (Suc n) q) = dir_of (take n q)" by (simp add: t dir_of_def)
    show ?thesis
    proof (cases "n = 0")
      case True
      then show ?thesis unfolding d by (simp add: dir_of_def)
    next
      case False
      then show ?thesis unfolding d using Suc \<open>q ! n = slash\<close> by (simp add: Let_def)
    qed
  next
    case False
    then have "dir_of (take (Suc n) q) = take (Suc n) q" by (simp add: t dir_of_def)
    then show ?thesis using Suc.prems False by (cases "n = 0") (auto simp: Let_def t)
  qed
qed simp

lemma query_dir:
  assumes "query \<noteq> []" "query ! 0 = slash"
  shows "normalized_query_len query = (if dir_of query = [] then 1 else length (dir_of query))"
    and "take (length (dir_of query)) query = dir_of query"
    and "dir_of query \<noteq> [] \<Longrightarrow> length (dir_of query) \<noteq> 1"
proof -
  note s = strip_slashes_dir [of "length query" query, OF _ _ assms(2)]
  show "normalized_query_len query = (if dir_of query = [] then 1 else length (dir_of query))"
    and t: "take (length (dir_of query)) query = dir_of query"
    using s assms(1) by (simp_all add: normalized_query_len_def Let_def)
  show "length (dir_of query) \<noteq> 1" if "dir_of query \<noteq> []"
  proof
    assume l: "length (dir_of query) = 1"
    then have "dir_of query = [slash]" using t assms by (cases query) simp_all
    then have d: "dropWhile (\<lambda>b. b = slash) (rev query) = [slash]" by (simp add: dir_of_def)
    then have "dropWhile (\<lambda>b. b = slash) (rev query) \<noteq> []" by simp
    from hd_dropWhile [OF this] show False by (simp only: d list.sel)
  qed
qed

lemma dir_prefix_iff:
  assumes q: "query \<noteq> []" "query ! 0 = slash"
  shows "path_has_dir_prefix path query (normalized_query_len query) \<longleftrightarrow> (\<exists>r. r \<noteq> [] \<and> path = dir_of query @ [slash] @ r)"
proof (cases "dir_of query = []")
  case True
  then show ?thesis using q
    by (cases path) (auto simp: path_has_dir_prefix_def query_dir(1) [OF q])
next
  case False
  define d where "d = dir_of query"
  have l: "normalized_query_len query = length d" "take (length d) query = d" "length d \<noteq> 1"
    using query_dir [OF q] False by (simp_all add: d_def)
  have "(\<exists>r. r \<noteq> [] \<and> path = d @ [slash] @ r) \<longleftrightarrow> length path > length d + 1 \<and> take (length d) path = d \<and> path ! length d = slash" (is "?l \<longleftrightarrow> ?r")
  proof
    assume r: ?r
    then have "path = d @ [slash] @ drop (length d + 1) path"
      using id_take_nth_drop [of "length d" path] by simp
    moreover have "drop (length d + 1) path \<noteq> []" using r by simp
    ultimately show ?l by blast
  qed auto
  then show ?thesis using l by (simp add: path_has_dir_prefix_def d_def [symmetric])
qed

lemma kid_child:
  assumes q: "query \<noteq> []" "query ! 0 = slash"
  shows "kid query (normalized_query_len query) f = Some (nm, sub) \<longleftrightarrow> child (dir_of query) (ie_path f) nm sub"
proof -
  define d where "d = dir_of query"
  have skip: "(if normalized_query_len query = 1 then 1 else normalized_query_len query + 1) = length d + 1"
    using query_dir [OF q] by (simp add: d_def)
  have tw: "takeWhile (\<lambda>b. b \<noteq> slash) r = nm \<and> (length nm < length r) = sub \<and> r \<noteq> [] \<longleftrightarrow>
      slash \<notin> set nm \<and> (if sub then \<exists>rest. r = nm @ [slash] @ rest else nm \<noteq> [] \<and> r = nm)" (is "?l \<longleftrightarrow> ?r") for r
  proof
    assume l: ?l
    then have ns: "slash \<notin> set nm" by (auto dest: set_takeWhileD)
    have r: "r = nm @ dropWhile (\<lambda>b. b \<noteq> slash) r" using l takeWhile_dropWhile_id [of "\<lambda>b. b \<noteq> slash" r] by simp
    show ?r
    proof (cases "dropWhile (\<lambda>b. b \<noteq> slash) r")
      case Nil
      then have "r = nm" using r by (simp only: append_Nil2)
      then show ?thesis using l ns by auto
    next
      case (Cons x xs)
      moreover have "x = slash" using hd_dropWhile [of "\<lambda>b. b \<noteq> slash" r] Cons by simp
      ultimately have "r = nm @ [slash] @ xs" using r by simp
      then show ?thesis using l ns by auto
    qed
  next
    assume r: ?r
    then have "takeWhile (\<lambda>b. b \<noteq> slash) (nm @ ys) = nm @ takeWhile (\<lambda>b. b \<noteq> slash) ys" for ys
      by (intro takeWhile_append2) auto
    from this [of "[]"] this r show ?l by (cases sub) auto
  qed
  show ?thesis
  proof (cases "\<exists>r. r \<noteq> [] \<and> ie_path f = d @ [slash] @ r")
    case True
    then obtain r where r: "r \<noteq> []" "ie_path f = d @ [slash] @ r" by blast
    have "kid query (normalized_query_len query) f = Some (nm, sub) \<longleftrightarrow> takeWhile (\<lambda>b. b \<noteq> slash) r = nm \<and> (length nm < length r) = sub \<and> r \<noteq> []"
      unfolding kid_def skip dir_prefix_iff [OF q] d_def [symmetric] using r by (auto simp: Let_def)
    then show ?thesis unfolding tw child_def d_def [symmetric] using r by (simp cong: if_cong)
  next
    case False
    then have "kid query (normalized_query_len query) f = None"
      unfolding kid_def dir_prefix_iff [OF q] d_def [symmetric] by (simp only: simp_thms if_False)
    moreover have "\<not> child d (ie_path f) nm sub" using False by (auto simp: child_def split: if_splits)
    ultimately show ?thesis by (simp add: d_def)
  qed
qed

lemma kid_names_children:
  assumes q: "query \<noteq> []" "query ! 0 = slash"
  shows "kid_names query (normalized_query_len query) fs = children (dir_of query) fs"
  by (simp add: kid_names_def children_def kid_child [OF q])

lemma stat_directory:
  assumes q: "initrd_initialized s" "query \<noteq> []" "query ! 0 = slash" and fs: "fs = map (initrd_files s) [0..<initrd_nfiles s]"
  shows "scdk_initrd_stat s (Some query) =
    (if dir_of query = [] then Inr \<lparr>st_type = SCDK_VFS_NODE_DIR, st_size = 0\<rparr>
     else case first_slot (\<lambda>i. ie_path (initrd_files s i) = dir_of query) (initrd_nfiles s) of
       Some i \<Rightarrow> Inr \<lparr>st_type = SCDK_VFS_NODE_FILE, st_size = ie_size (initrd_files s i)\<rparr>
     | None \<Rightarrow> if children (dir_of query) fs = {} then Inl SCDK_ERR_NOENT else Inr \<lparr>st_type = SCDK_VFS_NODE_DIR, st_size = 0\<rparr>)"
proof (cases "dir_of query = []")
  case True
  then show ?thesis using q by (simp add: scdk_initrd_stat_def query_dir(1) [OF q(2,3)])
next
  case False
  define d where "d = dir_of query"
  note l = query_dir [OF q(2,3)]
  have ql: "normalized_query_len query = length d" "normalized_query_len query \<noteq> 1" "take (length d) query = d"
    using l False by (simp_all add: d_def)
  have e: "path_eq_len p query (normalized_query_len query) \<longleftrightarrow> p = d" for p
    using ql by (auto simp: path_eq_len_def)
  have c: "(\<exists>i<initrd_nfiles s. path_has_dir_prefix (ie_path (initrd_files s i)) query (normalized_query_len query)) \<longleftrightarrow> children d fs \<noteq> {}"
  proof -
    have "(\<exists>nm sub. child d p nm sub) \<longleftrightarrow> (\<exists>r. r \<noteq> [] \<and> p = d @ [slash] @ r)" (is "?l \<longleftrightarrow> ?r") for p
    proof
      assume ?r
      then obtain r where r: "r \<noteq> []" "p = d @ [slash] @ r" by blast
      show ?l
      proof (cases "slash \<in> set r")
        case True
        then obtain a b where "r = a @ slash # b" "slash \<notin> set a" using split_list_first by fastforce
        then have "child d p a True" using r by (simp add: child_def)
        then show ?thesis by blast
      next
        case False
        then have "child d p r False" using r by (simp add: child_def)
        then show ?thesis by blast
      qed
    qed (auto simp: child_def split: if_splits)
    note below = this
    have "children d fs \<noteq> {} \<longleftrightarrow> (\<exists>i<initrd_nfiles s. \<exists>nm sub. child d (ie_path (initrd_files s i)) nm sub)"
      unfolding children_def fs by fastforce
    then show ?thesis unfolding below dir_prefix_iff [OF q(2,3)] d_def [symmetric] by simp
  qed
  have n: "first_slot (\<lambda>i. path_has_dir_prefix (ie_path (initrd_files s i)) query (normalized_query_len query)) (initrd_nfiles s) = None
      \<longleftrightarrow> children d fs = {}"
    using c by (auto simp: first_slot_None)
  show ?thesis
    using q False n ql(2) unfolding scdk_initrd_stat_def Let_def d_def [symmetric]
    by (auto simp: e split: option.split)
qed

section \<open>Properties\<close>

text \<open>
  (C36) The parser never leaves the archive: on any bytes at all, for an image that ends at
  least one block below the end of the address space, \<^verbatim>\<open>parse_tar_image\<close> ends, remembers at
  most 32 files, and each of them has an absolute path that fits the path buffer
  with its terminating zero and a data range that lies inside the image.
\<close>

theorem initrd_parse_safe:
  assumes "base \<noteq> 0" and "SCDK_TAR_BLOCK_SIZE \<le> sz" and "unat sz + 512 < 2 ^ 64"
  shows "\<exists>r s'. parse_tar_image mem s base sz = Some (r, s') \<and> initrd_nfiles s' \<le> 32 \<and>
    (\<forall>i<initrd_nfiles s'. path_ok (ie_path (initrd_files s' i)) \<and>
       (\<exists>off. ie_data (initrd_files s' i) = base + of_nat off \<and> 512 \<le> off \<and>
          off + unat (ie_size (initrd_files s' i)) \<le> unat sz))"
proof -
  let ?s = "s\<lparr>initrd_file_count := 0, initrd_files := (\<lambda>_. null_initrd_entry)\<rparr>"
  have "initrd_ok ?s base sz" by (simp add: initrd_ok_def initrd_nfiles_def)
  from parse_loop_safe [OF assms(3) _ _ this, of 0 "unat sz div 512 + 1" mem]
  obtain r s' where "parse_tar_loop (unat sz div 512 + 1) mem ?s base sz 0 = Some (r, s')" "initrd_ok s' base sz"
    by (auto simp del: parse_tar_loop.simps)
  moreover have "parse_tar_image mem s base sz = parse_tar_loop (unat sz div 512 + 1) mem ?s base sz 0"
    using assms(1,2) by (auto simp: parse_tar_image_def simp del: parse_tar_loop.simps)
  ultimately show ?thesis by (auto simp: initrd_ok_def entry_ok_def)
qed

definition initrd_boot :: initrd_state where
  "initrd_boot = \<lparr>limine_modules = None, initrd_files = (\<lambda>_. null_initrd_entry), initrd_file_count = 0, initrd_initialized = False\<rparr>"

theorem initrd_parse_safe_witness:
  "\<exists>r s'. parse_tar_image (\<lambda>_. 0x37) initrd_boot 0x1000 1024 = Some (r, s') \<and> initrd_nfiles s' \<le> 32"
proof -
  have "SCDK_TAR_BLOCK_SIZE \<le> 1024" by (simp add: kconst)
  from initrd_parse_safe [OF _ this, of "0x1000" "\<lambda>_. 0x37" initrd_boot] show ?thesis by auto
qed

text \<open>
  (C25) Packing and parsing are inverse: of an archive of at least one and at most 32 regular
  files, with distinct, non-empty names of at most 100 bytes that do not start with
  a dot and a slash, of less than 8 GiB each, packed in ustar form with an empty prefix field,
  any bytes in the fields that the parser does not read and at least two zero
  blocks at the end, placed in memory, \<^verbatim>\<open>parse_tar_image\<close> recovers every file, in order, with its
  absolute path and its exact content, and \<^verbatim>\<open>scdk_initrd_find\<close> then finds each one by
  its path.
\<close>

theorem initrd_roundtrip:
  assumes fs: "fs \<noteq> []" "length fs \<le> 32" "\<forall>f\<in>set fs. file_ok f" and dist: "distinct (map fst fs)"
    and arch: "\<And>f. length (meta f) = 512" "1024 \<le> k"
    and mem: "stored mem base (tar_archive meta k fs)" "base \<noteq> 0" "unat base + length (tar_archive meta k fs) < 2 ^ 64"
      "length (tar_archive meta k fs) + 512 < 2 ^ 64"
  shows "\<exists>s'. parse_tar_image mem s base (of_nat (length (tar_archive meta k fs))) = Some (SCDK_OK, s') \<and>
    initrd_nfiles s' = length fs \<and>
    (\<forall>i<length fs. ie_path (initrd_files s' i) = slash # fst (fs ! i) \<and>
       bytes_at mem (ie_data (initrd_files s' i)) (unat (ie_size (initrd_files s' i))) = snd (fs ! i) \<and>
       scdk_initrd_find (s'\<lparr>initrd_initialized := True\<rparr>) (Some (slash # fst (fs ! i))) = Inr (initrd_files s' i))"
proof -
  let ?sz = "of_nat (length (tar_archive meta k fs)) :: u64" and ?s = "s\<lparr>initrd_file_count := 0, initrd_files := (\<lambda>_. null_initrd_entry)\<rparr>"
  let ?s' = "fold (\<lambda>e s. add_entry s e) (tar_entries meta base fs) ?s"
  have usz: "unat ?sz = length (tar_archive meta k fs)" using mem(4) by (simp add: unat_of_nat)
  have len: "length (tar_archive meta k fs) = length (concat (map (tar_file meta) fs)) + k" by (simp add: tar_archive_def)
  have files: "length fs \<le> length (concat (map (tar_file meta) fs)) div 512"
  proof -
    have "length fs * 512 \<le> length (concat (map (tar_file meta) fs))"
      using fs(3) arch(1) by (induction fs) (auto simp: file_len)
    then show ?thesis by (simp add: less_eq_div_iff_mult_less_eq)
  qed
  have n0: "initrd_nfiles ?s = 0" by (simp add: initrd_nfiles_def)
  have "parse_tar_loop (unat ?sz div 512 + 1) mem ?s base ?sz 0 = Some (SCDK_OK, fold (\<lambda>e s. add_entry s e) (tar_entries meta (base + 0) fs) ?s)"
    by (rule parse_archive_loop)
      (use fs mem usz len files n0 arch in \<open>simp_all add: tar_archive_def\<close>)
  moreover have "\<not> ?sz < SCDK_TAR_BLOCK_SIZE" using usz len arch(2) by (simp add: word_less_nat_alt kconst)
  ultimately have p: "parse_tar_image mem s base ?sz = Some (SCDK_OK, ?s')"
    using mem(2) by (simp add: parse_tar_image_def del: parse_tar_loop.simps)
  have t: "initrd_nfiles ?s' = length fs" "\<And>i. i < length fs \<Longrightarrow> initrd_files ?s' i = tar_entries meta base fs ! i"
    using add_entries [of ?s "tar_entries meta base fs"] fs(2) n0 by simp_all
  have e: "ie_path (initrd_files ?s' i) = slash # fst (fs ! i) \<and>
       bytes_at mem (ie_data (initrd_files ?s' i)) (unat (ie_size (initrd_files ?s' i))) = snd (fs ! i)" if "i < length fs" for i
    using tar_entry_nth [OF that fs(3) arch(1)] mem(1) t(2) [OF that] by (simp add: tar_archive_def)
  have "scdk_initrd_find (?s'\<lparr>initrd_initialized := True\<rparr>) (Some (slash # fst (fs ! i))) = Inr (initrd_files ?s' i)" if i: "i < length fs" for i
  proof -
    have "first_slot (\<lambda>j. str_eq (Some (slash # fst (fs ! i))) (Some (ie_path (initrd_files ?s' j)))) (length fs) = Some i"
      unfolding first_slot_Some
    proof (intro conjI allI impI)
      fix j
      assume j: "j < i"
      then have "fst (fs ! j) \<noteq> fst (fs ! i)" using dist i by (auto simp: distinct_conv_nth)
      then show "\<not> str_eq (Some (slash # fst (fs ! i))) (Some (ie_path (initrd_files ?s' j)))"
        using e [of j] i j by (simp add: str_eq_def)
    qed (use i e [OF i] in \<open>simp_all add: str_eq_def\<close>)
    then show ?thesis using t(1) by (simp add: scdk_initrd_find_def initrd_nfiles_def)
  qed
  then show ?thesis using p t(1) e by blast
qed

theorem initrd_roundtrip_witness:
  "\<exists>mem s'. parse_tar_image mem initrd_boot 0x1000 (of_nat (length (tar_archive (\<lambda>_. replicate 512 0x37) 9216 [([0x61], [1, 2])]))) = Some (SCDK_OK, s') \<and>
     bytes_at mem (ie_data (initrd_files s' 0)) (unat (ie_size (initrd_files s' 0))) = [1, 2]"
proof -
  let ?fs = "[([0x61], [1, 2])] :: (cstr \<times> u8 list) list"
  let ?meta = "\<lambda>_. replicate 512 0x37 :: u8 list"
  let ?bs = "tar_archive ?meta 9216 ?fs"
  have ok: "file_ok ([0x61], [1, 2])" by (simp add: file_ok_def)
  have len: "length ?bs = 10240" using file_len [OF ok, of ?meta] by (simp add: tar_archive_def block_pad_def)
  let ?mem = "\<lambda>x. if unat (x - 0x1000) < length ?bs then ?bs ! unat (x - 0x1000) else 0"
  have "stored ?mem 0x1000 ?bs" by (rule stored_image) (simp add: len)
  from initrd_roundtrip [OF _ _ _ _ _ _ this, of initrd_boot] ok len show ?thesis by auto
qed

text \<open>
  (C37) Listing a directory of the archive. Let the query be an absolute path; the directory
  is the query less its trailing slashes, and it must be the root or no file and have
  something below it. A child is what stands between the directory's slash and the
  end of a file's path or the next slash. If every child has a non-empty name
  shorter than 64 bytes and the buffer is not empty and has room for all children,
  \<^verbatim>\<open>scdk_initrd_listdir\<close> returns each child exactly once and nothing else, as a
  directory if some file lies below it and otherwise as a file with the size of
  a file of that path.
\<close>

theorem initrd_listdir_exact:
  assumes "initrd_initialized s" and q: "query \<noteq> []" "query ! 0 = slash"
    and fs: "fs = map (initrd_files s) [0..<initrd_nfiles s]"
    and dir: "dir_of query = [] \<or> (\<forall>f\<in>set fs. ie_path f \<noteq> dir_of query) \<and> children (dir_of query) fs \<noteq> {}"
    and names: "\<forall>nm\<in>children (dir_of query) fs. nm \<noteq> [] \<and> length nm < SCDK_VFS_MAX_NAME"
    and cap: "cap \<noteq> 0" "card (children (dir_of query) fs) \<le> unat cap"
  shows "\<exists>es. scdk_initrd_listdir s (Some query) cap = Inr es \<and> distinct (map de_name es) \<and>
    set (map de_name es) = children (dir_of query) fs \<and>
    (\<forall>e\<in>set es. if \<exists>f\<in>set fs. child (dir_of query) (ie_path f) (de_name e) True then de_type e = SCDK_VFS_NODE_DIR
       else de_type e = SCDK_VFS_NODE_FILE \<and> (\<exists>f\<in>set fs. ie_path f = dir_of query @ [slash] @ de_name e \<and> de_size e = ie_size f))"
proof -
  let ?ql = "normalized_query_len query"
  note k = kid_child [OF q] kid_names_children [OF q]
  have l: "lists_kids query ?ql [] []" "lists_sizes query ?ql fs []" by (simp_all add: lists_kids_def kid_names_def lists_sizes_def)
  have "nm \<noteq> [] \<and> length nm < SCDK_VFS_MAX_NAME" if "f \<in> set fs" "kid query ?ql f = Some (nm, sub)" for f nm sub
    using names that by (auto simp: k children_def)
  then have "\<exists>es. listdir_loop query ?ql cap fs [] = Inr es"
    by (rule listdir_loop_total [OF _ l(1)]) (use cap k in simp_all)
  then obtain es where es: "listdir_loop query ?ql cap fs [] = Inr es" by blast
  have "first_slot (\<lambda>i. ie_path (initrd_files s i) = dir_of query) (initrd_nfiles s) = None" if "dir_of query \<noteq> []"
    using dir that fs by (auto simp: first_slot_None)
  then have "scdk_initrd_stat s (Some query) = Inr \<lparr>st_type = SCDK_VFS_NODE_DIR, st_size = 0\<rparr>"
    using dir stat_directory [OF assms(1) q fs] by auto
  then have r: "scdk_initrd_listdir s (Some query) cap = Inr es"
    using assms(1) cap q es fs by (simp add: scdk_initrd_listdir_def)
  have lk: "distinct (map de_name es)" "set (map de_name es) = children (dir_of query) fs"
    "\<forall>e\<in>set es. de_type e = (if \<exists>f\<in>set fs. child (dir_of query) (ie_path f) (de_name e) True then SCDK_VFS_NODE_DIR else SCDK_VFS_NODE_FILE)"
    using listdir_loop_exact [OF es l(1)] by (simp_all add: lists_kids_def k)
  have "\<exists>f\<in>set fs. ie_path f = dir_of query @ [slash] @ de_name e \<and> de_size e = ie_size f" if "e \<in> set es" "de_type e = SCDK_VFS_NODE_FILE" for e
    using listdir_loop_sizes [OF es l(2)] that by (fastforce simp: lists_sizes_def k child_def)
  then show ?thesis using r lk by (metis (lifting))
qed

text \<open>Two files, \<^verbatim>\<open>/a/b\<close> and \<^verbatim>\<open>/c\<close>.\<close>

definition initrd_demo :: initrd_state where
  "initrd_demo = initrd_boot\<lparr>initrd_files := (\<lambda>_. null_initrd_entry)
       (0 := \<lparr>ie_path = bytes_of ''/a/b'', ie_data = 0x1200, ie_size = 3, ie_flags = 0\<rparr>,
        1 := \<lparr>ie_path = bytes_of ''/c'', ie_data = 0x1600, ie_size = 5, ie_flags = 0\<rparr>),
     initrd_file_count := 2, initrd_initialized := True\<rparr>"

theorem initrd_listdir_exact_witness:
  "\<exists>es. scdk_initrd_listdir initrd_demo (Some (bytes_of ''/a/'')) 4 = Inr es \<and> set (map de_name es) = {bytes_of ''b''}"
proof -
  let ?fs = "map (initrd_files initrd_demo) [0..<initrd_nfiles initrd_demo]" and ?q = "bytes_of ''/a/''"
  have fs: "?fs = [\<lparr>ie_path = [0x2f, 0x61, 0x2f, 0x62], ie_data = 0x1200, ie_size = 3, ie_flags = 0\<rparr>,
      \<lparr>ie_path = [0x2f, 0x63], ie_data = 0x1600, ie_size = 5, ie_flags = 0\<rparr>]"
    by (simp add: initrd_demo_def initrd_nfiles_def bytes_of_def of_char_def upt_rec)
  have q: "?q = [0x2f, 0x61, 0x2f]" by (simp add: bytes_of_def of_char_def)
  have d: "dir_of ?q = [0x2f, 0x61]" by (simp add: q dir_of_def kconst)
  have c: "nm = [0x62] \<and> \<not> sub" if "f \<in> set ?fs" "child [0x2f, 0x61] (ie_path f) nm sub" for f nm sub
  proof -
    have "ie_path f = [0x2f, 0x61, 0x2f, 0x62] \<or> ie_path f = [0x2f, 0x63]" using that(1) unfolding fs by auto
    then show ?thesis using that(2) by (cases sub; cases nm) (auto simp: child_def kconst)
  qed
  have "child [0x2f, 0x61] (ie_path (?fs ! 0)) [0x62] False" unfolding fs by (simp add: child_def kconst)
  moreover have "?fs ! 0 \<in> set ?fs" unfolding fs by simp
  ultimately have ch: "children (dir_of ?q) ?fs = {[0x62]}" using c unfolding children_def d by blast
  have "?q \<noteq> []" "?q ! 0 = slash" "\<forall>f\<in>set ?fs. ie_path f \<noteq> dir_of ?q" "initrd_initialized initrd_demo"
    unfolding fs d by (simp_all add: q kconst initrd_demo_def)
  then have "\<exists>es. scdk_initrd_listdir initrd_demo (Some ?q) 4 = Inr es \<and> distinct (map de_name es) \<and>
    set (map de_name es) = children (dir_of ?q) ?fs \<and>
    (\<forall>e\<in>set es. if \<exists>f\<in>set ?fs. child (dir_of ?q) (ie_path f) (de_name e) True then de_type e = SCDK_VFS_NODE_DIR
       else de_type e = SCDK_VFS_NODE_FILE \<and> (\<exists>f\<in>set ?fs. ie_path f = dir_of ?q @ [slash] @ de_name e \<and> de_size e = ie_size f))"
    by (intro initrd_listdir_exact [OF _ _ _ refl]) (unfold ch, simp_all add: kconst)
  then obtain es where "scdk_initrd_listdir initrd_demo (Some ?q) 4 = Inr es" "set (map de_name es) = {[0x62]}" unfolding ch by blast
  moreover have "bytes_of ''b'' = [0x62]" by (simp add: bytes_of_def of_char_def)
  ultimately show ?thesis by metis
qed

text \<open>
  A member with an absolute name gets a path with two slashes; with one such file in the
  table the root directory cannot be listed any more.
\<close>

lemma listdir_absolute_member:
  "scdk_initrd_listdir (initrd_boot\<lparr>initrd_files := (\<lambda>_. \<lparr>ie_path = slash # slash # nm, ie_data = 0x1200, ie_size = 3, ie_flags = 0\<rparr>),
     initrd_file_count := 1, initrd_initialized := True\<rparr>) (Some [slash]) cap \<in> {Inl SCDK_ERR_INVAL}"
  by (cases "cap = 0")
    (simp_all add: scdk_initrd_listdir_def scdk_initrd_stat_def normalized_query_len_def numeral_eq_Suc initrd_nfiles_def
      listdir_file_def path_has_dir_prefix_def add_dirent_def Let_def)

end
