(* ===== verification/SCDK_Files.thy ===== *)
theory SCDK_Files
  imports SCDK_Syscall SCDK_Initrd
begin

text \<open>
  The file services: \<^verbatim>\<open>services/tmpfs_service.c\<close>, which serves the boot archive, and
  \<^verbatim>\<open>services/vfs_service.c\<close>, which forwards to it. The path of a message is a string in
  kernel memory; the buffer of a read or of a directory listing may be in user space.
  A file capability is shown to be a token that is minted by opening, dies by
  closing and gives exactly the bytes of its file.
\<close>

section \<open>State\<close>

record scdk_tmpfs_file =
  tf_object_id :: u64
  tf_cap :: u64
  tf_backing :: scdk_initrd_entry
  tf_open :: bool

record file_state = user_ring_state +
  initrd :: initrd_state
  open_files :: "nat \<Rightarrow> scdk_tmpfs_file"
  tmpfs_started :: bool
  root_tmpfs_endpoint :: u64
  vfs_started :: bool

abbreviation set_file :: "'a file_state_scheme \<Rightarrow> nat \<Rightarrow> scdk_tmpfs_file \<Rightarrow> 'a file_state_scheme" where
  "set_file s i f \<equiv> s\<lparr>open_files := (open_files s)(i := f)\<rparr>"

section \<open>Memory and strings\<close>

text \<open>
  One assignment \<^verbatim>\<open>*(uint8_t *)a = b\<close>: user addresses go through the page tables, all
  others are kernel memory.
\<close>

definition poke :: "'a user_state_scheme \<Rightarrow> u64 \<Rightarrow> u8 \<Rightarrow> 'a user_state_scheme" where
  "poke s a b = (if a < SCDK_USER_VIRT_TOP then store_byte s a b else s\<lparr>kmem := (kmem s)(a := b)\<rparr>)"

fun poke_bytes :: "'a user_state_scheme \<Rightarrow> u64 \<Rightarrow> u8 list \<Rightarrow> 'a user_state_scheme" where
  "poke_bytes s a [] = s"
| "poke_bytes s a (b # bs) = poke_bytes (poke s a b) (a + 1) bs"

text \<open>The loop of \<^verbatim>\<open>memcpy\<close> on the last \<open>n\<close> bytes; the source is kernel memory.\<close>

fun memcpy :: "'a user_state_scheme \<Rightarrow> u64 \<Rightarrow> u64 \<Rightarrow> nat \<Rightarrow> 'a user_state_scheme" where
  "memcpy s d src 0 = s"
| "memcpy s d src (Suc n) = memcpy (poke s d (kmem s src)) (d + 1) (src + 1) n"

text \<open>
  The loop of \<^verbatim>\<open>strlen\<close>. A string ends before the address space does, so the case of the last
  address only makes the function total.
\<close>

function strlen :: "memory \<Rightarrow> u64 \<Rightarrow> nat" where
  "strlen mem p = (if mem p = 0 \<or> p = - 1 then 0 else Suc (strlen mem (p + 1)))"
  by pat_completeness auto

termination
proof (relation "measure (\<lambda>(mem, p). unat (- 1 - p))", goal_cases)
  case (2 mem p)
  then have "- 1 - p \<noteq> 0" by auto
  then have "unat (- 1 - p - 1) < unat (- 1 - p)" by (rule measure_unat)
  moreover have "- 1 - p - 1 = - 1 - (p + 1)" by (simp add: algebra_simps)
  ultimately show ?case unfolding in_measure case_prod_conv by (simp only:)
qed (rule wf_measure)

declare strlen.simps [simp del]

section \<open>The archive file system\<close>

definition tmpfs_slot_for_cap :: "'a file_state_scheme \<Rightarrow> u64 \<Rightarrow> nat res" where
  "tmpfs_slot_for_cap s file_cap =
     (case scdk_cap_check s file_cap SCDK_RIGHT_READ SCDK_OBJ_FILE of
        Inl e \<Rightarrow> Inl e
      | Inr entry \<Rightarrow>
          (case scdk_object_lookup s (ce_object_id entry) of
             Inl e \<Rightarrow> Inl e
           | Inr object \<Rightarrow>
               (case obj_payload object of
                  PFile i \<Rightarrow> if tf_object_id (open_files s i) \<noteq> ce_object_id entry \<or> \<not> tf_open (open_files s i)
                             then Inl SCDK_ERR_NOENT else Inr i
                | _ \<Rightarrow> Inl SCDK_ERR_NOENT)))"

definition alloc_open_file_slot :: "'a file_state_scheme \<Rightarrow> nat option" where
  "alloc_open_file_slot s = first_slot (\<lambda>i. \<not> tf_open (open_files s i)) SCDK_TMPFS_MAX_OPEN_FILES"

text \<open>The string in \<^verbatim>\<open>bounded_path\<close>, which ends at the first zero byte copied.\<close>

definition tmpfs_path_from_message :: "'a file_state_scheme \<Rightarrow> scdk_message \<Rightarrow> nat \<Rightarrow> cstr res" where
  "tmpfs_path_from_message s msg path_size =
     (if path_size = 0 \<or> arg0 msg = 0 then Inl SCDK_ERR_INVAL
      else let path_length = (if arg1 msg = 0 then of_nat (strlen (kmem s) (arg0 msg)) else arg1 msg)
           in if path_length = 0 \<or> path_length > of_nat path_size - 1 then Inl SCDK_ERR_BOUNDS
              else Inr (takeWhile (\<lambda>b. b \<noteq> 0) (bytes_at (kmem s) (arg0 msg) (unat path_length))))"

definition tmpfs_open_path :: "'a file_state_scheme \<Rightarrow> cstr \<Rightarrow> u64 res \<times> 'a file_state_scheme" where
  "tmpfs_open_path s path =
     (case scdk_initrd_find (initrd s) (Some path) of
        Inl e \<Rightarrow> (Inl e, s)
      | Inr backing \<Rightarrow>
          (case alloc_open_file_slot s of
             None \<Rightarrow> (Inl SCDK_ERR_NOMEM, s)
           | Some i \<Rightarrow>
               (case scdk_object_create s SCDK_OBJ_FILE SCDK_BOOT_CORE 0 (PFile i) of
                  (Inl e, s1) \<Rightarrow> (Inl e, s1)
                | (Inr object_id, s1) \<Rightarrow>
                    (case scdk_cap_create s1 object_id SCDK_RIGHT_READ of
                       (Inl e, s2) \<Rightarrow> (Inl e, set_file s2 i ((open_files s2 i)\<lparr>tf_object_id := 0\<rparr>))
                     | (Inr cap, s2) \<Rightarrow>
                         (Inr cap, set_file s2 i
                            \<lparr>tf_object_id = object_id, tf_cap = cap, tf_backing = backing, tf_open = True\<rparr>)))))"

definition tmpfs_handle_open :: "scdk_message \<Rightarrow> 'a file_state_scheme \<Rightarrow> scdk_status \<times> scdk_message \<times> 'a file_state_scheme" where
  "tmpfs_handle_open msg s =
     (case tmpfs_path_from_message s msg SCDK_INITRD_MAX_PATH of
        Inl e \<Rightarrow> (e, msg, s)
      | Inr path \<Rightarrow>
          (case tmpfs_open_path s path of
             (Inl e, s1) \<Rightarrow> (e, msg, s1)
           | (Inr cap, s1) \<Rightarrow>
               (SCDK_OK, msg\<lparr>arg0 := cap, arg1 := (case scdk_initrd_find (initrd s) (Some path) of Inr b \<Rightarrow> ie_size b | Inl _ \<Rightarrow> 0)\<rparr>, s1)))"

fun node_type_word :: "scdk_vfs_node_type \<Rightarrow> u64" where
  "node_type_word SCDK_VFS_NODE_NONE = 0"
| "node_type_word SCDK_VFS_NODE_FILE = 1"
| "node_type_word SCDK_VFS_NODE_DIR = 2"

definition tmpfs_handle_stat :: "scdk_message \<Rightarrow> 'a file_state_scheme \<Rightarrow> scdk_status \<times> scdk_message \<times> 'a file_state_scheme" where
  "tmpfs_handle_stat msg s =
     (case tmpfs_path_from_message s msg SCDK_INITRD_MAX_PATH of
        Inl e \<Rightarrow> (e, msg, s)
      | Inr path \<Rightarrow>
          (case scdk_initrd_stat (initrd s) (Some path) of
             Inl e \<Rightarrow> (e, msg, s)
           | Inr st \<Rightarrow> (SCDK_OK, msg\<lparr>arg0 := node_type_word (st_type st), arg1 := st_size st, arg2 := 0, arg3 := 0\<rparr>, s)))"

text \<open>
  The bytes of a \<^verbatim>\<open>struct scdk_vfs_dirent\<close>, and what \<^verbatim>\<open>scdk_initrd_listdir\<close> has stored in the
  caller's array when its loop ends, with or without an error: the entries so far, and
  zeros in the rest of the capacity.
\<close>

definition dirent_size :: u64 where [kconst]: "dirent_size = 80"

definition dirent_bytes :: "scdk_vfs_dirent \<Rightarrow> u8 list" where
  "dirent_bytes d = de_name d @ replicate (64 - length (de_name d)) 0 @ le_bytes (node_type_word (de_type d)) @ le_bytes (de_size d)"

fun listdir_stored :: "cstr \<Rightarrow> nat \<Rightarrow> u64 \<Rightarrow> scdk_initrd_entry list \<Rightarrow> scdk_vfs_dirent list \<Rightarrow> scdk_vfs_dirent list" where
  "listdir_stored query query_len capacity [] ents = ents"
| "listdir_stored query query_len capacity (f # fs) ents =
     (case listdir_file query query_len capacity f ents of
        Inl e \<Rightarrow> ents
      | Inr ents1 \<Rightarrow> listdir_stored query query_len capacity fs ents1)"

definition store_listing :: "'a file_state_scheme \<Rightarrow> u64 \<Rightarrow> u64 \<Rightarrow> scdk_vfs_dirent list \<Rightarrow> 'a file_state_scheme" where
  "store_listing s p capacity ents =
     (let bs = concat (map dirent_bytes ents)
      in poke_bytes s p (bs @ replicate (80 * unat capacity - length bs) 0))"

definition tmpfs_handle_listdir :: "scdk_message \<Rightarrow> 'a file_state_scheme \<Rightarrow> scdk_status \<times> scdk_message \<times> 'a file_state_scheme" where
  "tmpfs_handle_listdir msg s =
     (if arg2 msg = 0 \<or> arg3 msg < dirent_size then (SCDK_ERR_INVAL, msg, s)
      else case tmpfs_path_from_message s msg SCDK_INITRD_MAX_PATH of
        Inl e \<Rightarrow> (e, msg, s)
      | Inr path \<Rightarrow>
          (let capacity = arg3 msg div dirent_size;
               files = map (initrd_files (initrd s)) [0..<initrd_nfiles (initrd s)];
               s1 = (case scdk_initrd_stat (initrd s) (Some path) of
                       Inr st \<Rightarrow> if st_type st = SCDK_VFS_NODE_DIR
                                 then store_listing s (arg2 msg) capacity
                                        (listdir_stored path (normalized_query_len path) capacity files [])
                                 else s
                     | Inl _ \<Rightarrow> s)
           in case scdk_initrd_listdir (initrd s) (Some path) capacity of
                Inl e \<Rightarrow> (e, msg, s1)
              | Inr ents \<Rightarrow> (SCDK_OK, msg\<lparr>arg0 := of_nat (length ents), arg1 := 0, arg2 := 0, arg3 := 0\<rparr>, s1)))"

definition tmpfs_handle_read :: "scdk_message \<Rightarrow> 'a file_state_scheme \<Rightarrow> scdk_status \<times> scdk_message \<times> 'a file_state_scheme" where
  "tmpfs_handle_read msg s =
     (if arg2 msg = 0 then (SCDK_ERR_INVAL, msg, s)
      else case tmpfs_slot_for_cap s (arg0 msg) of
        Inl e \<Rightarrow> (e, msg, s)
      | Inr i \<Rightarrow>
          (let backing = tf_backing (open_files s i); offset = arg1 msg; requested = arg3 msg
           in if requested = 0 then (SCDK_OK, msg\<lparr>arg0 := 0\<rparr>, s)
              else if offset > ie_size backing then (SCDK_ERR_BOUNDS, msg, s)
              else let available = ie_size backing - offset;
                       to_copy = (if requested < available then requested else available)
                   in (SCDK_OK, msg\<lparr>arg0 := to_copy\<rparr>, memcpy s (arg2 msg) (ie_data backing + offset) (unat to_copy))))"

definition tmpfs_close_cap :: "'a file_state_scheme \<Rightarrow> u64 \<Rightarrow> scdk_status \<times> 'a file_state_scheme" where
  "tmpfs_close_cap s cap =
     (case tmpfs_slot_for_cap s cap of
        Inl e \<Rightarrow> (e, s)
      | Inr i \<Rightarrow> (SCDK_OK, set_file s i ((open_files s i)\<lparr>tf_open := False\<rparr>)))"

definition tmpfs_handle_close :: "scdk_message \<Rightarrow> 'a file_state_scheme \<Rightarrow> scdk_status \<times> scdk_message \<times> 'a file_state_scheme" where
  "tmpfs_handle_close msg s = (case tmpfs_close_cap s (arg0 msg) of (status, s1) \<Rightarrow> (status, msg, s1))"

definition tmpfs_endpoint_handler :: "scdk_message \<Rightarrow> 'a file_state_scheme \<Rightarrow> scdk_status \<times> scdk_message \<times> 'a file_state_scheme" where
  "tmpfs_endpoint_handler msg s =
     (if mtype msg = SCDK_MSG_OPEN then tmpfs_handle_open msg s
      else if mtype msg = SCDK_MSG_STAT then tmpfs_handle_stat msg s
      else if mtype msg = SCDK_MSG_LISTDIR then tmpfs_handle_listdir msg s
      else if mtype msg = SCDK_MSG_READ then tmpfs_handle_read msg s
      else if mtype msg = SCDK_MSG_CLOSE then tmpfs_handle_close msg s
      else (SCDK_ERR_NOTSUP, msg, s))"

text \<open>What every service does to start: create its endpoint and register it.\<close>

definition start_service :: "'a ep_state_scheme \<Rightarrow> handler \<Rightarrow> u64 \<Rightarrow> u64 res \<times> 'a ep_state_scheme" where
  "start_service s h service_id =
     (case scdk_endpoint_create s SCDK_BOOT_CORE (Some h) 0 of
        (Inl e, s1) \<Rightarrow> (Inl e, s1)
      | (Inr endpoint, s1) \<Rightarrow>
          (case scdk_service_register s1 service_id endpoint of
             (status, s2) \<Rightarrow> if status \<noteq> SCDK_OK then (Inl status, s2) else (Inr endpoint, s2)))"

definition scdk_tmpfs_service_init :: "'a file_state_scheme \<Rightarrow> u64 res \<times> 'a file_state_scheme" where
  "scdk_tmpfs_service_init s =
     (if tmpfs_started s then (Inl SCDK_ERR_BUSY, s)
      else case start_service s HTmpfs SCDK_SERVICE_TMPFS of
        (Inl e, s1) \<Rightarrow> (Inl e, s1)
      | (Inr endpoint, s1) \<Rightarrow> (Inr endpoint, s1\<lparr>tmpfs_started := True\<rparr>))"

section \<open>The file-system router\<close>

definition path_under_root :: "'a file_state_scheme \<Rightarrow> u64 \<Rightarrow> u64 \<Rightarrow> bool" where
  "path_under_root s path path_length =
     (if path = 0 then False
      else if path_length = 0 then kmem s path = slash
      else path_length > 0 \<and> kmem s path = slash)"

definition vfs_forward_to_tmpfs ::
  "'a file_state_scheme run_handler \<Rightarrow> scdk_message \<Rightarrow> 'a file_state_scheme \<Rightarrow> scdk_status \<times> scdk_message \<times> 'a file_state_scheme"
where
  "vfs_forward_to_tmpfs run msg s =
     (if root_tmpfs_endpoint s = 0 then (SCDK_ERR_INVAL, msg, s)
      else case scdk_endpoint_call run s (root_tmpfs_endpoint s) (msg\<lparr>target := SCDK_SERVICE_TMPFS\<rparr>) of
        (status, msg1, s1) \<Rightarrow> (status, msg1\<lparr>target := SCDK_SERVICE_VFS\<rparr>, s1))"

definition vfs_handle_open ::
  "'a file_state_scheme run_handler \<Rightarrow> scdk_message \<Rightarrow> 'a file_state_scheme \<Rightarrow> scdk_status \<times> scdk_message \<times> 'a file_state_scheme"
where
  "vfs_handle_open run msg s =
     (if arg0 msg = 0 then (SCDK_ERR_INVAL, msg, s)
      else if \<not> path_under_root s (arg0 msg) (arg1 msg) then (SCDK_ERR_NOENT, msg, s)
      else vfs_forward_to_tmpfs run msg s)"

definition vfs_endpoint_handler ::
  "'a file_state_scheme run_handler \<Rightarrow> scdk_message \<Rightarrow> 'a file_state_scheme \<Rightarrow> scdk_status \<times> scdk_message \<times> 'a file_state_scheme"
where
  "vfs_endpoint_handler run msg s =
     (if mtype msg = SCDK_MSG_OPEN then vfs_handle_open run msg s
      else if mtype msg = SCDK_MSG_STAT \<or> mtype msg = SCDK_MSG_LISTDIR
      then (if arg0 msg = 0 \<or> \<not> path_under_root s (arg0 msg) (arg1 msg) then (SCDK_ERR_NOENT, msg, s)
            else vfs_forward_to_tmpfs run msg s)
      else if mtype msg = SCDK_MSG_READ \<or> mtype msg = SCDK_MSG_CLOSE then vfs_forward_to_tmpfs run msg s
      else (SCDK_ERR_NOTSUP, msg, s))"

definition scdk_vfs_service_init :: "'a file_state_scheme \<Rightarrow> u64 res \<times> 'a file_state_scheme" where
  "scdk_vfs_service_init s =
     (if vfs_started s then (Inl SCDK_ERR_BUSY, s)
      else case scdk_service_lookup s SCDK_SERVICE_TMPFS of
        Inl e \<Rightarrow> (Inl e, s)
      | Inr tmpfs_endpoint \<Rightarrow>
          (case scdk_cap_check s tmpfs_endpoint SCDK_RIGHT_SEND SCDK_OBJ_ENDPOINT of
             Inl e \<Rightarrow> (Inl e, s)
           | Inr _ \<Rightarrow>
               (case start_service s HVfs SCDK_SERVICE_VFS of
                  (Inl e, s1) \<Rightarrow> (Inl e, s1)
                | (Inr endpoint, s1) \<Rightarrow>
                    (Inr endpoint, s1\<lparr>root_tmpfs_endpoint := tmpfs_endpoint, vfs_started := True\<rparr>))))"

text \<open>
  Delivery to these two handlers, with \<open>other\<close> for the handlers of the other services. The
  router's calls reach the file system; it never calls a service that calls it back.
\<close>

definition tmpfs_run :: "'a file_state_scheme run_handler \<Rightarrow> 'a file_state_scheme run_handler" where
  "tmpfs_run other h ep msg ctx s = (case h of HTmpfs \<Rightarrow> tmpfs_endpoint_handler msg s | _ \<Rightarrow> other h ep msg ctx s)"

definition file_run :: "'a file_state_scheme run_handler \<Rightarrow> 'a file_state_scheme run_handler" where
  "file_run other h ep msg ctx s =
     (case h of HVfs \<Rightarrow> vfs_endpoint_handler (tmpfs_run other) msg s | _ \<Rightarrow> tmpfs_run other h ep msg ctx s)"

section \<open>Copies\<close>

lemma unat_next: "unat a + Suc n \<le> 2 ^ 64 \<Longrightarrow> 0 < n \<Longrightarrow> unat (a + 1 :: u64) = unat a + 1"
  by (simp add: unat_word_ariths)

lemma bytes_at_Suc: "bytes_at mem p (Suc n) = mem p # bytes_at mem (p + 1) n"
  by (simp add: bytes_at_def map_upt_Suc add.assoc del: upt_Suc)

lemma bytes_at_0 [simp]: "bytes_at mem p 0 = []" by (simp add: bytes_at_def)
lemma length_bytes_at [simp]: "length (bytes_at mem p n) = n" by (simp add: bytes_at_def)

lemma kmem_write_nil [simp]: "kmem_write s a [] = s"
  by (simp add: kmem_write_def)

lemma kmem_write_cons:
  assumes "length bs < 2 ^ 64"
  shows "kmem_write (s\<lparr>kmem := (kmem s)(d := b)\<rparr>) (d + 1) bs = kmem_write s d (b # bs)"
proof -
  have "(if unat (x - (d + 1)) < length bs then bs ! unat (x - (d + 1)) else ((kmem s)(d := b)) x) =
      (if unat (x - d) < length (b # bs) then (b # bs) ! unat (x - d) else kmem s x)" for x
  proof (cases "x = d")
    case True
    have "x - (d + 1) = - 1" using True by simp
    then have "unat (x - (d + 1)) = 2 ^ 64 - 1" by (simp only:) (simp add: unsigned_minus_1_eq_mask mask_eq_exp_minus_1)
    then have "\<not> unat (x - (d + 1)) < length bs" using assms by simp
    with True show ?thesis by simp
  next
    case False
    have nz: "x - d \<noteq> 0" using False by simp
    have "x - (d + 1) = (x - d) - 1" by simp
    then have "unat (x - (d + 1)) = unat (x - d) - 1" using unat_minus_one [OF nz] by (simp only:)
    moreover have "0 < unat (x - d)" using nz by (simp only: unat_gt_0) simp
    ultimately have "unat (x - (d + 1)) = unat (x - d) - 1" "0 < unat (x - d)" .
    with False show ?thesis by (cases "unat (x - d)") auto
  qed
  note eq = this
  have km: "kmem (s\<lparr>kmem := f\<rparr>) = f" for f by simp
  show ?thesis unfolding kmem_write_def km eq by simp
qed

lemma bytes_at_upd:
  assumes "unat d \<notin> {unat p..<unat p + n}" and "unat p + n \<le> 2 ^ 64"
  shows "bytes_at (mem(d := b)) p n = bytes_at mem p n"
proof -
  have "p + of_nat k \<noteq> d" if "k < n" for k
  proof
    assume h: "p + of_nat k = d"
    have "unat (of_nat k :: u64) = k" using that assms(2) by (simp add: unsigned_of_nat take_bit_nat_eq_self)
    then have "unat (p + of_nat k) = unat p + k" using that assms(2) by (simp add: unat_word_ariths)
    with h that assms(1) show False by auto
  qed
  then show ?thesis by (simp add: bytes_at_def)
qed

lemma memcpy_kernel:
  assumes "unat SCDK_USER_VIRT_TOP \<le> unat d" "unat d + n \<le> 2 ^ 64" "unat src + n \<le> 2 ^ 64"
    "{unat d..<unat d + n} \<inter> {unat src..<unat src + n} = {}"
  shows "memcpy s d src n = kmem_write s d (bytes_at (kmem s) src n)"
  using assms
proof (induction n arbitrary: s d src)
  case (Suc n)
  have k: "\<not> d < SCDK_USER_VIRT_TOP" using Suc.prems(1) by (simp add: word_less_nat_alt)
  show ?case
  proof (cases "n = 0")
    case True
    then show ?thesis using k kmem_write_cons [of "[]" s d "kmem s src"] by (simp add: poke_def bytes_at_Suc)
  next
    case False
    have u: "unat (d + 1) = unat d + 1" "unat (src + 1) = unat src + 1"
      by (rule unat_next [of _ n], use False Suc.prems(2,3) in simp, use False in simp)+
    let ?t = "s\<lparr>kmem := (kmem s)(d := kmem s src)\<rparr>"
    have "memcpy ?t (d + 1) (src + 1) n = kmem_write ?t (d + 1) (bytes_at (kmem ?t) (src + 1) n)"
    proof (rule Suc.IH)
      show "{unat (d + 1)..<unat (d + 1) + n} \<inter> {unat (src + 1)..<unat (src + 1) + n} = {}"
        using Suc.prems(4) unfolding u by (auto simp: disjoint_iff)
    qed (use Suc.prems u in simp_all)
    moreover have "bytes_at (kmem ?t) (src + 1) n = bytes_at (kmem s) (src + 1) n"
      using Suc.prems(3,4) u(2) by (auto intro!: bytes_at_upd simp: disjoint_iff)
    ultimately show ?thesis using k Suc.prems(2)
      by (simp add: poke_def bytes_at_Suc kmem_write_cons)
  qed
qed simp

lemma memcpy_user:
  assumes "unat d + n \<le> unat SCDK_USER_VIRT_TOP"
  shows "memcpy s d src n = store_bytes s d (bytes_at (kmem s) src n)"
  using assms
proof (induction n arbitrary: s d src)
  case (Suc n)
  have k: "d < SCDK_USER_VIRT_TOP" using Suc.prems by (simp add: word_less_nat_alt)
  have km: "kmem (store_byte s d b) = kmem s" for b by (simp add: store_byte_def split: sum.split)
  have "unat d + 1 < 2 ^ 64" using Suc.prems by (simp add: kconst)
  then have "unat (d + 1) = unat d + 1" by (simp add: unat_word_ariths)
  then have "memcpy (store_byte s d b) (d + 1) (src + 1) n = store_bytes (store_byte s d b) (d + 1) (bytes_at (kmem s) (src + 1) n)" for b
    using Suc.IH [of "d + 1" "store_byte s d b" "src + 1"] Suc.prems km by simp
  then show ?case using k by (simp add: poke_def bytes_at_Suc)
qed simp

section \<open>File capabilities\<close>

text \<open>The file a capability gives access to.\<close>

definition file_of :: "'a file_state_scheme \<Rightarrow> u64 \<Rightarrow> scdk_initrd_entry option" where
  "file_of s cap = (case tmpfs_slot_for_cap s cap of Inl _ \<Rightarrow> None | Inr i \<Rightarrow> Some (tf_backing (open_files s i)))"

lemma file_upd [simp]:
  "scdk_object_lookup (s\<lparr>open_files := x\<rparr>) = scdk_object_lookup s"
  "scdk_cap_lookup (s\<lparr>open_files := x\<rparr>) = scdk_cap_lookup s"
  "scdk_cap_check (s\<lparr>open_files := x\<rparr>) = scdk_cap_check s"
  "kern_inv (s\<lparr>open_files := x\<rparr>) = kern_inv s"
  by (rule frame_rules; simp)+

lemma slot_for_cap_Inr:
  "tmpfs_slot_for_cap s cap = Inr i \<longleftrightarrow>
     (\<exists>e ob. scdk_cap_check s cap SCDK_RIGHT_READ SCDK_OBJ_FILE = Inr e \<and> scdk_object_lookup s (ce_object_id e) = Inr ob \<and>
        obj_payload ob = PFile i \<and> tf_object_id (open_files s i) = ce_object_id e \<and> tf_open (open_files s i))"
  by (auto simp: tmpfs_slot_for_cap_def split: sum.splits payload.splits if_splits)

lemma slot_for_cap_not_OK: "tmpfs_slot_for_cap s cap \<noteq> Inl SCDK_OK"
  using cap_check_Inl_OK [of s cap SCDK_RIGHT_READ SCDK_OBJ_FILE]
  by (auto simp: tmpfs_slot_for_cap_def cap_check_Inr dest!: cap_lookup_object split: sum.splits payload.splits if_splits)

lemma file_of_Some:
  "file_of s cap = Some v \<longleftrightarrow> (\<exists>i. tmpfs_slot_for_cap s cap = Inr i \<and> tf_backing (open_files s i) = v)"
  by (auto simp: file_of_def split: sum.splits)

lemma file_of_None: "file_of s cap = None \<longleftrightarrow> (\<forall>i. tmpfs_slot_for_cap s cap \<noteq> Inr i)"
  by (auto simp: file_of_def split: sum.splits)

lemma file_low_frame [kframe]:
  "scdk_object_create s ty c f p = (r, s') \<Longrightarrow> open_files s' = open_files s \<and> initrd s' = initrd s \<and> kmem s' = kmem s"
  "scdk_cap_create s oid rights = (q, s') \<Longrightarrow> open_files s' = open_files s \<and> initrd s' = initrd s \<and> kmem s' = kmem s"
  by (auto elim: object_create_cases cap_create_cases)

lemma open_path_cases:
  assumes "tmpfs_open_path s path = (r, s')"
  obtains (refused) e where "r = Inl e" "s' = s"
  | (nocap) i oid s1 e where "scdk_object_create s SCDK_OBJ_FILE SCDK_BOOT_CORE 0 (PFile i) = (Inr oid, s1)"
      "i < SCDK_TMPFS_MAX_OPEN_FILES" "\<not> tf_open (open_files s i)" "r = Inl e"
      "s' = set_file s1 i ((open_files s1 i)\<lparr>tf_object_id := 0\<rparr>)"
  | (opened) i oid s1 s2 v cap where "scdk_initrd_find (initrd s) (Some path) = Inr v"
      "i < SCDK_TMPFS_MAX_OPEN_FILES" "\<not> tf_open (open_files s i)"
      "scdk_object_create s SCDK_OBJ_FILE SCDK_BOOT_CORE 0 (PFile i) = (Inr oid, s1)"
      "scdk_cap_create s1 oid SCDK_RIGHT_READ = (Inr cap, s2)" "r = Inr cap"
      "s' = set_file s2 i \<lparr>tf_object_id = oid, tf_cap = cap, tf_backing = v, tf_open = True\<rparr>"
proof (cases "scdk_initrd_find (initrd s) (Some path)")
  case (Inl e)
  with assms show ?thesis by (intro refused) (auto simp: tmpfs_open_path_def)
next
  case v: (Inr v)
  show ?thesis
  proof (cases "alloc_open_file_slot s")
    case None
    with assms v show ?thesis by (intro refused) (auto simp: tmpfs_open_path_def)
  next
    case (Some i)
    then have i: "i < SCDK_TMPFS_MAX_OPEN_FILES" "\<not> tf_open (open_files s i)"
      by (simp_all add: alloc_open_file_slot_def scan_facts)
    obtain ro s1 where o: "scdk_object_create s SCDK_OBJ_FILE SCDK_BOOT_CORE 0 (PFile i) = (ro, s1)" by fastforce
    show ?thesis
    proof (cases ro)
      case (Inl e)
      have "s1 = s" using object_create_refused o Inl by blast
      with assms v Some o Inl show ?thesis by (intro refused) (auto simp: tmpfs_open_path_def)
    next
      case (Inr oid)
      obtain rc s2 where c: "scdk_cap_create s1 oid SCDK_RIGHT_READ = (rc, s2)" by fastforce
      show ?thesis
      proof (cases rc)
        case e: (Inl e)
        have "s2 = s1" using cap_create_refused c e by blast
        with assms v Some o Inr c e i show ?thesis by (intro nocap) (auto simp: tmpfs_open_path_def)
      next
        case k: (Inr cap)
        with assms v Some o Inr c i show ?thesis by (intro opened) (auto simp: tmpfs_open_path_def)
      qed
    qed
  qed
qed

lemma open_path_khist:
  assumes "tmpfs_open_path s path = (r, s')"
  shows "khist s s'"
  using assms
proof (cases rule: open_path_cases)
  case (nocap i oid s1 e)
  have "khist s s1" by (rule kh_object [OF kh_refl nocap(1)]) (simp add: nocap(2))
  then show ?thesis by (rule kh_other) (simp_all add: nocap)
next
  case (opened i oid s1 s2 v cap)
  have "khist s s1" by (rule kh_object [OF kh_refl opened(4)]) (simp add: opened(2))
  then have "khist s s2" by (rule kh_create [OF _ opened(5)])
  then show ?thesis by (rule kh_other) (simp_all add: opened)
qed (simp add: kh_refl)

text \<open>Objects created for one slot leave the capabilities of the files in the others alone.\<close>

lemma slot_other:
  assumes inv: "kern_inv s" and o: "scdk_object_create s SCDK_OBJ_FILE SCDK_BOOT_CORE 0 (PFile i) = (Inr oid, s1)"
    and i: "\<not> tf_open (open_files s i)" and obs: "scdk_object_lookup s' = scdk_object_lookup s1"
    and chk: "\<And>e. scdk_cap_check s' cap SCDK_RIGHT_READ SCDK_OBJ_FILE = Inr e \<longleftrightarrow> scdk_cap_check s cap SCDK_RIGHT_READ SCDK_OBJ_FILE = Inr e"
    and fs: "open_files s' = (open_files s)(i := f)" and f: "tf_open f \<Longrightarrow> tf_object_id f = oid"
  shows "tmpfs_slot_for_cap s' cap = Inr j \<longleftrightarrow> tmpfs_slot_for_cap s cap = Inr j"
    and "tmpfs_slot_for_cap s cap = Inr j \<Longrightarrow> open_files s' j = open_files s j"
proof -
  show "tmpfs_slot_for_cap s' cap = Inr j \<longleftrightarrow> tmpfs_slot_for_cap s cap = Inr j"
  proof (cases "\<exists>e. scdk_cap_check s cap SCDK_RIGHT_READ SCDK_OBJ_FILE = Inr e")
    case True
    then obtain e where e: "scdk_cap_check s cap SCDK_RIGHT_READ SCDK_OBJ_FILE = Inr e" by blast
    then have e': "scdk_cap_check s' cap SCDK_RIGHT_READ SCDK_OBJ_FILE = Inr e" by (simp only: chk)
    obtain ob where ob: "scdk_object_lookup s (ce_object_id e) = Inr ob" using e by (rule cap_check_lookup)
    have ob': "scdk_object_lookup s' (ce_object_id e) = Inr ob"
      unfolding obs by (rule object_create_keeps [OF kern_invD(3) [OF inv] o ob])
    have ne: "ce_object_id e \<noteq> oid"
    proof
      assume "ce_object_id e = oid"
      with ob object_create_fresh [OF o] show False by simp
    qed
    show ?thesis unfolding slot_for_cap_Inr using e e' ob ob' ne i f by (auto simp: fs)
  qed (simp add: slot_for_cap_Inr chk)
  show "open_files s' j = open_files s j" if "tmpfs_slot_for_cap s cap = Inr j"
    using that i by (auto simp: slot_for_cap_Inr fs)
qed

lemma cap_check_sync:
  assumes "res_opt (scdk_cap_lookup s' cap) = res_opt (scdk_cap_lookup s cap)"
  shows "scdk_cap_check s' cap r ty = Inr e \<longleftrightarrow> scdk_cap_check s cap r ty = Inr e"
proof -
  have "scdk_cap_lookup s' cap = Inr x \<longleftrightarrow> scdk_cap_lookup s cap = Inr x" for x using assms by (metis res_opt_Some)
  then show ?thesis by (simp add: cap_check_Inr)
qed

lemma file_of_cap_none:
  "(\<And>e. scdk_cap_lookup s cap \<noteq> Inr e) \<Longrightarrow> file_of s cap = None"
  by (auto simp: file_of_None slot_for_cap_Inr cap_check_Inr)

lemma file_of_eqI:
  assumes "\<And>j. tmpfs_slot_for_cap s' cap = Inr j \<longleftrightarrow> tmpfs_slot_for_cap s cap = Inr j"
    and "\<And>j. tmpfs_slot_for_cap s cap = Inr j \<Longrightarrow> open_files s' j = open_files s j"
  shows "file_of s' cap = file_of s cap"
proof (cases "tmpfs_slot_for_cap s cap")
  case (Inl e)
  then have "\<And>j. tmpfs_slot_for_cap s' cap \<noteq> Inr j" using assms(1) by simp
  then show ?thesis using Inl by (cases "tmpfs_slot_for_cap s' cap") (auto simp: file_of_def)
next
  case (Inr j)
  then have "tmpfs_slot_for_cap s' cap = Inr j" using assms(1) by simp
  then show ?thesis using Inr assms(2) [OF Inr] by (simp add: file_of_def)
qed

lemma open_path_other:
  assumes inv: "kern_inv s" and c: "tmpfs_open_path s path = (r, s')" and ne: "r \<noteq> Inr cap"
  shows "tmpfs_slot_for_cap s' cap = Inr j \<longleftrightarrow> tmpfs_slot_for_cap s cap = Inr j"
    and "tmpfs_slot_for_cap s cap = Inr j \<Longrightarrow> open_files s' j = open_files s j"
proof -
  note ci = kern_invD(1) [OF inv]
  have "(tmpfs_slot_for_cap s' cap = Inr j \<longleftrightarrow> tmpfs_slot_for_cap s cap = Inr j) \<and>
      (tmpfs_slot_for_cap s cap = Inr j \<longrightarrow> open_files s' j = open_files s j)"
    using c
  proof (cases rule: open_path_cases)
    case (nocap i oid s1 e)
    have "scdk_cap_check s' cap x y = scdk_cap_check s cap x y" for x y
      using object_create_cap_lookup [OF ci nocap(1), of cap] by (simp add: scdk_cap_check_def nocap(5))
    moreover have fs: "open_files s' = (open_files s)(i := (open_files s i)\<lparr>tf_object_id := 0\<rparr>)"
      using file_low_frame(1) [OF nocap(1)] by (simp add: nocap(5))
    ultimately show ?thesis using slot_other [OF inv nocap(1,3) _ _ fs, of cap j] nocap(3) by (simp add: nocap(5))
  next
    case (opened i oid s1 s2 v k)
    have "scdk_cap_check s' cap x y = Inr e \<longleftrightarrow> scdk_cap_check s cap x y = Inr e" for x y e
      using cap_check_sync [OF cap_create_other [OF object_create_cap_inv [OF ci opened(4)] opened(5), of cap]] ne
        object_create_cap_lookup [OF ci opened(4), of cap] by (simp add: opened(6,7) cap_check_Inr)
    moreover have fs: "open_files s' = (open_files s)(i := \<lparr>tf_object_id = oid, tf_cap = k, tf_backing = v, tf_open = True\<rparr>)"
      using file_low_frame(1) [OF opened(4)] file_low_frame(2) [OF opened(5)] by (simp add: opened(7))
    moreover have "scdk_object_lookup s' = scdk_object_lookup s1" using cap_create_objects(3) [OF opened(5)] by (simp add: opened(7))
    ultimately show ?thesis using slot_other [OF inv opened(4,3) _ _ fs, of cap j] by simp
  qed simp
  then show "tmpfs_slot_for_cap s' cap = Inr j \<longleftrightarrow> tmpfs_slot_for_cap s cap = Inr j"
    "tmpfs_slot_for_cap s cap = Inr j \<Longrightarrow> open_files s' j = open_files s j" by blast+
qed

lemma open_path_new:
  assumes inv: "kern_inv s" and c: "tmpfs_open_path s path = (Inr cap, s')"
  obtains i v where "scdk_initrd_find (initrd s) (Some path) = Inr v" "tmpfs_slot_for_cap s' cap = Inr i"
    "tf_cap (open_files s' i) = cap" "tf_backing (open_files s' i) = v" "\<not> tf_open (open_files s i)"
    "i < SCDK_TMPFS_MAX_OPEN_FILES" "\<And>j. j \<noteq> i \<Longrightarrow> open_files s' j = open_files s j"
    "\<And>e. scdk_cap_lookup s cap \<noteq> Inr e"
  using c
proof (cases rule: open_path_cases)
  case (opened i oid s1 s2 v k)
  note ci = kern_invD(1) [OF inv]
  obtain ob where ob: "scdk_object_lookup s1 oid = Inr ob" "obj_type ob = SCDK_OBJ_FILE" "obj_payload ob = PFile i"
    using object_create_look [OF opened(4)] by auto
  have ob2: "scdk_object_lookup s2 oid = Inr ob" using cap_create_objects(3) [OF opened(5)] ob(1) by simp
  obtain e where "scdk_cap_check s2 k SCDK_RIGHT_READ SCDK_OBJ_FILE = Inr e" "ce_object_id e = oid"
    using cap_create_check [OF object_create_cap_inv [OF ci opened(4)] opened(5) ob(1) _ _ ob(2), of SCDK_RIGHT_READ]
    by (auto simp: kconst)
  then have sl: "tmpfs_slot_for_cap s' k = Inr i" using ob2 ob(3) by (auto simp: slot_for_cap_Inr opened(7))
  have fr: "scdk_cap_lookup s cap = Inl SCDK_ERR_NOENT"
    using cap_create_fresh [OF opened(5)] object_create_cap_lookup [OF ci opened(4)] opened(6) by simp
  have fs: "open_files s' = (open_files s)(i := \<lparr>tf_object_id = oid, tf_cap = k, tf_backing = v, tf_open = True\<rparr>)"
    using file_low_frame(1) [OF opened(4)] file_low_frame(2) [OF opened(5)] by (simp add: opened(7))
  show thesis by (rule that [OF opened(1), of i]) (use sl fr opened(2,3,6) in \<open>simp_all add: fs\<close>)
qed simp_all

lemma close_cap_cases:
  assumes "tmpfs_close_cap s cap = (r, s')"
  obtains (refused) "r \<noteq> SCDK_OK" "s' = s" "file_of s cap = None"
  | (closed) i where "r = SCDK_OK" "tmpfs_slot_for_cap s cap = Inr i" "s' = set_file s i ((open_files s i)\<lparr>tf_open := False\<rparr>)"
  using assms slot_for_cap_not_OK [of s cap]
  by (cases "tmpfs_slot_for_cap s cap") (auto simp: tmpfs_close_cap_def file_of_def intro: refused closed)


text \<open>Only the capability minted when a file was opened designates it.\<close>

definition file_inv :: "'a file_state_scheme \<Rightarrow> bool" where
  "file_inv s \<longleftrightarrow> kern_inv s \<and> (\<forall>cap i. tmpfs_slot_for_cap s cap = Inr i \<longrightarrow> tf_cap (open_files s i) = cap)"

lemma slot_for_cap_inj:
  "file_inv s \<Longrightarrow> tmpfs_slot_for_cap s cap = Inr i \<Longrightarrow> tmpfs_slot_for_cap s cap' = Inr i \<Longrightarrow> cap' = cap"
  unfolding file_inv_def by metis

lemma close_slot:
  "tmpfs_slot_for_cap (set_file s i ((open_files s i)\<lparr>tf_open := False\<rparr>)) cap = Inr j \<longleftrightarrow> tmpfs_slot_for_cap s cap = Inr j \<and> j \<noteq> i"
  by (auto simp: slot_for_cap_Inr)

lemma close_cap_file:
  assumes "file_inv s" and "tmpfs_close_cap s cap = (r, s')"
  shows "file_of s' = (file_of s)(cap := None)" and "file_inv s'"
proof -
  show "file_of s' = (file_of s)(cap := None)"
    using assms(2)
  proof (cases rule: close_cap_cases)
    case (closed i)
    have none: "file_of s' cap = None" using closed(2) by (simp add: file_of_None closed(3) close_slot)
    have other: "file_of s' x = file_of s x" if "x \<noteq> cap" for x
    proof (rule file_of_eqI)
      show "tmpfs_slot_for_cap s' x = Inr j \<longleftrightarrow> tmpfs_slot_for_cap s x = Inr j" for j
        using slot_for_cap_inj [OF assms(1) closed(2), of x] that by (auto simp: closed(3) close_slot)
      show "open_files s' j = open_files s j" if "tmpfs_slot_for_cap s x = Inr j" for j
        using slot_for_cap_inj [OF assms(1) closed(2), of x] that \<open>x \<noteq> cap\<close> by (auto simp: closed(3))
    qed
    show ?thesis using none other by (intro ext) simp
  qed auto
  show "file_inv s'" using assms(2)
  proof (cases rule: close_cap_cases)
    case (closed i)
    then show ?thesis using assms(1) unfolding file_inv_def closed(3) close_slot by simp
  qed (use assms in simp)
qed

lemma open_path_inv:
  assumes inv: "file_inv s" and c: "tmpfs_open_path s path = (r, s')"
  shows "file_inv s'"
proof -
  note ki = inv [unfolded file_inv_def, THEN conjunct1]
  have "tf_cap (open_files s' j) = cap" if sl: "tmpfs_slot_for_cap s' cap = Inr j" for cap j
  proof (cases "r = Inr cap")
    case True
    with c obtain i where "tmpfs_slot_for_cap s' cap = Inr i" "tf_cap (open_files s' i) = cap"
      by (auto elim: open_path_new [OF ki])
    with sl show ?thesis by simp
  next
    case False
    note ot = open_path_other [OF ki c False]
    have "tmpfs_slot_for_cap s cap = Inr j" using sl ot(1) by simp
    then show ?thesis using ot(2) [of j] inv by (simp add: file_inv_def)
  qed
  then show ?thesis using khist_inv [OF open_path_khist [OF c] ki] by (simp add: file_inv_def)
qed

interpretation tfiles: revocable_space
  file_inv file_of tmpfs_open_path "\<lambda>s path v. scdk_initrd_find (initrd s) (Some path) = Inr v" tmpfs_close_cap
proof unfold_locales
  fix s :: "'a file_state_scheme" and path r r' s' k k' e
  assume i: "file_inv s"
  then have ki: "kern_inv s" by (simp add: file_inv_def)
  show "file_inv s'" if "tmpfs_open_path s path = (r, s')" by (rule open_path_inv [OF i that])
  show "file_of s k = None" if "tmpfs_open_path s path = (Inr k, s')"
    by (rule open_path_new [OF ki that]) (rule file_of_cap_none)
  show "\<exists>v. file_of s' k = Some v \<and> scdk_initrd_find (initrd s) (Some path) = Inr v" if "tmpfs_open_path s path = (Inr k, s')"
    by (rule open_path_new [OF ki that]) (auto simp: file_of_Some)
  show "file_of s' k' = file_of s k'" if "tmpfs_open_path s path = (Inr k, s')" "k' \<noteq> k"
    using open_path_other [OF ki that(1), of k'] that(2) by (intro file_of_eqI) auto
  show "file_of s' k' = file_of s k'" if "tmpfs_open_path s path = (Inl e, s')"
    using open_path_other [OF ki that(1), of k'] by (intro file_of_eqI) auto
  show "file_inv s'" if "tmpfs_close_cap s k = (r', s')" by (rule close_cap_file(2) [OF i that])
  show "fst (tmpfs_close_cap s k) = SCDK_OK" if "file_of s k \<noteq> None"
    using that by (auto simp: tmpfs_close_cap_def file_of_def split: sum.splits)
  show "file_of s' k = None" if "tmpfs_close_cap s k = (SCDK_OK, s')" using close_cap_file(1) [OF i that] by simp
  show "file_of s' k' = file_of s k'" if "tmpfs_close_cap s k = (r', s')" "k' \<noteq> k"
    using close_cap_file(1) [OF i that(1)] that(2) by simp
  show "r' \<noteq> SCDK_OK \<and> s' = s" if "file_of s k = None" "tmpfs_close_cap s k = (r', s')"
    using that(2,1) by (cases rule: close_cap_cases) (auto simp: file_of_def)
qed


section \<open>Reading\<close>

lemma poke_frame [simp]:
  "tables (poke s a b) = tables s" "open_files (poke s a b) = open_files s" "initrd (poke s a b) = initrd s"
  by (auto simp: poke_def tables_def store_byte_def split: sum.split)

lemma poke_bytes_frame [simp]:
  "tables (poke_bytes s a bs) = tables s" "open_files (poke_bytes s a bs) = open_files s" "initrd (poke_bytes s a bs) = initrd s"
  by (induction bs arbitrary: s a) simp_all

lemma memcpy_frame [simp]:
  "tables (memcpy s a p n) = tables s" "open_files (memcpy s a p n) = open_files s" "initrd (memcpy s a p n) = initrd s"
  by (induction n arbitrary: s a p) simp_all

lemma store_listing_frame [simp]:
  "tables (store_listing s p c es) = tables s" "open_files (store_listing s p c es) = open_files s"
  "initrd (store_listing s p c es) = initrd s"
  by (simp_all add: store_listing_def Let_def)

lemma file_same:
  assumes "tables s' = tables s" and "open_files s' = open_files s"
  shows "file_of s' = file_of s" "file_inv s' = file_inv s" "tmpfs_slot_for_cap s' = tmpfs_slot_for_cap s"
    "scdk_cap_check s' = scdk_cap_check s"
proof -
  have e: "object_table s' = object_table s" "object_generations s' = object_generations s" "cap_table s' = cap_table s"
    "cap_generations s' = cap_generations s" using assms(1) by (simp_all add: tables_def)
  show c: "scdk_cap_check s' = scdk_cap_check s" by (rule cap_check_frame [OF e(1,3,4)])
  have l: "scdk_object_lookup s' = scdk_object_lookup s" by (rule object_lookup_frame [OF e(1)])
  show t: "tmpfs_slot_for_cap s' = tmpfs_slot_for_cap s" by (intro ext) (simp only: tmpfs_slot_for_cap_def c l assms(2))
  show "file_of s' = file_of s" by (intro ext) (simp only: file_of_def t assms(2))
  show "file_inv s' = file_inv s" by (simp add: file_inv_def t assms(2) kern_inv_frame [OF e])
qed

text \<open>The messages other than open and close change no file capability.\<close>

lemma stat_frame:
  assumes "tmpfs_handle_stat m s = (st, m', s')" shows "s' = s"
  using assms by (auto simp: tmpfs_handle_stat_def split: sum.splits)

lemma listdir_frame:
  assumes "tmpfs_handle_listdir m s = (st, m', s')"
  shows "tables s' = tables s \<and> open_files s' = open_files s \<and> initrd s' = initrd s"
  using assms by (auto simp: tmpfs_handle_listdir_def Let_def split: sum.splits if_splits)

lemma read_frame:
  assumes "tmpfs_handle_read m s = (st, m', s')"
  shows "tables s' = tables s \<and> open_files s' = open_files s \<and> initrd s' = initrd s"
  using assms by (auto simp: tmpfs_handle_read_def Let_def split: sum.splits if_splits)

definition closes :: "u64 \<Rightarrow> scdk_message \<Rightarrow> bool" where
  "closes cap m \<longleftrightarrow> mtype m = SCDK_MSG_CLOSE \<and> arg0 m = cap"

fun tmpfs_serve :: "'a file_state_scheme \<Rightarrow> scdk_message list \<Rightarrow> 'a file_state_scheme" where
  "tmpfs_serve s [] = s"
| "tmpfs_serve s (m # ms) = tmpfs_serve (snd (snd (tmpfs_endpoint_handler m s))) ms"

text \<open>A capability that has been issued iss never issued again, open or closed.\<close>

definition issued :: "'a cap_state_scheme \<Rightarrow> u64 \<Rightarrow> bool" where
  "issued s cap \<longleftrightarrow> (\<exists>e. scdk_cap_lookup s cap = Inr e)"

lemma open_issued:
  assumes inv: "kern_inv s" and c: "tmpfs_open_path s path = (r, s')"
  shows "issued s cap \<Longrightarrow> issued s' cap \<and> r \<noteq> Inr cap" and "r = Inr cap \<Longrightarrow> issued s' cap"
proof -
  note ci = kern_invD(1) [OF inv]
  show "issued s' cap \<and> r \<noteq> Inr cap" if iss: "issued s cap"
    using c
  proof (cases rule: open_path_cases)
    case (nocap i oid s1 e)
    then show ?thesis using iss object_create_cap_lookup [OF ci nocap(1), of cap] by (simp add: issued_def)
  next
    case (opened i oid s1 s2 v k)
    have l: "scdk_cap_lookup s1 cap = scdk_cap_lookup s cap" by (rule object_create_cap_lookup [OF ci opened(4)])
    have "k \<noteq> cap" using cap_create_fresh [OF opened(5)] iss l by (auto simp: issued_def)
    then have "res_opt (scdk_cap_lookup s2 cap) = res_opt (scdk_cap_lookup s1 cap)"
      by (intro cap_create_other [OF object_create_cap_inv [OF ci opened(4)] opened(5)]) simp
    then show ?thesis using iss l \<open>k \<noteq> cap\<close> opened(6,7) unfolding issued_def by (metis file_upd(2) res_opt_Some sum.inject(2))
  qed (use iss in simp)
  show "issued s' cap" if "r = Inr cap"
    using c that by (auto elim!: open_path_new [OF inv] simp: issued_def slot_for_cap_Inr cap_check_Inr)
qed

lemma handler_file:
  assumes inv: "file_inv s" and iss: "issued s cap" and h: "tmpfs_endpoint_handler m s = (st, m', s')"
  shows "file_inv s' \<and> issued s' cap \<and> file_of s' cap = (if closes cap m then None else file_of s cap)"
proof -
  have ki: "kern_inv s" using inv by (simp add: file_inv_def)
  have same: ?thesis if "tables s' = tables s" "open_files s' = open_files s" "\<not> closes cap m"
  proof -
    have "scdk_cap_lookup s' = scdk_cap_lookup s" using that(1) by (intro cap_lookup_frame) (simp_all add: tables_def)
    then show ?thesis using that(3) inv iss file_same [OF that(1,2)] by (simp add: issued_def)
  qed
  consider "mtype m = SCDK_MSG_OPEN" | "mtype m = SCDK_MSG_CLOSE" | "mtype m \<noteq> SCDK_MSG_OPEN" "mtype m \<noteq> SCDK_MSG_CLOSE" by blast
  then show ?thesis
  proof cases
    case 1
    then have nc: "\<not> closes cap m" by (simp add: closes_def kconst)
    from 1 h have ho: "tmpfs_handle_open m s = (st, m', s')" by (simp add: tmpfs_endpoint_handler_def)
    show ?thesis
    proof (cases "tmpfs_path_from_message s m SCDK_INITRD_MAX_PATH")
      case (Inl e)
      with ho have "s' = s" by (simp add: tmpfs_handle_open_def)
      then show ?thesis using same nc by simp
    next
      case (Inr path)
      obtain r t where o: "tmpfs_open_path s path = (r, t)" by fastforce
      have st: "s' = t" using ho Inr o by (simp add: tmpfs_handle_open_def split: sum.splits)
      have ne: "issued t cap \<and> r \<noteq> Inr cap" by (rule open_issued(1) [OF ki o iss])
      then have "file_of t cap = file_of s cap" using open_path_other [OF ki o, of cap] by (intro file_of_eqI) auto
      then show ?thesis using ne nc open_path_inv [OF inv o] by (simp add: st)
    qed
  next
    case 2
    from 2 h have hc: "tmpfs_close_cap s (arg0 m) = (st, s')"
      by (auto simp: tmpfs_endpoint_handler_def tmpfs_handle_close_def kconst split: prod.splits)
    have "scdk_cap_lookup s' = scdk_cap_lookup s" using hc by (cases rule: close_cap_cases) simp_all
    then show ?thesis using close_cap_file [OF inv hc] iss 2 by (auto simp: closes_def issued_def)
  next
    case 3
    then have "\<not> closes cap m" by (simp add: closes_def)
    moreover have "tables s' = tables s \<and> open_files s' = open_files s"
      using h 3 by (auto simp: tmpfs_endpoint_handler_def dest: stat_frame listdir_frame read_frame split: if_splits)
    ultimately show ?thesis using same by blast
  qed
qed

lemma serve_file:
  assumes "file_inv s" and "issued s cap"
  shows "file_inv (tmpfs_serve s ms) \<and> issued (tmpfs_serve s ms) cap \<and>
    file_of (tmpfs_serve s ms) cap = (if list_ex (closes cap) ms then None else file_of s cap)"
  using assms
proof (induction ms arbitrary: s)
  case (Cons m ms)
  obtain st m' s' where h: "tmpfs_endpoint_handler m s = (st, m', s')" by (cases "tmpfs_endpoint_handler m s") auto
  note f = handler_file [OF Cons.prems h]
  from Cons.IH [of s'] f show ?case by (auto simp: h)
qed simp

section \<open>Routing\<close>

text \<open>The handler a live endpoint capability leads to.\<close>

definition endpoint_target :: "'a ep_state_scheme \<Rightarrow> u64 \<Rightarrow> (u64 \<times> handler \<times> u64) option" where
  "endpoint_target s ep =
     (case scdk_cap_check s ep SCDK_RIGHT_SEND SCDK_OBJ_ENDPOINT of
        Inl _ \<Rightarrow> None
      | Inr entry \<Rightarrow>
          (case scdk_object_lookup s (ce_object_id entry) of
             Inl _ \<Rightarrow> None
           | Inr object \<Rightarrow>
               (case endpoint_of s (obj_payload object) (ce_object_id entry) of
                  None \<Rightarrow> None | Some (h, ctx) \<Rightarrow> Some (ce_object_id entry, h, ctx))))"

lemma endpoint_call_target:
  assumes "endpoint_target s ep = Some (oid, h, ctx)"
  shows "scdk_endpoint_call run s ep m =
    (case run h ep (m\<lparr>target := oid\<rparr>) ctx s of (st, m', s') \<Rightarrow> (st, m'\<lparr>mstatus := status_word st\<rparr>, s'))"
  using assms by (auto simp: endpoint_target_def scdk_endpoint_call_def split: sum.splits option.splits)

lemma endpoint_target_Some:
  "endpoint_target s ep = Some (oid, h, ctx) \<longleftrightarrow>
     (\<exists>e ob. scdk_cap_check s ep SCDK_RIGHT_SEND SCDK_OBJ_ENDPOINT = Inr e \<and> ce_object_id e = oid \<and>
        scdk_object_lookup s oid = Inr ob \<and> endpoint_of s (obj_payload ob) oid = Some (h, ctx))"
  by (auto simp: endpoint_target_def split: sum.splits option.splits)

lemma endpoint_target_keeps:
  assumes "endpoint_target s ep = Some t" and "endpoint_table s' = endpoint_table s"
    and "\<And>e. scdk_cap_lookup s ep = Inr e \<Longrightarrow> scdk_cap_lookup s' ep = Inr e"
    and "\<And>x ob. scdk_object_lookup s x = Inr ob \<Longrightarrow> scdk_object_lookup s' x = Inr ob"
  shows "endpoint_target s' ep = Some t"
proof -
  obtain oid h ctx where t: "t = (oid, h, ctx)" by (cases t)
  have "endpoint_of s' p oid = endpoint_of s p oid" for p by (simp only: endpoint_of_def assms(2))
  then show ?thesis using assms(1,3,4) unfolding t endpoint_target_Some cap_check_Inr by fastforce
qed

lemma target_issued: "endpoint_target s ep = Some t \<Longrightarrow> issued s ep"
  by (cases t) (auto simp: endpoint_target_Some cap_check_Inr issued_def)

definition file_services_up :: "'a file_state_scheme \<Rightarrow> bool" where
  "file_services_up s \<longleftrightarrow>
     (\<exists>vfs o1 o2 c1 c2. scdk_service_lookup s SCDK_SERVICE_VFS = Inr vfs \<and> endpoint_target s vfs = Some (o1, HVfs, c1) \<and>
        root_tmpfs_endpoint s \<noteq> 0 \<and> endpoint_target s (root_tmpfs_endpoint s) = Some (o2, HTmpfs, c2))"

lemma file_services_upE:
  assumes "file_services_up s" "scdk_service_lookup s SCDK_SERVICE_VFS = Inr vfs"
  obtains o1 o2 where "\<And>other m. scdk_endpoint_call (file_run other) s vfs m =
      (case vfs_endpoint_handler (tmpfs_run other) (m\<lparr>target := o1\<rparr>) s of (st, m', s') \<Rightarrow> (st, m'\<lparr>mstatus := status_word st\<rparr>, s'))"
    "\<And>other m. vfs_forward_to_tmpfs (tmpfs_run other) m s =
      (case tmpfs_endpoint_handler (m\<lparr>target := o2\<rparr>) s of
         (st, m', s') \<Rightarrow> (st, m'\<lparr>mstatus := status_word st, target := SCDK_SERVICE_VFS\<rparr>, s'))"
proof -
  obtain o1 o2 c1 c2 where t: "endpoint_target s vfs = Some (o1, HVfs, c1)" "root_tmpfs_endpoint s \<noteq> 0"
    "endpoint_target s (root_tmpfs_endpoint s) = Some (o2, HTmpfs, c2)"
    using assms unfolding file_services_up_def by auto
  show thesis
    by (rule that [of o1 o2])
      (use t in \<open>auto simp: endpoint_call_target file_run_def vfs_forward_to_tmpfs_def tmpfs_run_def split: prod.split\<close>)
qed

lemma vfs_call_forwarded:
  assumes "file_services_up s" "scdk_service_lookup s SCDK_SERVICE_VFS = Inr vfs" "mtype m = SCDK_MSG_READ \<or> mtype m = SCDK_MSG_CLOSE"
  obtains oid where "\<And>other. scdk_endpoint_call (file_run other) s vfs m =
      (case tmpfs_endpoint_handler (m\<lparr>target := oid\<rparr>) s of
         (st, m', s') \<Rightarrow> (st, m'\<lparr>target := SCDK_SERVICE_VFS, mstatus := status_word st\<rparr>, s'))"
proof -
  obtain o1 o2 where h: "\<And>other m. scdk_endpoint_call (file_run other) s vfs m =
      (case vfs_endpoint_handler (tmpfs_run other) (m\<lparr>target := o1\<rparr>) s of (st, m', s') \<Rightarrow> (st, m'\<lparr>mstatus := status_word st\<rparr>, s'))"
    "\<And>other m. vfs_forward_to_tmpfs (tmpfs_run other) m s =
      (case tmpfs_endpoint_handler (m\<lparr>target := o2\<rparr>) s of
         (st, m', s') \<Rightarrow> (st, m'\<lparr>mstatus := status_word st, target := SCDK_SERVICE_VFS\<rparr>, s'))"
    by (rule file_services_upE [OF assms(1,2)]) blast
  show thesis
  proof (rule that [of o2])
    fix other
    have "vfs_endpoint_handler (tmpfs_run other) (m\<lparr>target := o1\<rparr>) s = vfs_forward_to_tmpfs (tmpfs_run other) (m\<lparr>target := o1\<rparr>) s"
      using assms(3) by (auto simp: vfs_endpoint_handler_def kconst)
    then show "scdk_endpoint_call (file_run other) s vfs m =
      (case tmpfs_endpoint_handler (m\<lparr>target := o2\<rparr>) s of
         (st, m', s') \<Rightarrow> (st, m'\<lparr>target := SCDK_SERVICE_VFS, mstatus := status_word st\<rparr>, s'))"
      by (simp add: h split: prod.split)
  qed
qed

definition file_bytes :: "'a user_state_scheme \<Rightarrow> scdk_initrd_entry \<Rightarrow> u8 list" where
  "file_bytes s f = bytes_at (kmem s) (ie_data f) (unat (ie_size f))"

lemma bytes_at_slice:
  "k + n \<le> N \<Longrightarrow> take n (drop k (bytes_at mem p N)) = bytes_at mem (p + of_nat k) n"
  by (rule nth_equalityI) (auto simp: bytes_at_def algebra_simps)

lemma read_result:
  assumes "file_of s cap = Some f" "mtype m = SCDK_MSG_READ" "arg0 m = cap" "arg2 m \<noteq> 0"
  defines "n \<equiv> min (arg3 m) (ie_size f - arg1 m)"
  shows "tmpfs_endpoint_handler m s =
    (if arg3 m \<noteq> 0 \<and> arg1 m > ie_size f then (SCDK_ERR_BOUNDS, m, s)
     else if arg3 m = 0 then (SCDK_OK, m\<lparr>arg0 := 0\<rparr>, s)
     else (SCDK_OK, m\<lparr>arg0 := n\<rparr>, memcpy s (arg2 m) (ie_data f + arg1 m) (unat n)))"
proof -
  obtain i where i: "tmpfs_slot_for_cap s cap = Inr i" "tf_backing (open_files s i) = f" using assms(1) by (auto simp: file_of_Some)
  have "tmpfs_endpoint_handler m s = tmpfs_handle_read m s" using assms(2) by (simp add: tmpfs_endpoint_handler_def kconst)
  then show ?thesis using assms(3,4) i by (auto simp: tmpfs_handle_read_def Let_def n_def min_def not_less)
qed

section \<open>Starting the services\<close>

lemma cap_create_keeps:
  assumes "cap_inv s" and "scdk_cap_create s oid rights = (r, s')" and "scdk_cap_lookup s cap = Inr e"
  shows "scdk_cap_lookup s' cap = Inr e"
  using cspace.mint_keeps [OF assms(1), of "(oid, rights)" r s' cap e] assms(2,3) by simp

lemma bind_slot_keeps:
  assumes inv: "kern_inv s" and b: "bind_slot s type core pay fill undo rights = (r, s')" and p: "payload_ok type pay"
    and same: "\<And>oid s. core_same s (fill oid s)" "\<And>s. core_same s (undo s)"
  shows "scdk_cap_lookup s cap = Inr e \<Longrightarrow> scdk_cap_lookup s' cap = Inr e"
    and "scdk_object_lookup s x = Inr ob \<Longrightarrow> scdk_object_lookup s' x = Inr ob"
proof -
  show "scdk_object_lookup s' x = Inr ob" if "scdk_object_lookup s x = Inr ob"
    by (rule khist_objects [OF bind_slot_khist [OF b p same] inv that])
  have cs: "scdk_cap_lookup t' = scdk_cap_lookup t" if "core_same t t'" for t t' :: "'a cap_state_scheme"
    using that by (intro cap_lookup_frame) (simp_all add: core_same_def)
  show "scdk_cap_lookup s' cap = Inr e" if l: "scdk_cap_lookup s cap = Inr e"
    using b
  proof (cases rule: bind_slot_cases)
    case (nocap oid s1 s3 e')
    then show ?thesis using l object_create_cap_lookup [OF kern_invD(1) [OF inv] nocap(1), of cap] cap_create_refused [OF nocap(2)]
        cs [OF same(1), of oid s1] cs [OF same(2), of s3] by simp
  next
    case (created oid s1 k)
    have i1: "kern_inv s1" by (rule khist_inv [OF kh_object [OF kh_refl created(1) p] inv])
    have "kern_inv (fill oid s1)" using core_same_inv [OF same(1)] i1 by blast
    moreover have "scdk_cap_lookup (fill oid s1) cap = Inr e"
      using l object_create_cap_lookup [OF kern_invD(1) [OF inv] created(1), of cap] cs [OF same(1), of oid s1] by simp
    ultimately show ?thesis using cap_create_keeps [OF kern_invD(1) created(2)] by blast
  qed (use l in simp)
qed

lemma endpoint_create_target:
  assumes inv: "kern_inv s" and c: "scdk_endpoint_create s core (Some h) ctx = (r, s')"
  shows "endpoint_target s ep = Some t \<Longrightarrow> endpoint_target s' ep = Some t"
    and "r = Inr ep \<Longrightarrow> \<exists>oid. endpoint_target s' ep = Some (oid, h, ctx)"
    and "service_table s' = service_table s"
proof -
  have main: "(endpoint_target s ep = Some t \<longrightarrow> endpoint_target s' ep = Some t) \<and>
      (r = Inr ep \<longrightarrow> (\<exists>oid. endpoint_target s' ep = Some (oid, h, ctx))) \<and> service_table s' = service_table s"
    using c
  proof (cases rule: endpoint_create_cases)
    case (slot i)
    have p: "payload_ok SCDK_OBJ_ENDPOINT (PEndpoint i)" using slot(2) by simp
    note keep = bind_slot_keeps [OF inv slot(4) p set_endpoint_same set_endpoint_same]
    have tab: "\<forall>j. j \<noteq> i \<longrightarrow> endpoint_table s' j = endpoint_table s j" "service_table s' = service_table s"
      using slot(4) by (cases rule: bind_slot_cases; force dest!: ep_low_frame)+
    have a: "endpoint_target s' ep = Some t" if "endpoint_target s ep = Some t"
    proof -
      obtain oid h' c' where t: "t = (oid, h', c')" by (cases t)
      then obtain e ob where e: "scdk_cap_check s ep SCDK_RIGHT_SEND SCDK_OBJ_ENDPOINT = Inr e" "ce_object_id e = oid"
        "scdk_object_lookup s oid = Inr ob" "endpoint_of s (obj_payload ob) oid = Some (h', c')"
        using \<open>endpoint_target s ep = Some t\<close> by (auto simp: endpoint_target_Some)
      have "oid \<noteq> 0" using e(3) by (auto simp: scdk_object_lookup_def)
      moreover obtain j where j: "obj_payload ob = PEndpoint j" "ep_object_id (endpoint_table s j) = oid"
        using e(4) by (cases "obj_payload ob") (auto simp: endpoint_of_def Let_def split: if_splits)
      ultimately have "endpoint_table s' j = endpoint_table s j" using slot(3) tab(1) by (cases "j = i") auto
      then have "endpoint_of s' (obj_payload ob) oid = Some (h', c')" using e(4) by (simp add: j(1) endpoint_of_def)
      moreover have "scdk_cap_check s' ep SCDK_RIGHT_SEND SCDK_OBJ_ENDPOINT = Inr e" using e(1) keep(1) [of ep e] by (auto simp: cap_check_Inr)
      ultimately show ?thesis using e keep(2) by (auto simp: t endpoint_target_Some)
    qed
    have b: "\<exists>oid. endpoint_target s' ep = Some (oid, h, ctx)" if rE: "r = Inr ep"
      using slot(4)
    proof (cases rule: bind_slot_cases)
      case (created oid s1 cap)
      obtain ob where ob: "scdk_object_lookup s' oid = Inr ob" "obj_payload ob = PEndpoint i"
        using bind_slot_object [OF created(1,2) set_endpoint_same] by blast
      obtain e where e: "scdk_cap_check s' ep SCDK_RIGHT_SEND SCDK_OBJ_ENDPOINT = Inr e" "ce_object_id e = oid"
        using bind_slot_cap [OF created(1,2) set_endpoint_same inv p, of SCDK_RIGHT_SEND] created(3) rE by (auto simp: kconst)
      have "endpoint_table s' i = \<lparr>ep_object_id = oid, ep_handler = Some h, ep_context = ctx\<rparr>"
        using ep_low_frame(2) [OF created(2)] by simp
      then show ?thesis using ob e by (auto simp: endpoint_target_Some endpoint_of_def)
    qed (use rE in simp_all)
    show ?thesis using a b tab(2) by blast
  qed simp
  from main show "endpoint_target s ep = Some t \<Longrightarrow> endpoint_target s' ep = Some t"
    "r = Inr ep \<Longrightarrow> \<exists>oid. endpoint_target s' ep = Some (oid, h, ctx)" "service_table s' = service_table s" by blast+
qed

lemma endpoint_target_services [simp]: "endpoint_target (s\<lparr>service_table := x\<rparr>) = endpoint_target s"
  by (intro ext) (simp add: endpoint_target_def endpoint_of_def cong: sum.case_cong option.case_cong payload.case_cong)

lemma start_service_up:
  assumes inv: "kern_inv s" "ep_inv s" and c: "start_service s h sid = (r, s')"
  shows "kern_inv s'" "ep_inv s'" "endpoint_target s ep = Some t \<Longrightarrow> endpoint_target s' ep = Some t"
    and "r = Inr ep \<Longrightarrow> (\<exists>oid. endpoint_target s' ep = Some (oid, h, 0)) \<and> scdk_service_lookup s' sid = Inr ep"
    and "sid' \<noteq> sid \<Longrightarrow> scdk_service_lookup s' sid' = Inr x \<longleftrightarrow> scdk_service_lookup s sid' = Inr x"
proof -
  obtain re s1 where e: "scdk_endpoint_create s SCDK_BOOT_CORE (Some h) 0 = (re, s1)" by fastforce
  note i1 = khist_inv [OF endpoint_create_khist [OF e] inv(1)] endpoint_create_inv [OF inv e]
  note t1 = endpoint_create_target [OF inv(1) e]
  have lk: "scdk_service_lookup s1 = scdk_service_lookup s" by (intro ext) (simp only: scdk_service_lookup_def t1(3))
  have "kern_inv s' \<and> ep_inv s' \<and> (endpoint_target s ep = Some t \<longrightarrow> endpoint_target s' ep = Some t) \<and>
      (r = Inr ep \<longrightarrow> (\<exists>oid. endpoint_target s' ep = Some (oid, h, 0)) \<and> scdk_service_lookup s' sid = Inr ep) \<and>
      (sid' \<noteq> sid \<longrightarrow> (scdk_service_lookup s' sid' = Inr x \<longleftrightarrow> scdk_service_lookup s sid' = Inr x))"
  proof (cases re)
    case (Inl er)
    with c e have "r = Inl er" "s' = s1" by (auto simp: start_service_def)
    then show ?thesis using i1 t1(1) lk by simp
  next
    case (Inr k)
    obtain st s2 where g: "scdk_service_register s1 sid k = (st, s2)" by fastforce
    have s2: "s' = s2" "r = (if st \<noteq> SCDK_OK then Inl st else Inr k)" using c e Inr g by (simp_all add: start_service_def split: if_splits)
    have k2: "kern_inv s2" by (rule khist_inv [OF service_register_khist [OF g] i1(1)])
    have e2: "ep_inv s2" by (rule service_register_inv [OF i1(2) g])
    from g show ?thesis
    proof (cases rule: service_register_cases)
      case refused
      then show ?thesis using i1 t1(1) lk s2 by simp
    next
      case (registered en i)
      have "scdk_service_lookup s2 sid = Inr k" unfolding service_lookup_Inr [OF e2] using registered by auto
      moreover have "scdk_service_lookup s2 sid' = Inr x \<longleftrightarrow> scdk_service_lookup s1 sid' = Inr x" if "sid' \<noteq> sid"
        using registered(5,6,7) that unfolding service_lookup_Inr [OF e2] service_lookup_Inr [OF i1(2)]
        by (auto split: if_splits) (metis scdk_service_slot.select_convs(1))
      ultimately show ?thesis using k2 e2 s2 registered(2,7) t1 Inr lk by auto
    qed
  qed
  then show "kern_inv s'" "ep_inv s'" "endpoint_target s ep = Some t \<Longrightarrow> endpoint_target s' ep = Some t"
    "r = Inr ep \<Longrightarrow> (\<exists>oid. endpoint_target s' ep = Some (oid, h, 0)) \<and> scdk_service_lookup s' sid = Inr ep"
    "sid' \<noteq> sid \<Longrightarrow> scdk_service_lookup s' sid' = Inr x \<longleftrightarrow> scdk_service_lookup s sid' = Inr x" by blast+
qed

section \<open>Reading through the router\<close>

lemma vfs_read:
  assumes "file_services_up s" and "scdk_service_lookup s SCDK_SERVICE_VFS = Inr vfs"
    and "file_of s cap = Some f" and "mtype m = SCDK_MSG_READ" and "arg0 m = cap" and "arg2 m \<noteq> 0"
    and "unat (ie_data f) + unat (ie_size f) \<le> 2 ^ 64"
  defines "n \<equiv> unat (min (arg3 m) (ie_size f - arg1 m))"
  defines "bs \<equiv> take n (drop (unat (arg1 m)) (file_bytes s f))"
  shows "arg1 m \<le> ie_size f \<Longrightarrow> unat (arg2 m) + n \<le> unat SCDK_USER_VIRT_TOP \<or>
      unat SCDK_USER_VIRT_TOP \<le> unat (arg2 m) \<and> unat (arg2 m) + n \<le> 2 ^ 64 \<and>
      {unat (arg2 m)..<unat (arg2 m) + n} \<inter> span (ie_data f) (ie_size f) = {} \<Longrightarrow>
    \<exists>m'. scdk_endpoint_call (file_run other) s vfs m = (SCDK_OK, m',
        if arg2 m < SCDK_USER_VIRT_TOP then store_bytes s (arg2 m) bs else kmem_write s (arg2 m) bs) \<and>
      unat (arg0 m') = n \<and> length bs = n"
    and "arg1 m > ie_size f \<Longrightarrow> arg3 m \<noteq> 0 \<Longrightarrow> \<exists>m'. scdk_endpoint_call (file_run other) s vfs m = (SCDK_ERR_BOUNDS, m', s)"
proof -
  obtain oid where c: "scdk_endpoint_call (file_run other) s vfs m =
      (case tmpfs_endpoint_handler (m\<lparr>target := oid\<rparr>) s of
         (st, m', s') \<Rightarrow> (st, m'\<lparr>target := SCDK_SERVICE_VFS, mstatus := status_word st\<rparr>, s'))"
    by (rule vfs_call_forwarded [OF assms(1,2), of m]) (use assms(4) in auto)
  note r = read_result [OF assms(3), of "m\<lparr>target := oid\<rparr>"]
  show "\<exists>m'. scdk_endpoint_call (file_run other) s vfs m = (SCDK_ERR_BOUNDS, m', s)" if "arg1 m > ie_size f" "arg3 m \<noteq> 0"
    using c r assms(4-6) that by simp
  show "\<exists>m'. scdk_endpoint_call (file_run other) s vfs m = (SCDK_OK, m',
        if arg2 m < SCDK_USER_VIRT_TOP then store_bytes s (arg2 m) bs else kmem_write s (arg2 m) bs) \<and>
      unat (arg0 m') = n \<and> length bs = n"
    if le: "arg1 m \<le> ie_size f" and buf: "unat (arg2 m) + n \<le> unat SCDK_USER_VIRT_TOP \<or>
      unat SCDK_USER_VIRT_TOP \<le> unat (arg2 m) \<and> unat (arg2 m) + n \<le> 2 ^ 64 \<and>
      {unat (arg2 m)..<unat (arg2 m) + n} \<inter> span (ie_data f) (ie_size f) = {}"
  proof -
    have nn: "unat (arg1 m) + n \<le> unat (ie_size f)"
      using le by (auto simp: n_def min_def unat_sub word_le_nat_alt)
    have bs: "bs = bytes_at (kmem s) (ie_data f + arg1 m) n" "length bs = n"
      using bytes_at_slice [OF nn, of "kmem s" "ie_data f"] by (simp_all add: bs_def file_bytes_def)
    have src: "unat (ie_data f + arg1 m) + n \<le> 2 ^ 64 \<and> {unat (ie_data f + arg1 m)..<unat (ie_data f + arg1 m) + n} \<subseteq> span (ie_data f) (ie_size f)" if "0 < n"
    proof -
      have "unat (ie_data f) + unat (arg1 m) < 2 ^ 64" using nn assms(7) that by linarith
      then have "unat (ie_data f + arg1 m) = unat (ie_data f) + unat (arg1 m)" by (simp add: unat_word_ariths)
      then show ?thesis using nn assms(7) by auto
    qed
    have cp: "memcpy s (arg2 m) (ie_data f + arg1 m) n =
        (if arg2 m < SCDK_USER_VIRT_TOP then store_bytes s (arg2 m) bs else kmem_write s (arg2 m) bs)"
    proof (cases "n = 0")
      case False
      then show ?thesis using buf memcpy_user [of "arg2 m" n s "ie_data f + arg1 m"]
          memcpy_kernel [of "arg2 m" n "ie_data f + arg1 m" s] src by (auto simp: bs(1) word_less_nat_alt)
    qed (simp add: bs(1))
    have n0: "n = 0" if "arg3 m = 0" using that by (simp add: n_def min_def)
    have r2: "tmpfs_endpoint_handler (m\<lparr>target := oid\<rparr>) s = (SCDK_OK, m\<lparr>target := oid, arg0 := min (arg3 m) (ie_size f - arg1 m)\<rparr>,
        memcpy s (arg2 m) (ie_data f + arg1 m) n)"
      using r assms(4-6) le n0 by (auto simp: n_def min_def not_less)
    show ?thesis using c bs(2) unfolding r2 cp by (auto simp: n_def)
  qed
qed

text \<open>Opening a file leaves the services running.\<close>

lemma endpoint_target_frame:
  assumes "tables s' = tables s" shows "endpoint_target s' = endpoint_target s" "scdk_service_lookup s' = scdk_service_lookup s"
proof -
  have e: "object_table s' = object_table s" "cap_table s' = cap_table s" "cap_generations s' = cap_generations s"
    "endpoint_table s' = endpoint_table s" "service_table s' = service_table s" using assms by (simp_all add: tables_def)
  show "endpoint_target s' = endpoint_target s"
    by (intro ext) (simp only: endpoint_target_def endpoint_of_def cap_check_frame [OF e(1-3)] object_lookup_frame [OF e(1)] e(4))
  show "scdk_service_lookup s' = scdk_service_lookup s" by (intro ext) (simp only: scdk_service_lookup_def e(5))
qed

lemma up_frame:
  assumes "tables s' = tables s" "root_tmpfs_endpoint s' = root_tmpfs_endpoint s"
  shows "file_services_up s' = file_services_up s"
  by (simp only: file_services_up_def endpoint_target_frame [OF assms(1)] assms(2))

lemma open_path_cap:
  assumes inv: "kern_inv s" and c: "tmpfs_open_path s path = (r, s')" and l: "scdk_cap_lookup s cap = Inr e"
  shows "scdk_cap_lookup s' cap = Inr e"
  using c
proof (cases rule: open_path_cases)
  case (nocap i oid s1 e')
  then show ?thesis using l object_create_cap_lookup [OF kern_invD(1) [OF inv] nocap(1), of cap] by simp
next
  case (opened i oid s1 s2 v k)
  have "scdk_cap_lookup s1 cap = Inr e" using l object_create_cap_lookup [OF kern_invD(1) [OF inv] opened(4), of cap] by simp
  then show ?thesis using cap_create_keeps [OF object_create_cap_inv [OF kern_invD(1) [OF inv] opened(4)] opened(5)]
    by (simp add: opened(7))
qed (use l in simp)

lemma object_create_rest:
  "scdk_object_create s ty c f p = (r, s') \<Longrightarrow> root_tmpfs_endpoint s' = root_tmpfs_endpoint s \<and> mm s' = mm s"
  "scdk_cap_create s oid rights = (q, s') \<Longrightarrow> root_tmpfs_endpoint s' = root_tmpfs_endpoint s \<and> mm s' = mm s"
  by (auto elim: object_create_cases cap_create_cases)

lemma open_path_frame:
  assumes "tmpfs_open_path s path = (r, s')"
  shows "endpoint_table s' = endpoint_table s \<and> service_table s' = service_table s \<and> root_tmpfs_endpoint s' = root_tmpfs_endpoint s \<and>
    mm s' = mm s \<and> kmem s' = kmem s \<and> initrd s' = initrd s"
  using assms
proof (cases rule: open_path_cases)
  case (nocap i oid s1 e)
  then show ?thesis using object_create_rest(1) [OF nocap(1)] ep_low_frame(1) [OF nocap(1)] file_low_frame(1) [OF nocap(1)] by simp
next
  case (opened i oid s1 s2 v k)
  then show ?thesis using object_create_rest(1) [OF opened(4)] object_create_rest(2) [OF opened(5)] ep_low_frame(1) [OF opened(4)]
      ep_low_frame(2) [OF opened(5)] file_low_frame(1) [OF opened(4)] file_low_frame(2) [OF opened(5)] by simp
qed simp

lemma open_path_up:
  assumes inv: "kern_inv s" and c: "tmpfs_open_path s path = (r, s')" and up: "file_services_up s"
  shows "file_services_up s'" "scdk_service_lookup s' = scdk_service_lookup s"
proof -
  note fr = open_path_frame [OF c]
  have t: "endpoint_target s' ep = Some t" if "endpoint_target s ep = Some t" for ep t
    by (rule endpoint_target_keeps [OF that _ open_path_cap [OF inv c] khist_objects [OF open_path_khist [OF c] inv]]) (use fr in simp_all)
  show l: "scdk_service_lookup s' = scdk_service_lookup s" using fr by (intro ext) (simp only: scdk_service_lookup_def)
  obtain vfs o1 o2 c1 c2 where u: "scdk_service_lookup s SCDK_SERVICE_VFS = Inr vfs" "endpoint_target s vfs = Some (o1, HVfs, c1)"
      "root_tmpfs_endpoint s \<noteq> 0" "endpoint_target s (root_tmpfs_endpoint s) = Some (o2, HTmpfs, c2)"
    using up unfolding file_services_up_def by blast
  show "file_services_up s'" unfolding file_services_up_def l
    using u(1) t [OF u(2)] u(3) t [OF u(4)] fr by (intro exI [of _ vfs] exI [of _ o1] exI [of _ o2] exI [of _ c1] exI [of _ c2]) simp
qed

text \<open>
  A concrete system: the two file services are endpoints 0 and 1, the archive holds the
  file \<^verbatim>\<open>/a\<close> with the bytes 7, 8, 9, and its name is also a string of the kernel.
\<close>

definition file_demo :: file_state where
  "file_demo = user_ring_state.extend (user_state.extend (user_boot
     \<lparr>object_table := (\<lambda>_. null_object)
        (0 := \<lparr>obj_id = 0x100000000, obj_type = SCDK_OBJ_ENDPOINT, obj_generation = 1, obj_owner_core = 0, obj_flags = 0, obj_payload = PEndpoint 0\<rparr>,
         1 := \<lparr>obj_id = 0x100000001, obj_type = SCDK_OBJ_ENDPOINT, obj_generation = 1, obj_owner_core = 0, obj_flags = 0, obj_payload = PEndpoint 1\<rparr>),
      object_generations := (\<lambda>i. if i < 2 then 1 else 0),
      cap_table := (\<lambda>_. null_cap_entry)
        (0 := \<lparr>ce_object_id = 0x100000000, ce_generation = 1, ce_object_type = SCDK_OBJ_ENDPOINT, ce_revoked = 0, ce_rights = 0x50\<rparr>,
         1 := \<lparr>ce_object_id = 0x100000001, ce_generation = 1, ce_object_type = SCDK_OBJ_ENDPOINT, ce_revoked = 0, ce_rights = 0x50\<rparr>),
      cap_generations := (\<lambda>i. if i < 2 then 1 else 0),
      endpoint_table := (\<lambda>_. null_endpoint)(0 := \<lparr>ep_object_id = 0x100000000, ep_handler = Some HTmpfs, ep_context = 0\<rparr>,
        1 := \<lparr>ep_object_id = 0x100000001, ep_handler = Some HVfs, ep_context = 0\<rparr>),
      service_table := (\<lambda>_. null_service_slot)(0 := \<lparr>sv_service_id = SCDK_SERVICE_TMPFS, sv_endpoint = 0x100000000\<rparr>,
        1 := \<lparr>sv_service_id = SCDK_SERVICE_VFS, sv_endpoint = 0x100000001\<rparr>),
      mm := heap_demo,
      kmem := (\<lambda>_. 0)(0xffff800000001000 := slash, 0xffff800000001001 := 0x61,
        0xffff800000002000 := 7, 0xffff800000002001 := 8, 0xffff800000002002 := 9)\<rparr>)
     \<lparr>user_rings = (\<lambda>i. \<lparr>ur_in_use = False, ur_source_task = 0, ur_ring_cap = 0, ur_target_endpoint = 0\<rparr>)\<rparr>)
     \<lparr>initrd = initrd_boot\<lparr>initrd_files := (\<lambda>_. null_initrd_entry)
        (0 := \<lparr>ie_path = [slash, 0x61], ie_data = 0xffff800000002000, ie_size = 3, ie_flags = 0\<rparr>),
        initrd_file_count := 1, initrd_initialized := True\<rparr>,
      open_files = (\<lambda>_. \<lparr>tf_object_id = 0, tf_cap = 0, tf_backing = null_initrd_entry, tf_open = False\<rparr>),
      tmpfs_started = True, root_tmpfs_endpoint = 0x100000000, vfs_started = True\<rparr>"

lemma file_demo_sel:
  "object_table file_demo = (\<lambda>_. null_object)
        (0 := \<lparr>obj_id = 0x100000000, obj_type = SCDK_OBJ_ENDPOINT, obj_generation = 1, obj_owner_core = 0, obj_flags = 0, obj_payload = PEndpoint 0\<rparr>,
         1 := \<lparr>obj_id = 0x100000001, obj_type = SCDK_OBJ_ENDPOINT, obj_generation = 1, obj_owner_core = 0, obj_flags = 0, obj_payload = PEndpoint 1\<rparr>)"
  "object_generations file_demo = (\<lambda>i. if i < 2 then 1 else 0)"
  "cap_table file_demo = (\<lambda>_. null_cap_entry)
        (0 := \<lparr>ce_object_id = 0x100000000, ce_generation = 1, ce_object_type = SCDK_OBJ_ENDPOINT, ce_revoked = 0, ce_rights = 0x50\<rparr>,
         1 := \<lparr>ce_object_id = 0x100000001, ce_generation = 1, ce_object_type = SCDK_OBJ_ENDPOINT, ce_revoked = 0, ce_rights = 0x50\<rparr>)"
  "cap_generations file_demo = (\<lambda>i. if i < 2 then 1 else 0)"
  "mm file_demo = heap_demo" "\<not> tf_open (open_files file_demo i)"
  "initrd_nfiles (initrd file_demo) = 1"
  "initrd_files (initrd file_demo) 0 = \<lparr>ie_path = [slash, 0x61], ie_data = 0xffff800000002000, ie_size = 3, ie_flags = 0\<rparr>"
  "scdk_initrd_find (initrd file_demo) (Some [slash, 0x61]) = Inr \<lparr>ie_path = [slash, 0x61], ie_data = 0xffff800000002000, ie_size = 3, ie_flags = 0\<rparr>"
  "kmem file_demo = (\<lambda>_. 0)(0xffff800000001000 := slash, 0xffff800000001001 := 0x61,
        0xffff800000002000 := 7, 0xffff800000002001 := 8, 0xffff800000002002 := 9)"
  by (simp_all add: file_demo_def user_ring_state.defs user_state.defs initrd_nfiles_def scdk_initrd_find_def first_slot_hit str_eq_def)

lemma file_demo_inv: "kern_inv file_demo" "file_inv file_demo"
proof -
  note s = file_demo_sel
  have o: "obj_inv file_demo"
    unfolding obj_inv_def s(1,2) by (auto simp: null_object_def kconst object_make_id_def less_2_cases_iff)
  have l: "scdk_object_lookup file_demo 0x100000000 = Inr (object_table file_demo 0)" "scdk_object_lookup file_demo 0x100000001 = Inr (object_table file_demo 1)"
    by (simp_all add: scdk_object_lookup_def object_id_index_def object_id_generation_def s(1) kconst Let_def)
  have ob: "payload_ok (obj_type (object_table file_demo i)) (obj_payload (object_table file_demo i))" for i
    by (simp add: s(1) null_object_def kconst)
  have "objs_ok file_demo" using ob unfolding objs_ok_def by (auto simp: scdk_object_lookup_def Let_def split: if_splits)
  moreover have "cap_inv file_demo" using o l unfolding cap_inv_def s(3,4)
    by (auto simp: cap_live_def s(1,3) null_cap_entry_def)
  ultimately show k: "kern_inv file_demo" by (simp add: kern_inv_def)
  show "file_inv file_demo" using k s(6) by (simp add: file_inv_def slot_for_cap_Inr)
qed

lemma file_demo_open: "fst (tmpfs_open_path file_demo [slash, 0x61]) = Inr 0x100000002"
  by code_simp

lemma file_demo_up: "file_services_up file_demo" and file_demo_vfs: "scdk_service_lookup file_demo SCDK_SERVICE_VFS = Inr 0x100000001"
proof -
  have "scdk_service_lookup file_demo SCDK_SERVICE_VFS = Inr 0x100000001"
    "endpoint_target file_demo 0x100000001 = Some (0x100000001, HVfs, 0)"
    "endpoint_target file_demo (root_tmpfs_endpoint file_demo) = Some (0x100000000, HTmpfs, 0)" "root_tmpfs_endpoint file_demo \<noteq> 0"
    by code_simp+
  then show "file_services_up file_demo" "scdk_service_lookup file_demo SCDK_SERVICE_VFS = Inr 0x100000001"
    unfolding file_services_up_def by blast+
qed

section \<open>Properties\<close>

text \<open>
  (C23) A file capability means one file for its whole life: opening a path hands out a capability
  that designated nothing before and now designates the file of that path; whatever
  messages the service then handles, it keeps designating that file until the first
  message that closes it, and from then on it designates nothing, although its slot is
  reused; opening leaves the other file capabilities alone.
\<close>

theorem file_capability_lifecycle:
  assumes "file_inv s" and "tmpfs_open_path s path = (Inr cap, s1)"
  shows "file_of s cap = None \<and> (\<forall>c. c \<noteq> cap \<longrightarrow> file_of s1 c = file_of s c) \<and>
    (\<exists>f. scdk_initrd_find (initrd s) (Some path) = Inr f \<and>
       file_of (tmpfs_serve s1 ms) cap = (if list_ex (closes cap) ms then None else Some f))"
proof -
  obtain f where f: "file_of s1 cap = Some f" "scdk_initrd_find (initrd s) (Some path) = Inr f"
    using tfiles.mint_look [OF assms] by blast
  have "issued s1 cap" by (rule open_issued(2) [OF _ assms(2) refl]) (use assms(1) in \<open>simp add: file_inv_def\<close>)
  then show ?thesis using serve_file [OF tfiles.mint_inv [OF assms], of cap ms] f tfiles.mint_fresh [OF assms] tfiles.mint_other [OF assms]
    by auto
qed

theorem file_capability_lifecycle_witness:
  "\<exists>s1. tmpfs_open_path file_demo [slash, 0x61] = (Inr 0x100000002, s1) \<and>
     file_of (tmpfs_serve s1 [scdk_message_init 0 0 SCDK_MSG_STAT]) 0x100000002 = Some (initrd_files (initrd file_demo) 0) \<and>
     file_of (tmpfs_serve s1 [(scdk_message_init 0 0 SCDK_MSG_CLOSE)\<lparr>arg0 := 0x100000002\<rparr>]) 0x100000002 = None"
proof -
  obtain s1 where o: "tmpfs_open_path file_demo [slash, 0x61] = (Inr 0x100000002, s1)" using file_demo_open by (metis prod.collapse)
  let ?stat = "[scdk_message_init 0 0 SCDK_MSG_STAT]"
  let ?close = "[(scdk_message_init 0 0 SCDK_MSG_CLOSE)\<lparr>arg0 := 0x100000002\<rparr>]"
  have c: "list_ex (closes 0x100000002) ?stat = False" "list_ex (closes 0x100000002) ?close = True"
    by (simp_all add: closes_def scdk_message_init_def kconst)
  note l = file_capability_lifecycle [OF file_demo_inv(2) o, THEN conjunct2, THEN conjunct2]
  obtain f where "scdk_initrd_find (initrd file_demo) (Some [slash, 0x61]) = Inr f" "file_of (tmpfs_serve s1 ?stat) 0x100000002 = Some f"
    using l [of ?stat] unfolding c if_False by blast
  moreover have "file_of (tmpfs_serve s1 ?close) 0x100000002 = None" using l [of ?close] unfolding c if_True by blast
  ultimately show ?thesis using o by (simp del: tmpfs_serve.simps add: file_demo_sel(8,9))
qed

text \<open>
  (C24) A read of an open file through the file-system service returns the bytes of the file and
  nothing else: with an offset inside the file, the reply carries the smaller of the size
  asked for and what is left of the file, exactly that many bytes of the file go to the
  buffer, in user space or in kernel memory, and nothing else in the state changes; an
  offset beyond the end is refused and changes nothing.
\<close>

theorem file_read_exact:
  fixes s :: "'a file_state_scheme"
  assumes "file_services_up s" and "scdk_service_lookup s SCDK_SERVICE_VFS = Inr vfs"
    and "file_of s cap = Some f" and "mtype m = SCDK_MSG_READ" and "arg0 m = cap" and "arg2 m \<noteq> 0"
    and "unat (ie_data f) + unat (ie_size f) \<le> 2 ^ 64"
  defines "n \<equiv> unat (min (arg3 m) (ie_size f - arg1 m))"
  defines "bs \<equiv> take n (drop (unat (arg1 m)) (file_bytes s f))"
  shows "(arg1 m \<le> ie_size f \<and> (unat (arg2 m) + n \<le> unat SCDK_USER_VIRT_TOP \<or>
        unat SCDK_USER_VIRT_TOP \<le> unat (arg2 m) \<and> unat (arg2 m) + n \<le> 2 ^ 64 \<and>
        {unat (arg2 m)..<unat (arg2 m) + n} \<inter> span (ie_data f) (ie_size f) = {}) \<longrightarrow>
      (\<exists>m'. scdk_endpoint_call (file_run other) s vfs m = (SCDK_OK, m',
          if arg2 m < SCDK_USER_VIRT_TOP then store_bytes s (arg2 m) bs else kmem_write s (arg2 m) bs) \<and>
        unat (arg0 m') = n \<and> length bs = n)) \<and>
    (arg1 m > ie_size f \<and> arg3 m \<noteq> 0 \<longrightarrow> (\<exists>m'. scdk_endpoint_call (file_run other) s vfs m = (SCDK_ERR_BOUNDS, m', s)))"
  using vfs_read [OF assms(1-7)] unfolding n_def bs_def by blast

theorem file_read_exact_witness:
  "\<exists>s1 m'. tmpfs_open_path file_demo [slash, 0x61] = (Inr 0x100000002, s1) \<and>
     scdk_endpoint_call (file_run (\<lambda>h e m c s. (SCDK_OK, m, s))) s1 0x100000001
       ((scdk_message_init 0 0 SCDK_MSG_READ)\<lparr>arg0 := 0x100000002, arg1 := 1, arg2 := 0xffff800000003000, arg3 := 50\<rparr>) =
       (SCDK_OK, m', kmem_write s1 0xffff800000003000 [8, 9]) \<and> unat (arg0 m') = 2"
proof -
  obtain s1 where o: "tmpfs_open_path file_demo [slash, 0x61] = (Inr 0x100000002, s1)" using file_demo_open by (metis prod.collapse)
  let ?m = "(scdk_message_init 0 0 SCDK_MSG_READ)\<lparr>arg0 := 0x100000002, arg1 := 1, arg2 := 0xffff800000003000, arg3 := 50\<rparr>"
  let ?f = "\<lparr>ie_path = [slash, 0x61], ie_data = 0xffff800000002000, ie_size = 3, ie_flags = 0\<rparr>"
  have f: "file_of s1 0x100000002 = Some ?f" using tfiles.mint_look [OF file_demo_inv(2) o] file_demo_sel(9) by auto
  have up: "file_services_up s1" "scdk_service_lookup s1 SCDK_SERVICE_VFS = Inr 0x100000001"
    using open_path_up [OF file_demo_inv(1) o file_demo_up] file_demo_vfs by simp_all
  have km: "kmem s1 = kmem file_demo" using open_path_frame [OF o] by simp
  have bs: "file_bytes s1 ?f = [7, 8, 9]" unfolding file_bytes_def km file_demo_sel(10) by (simp add: bytes_at_def upt_rec)
  have n: "unat (min (arg3 ?m) (ie_size ?f - arg1 ?m)) = 2" by (simp add: min_def)
  have "\<exists>m'. scdk_endpoint_call (file_run (\<lambda>h e m c s. (SCDK_OK, m, s))) s1 0x100000001 ?m = (SCDK_OK, m',
      if arg2 ?m < SCDK_USER_VIRT_TOP then store_bytes s1 (arg2 ?m) (take 2 (drop (unat (arg1 ?m)) [7, 8, 9]))
      else kmem_write s1 (arg2 ?m) (take 2 (drop (unat (arg1 ?m)) [7, 8, 9]))) \<and> unat (arg0 m') = 2"
    using file_read_exact [OF up f, of ?m "\<lambda>h e m c s. (SCDK_OK, m, s)"] unfolding n bs
    by (simp add: kconst scdk_message_init_def)
  then show ?thesis using o by (simp add: kconst)
qed

end
