(* ===== verification/SCDK_Loader.thy ===== *)
theory SCDK_Loader
  imports SCDK_Files
begin

text \<open>
  The program loader (\<^verbatim>\<open>core/loader.c\<close>) and the process service that calls it
  (\<^verbatim>\<open>services/proc_service.c\<close>). The image of a program is read through the file-system
  service into a heap block and handed to a new user task. Strings and the bytes of the
  block are kernel memory; what enters user mode is an argument, as in \<^verbatim>\<open>core/task.c\<close>.
\<close>

section \<open>The loader\<close>

definition SCDK_LOADER_MAX_IMAGE_SIZE :: u64 where [kconst]: "SCDK_LOADER_MAX_IMAGE_SIZE = 65536"

definition loader_close_file :: "'a file_state_scheme run_handler \<Rightarrow> 'a file_state_scheme \<Rightarrow> u64 \<Rightarrow> u64 \<Rightarrow> scdk_status \<times> 'a file_state_scheme" where
  "loader_close_file run s vfs_endpoint fcap =
     (if vfs_endpoint = 0 \<or> fcap = 0 then (SCDK_ERR_INVAL, s)
      else case scdk_endpoint_call run s vfs_endpoint ((scdk_message_init 0 SCDK_SERVICE_VFS SCDK_MSG_CLOSE)\<lparr>arg0 := fcap\<rparr>) of
        (status, msg, s1) \<Rightarrow> (status, s1))"

lemma offset_progress:
  assumes "offset < sz" and "n \<noteq> 0" and "\<not> sz - offset < n"
  shows "unat sz - unat (offset + n) < unat sz - unat (offset :: u64)"
proof -
  have "unat (sz - offset) = unat sz - unat offset" using assms(1) by (intro unat_sub) (rule order_less_imp_le)
  then have u: "unat offset < unat sz" "0 < unat n" "unat n \<le> unat sz - unat offset"
    using assms by (simp_all add: word_less_nat_alt unat_gt_0 not_less)
  then have "unat (offset + n) = unat offset + unat n" using unat_u64_less [of sz] by (simp add: unat_word_ariths)
  with u show ?thesis by simp
qed

text \<open>The loop of \<^verbatim>\<open>loader_read_file\<close>; every turn moves \<^verbatim>\<open>offset\<close> forward.\<close>

function loader_read_loop ::
  "'a file_state_scheme run_handler \<Rightarrow> u64 \<Rightarrow> u64 \<Rightarrow> u64 \<Rightarrow> u64 \<Rightarrow> u64 \<Rightarrow> 'a file_state_scheme \<Rightarrow> scdk_status \<times> 'a file_state_scheme"
where
  "loader_read_loop run vfs_endpoint fcap buffer sz offset s =
     (if \<not> offset < sz then (SCDK_OK, s)
      else case scdk_endpoint_call run s vfs_endpoint
          ((scdk_message_init 0 SCDK_SERVICE_VFS SCDK_MSG_READ)\<lparr>arg0 := fcap, arg1 := offset, arg2 := buffer + offset, arg3 := sz - offset\<rparr>) of
        (status, msg, s1) \<Rightarrow>
          if status \<noteq> SCDK_OK then (status, s1)
          else if arg0 msg = 0 \<or> arg0 msg > sz - offset then (SCDK_ERR_BOUNDS, s1)
          else loader_read_loop run vfs_endpoint fcap buffer sz (offset + arg0 msg) s1)"
  by pat_completeness auto

termination
  by (relation "measure (\<lambda>(run, vfs, f, b, sz, offset, s). unat sz - unat offset)") (auto simp: offset_progress)

declare loader_read_loop.simps [simp del]

definition loader_read_file ::
  "'a file_state_scheme run_handler \<Rightarrow> 'a file_state_scheme \<Rightarrow> u64 \<Rightarrow> u64 \<Rightarrow> u64 \<Rightarrow> u64 \<Rightarrow> scdk_status \<times> 'a file_state_scheme"
where
  "loader_read_file run s vfs_endpoint fcap buffer sz =
     (if vfs_endpoint = 0 \<or> fcap = 0 \<or> buffer = 0 \<or> sz = 0 then (SCDK_ERR_INVAL, s)
      else loader_read_loop run vfs_endpoint fcap buffer sz 0 s)"

text \<open>The file capability and the size of the file.\<close>

definition loader_open_file ::
  "'a file_state_scheme run_handler \<Rightarrow> 'a file_state_scheme \<Rightarrow> u64 \<Rightarrow> u64 \<Rightarrow> (u64 \<times> u64) res \<times> 'a file_state_scheme"
where
  "loader_open_file run s vfs_endpoint path =
     (if vfs_endpoint = 0 \<or> path = 0 then (Inl SCDK_ERR_INVAL, s)
      else case scdk_endpoint_call run s vfs_endpoint
          ((scdk_message_init 0 SCDK_SERVICE_VFS SCDK_MSG_OPEN)\<lparr>arg0 := path, arg1 := 0\<rparr>) of
        (status, msg, s1) \<Rightarrow>
          if status \<noteq> SCDK_OK then (Inl status, s1)
          else if arg0 msg = 0 \<or> arg1 msg = 0 then (Inl SCDK_ERR_NOENT, s1)
          else if arg1 msg > SCDK_LOADER_MAX_IMAGE_SIZE then (Inl SCDK_ERR_BOUNDS, s1)
          else (Inr (arg0 msg, arg1 msg), s1))"

abbreviation kfree_in :: "'a aspace_state_scheme \<Rightarrow> u64 \<Rightarrow> 'a aspace_state_scheme" where
  "kfree_in s p \<equiv> s\<lparr>mm := scdk_kfree (mm s) p\<rparr>"

text \<open>The part of \<^verbatim>\<open>loader_read_image\<close> after the label \<^verbatim>\<open>out\<close>; \<open>image\<close> and \<open>status\<close> are the locals.\<close>

definition loader_finish ::
  "'a file_state_scheme run_handler \<Rightarrow> 'a file_state_scheme \<Rightarrow> u64 \<Rightarrow> u64 \<Rightarrow> scdk_status \<Rightarrow> u64 \<Rightarrow> u64
     \<Rightarrow> (u64 \<times> u64) res \<times> 'a file_state_scheme"
where
  "loader_finish run s vfs_endpoint fcap status img image_size =
     (case loader_close_file run s vfs_endpoint fcap of
        (close_status, s1) \<Rightarrow>
          if status = SCDK_OK \<and> close_status \<noteq> SCDK_OK
          then (Inl close_status, if img \<noteq> 0 then kfree_in s1 img else s1)
          else (if status = SCDK_OK then Inr (img, image_size) else Inl status, s1))"

definition loader_read_image :: "'a file_state_scheme run_handler \<Rightarrow> 'a file_state_scheme \<Rightarrow> u64 \<Rightarrow> (u64 \<times> u64) res \<times> 'a file_state_scheme" where
  "loader_read_image run s path =
     (if path = 0 then (Inl SCDK_ERR_INVAL, s)
      else case scdk_service_lookup s SCDK_SERVICE_VFS of
        Inl e \<Rightarrow> (Inl e, s)
      | Inr vfs_endpoint \<Rightarrow>
          (case loader_open_file run s vfs_endpoint path of
             (Inl e, s1) \<Rightarrow> (Inl e, s1)
           | (Inr (fcap, image_size), s1) \<Rightarrow>
               (case scdk_kalloc (mm s1) image_size of
                  (img, mm1) \<Rightarrow>
                    (let s2 = s1\<lparr>mm := mm1\<rparr>
                     in if img = 0 then loader_finish run s2 vfs_endpoint fcap SCDK_ERR_NOMEM 0 image_size
                        else case loader_read_file run s2 vfs_endpoint fcap img image_size of
                          (status, s3) \<Rightarrow>
                            if status \<noteq> SCDK_OK then loader_finish run (kfree_in s3 img) vfs_endpoint fcap status 0 image_size
                            else loader_finish run s3 vfs_endpoint fcap SCDK_OK img image_size))))"

type_synonym 's enter_flat = "'s \<Rightarrow> u64 \<Rightarrow> u64 \<Rightarrow> u64 \<Rightarrow> u8 list \<Rightarrow> u64 \<Rightarrow> scdk_status \<times> 's"

definition scdk_loader_load_from_vfs_with_endpoint ::
  "'a file_state_scheme enter_flat \<Rightarrow> 'a file_state_scheme run_handler \<Rightarrow> 'a file_state_scheme \<Rightarrow> u64 \<Rightarrow> u64 \<Rightarrow> u64
     \<Rightarrow> (u64 \<times> u64) res \<times> 'a file_state_scheme"
where
  "scdk_loader_load_from_vfs_with_endpoint enter run s path hhdm_offset bootstrap_endpoint =
     (if path = 0 \<or> hhdm_offset = 0 \<or> bootstrap_endpoint = 0 then (Inl SCDK_ERR_INVAL, s)
      else case scdk_cap_check s bootstrap_endpoint SCDK_RIGHT_SEND SCDK_OBJ_ENDPOINT of
        Inl e \<Rightarrow> (Inl e, s)
      | Inr _ \<Rightarrow>
          (case loader_read_image run s path of
             (Inl e, s1) \<Rightarrow> (Inl e, s1)
           | (Inr (img, image_size), s1) \<Rightarrow>
               (case scdk_user_task_create s1 of
                  (Inl e, s2) \<Rightarrow> (Inl e, kfree_in s2 img)
                | (Inr (task, address_space, main_thread), s2) \<Rightarrow>
                    if address_space = 0 \<or> main_thread = 0 then (Inl SCDK_ERR_NOENT, kfree_in s2 img)
                    else case scdk_user_task_run_flat enter s2 task (bytes_at (kmem s2) img (unat image_size)) bootstrap_endpoint of
                      (status, s3) \<Rightarrow>
                        (if status \<noteq> SCDK_OK then Inl status else Inr (task, main_thread), kfree_in s3 img))))"

definition scdk_loader_load_from_vfs ::
  "'a file_state_scheme enter_flat \<Rightarrow> 'a file_state_scheme run_handler \<Rightarrow> 'a file_state_scheme \<Rightarrow> u64 \<Rightarrow> u64
     \<Rightarrow> (u64 \<times> u64) res \<times> 'a file_state_scheme"
where
  "scdk_loader_load_from_vfs enter run s path hhdm_offset =
     (case scdk_service_lookup s SCDK_SERVICE_CONSOLE of
        Inl e \<Rightarrow> (Inl e, s)
      | Inr console_endpoint \<Rightarrow> scdk_loader_load_from_vfs_with_endpoint enter run s path hhdm_offset console_endpoint)"

section \<open>The process service\<close>

definition SCDK_PROC_MAX_PATH :: u64 where [kconst]: "SCDK_PROC_MAX_PATH = 128"

record proc_state = file_state +
  proc_started :: bool
  proc_hhdm_offset :: u64

text \<open>\<open>path\<close> is the address of the caller's array of that name.\<close>

definition bounded_path_from_message :: "'a user_state_scheme \<Rightarrow> scdk_message \<Rightarrow> u64 \<Rightarrow> u64 \<Rightarrow> scdk_status \<times> 'a user_state_scheme" where
  "bounded_path_from_message s msg path path_size =
     (if path = 0 \<or> path_size = 0 \<or> arg0 msg = 0 then (SCDK_ERR_INVAL, s)
      else if arg1 msg = 0 \<or> arg1 msg \<ge> path_size then (SCDK_ERR_BOUNDS, s)
      else (SCDK_OK, poke (memcpy s path (arg0 msg) (unat (arg1 msg))) (path + arg1 msg) 0))"

definition proc_handle_spawn ::
  "'a proc_state_scheme enter_flat \<Rightarrow> 'a proc_state_scheme run_handler \<Rightarrow> u64 \<Rightarrow> scdk_message \<Rightarrow> 'a proc_state_scheme
     \<Rightarrow> scdk_status \<times> scdk_message \<times> 'a proc_state_scheme"
where
  "proc_handle_spawn enter run path msg s =
     (case bounded_path_from_message s msg path SCDK_PROC_MAX_PATH of
        (status, s1) \<Rightarrow>
          if status \<noteq> SCDK_OK then (status, msg, s1)
          else case
            (if arg2 msg \<noteq> 0
             then (case scdk_cap_check s1 (arg2 msg) SCDK_RIGHT_SEND SCDK_OBJ_ENDPOINT of
                     Inl e \<Rightarrow> (Inl e, s1)
                   | Inr _ \<Rightarrow> scdk_loader_load_from_vfs_with_endpoint enter run s1 path (proc_hhdm_offset s1) (arg2 msg))
             else scdk_loader_load_from_vfs enter run s1 path (proc_hhdm_offset s1)) of
            (Inl e, s2) \<Rightarrow> (e, msg, s2)
          | (Inr (task, main_thread), s2) \<Rightarrow>
              (case scdk_task_cleanup s2 task of
                 (st, s3) \<Rightarrow> if st \<noteq> SCDK_OK then (st, msg, s3) else (SCDK_OK, msg\<lparr>arg0 := task, arg1 := 0\<rparr>, s3)))"

definition proc_endpoint_handler ::
  "'a proc_state_scheme enter_flat \<Rightarrow> 'a proc_state_scheme run_handler \<Rightarrow> u64 \<Rightarrow> scdk_message \<Rightarrow> 'a proc_state_scheme
     \<Rightarrow> scdk_status \<times> scdk_message \<times> 'a proc_state_scheme"
where
  "proc_endpoint_handler enter run path msg s =
     (if mtype msg = SCDK_MSG_PROCESS_SPAWN then proc_handle_spawn enter run path msg s
      else if mtype msg = SCDK_MSG_PROCESS_EXIT then (SCDK_OK, msg, s)
      else (SCDK_ERR_NOTSUP, msg, s))"

definition scdk_proc_service_init :: "'a proc_state_scheme \<Rightarrow> u64 \<Rightarrow> u64 res \<times> 'a proc_state_scheme" where
  "scdk_proc_service_init s hhdm_offset =
     (if hhdm_offset = 0 then (Inl SCDK_ERR_INVAL, s)
      else if proc_started s then (Inl SCDK_ERR_BUSY, s)
      else case start_service s HProc SCDK_SERVICE_PROC of
        (Inl e, s1) \<Rightarrow> (Inl e, s1)
      | (Inr endpoint, s1) \<Rightarrow> (Inr endpoint, s1\<lparr>proc_hhdm_offset := hhdm_offset, proc_started := True\<rparr>))"

section \<open>Strings\<close>

definition cstring :: "memory \<Rightarrow> u64 \<Rightarrow> cstr" where "cstring mem p = bytes_at mem p (strlen mem p)"

lemma strlen_less: "strlen mem p \<le> unat (- 1 - p)"
proof (induction mem p rule: strlen.induct)
  case (1 mem p)
  show ?case
  proof (cases "mem p = 0 \<or> p = - 1")
    case False
    then have "- 1 - p \<noteq> 0" by auto
    then have "unat (- 1 - p - 1) = unat (- 1 - p) - 1" "0 < unat (- 1 - p)" by (rule unat_minus_one, simp add: unat_gt_0)
    moreover have "- 1 - p - 1 = - 1 - (p + 1)" by (simp add: algebra_simps)
    ultimately have "unat (- 1 - p) = Suc (unat (- 1 - (p + 1)))" by (simp only: Suc_pred)
    with 1 [OF False] False show ?thesis by (simp only: strlen.simps [of mem p] if_False Suc_le_mono)
  qed (simp add: strlen.simps)
qed

lemma cstring_nonzero: "0 \<notin> set (cstring mem p)"
proof (induction mem p rule: strlen.induct)
  case (1 mem p)
  show ?case
  proof (cases "mem p = 0 \<or> p = - 1")
    case False
    with 1 [OF False] show ?thesis unfolding cstring_def by (simp add: strlen.simps [of mem p] bytes_at_Suc)
  qed (simp add: cstring_def strlen.simps)
qed

lemma path_from_string:
  fixes s :: "'a file_state_scheme"
  assumes "arg0 m \<noteq> 0" and "arg1 m = 0"
  defines "n \<equiv> strlen (kmem s) (arg0 m)"
  shows "tmpfs_path_from_message s m SCDK_INITRD_MAX_PATH =
    (if n = 0 \<or> 128 \<le> n then Inl SCDK_ERR_BOUNDS else Inr (cstring (kmem s) (arg0 m)))"
proof -
  have n: "n < 2 ^ 64" using strlen_less [of "kmem s" "arg0 m"] unat_u64_less [of "- 1 - arg0 m"] by (simp add: n_def)
  then have u: "unat (of_nat n :: u64) = n" by (simp add: unsigned_of_nat take_bit_nat_eq_self)
  then have "(of_nat n :: u64) = 0 \<longleftrightarrow> n = 0" "(of_nat n :: u64) > 127 \<longleftrightarrow> 128 \<le> n"
    by (metis unat_eq_zero) (use u in \<open>auto simp: word_less_nat_alt\<close>)
  moreover have "takeWhile (\<lambda>b. b \<noteq> 0) (cstring (kmem s) (arg0 m)) = cstring (kmem s) (arg0 m)"
    using cstring_nonzero [of "kmem s" "arg0 m"] by (auto simp: takeWhile_eq_all_conv)
  ultimately show ?thesis using assms(1,2) u
    by (auto simp: tmpfs_path_from_message_def Let_def n_def [symmetric] cstring_def kconst)
qed

section \<open>Opening by name\<close>

text \<open>Opening by a string in kernel memory, as the file-system service does for the loader.\<close>

definition open_string :: "'a file_state_scheme \<Rightarrow> u64 \<Rightarrow> u64 res \<times> 'a file_state_scheme" where
  "open_string s p =
     (if kmem s p \<noteq> slash then (Inl SCDK_ERR_NOENT, s)
      else if strlen (kmem s) p = 0 \<or> 128 \<le> strlen (kmem s) p then (Inl SCDK_ERR_BOUNDS, s)
      else tmpfs_open_path s (cstring (kmem s) p))"

lemma vfs_open_call:
  assumes up: "file_services_up s" "scdk_service_lookup s SCDK_SERVICE_VFS = Inr vfs" and p: "p \<noteq> 0"
    and o: "open_string s p = (r, s')"
  shows "\<exists>m'. scdk_endpoint_call (file_run other) s vfs ((scdk_message_init 0 SCDK_SERVICE_VFS SCDK_MSG_OPEN)\<lparr>arg0 := p, arg1 := 0\<rparr>) =
      (res_status r, m', s') \<and>
    (\<forall>cap. r = Inr cap \<longrightarrow> arg0 m' = cap \<and>
       arg1 m' = (case scdk_initrd_find (initrd s) (Some (cstring (kmem s) p)) of Inr b \<Rightarrow> ie_size b | Inl _ \<Rightarrow> 0))"
proof -
  obtain o1 o2 where h: "\<And>m. scdk_endpoint_call (file_run other) s vfs m =
      (case vfs_endpoint_handler (tmpfs_run other) (m\<lparr>target := o1\<rparr>) s of (st, m', s') \<Rightarrow> (st, m'\<lparr>mstatus := status_word st\<rparr>, s'))"
    "\<And>m. vfs_forward_to_tmpfs (tmpfs_run other) m s =
      (case tmpfs_endpoint_handler (m\<lparr>target := o2\<rparr>) s of
         (st, m', s') \<Rightarrow> (st, m'\<lparr>mstatus := status_word st, target := SCDK_SERVICE_VFS\<rparr>, s'))"
    by (rule file_services_upE [OF up]) blast
  define m where "m = (scdk_message_init 0 SCDK_SERVICE_VFS SCDK_MSG_OPEN)\<lparr>arg0 := p, arg1 := 0\<rparr>"
  have m: "mtype m = SCDK_MSG_OPEN" "arg0 m = p" "arg1 m = 0" by (simp_all add: m_def scdk_message_init_def)
  let ?m = "m\<lparr>target := o1\<rparr>"
  have v: "vfs_endpoint_handler (tmpfs_run other) ?m s =
      (if kmem s p \<noteq> slash then (SCDK_ERR_NOENT, ?m, s) else vfs_forward_to_tmpfs (tmpfs_run other) ?m s)"
    using m p by (simp add: vfs_endpoint_handler_def vfs_handle_open_def path_under_root_def)
  have t: "tmpfs_endpoint_handler (m\<lparr>target := o2\<rparr>) s = tmpfs_handle_open (m\<lparr>target := o2\<rparr>) s"
    using m by (simp add: tmpfs_endpoint_handler_def)
  have path: "tmpfs_path_from_message s (m\<lparr>target := o2\<rparr>) SCDK_INITRD_MAX_PATH =
    (if strlen (kmem s) p = 0 \<or> 128 \<le> strlen (kmem s) p then Inl SCDK_ERR_BOUNDS else Inr (cstring (kmem s) p))"
    using path_from_string [of "m\<lparr>target := o2\<rparr>" s] m p by simp
  define size where "size = (case scdk_initrd_find (initrd s) (Some (cstring (kmem s) p)) of Inr b \<Rightarrow> ie_size b | Inl _ \<Rightarrow> 0)"
  have ho: "tmpfs_handle_open (m\<lparr>target := o2\<rparr>) s =
      (if strlen (kmem s) p = 0 \<or> 128 \<le> strlen (kmem s) p then (SCDK_ERR_BOUNDS, m\<lparr>target := o2\<rparr>, s)
       else case tmpfs_open_path s (cstring (kmem s) p) of
         (Inl e, s1) \<Rightarrow> (e, m\<lparr>target := o2\<rparr>, s1)
       | (Inr cap, s1) \<Rightarrow> (SCDK_OK, m\<lparr>target := o2, arg0 := cap, arg1 := size\<rparr>, s1))"
    by (simp add: tmpfs_handle_open_def path size_def split: sum.split prod.split)
  show ?thesis
  proof (cases "kmem s p = slash \<and> \<not> (strlen (kmem s) p = 0 \<or> 128 \<le> strlen (kmem s) p)")
    case True
    then have "tmpfs_open_path s (cstring (kmem s) p) = (r, s')" using o by (simp add: open_string_def)
    then show ?thesis using True unfolding m_def [symmetric] size_def [symmetric]
      by (cases r) (simp_all add: h(1) v h(2) t ho)
  next
    case False
    then have rs: "s' = s" "r = (if kmem s p \<noteq> slash then Inl SCDK_ERR_NOENT else Inl SCDK_ERR_BOUNDS)" using o by (simp_all add: open_string_def split: if_splits)
    show ?thesis using False unfolding m_def [symmetric] size_def [symmetric] rs
      by (simp add: h(1) v h(2) t ho)
  qed
qed

section \<open>Reading a program\<close>

lemma open_path_Inl:
  assumes "tmpfs_open_path s path = (Inl e, s')"
  shows "e \<noteq> SCDK_OK" "tf_open (open_files s' j) = tf_open (open_files s j)"
proof -
  show "tf_open (open_files s' j) = tf_open (open_files s j)"
    using assms
  proof (cases rule: open_path_cases)
    case (nocap i oid s1 e)
    then show ?thesis using file_low_frame(1) [OF nocap(1)] by simp
  qed simp_all
  show "e \<noteq> SCDK_OK"
    using assms
    by (auto simp: tmpfs_open_path_def scdk_initrd_find_def elim!: object_create_cases cap_create_cases
        split: sum.splits option.splits prod.splits if_splits)
qed

lemma vfs_close:
  assumes up: "file_services_up s" "scdk_service_lookup s SCDK_SERVICE_VFS = Inr vfs"
    and f: "tmpfs_slot_for_cap s cap = Inr i"
  shows "loader_close_file (file_run other) s vfs cap = (SCDK_OK, set_file s i ((open_files s i)\<lparr>tf_open := False\<rparr>))"
proof -
  let ?m = "(scdk_message_init 0 SCDK_SERVICE_VFS SCDK_MSG_CLOSE)\<lparr>arg0 := cap\<rparr>"
  obtain oid where c: "scdk_endpoint_call (file_run other) s vfs ?m =
      (case tmpfs_endpoint_handler (?m\<lparr>target := oid\<rparr>) s of
         (st, m', s') \<Rightarrow> (st, m'\<lparr>target := SCDK_SERVICE_VFS, mstatus := status_word st\<rparr>, s'))"
    by (rule vfs_call_forwarded [OF up, of ?m]) (auto simp: scdk_message_init_def)
  have "tmpfs_endpoint_handler (?m\<lparr>target := oid\<rparr>) s = (SCDK_OK, ?m\<lparr>target := oid\<rparr>, set_file s i ((open_files s i)\<lparr>tf_open := False\<rparr>))"
    using f by (simp add: tmpfs_endpoint_handler_def scdk_message_init_def kconst tmpfs_handle_close_def tmpfs_close_cap_def)
  moreover have "vfs \<noteq> 0" using up unfolding file_services_up_def by (auto simp: endpoint_target_def)
  moreover have "cap \<noteq> 0" using f by (auto simp: tmpfs_slot_for_cap_def)
  ultimately show ?thesis using c by (simp add: loader_close_file_def)
qed

lemma read_whole:
  assumes up: "file_services_up s" "scdk_service_lookup s SCDK_SERVICE_VFS = Inr vfs" and f: "file_of s cap = Some f"
    and sz: "ie_size f \<noteq> 0" and src: "unat (ie_data f) + unat (ie_size f) \<le> 2 ^ 64"
    and dst: "unat SCDK_USER_VIRT_TOP \<le> unat p" "unat p + unat (ie_size f) \<le> 2 ^ 64" "span p (ie_size f) \<inter> span (ie_data f) (ie_size f) = {}"
  shows "loader_read_file (file_run other) s vfs cap p (ie_size f) = (SCDK_OK, kmem_write s p (file_bytes s f))"
proof -
  let ?m = "(scdk_message_init 0 SCDK_SERVICE_VFS SCDK_MSG_READ)\<lparr>arg0 := cap, arg1 := 0, arg2 := p + 0, arg3 := ie_size f - 0\<rparr>"
  have m: "mtype ?m = SCDK_MSG_READ" "arg0 ?m = cap" "arg1 ?m = 0" "arg2 ?m = p" "arg3 ?m = ie_size f" by (simp_all add: scdk_message_init_def)
  have p0: "p \<noteq> 0" using dst(1) by (auto simp: kconst)
  have k: "\<not> p < SCDK_USER_VIRT_TOP" using dst(1) by (simp add: word_less_nat_alt)
  obtain m' where c: "scdk_endpoint_call (file_run other) s vfs ?m = (SCDK_OK, m', kmem_write s p (file_bytes s f))"
    "unat (arg0 m') = unat (ie_size f)"
    using vfs_read(1) [OF up f m(1,2) _ src, of other] m(3-5) p0 k dst by (auto simp: file_bytes_def)
  then have a: "arg0 m' = ie_size f" by (simp only: word_unat_eq_iff)
  have nz: "vfs \<noteq> 0" "cap \<noteq> 0"
    using up f unfolding file_services_up_def by (auto simp: endpoint_target_def file_of_def tmpfs_slot_for_cap_def)
  have lt: "0 < ie_size f" using sz by (simp add: word_gt_0)
  have "loader_read_loop (file_run other) vfs cap p (ie_size f) (0 + ie_size f) t = (SCDK_OK, t)" for t
    by (subst loader_read_loop.simps) simp
  then have "loader_read_loop (file_run other) vfs cap p (ie_size f) 0 s = (SCDK_OK, kmem_write s p (file_bytes s f))"
    using c(1) a lt sz by (subst loader_read_loop.simps) simp
  then show ?thesis using nz p0 sz by (simp add: loader_read_file_def)
qed

lemma heap_live_range:
  assumes "heap_ok m" and "(p, n) \<in> heap_live m"
  shows "unat SCDK_HEAP_BASE \<le> unat p" "unat p + unat n < 2 ^ 64"
proof -
  obtain B where B: "heap_inv m B" using assms(1) by (auto simp: heap_ok_def)
  then obtain b where b: "p = b + 48" "(b, n, False) \<in> set B" using assms(2) by (auto simp: heap_live_eq [OF B] live_def)
  show "unat SCDK_HEAP_BASE \<le> unat p" using heap_inv_payload(1,5) [OF B b(2)] by (simp add: b(1))
  show "unat p + unat n < 2 ^ 64" using heap_inv_payload(1,2) [OF B b(2)] unat_u64_less [of "heap_commit_end m"] by (simp add: b(1))
qed

text \<open>The archive is loaded by the boot loader below the kernel heap.\<close>

definition archive_below_heap :: "'a file_state_scheme \<Rightarrow> bool" where
  "archive_below_heap s \<longleftrightarrow> (\<forall>k<initrd_nfiles (initrd s).
     unat (ie_data (initrd_files (initrd s) k)) + unat (ie_size (initrd_files (initrd s) k)) \<le> unat SCDK_HEAP_BASE)"

lemma find_below_heap:
  "archive_below_heap s \<Longrightarrow> scdk_initrd_find (initrd s) path = Inr f \<Longrightarrow> unat (ie_data f) + unat (ie_size f) \<le> unat SCDK_HEAP_BASE"
  by (auto simp: archive_below_heap_def scdk_initrd_find_def scan_facts split: if_splits option.splits)

definition loader_ready :: "'a file_state_scheme \<Rightarrow> bool" where
  "loader_ready s \<longleftrightarrow> file_inv s \<and> file_services_up s \<and> heap_ok (mm s) \<and> archive_below_heap s"

lemma loader_ready_vfs:
  assumes "loader_ready s"
  obtains vfs where "scdk_service_lookup s SCDK_SERVICE_VFS = Inr vfs" "vfs \<noteq> 0"
proof -
  have z: "endpoint_target s 0 = None" by (simp add: endpoint_target_def)
  obtain vfs t where "scdk_service_lookup s SCDK_SERVICE_VFS = Inr vfs" "endpoint_target s vfs = Some t"
    using assms unfolding loader_ready_def file_services_up_def by blast
  with z that show thesis by (cases "vfs = 0") auto
qed

lemma open_string_Inl:
  assumes "open_string s p = (Inl e, s')"
  shows "e \<noteq> SCDK_OK" "tf_open (open_files s' j) = tf_open (open_files s j)" "mm s' = mm s" "kmem s' = kmem s"
  using assms open_path_Inl [of s "cstring (kmem s) p" e s'] open_path_frame [of s "cstring (kmem s) p" "Inl e" s']
  by (auto simp: open_string_def split: if_splits)

lemma loader_open:
  assumes "file_services_up s" "scdk_service_lookup s SCDK_SERVICE_VFS = Inr vfs" "vfs \<noteq> 0" "p \<noteq> 0" "open_string s p = (r, s')"
    and sz: "sz = (case scdk_initrd_find (initrd s) (Some (cstring (kmem s) p)) of Inr b \<Rightarrow> ie_size b | Inl _ \<Rightarrow> 0)"
  shows "loader_open_file (file_run other) s vfs p = (case r of Inl e \<Rightarrow> (Inl e, s') | Inr cap \<Rightarrow>
     (if cap = 0 \<or> sz = 0 then Inl SCDK_ERR_NOENT else if sz > SCDK_LOADER_MAX_IMAGE_SIZE then Inl SCDK_ERR_BOUNDS
      else Inr (cap, sz), s'))"
proof -
  obtain m' where c: "scdk_endpoint_call (file_run other) s vfs ((scdk_message_init 0 SCDK_SERVICE_VFS SCDK_MSG_OPEN)\<lparr>arg0 := p, arg1 := 0\<rparr>) =
      (res_status r, m', s')" "\<And>cap. r = Inr cap \<Longrightarrow> arg0 m' = cap \<and> arg1 m' = sz"
    using vfs_open_call [OF assms(1,2,4,5), of other] unfolding sz by blast
  show ?thesis
  proof (cases r)
    case (Inl e)
    then have "e \<noteq> SCDK_OK" using open_string_Inl(1) assms(5) by blast
    then show ?thesis using c(1) Inl assms(3,4) by (simp add: loader_open_file_def)
  next
    case (Inr cap)
    then show ?thesis using c assms(3,4) by (simp add: loader_open_file_def)
  qed
qed

lemma up_upd [simp]:
  "file_services_up (s\<lparr>mm := x\<rparr>) = file_services_up s" "file_services_up (kmem_write s p bs) = file_services_up s"
  "scdk_service_lookup (s\<lparr>mm := x\<rparr>) = scdk_service_lookup s" "scdk_service_lookup (kmem_write s p bs) = scdk_service_lookup s"
  by (rule up_frame endpoint_target_frame(2); simp add: tables_def kmem_write_def)+

lemma file_of_upd [simp]:
  "tmpfs_slot_for_cap (s\<lparr>mm := x\<rparr>) = tmpfs_slot_for_cap s" "tmpfs_slot_for_cap (kmem_write s p bs) = tmpfs_slot_for_cap s"
  "file_of (s\<lparr>mm := x\<rparr>) = file_of s" "file_of (kmem_write s p bs) = file_of s"
  by (rule file_same; simp add: tables_def kmem_write_def)+

lemma open_string_Inr:
  assumes ready: "loader_ready s" and o: "open_string s p = (Inr cap, s1)"
  obtains i f where "scdk_initrd_find (initrd s) (Some (cstring (kmem s) p)) = Inr f" "tmpfs_slot_for_cap s1 cap = Inr i"
    "file_of s1 cap = Some f" "cap \<noteq> 0" "\<not> tf_open (open_files s i)" "\<And>j. j \<noteq> i \<Longrightarrow> open_files s1 j = open_files s j"
    "file_services_up s1" "scdk_service_lookup s1 = scdk_service_lookup s" "mm s1 = mm s" "kmem s1 = kmem s"
    "unat (ie_data f) + unat (ie_size f) \<le> unat SCDK_HEAP_BASE"
proof -
  have op: "tmpfs_open_path s (cstring (kmem s) p) = (Inr cap, s1)" using o by (auto simp: open_string_def split: if_splits)
  have ki: "kern_inv s" and up: "file_services_up s" using ready by (simp_all add: loader_ready_def file_inv_def)
  obtain i f where n: "scdk_initrd_find (initrd s) (Some (cstring (kmem s) p)) = Inr f" "tmpfs_slot_for_cap s1 cap = Inr i"
    "tf_backing (open_files s1 i) = f" "\<not> tf_open (open_files s i)" "\<And>j. j \<noteq> i \<Longrightarrow> open_files s1 j = open_files s j"
    by (rule open_path_new [OF ki op]) (rule that; simp)
  have "cap \<noteq> 0" using n(2) by (auto simp: tmpfs_slot_for_cap_def)
  moreover have "file_of s1 cap = Some f" using n(2,3) by (simp add: file_of_def)
  moreover have "unat (ie_data f) + unat (ie_size f) \<le> unat SCDK_HEAP_BASE"
    using find_below_heap [OF _ n(1)] ready by (simp add: loader_ready_def)
  ultimately show thesis using that n open_path_up [OF ki op up] open_path_frame [OF op] by blast
qed

text \<open>What \<^verbatim>\<open>loader_read_image\<close> computes, on every path.\<close>

lemma read_image_cases:
  assumes ready: "loader_ready s" and c: "loader_read_image (file_run other) s p = (r, s')" and p: "p \<noteq> 0"
  obtains (unopened) e where "open_string s p = (Inl e, s')" "r = Inl e"
  | (badsize) cap f where "open_string s p = (Inr cap, s')" "scdk_initrd_find (initrd s) (Some (cstring (kmem s) p)) = Inr f"
      "ie_size f = 0 \<or> ie_size f > SCDK_LOADER_MAX_IMAGE_SIZE" "r = Inl (if ie_size f = 0 then SCDK_ERR_NOENT else SCDK_ERR_BOUNDS)"
  | (nomem) cap s1 i f m1 where "open_string s p = (Inr cap, s1)" "scdk_initrd_find (initrd s) (Some (cstring (kmem s) p)) = Inr f"
      "0 < ie_size f" "ie_size f \<le> SCDK_LOADER_MAX_IMAGE_SIZE" "scdk_kalloc (mm s) (ie_size f) = (0, m1)" "tmpfs_slot_for_cap s1 cap = Inr i"
      "r = Inl SCDK_ERR_NOMEM" "s' = set_file (s1\<lparr>mm := m1\<rparr>) i ((open_files s1 i)\<lparr>tf_open := False\<rparr>)"
  | (loaded) cap s1 i f m1 q k where "open_string s p = (Inr cap, s1)" "scdk_initrd_find (initrd s) (Some (cstring (kmem s) p)) = Inr f"
      "0 < ie_size f" "ie_size f \<le> SCDK_LOADER_MAX_IMAGE_SIZE" "scdk_kalloc (mm s) (ie_size f) = (q, m1)" "q \<noteq> 0"
      "tmpfs_slot_for_cap s1 cap = Inr i" "heap_live m1 = insert (q, k) (heap_live (mm s))" "ie_size f \<le> k" "heap_ok m1"
      "r = Inr (q, ie_size f)"
      "s' = set_file (kmem_write (s1\<lparr>mm := m1\<rparr>) q (file_bytes s f)) i ((open_files s1 i)\<lparr>tf_open := False\<rparr>)"
proof -
  obtain vfs where v: "scdk_service_lookup s SCDK_SERVICE_VFS = Inr vfs" "vfs \<noteq> 0" by (rule loader_ready_vfs [OF ready])
  have up: "file_services_up s" and hk: "heap_ok (mm s)" using ready by (simp_all add: loader_ready_def)
  obtain ro s1 where o: "open_string s p = (ro, s1)" by fastforce
  note lo = loader_open [OF up v p o refl, of other]
  show thesis
  proof (cases ro)
    case (Inl e)
    then show thesis using c p v lo o by (intro unopened [of e]) (simp_all add: loader_read_image_def)
  next
    case (Inr cap)
    obtain i f where n: "scdk_initrd_find (initrd s) (Some (cstring (kmem s) p)) = Inr f" "tmpfs_slot_for_cap s1 cap = Inr i"
      "file_of s1 cap = Some f" "cap \<noteq> 0" "file_services_up s1" "scdk_service_lookup s1 = scdk_service_lookup s" "mm s1 = mm s" "kmem s1 = kmem s"
      "unat (ie_data f) + unat (ie_size f) \<le> unat SCDK_HEAP_BASE"
      by (rule open_string_Inr [OF ready o [unfolded Inr]]) (rule that; simp)
    have lo': "loader_open_file (file_run other) s vfs p = (if ie_size f = 0 then Inl SCDK_ERR_NOENT
       else if ie_size f > SCDK_LOADER_MAX_IMAGE_SIZE then Inl SCDK_ERR_BOUNDS else Inr (cap, ie_size f), s1)"
      using lo Inr n(1,4) by simp
    show thesis
    proof (cases "ie_size f = 0 \<or> ie_size f > SCDK_LOADER_MAX_IMAGE_SIZE")
      case True
      then show thesis using c p v lo' o Inr n(1) by (intro badsize [of cap f]) (auto simp: loader_read_image_def split: if_splits)
    next
      case False
      then have sz: "0 < ie_size f" "ie_size f \<le> SCDK_LOADER_MAX_IMAGE_SIZE" by (simp_all add: word_gt_0 not_less)
      obtain q m1 where a: "scdk_kalloc (mm s) (ie_size f) = (q, m1)" by fastforce
      let ?s2 = "s1\<lparr>mm := m1\<rparr>"
      have up2: "file_services_up ?s2" "scdk_service_lookup ?s2 SCDK_SERVICE_VFS = Inr vfs" using n(5,6) v(1) by simp_all
      show thesis
      proof (cases "q = 0")
        case True
        have "loader_finish (file_run other) ?s2 vfs cap SCDK_ERR_NOMEM 0 (ie_size f) =
            (Inl SCDK_ERR_NOMEM, set_file ?s2 i ((open_files s1 i)\<lparr>tf_open := False\<rparr>))"
          using vfs_close [OF up2, of cap i other] n(2) by (simp add: loader_finish_def)
        then show thesis using c p v lo' False a True n(1,2,7) sz o Inr
          by (intro nomem [of cap s1 f m1 i]) (simp_all add: loader_read_image_def Let_def)
      next
        case nz: False
        obtain k where k: "ie_size f \<le> k" "heap_live m1 = insert (q, k) (heap_live (mm s))" "heap_ok m1"
          using kheap.alloc_block [OF hk a nz] by auto
        note rg = heap_live_range [OF k(3), of q k]
        have kk: "unat (ie_size f) \<le> unat k" using k(1) by (simp add: word_le_nat_alt)
        have d: "unat SCDK_USER_VIRT_TOP \<le> unat q" "unat q + unat (ie_size f) \<le> 2 ^ 64" "unat (ie_data f) + unat (ie_size f) \<le> 2 ^ 64"
          "span q (ie_size f) \<inter> span (ie_data f) (ie_size f) = {}"
          using rg k(2) kk n(9) by (auto simp: kconst)
        have rd: "loader_read_file (file_run other) ?s2 vfs cap q (ie_size f) = (SCDK_OK, kmem_write ?s2 q (file_bytes s f))"
          using read_whole [OF up2, of cap f q other] n(3,8) sz d by (auto simp: file_bytes_def)
        have "loader_finish (file_run other) (kmem_write ?s2 q (file_bytes s f)) vfs cap SCDK_OK q (ie_size f) =
            (Inr (q, ie_size f), set_file (kmem_write ?s2 q (file_bytes s f)) i ((open_files s1 i)\<lparr>tf_open := False\<rparr>))"
          using vfs_close [of "kmem_write ?s2 q (file_bytes s f)" vfs cap i other] n(2) up2 by (simp add: loader_finish_def) (simp add: kmem_write_def)
        then show thesis using c p v lo' False a nz n(1,2,7) sz o Inr k rd
          by (intro loaded [of cap s1 f q m1 i k]) (simp_all add: loader_read_image_def Let_def)
      qed
    qed
  qed
qed

lemma kmem_write_bytes:
  assumes "length bs \<le> 2 ^ 64 - 1"
  shows "bytes_at (kmem (kmem_write s q bs)) q (length bs) = bs"
proof (rule nth_equalityI)
  fix k assume k: "k < length (bytes_at (kmem (kmem_write s q bs)) q (length bs))"
  then have "unat (of_nat k :: u64) = k" using assms by (simp add: unsigned_of_nat take_bit_nat_eq_self)
  then show "bytes_at (kmem (kmem_write s q bs)) q (length bs) ! k = bs ! k" using k by (simp add: bytes_at_def kmem_write_def)
qed simp

lemma kmem_write_outside:
  assumes "unat q + length bs \<le> 2 ^ 64" and "unat x \<notin> {unat q..<unat q + length bs}"
  shows "kmem (kmem_write s q bs) x = kmem s x"
proof -
  have "\<not> unat (x - q) < length bs"
  proof (cases "q \<le> x")
    case True
    then have "unat (x - q) = unat x - unat q" "unat q \<le> unat x" by (simp_all add: unat_sub word_le_nat_alt)
    then show ?thesis using assms(2) by auto
  next
    case False
    then have "unat (x - q) = 2 ^ 64 + unat x - unat q" using unat_u64_less [of q] unat_sub_if' [of x q] by (simp add: word_le_nat_alt)
    then show ?thesis using assms(1) by linarith
  qed
  then show ?thesis by (simp add: kmem_write_def)
qed










section \<open>Properties\<close>

text \<open>
  (C19) The loader reads programs exactly. When the file services run on an archive that lies
  below the kernel heap, \<^verbatim>\<open>loader_read_image\<close> ends, and it succeeds exactly when the path can be
  opened, the file has between 1 and 65536 bytes and the heap has room. It then returns a
  new heap block whose first bytes are the bytes of the file the path names, and it has
  changed no other kernel memory; when it fails the heap holds the same blocks as before and
  kernel memory is unchanged. No file stays open, except when the size of the file is
  what made it fail.
\<close>

theorem loader_image_exact:
  assumes "loader_ready s" and "loader_read_image (file_run other) s p = (r, s')" and "p \<noteq> 0"
  shows "heap_ok (mm s') \<and>
    (case r of
       Inl e \<Rightarrow> heap_live (mm s') = heap_live (mm s) \<and> kmem s' = kmem s
     | Inr (q, n) \<Rightarrow> \<exists>f k. scdk_initrd_find (initrd s) (Some (cstring (kmem s) p)) = Inr f \<and> n = ie_size f \<and> n \<le> k \<and>
         heap_live (mm s') = insert (q, k) (heap_live (mm s)) \<and> (\<forall>(b, l)\<in>heap_live (mm s). span b l \<inter> span q k = {}) \<and>
         bytes_at (kmem s') q (unat n) = file_bytes s f \<and> (\<forall>x. unat x \<notin> span q n \<longrightarrow> kmem s' x = kmem s x)) \<and>
    ((\<exists>x. r = Inr x) \<longleftrightarrow> (\<exists>cap f. fst (open_string s p) = Inr cap \<and> scdk_initrd_find (initrd s) (Some (cstring (kmem s) p)) = Inr f \<and>
       0 < ie_size f \<and> ie_size f \<le> SCDK_LOADER_MAX_IMAGE_SIZE \<and> fst (scdk_kalloc (mm s) (ie_size f)) \<noteq> 0)) \<and>
    ((\<forall>j. tf_open (open_files s' j) = tf_open (open_files s j)) \<or>
     (\<exists>f. scdk_initrd_find (initrd s) (Some (cstring (kmem s) p)) = Inr f \<and> (ie_size f = 0 \<or> ie_size f > SCDK_LOADER_MAX_IMAGE_SIZE)))"
  using assms
proof (cases rule: read_image_cases)
  case (unopened e)
  then show ?thesis using open_string_Inl [OF unopened(1)] assms(1) by (simp add: loader_ready_def)
next
  case (badsize cap f)
  obtain i where "mm s' = mm s" "kmem s' = kmem s" by (rule open_string_Inr [OF assms(1) badsize(1)]) blast
  then show ?thesis using badsize assms(1) by (auto simp: loader_ready_def)
next
  case (nomem cap s1 i f m1)
  obtain j where o: "tmpfs_slot_for_cap s1 cap = Inr j" "\<not> tf_open (open_files s j)" "\<And>k. k \<noteq> j \<Longrightarrow> open_files s1 k = open_files s k"
      "kmem s1 = kmem s"
    by (rule open_string_Inr [OF assms(1) nomem(1)]) (rule that; simp)
  have hk: "heap_ok (mm s)" using assms(1) by (simp add: loader_ready_def)
  have "heap_ok m1 \<and> heap_live m1 = heap_live (mm s)" by (rule kheap.alloc_null [OF hk nomem(5)])
  moreover have "tf_open (open_files s' k) = tf_open (open_files s k)" for k using o nomem(6,8) by (cases "k = j") auto
  ultimately show ?thesis using nomem o(4) by auto
next
  case (loaded cap s1 i f m1 q k)
  obtain j where o: "tmpfs_slot_for_cap s1 cap = Inr j" "\<not> tf_open (open_files s j)" "\<And>k. k \<noteq> j \<Longrightarrow> open_files s1 k = open_files s k"
      "kmem s1 = kmem s"
    by (rule open_string_Inr [OF assms(1) loaded(1)]) (rule that; simp)
  have hk: "heap_ok (mm s)" using assms(1) by (simp add: loader_ready_def)
  have len: "length (file_bytes s f) = unat (ie_size f)" by (simp add: file_bytes_def)
  have rg: "unat q + unat k < 2 ^ 64" using heap_live_range [OF loaded(10), of q k] loaded(8) by simp
  have kk: "unat (ie_size f) \<le> unat k" using loaded(9) by (simp add: word_le_nat_alt)
  have km: "kmem s' = kmem (kmem_write (s1\<lparr>mm := m1\<rparr>) q (file_bytes s f))" by (simp add: loaded(12))
  have b: "bytes_at (kmem s') q (unat (ie_size f)) = file_bytes s f"
    unfolding km len [symmetric] using unat_u64_less [of "ie_size f"] by (intro kmem_write_bytes) (simp add: len)
  have out: "kmem s' x = kmem s x" if "unat x \<notin> span q (ie_size f)" for x
    unfolding km using kmem_write_outside [of q "file_bytes s f" x "s1\<lparr>mm := m1\<rparr>"] that rg kk o(4) by (simp add: len)
  have mm: "mm s' = m1" by (simp add: loaded(12) kmem_write_def)
  have "(q, k) \<notin> heap_live (mm s)" using kheap.alloc_block [OF hk loaded(5,6)] loaded(8) by (metis insertI1 insert_absorb)
  then have ap: "\<forall>(b, l)\<in>heap_live (mm s). span b l \<inter> span q k = {}"
    using kheap.apart [OF loaded(10), of _ _ q k] loaded(8) by blast
  have "tf_open (open_files s' k) = tf_open (open_files s k)" for k using o loaded(7,12) by (cases "k = j") (auto simp: kmem_write_def)
  moreover have "\<exists>x. r = Inr x" using loaded(11) by blast
  ultimately show ?thesis using loaded(1-6,8-11) b out ap by (auto simp: mm)
qed

lemma file_demo_ready: "loader_ready file_demo"
proof -
  have "archive_below_heap file_demo" by (simp add: archive_below_heap_def file_demo_sel kconst)
  then show ?thesis using file_demo_inv file_demo_up heap_demo_ok by (simp add: loader_ready_def file_demo_sel(5))
qed

lemma file_demo_string: "cstring (kmem file_demo) 0xffff800000001000 = [slash, 0x61]" "strlen (kmem file_demo) 0xffff800000001000 = 2"
proof -
  show n: "strlen (kmem file_demo) 0xffff800000001000 = 2"
    unfolding file_demo_sel(10) by (simp add: strlen.simps kconst)
  show "cstring (kmem file_demo) 0xffff800000001000 = [slash, 0x61]"
    unfolding cstring_def n unfolding file_demo_sel(10) by (simp add: bytes_at_def upt_rec)
qed

lemma file_demo_alloc: "fst (scdk_kalloc heap_demo 3) = 0xffffffffd0000030"
proof -
  have "find_free_block heap_demo 16 = SCDK_HEAP_BASE"
    unfolding find_free_block_first_fit [OF heap_demo_inv] by (simp add: first_fit_def)
  moreover have "heap_initialized heap_demo" by (simp add: heap_demo_def vmm_state.defs heap_state.defs)
  ultimately show ?thesis by (simp add: scdk_kalloc_def align_up_size_def take_block_def block_payload_def Let_def kconst)
qed

theorem loader_image_exact_witness:
  "\<exists>q s'. loader_read_image (file_run (\<lambda>h e m c s. (SCDK_OK, m, s))) file_demo 0xffff800000001000 = (Inr (q, 3), s') \<and>
     bytes_at (kmem s') q 3 = [7, 8, 9]"
proof -
  let ?run = "file_run (\<lambda>h e m c s. (SCDK_OK, m, s))"
  let ?f = "\<lparr>ie_path = [slash, 0x61], ie_data = 0xffff800000002000, ie_size = 3, ie_flags = 0\<rparr>"
  obtain r s' where c: "loader_read_image ?run file_demo 0xffff800000001000 = (r, s')" by fastforce
  note x = loader_image_exact [OF file_demo_ready c]
  have bs: "file_bytes file_demo ?f = [7, 8, 9]" unfolding file_bytes_def file_demo_sel(10) by (simp add: bytes_at_def upt_rec)
  have os: "fst (open_string file_demo 0xffff800000001000) = Inr 0x100000002"
    using file_demo_open by (simp add: open_string_def file_demo_string) (simp add: file_demo_sel(10))
  have "\<exists>v. r = Inr v" using x os file_demo_sel(9) file_demo_alloc
    by (auto simp: file_demo_string file_demo_sel(5) SCDK_LOADER_MAX_IMAGE_SIZE_def)
  then obtain q n where r: "r = Inr (q, n)" by auto
  with x obtain f where "Inr f = (Inr ?f :: scdk_initrd_entry res)" "n = ie_size f" "bytes_at (kmem s') q (unat n) = file_bytes file_demo f"
    unfolding file_demo_string file_demo_sel(9) by auto
  then have "n = 3 \<and> bytes_at (kmem s') q 3 = [7, 8, 9]" using bs by simp
  then show ?thesis using c r by blast
qed

text \<open>
  A program that is too large, or empty, is refused, but its file stays open: after 32 such
  attempts no file can be opened any more.
\<close>

theorem loader_leaves_file_open:
  assumes "loader_ready s" and "p \<noteq> 0" and "open_string s p = (Inr cap, s1)"
    and "scdk_initrd_find (initrd s) (Some (cstring (kmem s) p)) = Inr f" and "ie_size f = 0 \<or> ie_size f > SCDK_LOADER_MAX_IMAGE_SIZE"
  shows "\<exists>e s' i. loader_read_image (file_run other) s p = (Inl e, s') \<and> \<not> tf_open (open_files s i) \<and> tf_open (open_files s' i)"
proof -
  obtain r s' where c: "loader_read_image (file_run other) s p = (r, s')" by fastforce
  obtain i where i: "tmpfs_slot_for_cap s1 cap = Inr i" "\<not> tf_open (open_files s i)"
    by (rule open_string_Inr [OF assms(1,3)]) (rule that; simp)
  then have o: "tf_open (open_files s1 i)" by (auto simp: slot_for_cap_Inr)
  from assms(1) c assms(2) show ?thesis
    by (cases rule: read_image_cases) (use assms(3-5) c i o in \<open>auto simp: not_less [symmetric]\<close>)
qed



end
