(* ===== verification/SCDK_Input.thy ===== *)
theory SCDK_Input
  imports SCDK_Loader
begin

text \<open>
  Keyboard input: the driver \<^verbatim>\<open>drivers/input/ps2_keyboard.c\<close> and the terminal service
  \<^verbatim>\<open>services/tty_service.c\<close> in front of it. The values that the processor reads from an I/O port
  during one poll are an argument, \<open>inb\<close>; a poll reads each port at most once. The decoder is
  shown to compute the modifiers and key events of the whole history of scan codes.
\<close>

section \<open>Events and the key map\<close>

definition SCDK_INPUT_KEY_DOWN :: u32 where [kconst]: "SCDK_INPUT_KEY_DOWN = 1"
definition SCDK_INPUT_KEY_UP :: u32 where [kconst]: "SCDK_INPUT_KEY_UP = 2"
definition SCDK_INPUT_MOD_SHIFT :: u32 where [kconst]: "SCDK_INPUT_MOD_SHIFT = 1"
definition SCDK_INPUT_MOD_CAPS_LOCK :: u32 where [kconst]: "SCDK_INPUT_MOD_CAPS_LOCK = 2"
definition SCDK_KEY_ENTER :: u32 where [kconst]: "SCDK_KEY_ENTER = 13"
definition SCDK_KEY_BACKSPACE :: u32 where [kconst]: "SCDK_KEY_BACKSPACE = 8"
definition SCDK_KEY_TAB :: u32 where [kconst]: "SCDK_KEY_TAB = 9"
definition SCDK_KEY_ESCAPE :: u32 where [kconst]: "SCDK_KEY_ESCAPE = 27"
definition SCDK_KEY_CAPS_LOCK :: u32 where [kconst]: "SCDK_KEY_CAPS_LOCK = 0x3a"
definition SCDK_KEY_HOME :: u32 where [kconst]: "SCDK_KEY_HOME = 0x100"
definition SCDK_KEY_UP :: u32 where [kconst]: "SCDK_KEY_UP = 0x101"
definition SCDK_KEY_PAGE_UP :: u32 where [kconst]: "SCDK_KEY_PAGE_UP = 0x102"
definition SCDK_KEY_LEFT :: u32 where [kconst]: "SCDK_KEY_LEFT = 0x103"
definition SCDK_KEY_RIGHT :: u32 where [kconst]: "SCDK_KEY_RIGHT = 0x104"
definition SCDK_KEY_END :: u32 where [kconst]: "SCDK_KEY_END = 0x105"
definition SCDK_KEY_DOWN :: u32 where [kconst]: "SCDK_KEY_DOWN = 0x106"
definition SCDK_KEY_PAGE_DOWN :: u32 where [kconst]: "SCDK_KEY_PAGE_DOWN = 0x107"
definition PS2_DATA_PORT :: u16 where [kconst]: "PS2_DATA_PORT = 0x60"
definition PS2_STATUS_PORT :: u16 where [kconst]: "PS2_STATUS_PORT = 0x64"
definition PS2_STATUS_OUTPUT_FULL :: u8 where [kconst]: "PS2_STATUS_OUTPUT_FULL = 1"
definition KEY_QUEUE_SIZE :: u32 where [kconst]: "KEY_QUEUE_SIZE = 32"

record scdk_input_event =
  ev_timestamp :: u64
  ev_type :: u32
  ev_keycode :: u32
  ev_ascii :: u32
  ev_modifiers :: u32
  ev_flags :: u32

record key_map_entry =
  km_keycode :: u32
  km_normal :: u8
  km_shifted :: u8

definition map_key :: "u32 \<Rightarrow> u8 \<Rightarrow> u8 \<Rightarrow> key_map_entry" where
  "map_key k n s = \<lparr>km_keycode = k, km_normal = n, km_shifted = s\<rparr>"

text \<open>A key whose code is its unshifted character.\<close>

definition char_key :: "char \<Rightarrow> char \<Rightarrow> key_map_entry" where
  "char_key n s = map_key (of_char n) (of_char n) (of_char s)"

definition scancode_table :: "(u8 \<times> key_map_entry) list" where
  "scancode_table =
    [(0x01, map_key SCDK_KEY_ESCAPE 27 27),
     (0x02, char_key CHR ''1'' CHR ''!''), (0x03, char_key CHR ''2'' CHR ''@''), (0x04, char_key CHR ''3'' CHR ''#''),
     (0x05, char_key CHR ''4'' CHR ''$''), (0x06, char_key CHR ''5'' CHR ''%''), (0x07, char_key CHR ''6'' CHR ''^''),
     (0x08, char_key CHR ''7'' CHR ''&''), (0x09, char_key CHR ''8'' CHR ''*''), (0x0a, char_key CHR ''9'' CHR ''(''),
     (0x0b, char_key CHR ''0'' CHR '')''), (0x0c, char_key CHR ''-'' CHR ''_''), (0x0d, char_key CHR ''='' CHR ''+''),
     (0x0e, map_key SCDK_KEY_BACKSPACE 8 8), (0x0f, map_key SCDK_KEY_TAB 9 9),
     (0x10, char_key CHR ''q'' CHR ''Q''), (0x11, char_key CHR ''w'' CHR ''W''), (0x12, char_key CHR ''e'' CHR ''E''),
     (0x13, char_key CHR ''r'' CHR ''R''), (0x14, char_key CHR ''t'' CHR ''T''), (0x15, char_key CHR ''y'' CHR ''Y''),
     (0x16, char_key CHR ''u'' CHR ''U''), (0x17, char_key CHR ''i'' CHR ''I''), (0x18, char_key CHR ''o'' CHR ''O''),
     (0x19, char_key CHR ''p'' CHR ''P''), (0x1a, char_key CHR ''['' CHR ''{''), (0x1b, char_key CHR '']'' CHR ''}''),
     (0x1c, map_key SCDK_KEY_ENTER 10 10),
     (0x1e, char_key CHR ''a'' CHR ''A''), (0x1f, char_key CHR ''s'' CHR ''S''), (0x20, char_key CHR ''d'' CHR ''D''),
     (0x21, char_key CHR ''f'' CHR ''F''), (0x22, char_key CHR ''g'' CHR ''G''), (0x23, char_key CHR ''h'' CHR ''H''),
     (0x24, char_key CHR ''j'' CHR ''J''), (0x25, char_key CHR ''k'' CHR ''K''), (0x26, char_key CHR ''l'' CHR ''L''),
     (0x27, char_key CHR '';'' CHR '':''), (0x28, char_key CHR 0x27 CHR 0x22), (0x29, char_key CHR 0x60 CHR ''~''),
     (0x2b, char_key CHR 0x5c CHR ''|''),
     (0x2c, char_key CHR ''z'' CHR ''Z''), (0x2d, char_key CHR ''x'' CHR ''X''), (0x2e, char_key CHR ''c'' CHR ''C''),
     (0x2f, char_key CHR ''v'' CHR ''V''), (0x30, char_key CHR ''b'' CHR ''B''), (0x31, char_key CHR ''n'' CHR ''N''),
     (0x32, char_key CHR ''m'' CHR ''M''), (0x33, char_key CHR '','' CHR ''<''), (0x34, char_key CHR ''.'' CHR ''>''),
     (0x35, char_key CHR ''/'' CHR ''?''), (0x39, char_key CHR '' '' CHR '' ''),
     (0x3a, map_key SCDK_KEY_CAPS_LOCK 0 0)]"

definition extended_scancode_table :: "(u8 \<times> key_map_entry) list" where
  "extended_scancode_table =
    [(0x47, map_key SCDK_KEY_HOME 0 0), (0x48, map_key SCDK_KEY_UP 0 0), (0x49, map_key SCDK_KEY_PAGE_UP 0 0),
     (0x4b, map_key SCDK_KEY_LEFT 0 0), (0x4d, map_key SCDK_KEY_RIGHT 0 0), (0x4f, map_key SCDK_KEY_END 0 0),
     (0x50, map_key SCDK_KEY_DOWN 0 0), (0x51, map_key SCDK_KEY_PAGE_DOWN 0 0)]"

text \<open>The arrays; an entry without an initialiser is zero.\<close>

definition key_at :: "(u8 \<times> key_map_entry) list \<Rightarrow> u8 \<Rightarrow> key_map_entry" where
  "key_at table code = (case map_of table code of Some e \<Rightarrow> e | None \<Rightarrow> map_key 0 0 0)"

definition scancode_set1 :: "u8 \<Rightarrow> key_map_entry" where "scancode_set1 = key_at scancode_table"
definition extended_scancode_set1 :: "u8 \<Rightarrow> key_map_entry" where "extended_scancode_set1 = key_at extended_scancode_table"

section \<open>The driver\<close>

record kbd_state =
  kq_queue :: "nat \<Rightarrow> scdk_input_event"
  kq_head :: u32
  kq_tail :: u32
  kq_count :: u32
  event_clock :: u64
  keyboard_initialized :: bool
  left_shift_down :: bool
  right_shift_down :: bool
  caps_lock_on :: bool
  extended_scancode_pending :: bool

definition is_alpha_entry :: "key_map_entry \<Rightarrow> bool" where
  "is_alpha_entry entry \<longleftrightarrow> km_normal entry \<ge> of_char CHR ''a'' \<and> km_normal entry \<le> of_char CHR ''z'' \<and>
     km_shifted entry \<ge> of_char CHR ''A'' \<and> km_shifted entry \<le> of_char CHR ''Z''"

definition shift_down :: "kbd_state \<Rightarrow> bool" where
  "shift_down s \<longleftrightarrow> left_shift_down s \<or> right_shift_down s"

definition current_modifiers :: "kbd_state \<Rightarrow> u32" where
  "current_modifiers s =
     (if shift_down s then SCDK_INPUT_MOD_SHIFT else 0) OR (if caps_lock_on s then SCDK_INPUT_MOD_CAPS_LOCK else 0)"

definition ascii_for_entry :: "kbd_state \<Rightarrow> key_map_entry \<Rightarrow> u32" where
  "ascii_for_entry s entry =
     (if is_alpha_entry entry
      then ucast (if shift_down s \<noteq> caps_lock_on s then km_shifted entry else km_normal entry)
      else ucast (if shift_down s then km_shifted entry else km_normal entry))"

definition enqueue_event :: "kbd_state \<Rightarrow> scdk_input_event \<Rightarrow> kbd_state option" where
  "enqueue_event s event =
     (if kq_count s \<ge> KEY_QUEUE_SIZE then None
      else Some (s\<lparr>kq_queue := (kq_queue s)(unat (kq_tail s) := event),
        kq_tail := (kq_tail s + 1) mod KEY_QUEUE_SIZE, kq_count := kq_count s + 1\<rparr>))"

definition dequeue_event :: "kbd_state \<Rightarrow> (scdk_input_event \<times> kbd_state) option" where
  "dequeue_event s =
     (if kq_count s = 0 then None
      else Some (kq_queue s (unat (kq_head s)),
        s\<lparr>kq_head := (kq_head s + 1) mod KEY_QUEUE_SIZE, kq_count := kq_count s - 1\<rparr>))"

text \<open>The end of a function that returns \<^verbatim>\<open>enqueue_event(&event)\<close>.\<close>

definition return_enqueue :: "kbd_state \<Rightarrow> scdk_input_event \<Rightarrow> scdk_status \<times> kbd_state" where
  "return_enqueue s event =
     (case enqueue_event s event of None \<Rightarrow> (SCDK_ERR_BUSY, s) | Some s1 \<Rightarrow> (SCDK_OK, s1))"

definition handle_scancode :: "kbd_state \<Rightarrow> u8 \<Rightarrow> scdk_status \<times> kbd_state" where
  "handle_scancode s0 scancode =
     (if scancode = 0xe0 then (SCDK_ERR_NOENT, s0\<lparr>extended_scancode_pending := True\<rparr>)
      else let extended = extended_scancode_pending s0;
               s = s0\<lparr>extended_scancode_pending := False\<rparr>;
               released = (scancode AND 0x80 \<noteq> 0);
               code = scancode AND 0x7f;
               entry = (if extended then extended_scancode_set1 code else scancode_set1 code)
           in if \<not> extended \<and> code = 0x2a then (SCDK_ERR_NOENT, s\<lparr>left_shift_down := \<not> released\<rparr>)
              else if \<not> extended \<and> code = 0x36 then (SCDK_ERR_NOENT, s\<lparr>right_shift_down := \<not> released\<rparr>)
              else if code \<ge> 128 then (SCDK_ERR_NOENT, s)
              else if km_keycode entry = 0 then (SCDK_ERR_NOENT, s)
              else let s1 = (if km_keycode entry = SCDK_KEY_CAPS_LOCK \<and> \<not> released
                             then s\<lparr>caps_lock_on := \<not> caps_lock_on s\<rparr> else s);
                       s2 = s1\<lparr>event_clock := event_clock s1 + 1\<rparr>
                   in return_enqueue s2
                        \<lparr>ev_timestamp = event_clock s2,
                         ev_type = (if released then SCDK_INPUT_KEY_UP else SCDK_INPUT_KEY_DOWN),
                         ev_keycode = km_keycode entry,
                         ev_ascii = (if released then 0 else ascii_for_entry s2 entry),
                         ev_modifiers = current_modifiers s2, ev_flags = 0\<rparr>)"

definition scdk_keyboard_init :: "kbd_state \<Rightarrow> kbd_state" where
  "scdk_keyboard_init s =
     s\<lparr>kq_head := 0, kq_tail := 0, kq_count := 0, event_clock := 0, left_shift_down := False,
       right_shift_down := False, caps_lock_on := False, extended_scancode_pending := False, keyboard_initialized := True\<rparr>"

definition scdk_keyboard_poll :: "(u16 \<Rightarrow> u8) \<Rightarrow> kbd_state \<Rightarrow> scdk_input_event res \<times> kbd_state" where
  "scdk_keyboard_poll inb s0 =
     (let s = (if keyboard_initialized s0 then s0 else scdk_keyboard_init s0)
      in case dequeue_event s of
           Some (event, s1) \<Rightarrow> (Inr event, s1)
         | None \<Rightarrow>
             if inb PS2_STATUS_PORT AND PS2_STATUS_OUTPUT_FULL = 0 then (Inl SCDK_ERR_NOENT, s)
             else case handle_scancode s (inb PS2_DATA_PORT) of
                    (_, s1) \<Rightarrow> (case dequeue_event s1 of
                                  Some (event, s2) \<Rightarrow> (Inr event, s2)
                                | None \<Rightarrow> (Inl SCDK_ERR_NOENT, s1)))"

definition scdk_keyboard_inject_test_key :: "kbd_state \<Rightarrow> u32 \<Rightarrow> scdk_status \<times> kbd_state" where
  "scdk_keyboard_inject_test_key s0 ascii =
     (let s = (if keyboard_initialized s0 then s0 else scdk_keyboard_init s0)
      in if ascii = 0 \<or> ascii > 0x7f then (SCDK_ERR_INVAL, s)
         else let s1 = s\<lparr>event_clock := event_clock s + 1\<rparr>
              in return_enqueue s1
                   \<lparr>ev_timestamp = event_clock s1, ev_type = SCDK_INPUT_KEY_DOWN, ev_keycode = ascii,
                    ev_ascii = ascii, ev_modifiers = 0, ev_flags = 0\<rparr>)"

section \<open>The terminal service\<close>

definition SCDK_TTY_INFO_POLLING :: u64 where [kconst]: "SCDK_TTY_INFO_POLLING = 1"
definition input_event_size :: u64 where [kconst]: "input_event_size = 32"

record tty_state = proc_state +
  keyboard :: kbd_state
  tty_started :: bool

definition scdk_tty_pack_event :: "scdk_input_event \<Rightarrow> scdk_message \<Rightarrow> scdk_message" where
  "scdk_tty_pack_event event msg =
     msg\<lparr>arg0 := ev_timestamp event,
         arg1 := push_bit 32 (ucast (ev_type event)) OR ucast (ev_keycode event),
         arg2 := ucast (ev_ascii event),
         arg3 := push_bit 32 (ucast (ev_modifiers event)) OR ucast (ev_flags event)\<rparr>"

definition tty_endpoint_handler ::
  "(u16 \<Rightarrow> u8) \<Rightarrow> scdk_message \<Rightarrow> 'a tty_state_scheme \<Rightarrow> scdk_status \<times> scdk_message \<times> 'a tty_state_scheme"
where
  "tty_endpoint_handler inb msg s =
     (if mtype msg = SCDK_MSG_TTY_POLL_EVENT
      then case scdk_keyboard_poll inb (keyboard s) of
             (Inl e, k) \<Rightarrow> (e, msg, s\<lparr>keyboard := k\<rparr>)
           | (Inr event, k) \<Rightarrow> (SCDK_OK, scdk_tty_pack_event event msg, s\<lparr>keyboard := k\<rparr>)
      else if mtype msg = SCDK_MSG_TTY_GET_INFO
      then (SCDK_OK, msg\<lparr>arg0 := input_event_size, arg1 := SCDK_TTY_INFO_POLLING, arg2 := 0, arg3 := 0\<rparr>, s)
      else (SCDK_ERR_NOTSUP, msg, s))"

definition scdk_tty_service_init :: "'a tty_state_scheme \<Rightarrow> u64 res \<times> 'a tty_state_scheme" where
  "scdk_tty_service_init s =
     (if tty_started s then (Inl SCDK_ERR_BUSY, s)
      else case start_service (s\<lparr>keyboard := scdk_keyboard_init (keyboard s)\<rparr>) HTty SCDK_SERVICE_TTY of
        (Inl e, s1) \<Rightarrow> (Inl e, s1)
      | (Inr endpoint, s1) \<Rightarrow> (Inr endpoint, s1\<lparr>tty_started := True\<rparr>))"

section \<open>The event queue\<close>

definition kq_items :: "kbd_state \<Rightarrow> scdk_input_event list" where
  "kq_items s = cb_items (kq_queue s) 32 (unat (kq_head s)) (unat (kq_count s))"

definition kq_ok :: "kbd_state \<Rightarrow> bool" where
  "kq_ok s \<longleftrightarrow> unat (kq_head s) < 32 \<and> unat (kq_count s) \<le> 32 \<and>
     unat (kq_tail s) = (unat (kq_head s) + unat (kq_count s)) mod 32"

lemma kq_step: "unat x < 32 \<Longrightarrow> unat ((x + 1) mod (32 :: u32)) = (unat x + 1) mod 32"
  by (simp add: unat_mod unat_word_ariths)

lemma kq_enqueue:
  assumes ok: "kq_ok s" and e: "enqueue_event s ev = Some s'"
  shows "kq_ok s' \<and> kq_items s' = kq_items s @ [ev]"
proof -
  let ?h = "unat (kq_head s)" and ?n = "unat (kq_count s)"
  have n: "?n < 32" and s': "s' = s\<lparr>kq_queue := (kq_queue s)(unat (kq_tail s) := ev),
        kq_tail := (kq_tail s + 1) mod 32, kq_count := kq_count s + 1\<rparr>"
    using e by (auto simp: enqueue_event_def kconst word_le_nat_alt split: if_splits)
  have t: "unat (kq_tail s) = (?h + ?n) mod 32" "unat (kq_tail s) < 32" using ok by (auto simp: kq_ok_def)
  have c: "unat (kq_count s + 1) = Suc ?n" using n by (simp add: unat_word_ariths)
  have "unat ((kq_tail s + 1) mod 32) = (?h + Suc ?n) mod 32" using kq_step [OF t(2)] cb_next_tail [OF t(1)] by simp
  moreover have "kq_items s' = kq_items s @ [ev]" using cb_push [OF n] by (simp add: s' kq_items_def c t(1))
  ultimately show ?thesis using n ok by (simp add: kq_ok_def s' c)
qed

lemma kq_dequeue:
  assumes ok: "kq_ok s" and d: "dequeue_event s = Some (ev, s')"
  shows "kq_ok s' \<and> kq_items s = ev # kq_items s'"
proof -
  let ?h = "unat (kq_head s)"
  have n: "kq_count s \<noteq> 0" and ev: "ev = kq_queue s ?h" and s': "s' = s\<lparr>kq_head := (kq_head s + 1) mod 32, kq_count := kq_count s - 1\<rparr>"
    using d by (auto simp: dequeue_event_def kconst split: if_splits)
  define m where "m = unat (kq_count s - 1)"
  have m: "unat (kq_count s) = Suc m" using n by (simp add: m_def unat_minus_one unat_gt_0)
  have h: "unat ((kq_head s + 1) mod 32) = (?h + 1) mod 32" using ok kq_step by (simp add: kq_ok_def)
  have "kq_items s = ev # kq_items s'"
    using cb_pop [of "kq_queue s" 32 ?h m] ok by (simp add: kq_items_def m s' h m_def [symmetric] ev kq_ok_def)
  moreover have "kq_ok s'" using ok cb_next_head [of ?h 32 m] by (simp add: kq_ok_def s' h m m_def [symmetric])
  ultimately show ?thesis by simp
qed

lemma kq_len: "length (kq_items s) = unat (kq_count s)"
  by (simp add: kq_items_def)

lemma kq_full: "kq_ok s \<Longrightarrow> enqueue_event s ev = None \<longleftrightarrow> length (kq_items s) = 32"
  by (auto simp: enqueue_event_def kq_ok_def kq_len kconst word_le_nat_alt)

lemma kq_none: "dequeue_event s = None \<longleftrightarrow> kq_items s = []"
  by (auto simp: dequeue_event_def kq_items_def unat_eq_0)

lemma kq_len_le: "kq_ok s \<Longrightarrow> length (kq_items s) \<le> 32"
  by (simp add: kq_len kq_ok_def)

interpretation keyq: bounded_fifo kq_ok "\<lambda>_. 32" kq_items enqueue_event dequeue_event
  by unfold_locales (auto simp: kq_full kq_none dest: kq_len_le kq_enqueue kq_dequeue)

lemma enqueue_frame [kframe]:
  "enqueue_event s ev = Some s' \<Longrightarrow> s' = s\<lparr>kq_queue := kq_queue s', kq_tail := kq_tail s', kq_count := kq_count s'\<rparr>"
  by (auto simp: enqueue_event_def split: if_splits)

lemma dequeue_frame [kframe]: "dequeue_event s = Some (ev, s') \<Longrightarrow> s' = s\<lparr>kq_head := kq_head s', kq_count := kq_count s'\<rparr>"
  by (auto simp: dequeue_event_def split: if_splits)

text \<open>On an empty queue, what is enqueued comes out at once and leaves the queue empty.\<close>

lemma enqueue_dequeue:
  assumes "kq_ok s" and "kq_items s = []"
  obtains s1 s2 where "return_enqueue s ev = (SCDK_OK, s1)" "dequeue_event s1 = Some (ev, s2)" "kq_ok s2" "kq_items s2 = []"
    "s2 = s\<lparr>kq_queue := kq_queue s2, kq_tail := kq_tail s2, kq_count := kq_count s2, kq_head := kq_head s2\<rparr>"
proof -
  obtain s1 where s1: "enqueue_event s ev = Some s1" using kq_full [OF assms(1), of ev] assms(2) by fastforce
  note e = kq_enqueue [OF assms(1) s1]
  obtain x s2 where s2: "dequeue_event s1 = Some (x, s2)" using e kq_none [of s1] by fastforce
  note d = kq_dequeue [OF _ s2]
  have "x = ev" "kq_items s2 = []" "kq_ok s2" using e d assms(2) by simp_all
  moreover have "s2 = s\<lparr>kq_queue := kq_queue s2, kq_tail := kq_tail s2, kq_count := kq_count s2, kq_head := kq_head s2\<rparr>"
    using enqueue_frame [OF s1] dequeue_frame [OF s2] by (cases s, cases s1, cases s2) simp
  ultimately show ?thesis using that [of s1 s2] s1 s2 by (simp add: return_enqueue_def)
qed

section \<open>What a history of scan codes means\<close>

text \<open>
  The reading of a sequence \<open>cs\<close> of scan codes: the code at \<open>k\<close> is extended if the one before it is
  the prefix \<open>0xe0\<close>; a shift key is held if it was pressed and not released since; caps lock is
  on after an odd number of presses.
\<close>

definition prefixed :: "u8 list \<Rightarrow> nat \<Rightarrow> bool" where "prefixed cs k \<longleftrightarrow> 0 < k \<and> cs ! (k - 1) = 0xe0"
definition plain_at :: "u8 list \<Rightarrow> nat \<Rightarrow> bool" where "plain_at cs k \<longleftrightarrow> cs ! k \<noteq> 0xe0 \<and> \<not> prefixed cs k"

definition held :: "u8 list \<Rightarrow> nat \<Rightarrow> u8 \<Rightarrow> bool" where
  "held cs k c \<longleftrightarrow> (\<exists>j<k. plain_at cs j \<and> cs ! j = c \<and> (\<forall>i<k. j < i \<and> plain_at cs i \<longrightarrow> cs ! i \<noteq> c + 0x80))"

definition caps_presses :: "u8 list \<Rightarrow> nat \<Rightarrow> nat" where
  "caps_presses cs k = length (filter (\<lambda>j. plain_at cs j \<and> cs ! j = 0x3a) [0..<k])"

definition key_entry :: "u8 list \<Rightarrow> nat \<Rightarrow> key_map_entry" where
  "key_entry cs k = (if prefixed cs k then extended_scancode_set1 else scancode_set1) (cs ! k AND 0x7f)"

definition is_key :: "u8 list \<Rightarrow> nat \<Rightarrow> bool" where
  "is_key cs k \<longleftrightarrow> cs ! k \<noteq> 0xe0 \<and> km_keycode (key_entry cs k) \<noteq> 0"

definition keys_before :: "u8 list \<Rightarrow> nat \<Rightarrow> nat" where
  "keys_before cs k = length (filter (is_key cs) [0..<k])"

definition key_event :: "u8 list \<Rightarrow> nat \<Rightarrow> scdk_input_event" where
  "key_event cs k =
     (let shift = (held cs k 0x2a \<or> held cs k 0x36);
          caps = odd (caps_presses cs (Suc k));
          key = key_entry cs k;
          upper = (if is_alpha_entry key then shift \<noteq> caps else shift)
      in \<lparr>ev_timestamp = of_nat (Suc (keys_before cs k)),
          ev_type = (if cs ! k \<ge> 0x80 then SCDK_INPUT_KEY_UP else SCDK_INPUT_KEY_DOWN),
          ev_keycode = km_keycode key,
          ev_ascii = (if cs ! k \<ge> 0x80 then 0 else ucast (if upper then km_shifted key else km_normal key)),
          ev_modifiers = (if shift then 1 else 0) + (if caps then 2 else 0), ev_flags = 0\<rparr>)"

text \<open>Polls of a keyboard that delivers the codes \<open>cs\<close> one by one.\<close>

definition port_of :: "u8 \<Rightarrow> u16 \<Rightarrow> u8" where "port_of c p = (if p = PS2_STATUS_PORT then 1 else c)"

fun poll_all :: "kbd_state \<Rightarrow> u8 list \<Rightarrow> scdk_input_event res list \<times> kbd_state" where
  "poll_all s [] = ([], s)"
| "poll_all s (c # cs) =
     (case scdk_keyboard_poll (port_of c) s of
        (r, s1) \<Rightarrow> (case poll_all s1 cs of (rs, s2) \<Rightarrow> (r # rs, s2)))"

section \<open>The decoder follows the history\<close>

lemma bit_0x80: "bit (0x80 :: u8) n \<longleftrightarrow> n = 7"
proof -
  have "(0x80 :: u8) = 2 ^ 7" by simp
  then show ?thesis by (simp only: bit_exp_iff) auto
qed

lemma bit_0x7f: "bit (0x7f :: u8) n \<longleftrightarrow> n < 7"
proof -
  have "(0x7f :: u8) = mask 7" by (simp add: mask_eq_exp_minus_1)
  then show ?thesis by (simp only: bit_mask_iff) auto
qed

lemma high_bit: "c AND 0x80 = (if 0x80 \<le> (c :: u8) then 0x80 else 0)"
proof -
  have "c AND 0x80 = (if bit c 7 then 0x80 else 0)" by (rule bit_word_eqI) (simp only: bit_and_iff if_distrib [of bit] if_distribR bit_0x80 bit_0_eq bot_apply bot_bool_def, auto)
  moreover have "bit c 7 \<longleftrightarrow> 0x80 \<le> c"
  proof -
    have "bit c 7 \<longleftrightarrow> bit (unat c) 7" by (simp add: bit_unsigned_iff)
    then have "bit c 7 \<longleftrightarrow> odd (unat c div 128)" by (simp add: bit_iff_odd)
    moreover have "unat c div 128 = (if 128 \<le> unat c then 1 else 0)" using unsigned_less [of c] by (auto intro: div_nat_eqI)
    ultimately show ?thesis by (simp add: word_le_nat_alt)
  qed
  ultimately show ?thesis by simp
qed

lemma split_code: "c = (if 0x80 \<le> c then (c AND 0x7f) + 0x80 else c AND 0x7f)" for c :: u8
proof -
  have "c = (c AND 0x7f) + (c AND 0x80)"
  proof -
    have "(c AND 0x7f) + (c AND 0x80) = (c AND 0x7f) OR (c AND 0x80)"
      by (rule disjunctive_add) (simp only: bit_and_iff bit_0x80 bit_0x7f, auto)
    also have "\<dots> = c" 
      by (rule bit_word_eqI) (simp only: bit_and_iff bit_or_iff bit_0x80 bit_0x7f, auto)
    finally show ?thesis by simp
  qed
  then show ?thesis unfolding high_bit by (auto split: if_splits)
qed

lemma code_iff:
  assumes "k < 0x80" shows "c AND 0x7f = k \<longleftrightarrow> c = k \<or> c = k + (0x80 :: u8)"
proof -
  have "(k AND 0x7f) = k" by (metis assms leD split_code)
  moreover have "(k + 0x80) AND 0x7f = k AND 0x7f"
  proof (rule bit_word_eqI, unfold bit_and_iff bit_0x7f)
    fix n
    have "k + 0x80 = k OR 0x80"
      using \<open>(k AND 0x7f) = k\<close>
      by (intro disjunctive_add) (metis bit_0x7f bit_0x80 bit_and_iff less_irrefl)
    then show "(bit (k + 0x80) n \<and> n < 7) = (bit k n \<and> n < 7)" by (auto simp only: bit_or_iff bit_0x80)
  qed
  ultimately show ?thesis using split_code [of c] by (auto split: if_splits)
qed

lemma map_of_key: "key_at table c = e \<Longrightarrow> e = map_key 0 0 0 \<or> (c, e) \<in> set table"
  by (auto simp: key_at_def dest: map_of_SomeD split: option.splits)

lemma caps_entry: "km_keycode (scancode_set1 c) = SCDK_KEY_CAPS_LOCK \<longleftrightarrow> c = 0x3a"
proof
  assume a: "km_keycode (scancode_set1 c) = SCDK_KEY_CAPS_LOCK"
  have "list_all (\<lambda>(c, e). km_keycode e = SCDK_KEY_CAPS_LOCK \<longrightarrow> c = 0x3a) scancode_table" by code_simp
  with a map_of_key [OF refl, of scancode_table c] show "c = 0x3a"
    by (auto simp: scancode_set1_def list_all_iff map_key_def kconst)
next
  assume "c = 0x3a"
  moreover have "km_keycode (scancode_set1 0x3a) = SCDK_KEY_CAPS_LOCK" by code_simp
  ultimately show "km_keycode (scancode_set1 c) = SCDK_KEY_CAPS_LOCK" by simp
qed

lemma extended_not_caps: "km_keycode (extended_scancode_set1 c) \<noteq> SCDK_KEY_CAPS_LOCK"
proof -
  have "list_all (\<lambda>(c, e). km_keycode e \<noteq> SCDK_KEY_CAPS_LOCK) extended_scancode_table" by code_simp
  then show ?thesis using map_of_key [OF refl, of extended_scancode_table c]
    by (auto simp: extended_scancode_set1_def list_all_iff map_key_def kconst)
qed

lemma shift_entry: "km_keycode (scancode_set1 0x2a) = 0" "km_keycode (scancode_set1 0x36) = 0"
  by code_simp+

lemma held_Suc:
  assumes "c \<noteq> c + 0x80"
  shows "held cs (Suc k) c \<longleftrightarrow>
    (if plain_at cs k \<and> cs ! k = c then True else if plain_at cs k \<and> cs ! k = c + 0x80 then False else held cs k c)"
  using assms unfolding held_def by (auto simp: less_Suc_eq)

lemma caps_Suc: "caps_presses cs (Suc k) = caps_presses cs k + (if plain_at cs k \<and> cs ! k = 0x3a then 1 else 0)"
  by (simp add: caps_presses_def)

lemma keys_Suc: "keys_before cs (Suc k) = keys_before cs k + (if is_key cs k then 1 else 0)"
  by (simp add: keys_before_def)

text \<open>The state of the driver after the first \<open>k\<close> codes.\<close>

definition follows :: "u8 list \<Rightarrow> nat \<Rightarrow> kbd_state \<Rightarrow> bool" where
  "follows cs k s \<longleftrightarrow> keyboard_initialized s \<and> kq_ok s \<and> kq_items s = [] \<and> event_clock s = of_nat (keys_before cs k) \<and>
     left_shift_down s = held cs k 0x2a \<and> right_shift_down s = held cs k 0x36 \<and>
     caps_lock_on s = odd (caps_presses cs k) \<and> extended_scancode_pending s = prefixed cs k"

lemma follows_init: "follows cs 0 (scdk_keyboard_init s)"
  by (simp add: follows_def scdk_keyboard_init_def kq_ok_def kq_items_def cb_items_def keys_before_def held_def caps_presses_def prefixed_def)

lemma kq_other [simp]:
  "kq_ok (s\<lparr>left_shift_down := x\<rparr>) = kq_ok s" "kq_items (s\<lparr>left_shift_down := x\<rparr>) = kq_items s"
  "kq_ok (s\<lparr>right_shift_down := x\<rparr>) = kq_ok s" "kq_items (s\<lparr>right_shift_down := x\<rparr>) = kq_items s"
  "kq_ok (s\<lparr>caps_lock_on := x\<rparr>) = kq_ok s" "kq_items (s\<lparr>caps_lock_on := x\<rparr>) = kq_items s"
  "kq_ok (s\<lparr>extended_scancode_pending := x\<rparr>) = kq_ok s" "kq_items (s\<lparr>extended_scancode_pending := x\<rparr>) = kq_items s"
  "kq_ok (s\<lparr>event_clock := y\<rparr>) = kq_ok s" "kq_items (s\<lparr>event_clock := y\<rparr>) = kq_items s"
  by (simp_all add: kq_ok_def kq_items_def)

lemma poll_reads:
  assumes "keyboard_initialized s" and "kq_items s = []"
  shows "scdk_keyboard_poll (port_of c) s =
    (case handle_scancode s c of (_, s1) \<Rightarrow>
       (case dequeue_event s1 of Some (event, s2) \<Rightarrow> (Inr event, s2) | None \<Rightarrow> (Inl SCDK_ERR_NOENT, s1)))"
  using assms kq_none [of s] by (simp add: scdk_keyboard_poll_def port_of_def kconst)

text \<open>A code that is no key.\<close>

lemma quiet_step:
  assumes f: "follows cs k s" and q: "\<not> is_key cs k"
  shows "\<exists>s'. handle_scancode s (cs ! k) = (SCDK_ERR_NOENT, s') \<and> follows cs (Suc k) s'"
proof -
  let ?c = "cs ! k"
  have pS: "prefixed cs (Suc k) \<longleftrightarrow> ?c = 0xe0" by (simp add: prefixed_def)
  note st = follows_def held_Suc caps_Suc keys_Suc q pS plain_at_def
  show ?thesis
  proof (cases "?c = 0xe0")
    case True
    then show ?thesis using f by (simp add: handle_scancode_def st)
  next
    case ne: False
    have caps: "?c \<noteq> 0x3a \<or> prefixed cs k"
    proof (rule ccontr)
      assume "\<not> ?thesis"
      moreover have "km_keycode (scancode_set1 (0x3a AND 0x7f)) \<noteq> 0" by code_simp
      ultimately show False using q by (simp add: is_key_def key_entry_def)
    qed
    consider (left) "\<not> prefixed cs k" "?c AND 0x7f = 0x2a" | (right) "\<not> prefixed cs k" "?c AND 0x7f = 0x36"
      | (none) "prefixed cs k \<or> ?c AND 0x7f \<noteq> 0x2a \<and> ?c AND 0x7f \<noteq> 0x36" by blast
    then show ?thesis
    proof cases
      case left
      then have "?c = 0x2a \<or> ?c = 0xaa" by (simp add: code_iff)
      then show ?thesis using f ne left
        by (elim disjE) (simp_all add: handle_scancode_def st high_bit)
    next
      case right
      then have "?c = 0x36 \<or> ?c = 0xb6" by (simp add: code_iff)
      then show ?thesis using f ne right
        by (elim disjE) (simp_all add: handle_scancode_def st high_bit)
    next
      case none
      then have n: "\<not> (plain_at cs k \<and> (?c = 0x2a \<or> ?c = 0xaa \<or> ?c = 0x36 \<or> ?c = 0xb6))"
        by (auto simp: code_iff plain_at_def)
      have p: "\<not> (plain_at cs k \<and> ?c = 0x3a)" using caps by (auto simp: plain_at_def)
      have x: "extended_scancode_pending s = prefixed cs k" using f by (simp add: follows_def)
      have g: "\<not> (\<not> extended_scancode_pending s \<and> ?c AND 0x7f = 0x2a)" "\<not> (\<not> extended_scancode_pending s \<and> ?c AND 0x7f = 0x36)"
        "km_keycode (if extended_scancode_pending s then extended_scancode_set1 (?c AND 0x7f) else scancode_set1 (?c AND 0x7f)) = 0"
        using none x q ne by (auto simp: is_key_def key_entry_def split: if_splits)
      have "handle_scancode s ?c = (SCDK_ERR_NOENT, s\<lparr>extended_scancode_pending := False\<rparr>)"
        unfolding handle_scancode_def Let_def by (simp only: ne g if_False if_True if_cancel simp_thms)
      moreover have "follows cs (Suc k) (s\<lparr>extended_scancode_pending := False\<rparr>)"
        using f ne n p q pS by (auto simp: follows_def held_Suc caps_Suc keys_Suc)
      ultimately show ?thesis by blast
    qed
  qed
qed

text \<open>A key, pressed or released.\<close>

lemma key_step:
  assumes f: "follows cs k s" and q: "is_key cs k"
  shows "\<exists>s1 s2. handle_scancode s (cs ! k) = (SCDK_OK, s1) \<and> dequeue_event s1 = Some (key_event cs k, s2) \<and> follows cs (Suc k) s2"
proof -
  let ?c = "cs ! k" and ?e = "key_entry cs k"
  have ne: "?c \<noteq> 0xe0" and kc: "km_keycode ?e \<noteq> 0" using q by (simp_all add: is_key_def)
  have pS: "\<not> prefixed cs (Suc k)" using ne by (simp add: prefixed_def)
  have ns: "prefixed cs k \<or> ?c AND 0x7f \<noteq> 0x2a \<and> ?c AND 0x7f \<noteq> 0x36"
    using kc shift_entry by (auto simp: key_entry_def split: if_splits)
  then have n: "\<not> (plain_at cs k \<and> (?c = 0x2a \<or> ?c = 0xaa \<or> ?c = 0x36 \<or> ?c = 0xb6))" by (auto simp: code_iff plain_at_def)
  have caps: "km_keycode ?e = SCDK_KEY_CAPS_LOCK \<and> \<not> 0x80 \<le> ?c \<longleftrightarrow> plain_at cs k \<and> ?c = 0x3a"
    using ne by (auto simp: key_entry_def extended_not_caps caps_entry plain_at_def code_iff)
  have small: "\<not> 128 \<le> ?c AND 0x7f" using word_and_le1 [of ?c "0x7f"] by (simp add: word_le_nat_alt)
  let ?caps = "odd (caps_presses cs (Suc k))"
  let ?t = "s\<lparr>extended_scancode_pending := False, caps_lock_on := ?caps, event_clock := of_nat (Suc (keys_before cs k))\<rparr>"
  let ?s = "s\<lparr>extended_scancode_pending := False\<rparr>"
  have h: "handle_scancode s ?c = return_enqueue ?t (key_event cs k)"
  proof -
    have x: "caps_lock_on s = odd (caps_presses cs k)" "event_clock s = of_nat (keys_before cs k)" "left_shift_down s = held cs k 0x2a"
      "right_shift_down s = held cs k 0x36" "extended_scancode_pending s = prefixed cs k" using f by (simp_all add: follows_def)
    have u: "(if km_keycode ?e = SCDK_KEY_CAPS_LOCK \<and> \<not> 0x80 \<le> ?c then ?s\<lparr>caps_lock_on := \<not> caps_lock_on ?s\<rparr> else ?s) = ?s\<lparr>caps_lock_on := ?caps\<rparr>"
      unfolding caps caps_Suc by (cases s) (use x(1) in simp)
    have g: "\<not> (\<not> extended_scancode_pending s \<and> ?c AND 0x7f = 0x2a)" "\<not> (\<not> extended_scancode_pending s \<and> ?c AND 0x7f = 0x36)"
      "(if extended_scancode_pending s then extended_scancode_set1 (?c AND 0x7f) else scancode_set1 (?c AND 0x7f)) = ?e"
      using ns x(5) by (auto simp: key_entry_def)
    have v: "\<lparr>ev_timestamp = event_clock ?t, ev_type = (if 0x80 \<le> ?c then SCDK_INPUT_KEY_UP else SCDK_INPUT_KEY_DOWN),
        ev_keycode = km_keycode ?e, ev_ascii = (if 0x80 \<le> ?c then 0 else ascii_for_entry ?t ?e),
        ev_modifiers = current_modifiers ?t, ev_flags = 0\<rparr> = key_event cs k"
      by (simp add: key_event_def Let_def ascii_for_entry_def current_modifiers_def shift_down_def x(3,4) kconst)
    have r: "((if 0x80 \<le> ?c then 0x80 else 0 :: u8) \<noteq> 0) = (0x80 \<le> ?c)" by simp
    have w: "event_clock (?s\<lparr>caps_lock_on := ?caps\<rparr>) + 1 = of_nat (Suc (keys_before cs k))" by (simp add: x(2))
    show ?thesis
      unfolding handle_scancode_def Let_def by (simp only: ne g high_bit r small kc u w v if_False simp_thms)
  qed
  have "kq_ok ?t" "kq_items ?t = []" using f by (simp_all add: follows_def)
  then obtain s1 s2 where e: "return_enqueue ?t (key_event cs k) = (SCDK_OK, s1)" "dequeue_event s1 = Some (key_event cs k, s2)"
    "kq_ok s2" "kq_items s2 = []" and s2: "s2 = ?t\<lparr>kq_queue := kq_queue s2, kq_tail := kq_tail s2, kq_count := kq_count s2, kq_head := kq_head s2\<rparr>"
    by (rule enqueue_dequeue)
  have sel: "keyboard_initialized s2 = keyboard_initialized s" "left_shift_down s2 = left_shift_down s" "right_shift_down s2 = right_shift_down s"
    "event_clock s2 = of_nat (Suc (keys_before cs k))" "caps_lock_on s2 = ?caps" "\<not> extended_scancode_pending s2"
    by (subst s2, simp)+
  have "follows cs (Suc k) s2"
    using f e(3,4) n q pS by (auto simp: follows_def sel held_Suc keys_Suc)
  with h e(1,2) show ?thesis by auto
qed

lemma poll_step:
  assumes "follows cs k s"
  obtains s' where "scdk_keyboard_poll (port_of (cs ! k)) s = (if is_key cs k then Inr (key_event cs k) else Inl SCDK_ERR_NOENT, s')"
    "follows cs (Suc k) s'"
proof (cases "is_key cs k")
  case True
  then show ?thesis using key_step [OF assms True] that assms by (auto simp: poll_reads follows_def)
next
  case False
  obtain s' where s': "handle_scancode s (cs ! k) = (SCDK_ERR_NOENT, s')" "follows cs (Suc k) s'"
    using quiet_step [OF assms False] by blast
  moreover have "dequeue_event s' = None" using s'(2) kq_none [of s'] by (simp add: follows_def)
  ultimately show ?thesis using that [of s'] False assms by (simp add: poll_reads follows_def)
qed

lemma poll_all_follows:
  "follows cs k s \<Longrightarrow> k \<le> length cs \<Longrightarrow>
     \<exists>s'. poll_all s (drop k cs) = (map (\<lambda>i. if is_key cs i then Inr (key_event cs i) else Inl SCDK_ERR_NOENT) [k..<length cs], s') \<and>
       follows cs (length cs) s'"
proof (induction "length cs - k" arbitrary: k s)
  case 0
  then show ?case by simp
next
  case (Suc n)
  then have k: "k < length cs" by simp
  obtain s1 where s1: "scdk_keyboard_poll (port_of (cs ! k)) s = (if is_key cs k then Inr (key_event cs k) else Inl SCDK_ERR_NOENT, s1)"
    "follows cs (Suc k) s1" by (rule poll_step [OF Suc.prems(1)])
  moreover have "n = length cs - Suc k" using Suc.hyps(2) by simp
  ultimately obtain s' where "poll_all s1 (drop (Suc k) cs) =
      (map (\<lambda>i. if is_key cs i then Inr (key_event cs i) else Inl SCDK_ERR_NOENT) [Suc k..<length cs], s')" "follows cs (length cs) s'"
    using Suc.hyps(1) [of "Suc k" s1] k by auto
  then show ?case using s1(1) k by (simp add: Cons_nth_drop_Suc [symmetric] upt_conv_Cons)
qed

section \<open>Properties\<close>

text \<open>
  (C38) The keyboard driver decodes the history of scan codes: after initialisation, polls of a
  keyboard that delivers the codes \<open>cs\<close> return, for the code at place \<open>k\<close>, exactly the event that
  the history up to \<open>k\<close> gives the key, or nothing if it is a prefix, a shift or an unknown code.
  Shift is held in the event if a shift key was pressed and not released since, letters are
  upper case if exactly one of shift and caps lock holds, extended codes (among them the
  shifts that keyboards fake around the arrow keys) do not touch the modifiers, and the
  time stamps number the events without a gap.
\<close>

theorem keyboard_decodes:
  "fst (poll_all (scdk_keyboard_init s) cs) =
     map (\<lambda>k. if is_key cs k then Inr (key_event cs k) else Inl SCDK_ERR_NOENT) [0..<length cs]"
  using poll_all_follows [OF follows_init, of cs s] by auto

text \<open>A client of the terminal service: it polls through the endpoint and unpacks the reply.\<close>

definition tty_unpack :: "scdk_message \<Rightarrow> scdk_input_event" where
  "tty_unpack m =
     \<lparr>ev_timestamp = arg0 m, ev_type = ucast (drop_bit 32 (arg1 m)), ev_keycode = ucast (arg1 m AND mask 32),
      ev_ascii = ucast (arg2 m), ev_modifiers = ucast (drop_bit 32 (arg3 m)), ev_flags = ucast (arg3 m AND mask 32)\<rparr>"

definition tty_run :: "(u16 \<Rightarrow> u8) \<Rightarrow> 'a tty_state_scheme run_handler \<Rightarrow> 'a tty_state_scheme run_handler" where
  "tty_run inb other h ep msg ctx s = (case h of HTty \<Rightarrow> tty_endpoint_handler inb msg s | _ \<Rightarrow> other h ep msg ctx s)"

fun tty_client :: "'a tty_state_scheme run_handler \<Rightarrow> u64 \<Rightarrow> 'a tty_state_scheme \<Rightarrow> u8 list \<Rightarrow> scdk_input_event res list \<times> 'a tty_state_scheme" where
  "tty_client other ep s [] = ([], s)"
| "tty_client other ep s (c # cs) =
     (case scdk_endpoint_call (tty_run (port_of c) other) s ep (scdk_message_init 0 SCDK_SERVICE_TTY SCDK_MSG_TTY_POLL_EVENT) of
        (status, msg, s1) \<Rightarrow>
          (case tty_client other ep s1 cs of
             (rs, s2) \<Rightarrow> ((if status \<noteq> SCDK_OK then Inl status else Inr (tty_unpack msg)) # rs, s2)))"

lemma tty_unpack_pack: "tty_unpack ((scdk_tty_pack_event ev m)\<lparr>mstatus := x\<rparr>) = ev"
proof -
  have "(ucast (ucast a :: u64) :: u32) = a" for a :: u32 by (rule bit_word_eqI) (auto simp: bit_simps)
  then show ?thesis by (cases ev) (simp add: tty_unpack_def scdk_tty_pack_event_def del: drop_bit_or)
qed

lemma poll_error: "scdk_keyboard_poll inb k = (Inl e, k') \<Longrightarrow> e \<noteq> SCDK_OK"
  by (auto simp: scdk_keyboard_poll_def Let_def split: option.splits prod.splits if_splits)

lemma endpoint_target_keyboard [simp]: "endpoint_target (s\<lparr>keyboard := k\<rparr>) = endpoint_target s"
  by (rule endpoint_target_frame) (simp add: tables_def)

lemma tty_client_polls:
  "endpoint_target s ep = Some (oid, HTty, ctx) \<Longrightarrow>
     tty_client other ep s cs = (case poll_all (keyboard s) cs of (rs, k) \<Rightarrow> (rs, s\<lparr>keyboard := k\<rparr>))"
proof (induction cs arbitrary: s)
  case (Cons c cs)
  let ?m = "scdk_message_init 0 SCDK_SERVICE_TTY SCDK_MSG_TTY_POLL_EVENT"
  obtain r k where r: "scdk_keyboard_poll (port_of c) (keyboard s) = (r, k)" by fastforce
  have call: "scdk_endpoint_call (tty_run (port_of c) other) s ep ?m =
      (case r of Inl e \<Rightarrow> (e, ?m\<lparr>target := oid, mstatus := status_word e\<rparr>, s\<lparr>keyboard := k\<rparr>)
        | Inr ev \<Rightarrow> (SCDK_OK, (scdk_tty_pack_event ev (?m\<lparr>target := oid\<rparr>))\<lparr>mstatus := 0\<rparr>, s\<lparr>keyboard := k\<rparr>))"
    using Cons.prems r by (cases r) (simp_all add: endpoint_call_target tty_run_def tty_endpoint_handler_def scdk_message_init_def)
  have IH: "tty_client other ep (s\<lparr>keyboard := k\<rparr>) cs = (case poll_all k cs of (rs, k') \<Rightarrow> (rs, s\<lparr>keyboard := k'\<rparr>))"
    using Cons.IH [of "s\<lparr>keyboard := k\<rparr>"] Cons.prems by simp
  show ?case
  proof (cases r)
    case (Inl e)
    then show ?thesis using poll_error [OF r [unfolded Inl]] by (simp add: call r IH split: prod.split)
  next
    case (Inr ev)
    then show ?thesis by (simp add: call r IH tty_unpack_pack split: prod.split)
  qed
qed simp

text \<open>Starting a service leaves alone what is not part of the kernel's tables.\<close>

lemma low_more:
  "scdk_object_create s ty c f p = (r, s') \<Longrightarrow> ep_state.more s' = ep_state.more s"
  "scdk_cap_create s oid rights = (q, s') \<Longrightarrow> ep_state.more s' = ep_state.more s"
  by (auto elim: object_create_cases cap_create_cases)

lemma start_service_more:
  assumes "start_service s h sid = (r, s')" shows "ep_state.more s' = ep_state.more s"
proof -
  obtain re s1 where e: "scdk_endpoint_create s SCDK_BOOT_CORE (Some h) 0 = (re, s1)" by fastforce
  then have "ep_state.more s1 = ep_state.more s"
    by (cases rule: endpoint_create_cases) (auto simp: bind_slot_def split: prod.splits sum.splits dest!: low_more)
  moreover have "ep_state.more s2 = ep_state.more s1" if "scdk_service_register s1 sid ep = (st, s2)" for ep st s2
    using that by (cases rule: service_register_cases) auto
  ultimately show ?thesis using assms e by (auto simp: start_service_def split: sum.splits prod.splits if_splits)
qed

lemma more_keyboard: "ep_state.more s' = ep_state.more s \<Longrightarrow> keyboard s' = keyboard s"
  by (cases s, cases s') simp

text \<open>
  (C39) A client of the terminal service reads what was typed. After the service has been
  started it is registered, and a client that polls through the registered endpoint while the
  keyboard delivers the codes \<open>cs\<close> receives, unpacked from the four reply words, exactly the
  events that the history of codes means, each field intact; a poll without an event is
  answered with an error.
\<close>

theorem tty_delivers_keys:
  assumes "kern_inv s" and "ep_inv s" and "scdk_tty_service_init s = (Inr ep, s1)"
  shows "scdk_service_lookup s1 SCDK_SERVICE_TTY = Inr ep \<and>
    fst (tty_client other ep s1 cs) =
      map (\<lambda>k. if is_key cs k then Inr (key_event cs k) else Inl SCDK_ERR_NOENT) [0..<length cs]"
proof -
  let ?s = "s\<lparr>keyboard := scdk_keyboard_init (keyboard s)\<rparr>"
  obtain s2 where s2: "start_service ?s HTty SCDK_SERVICE_TTY = (Inr ep, s2)" "s1 = s2\<lparr>tty_started := True\<rparr>"
    using assms(3) by (auto simp: scdk_tty_service_init_def split: if_splits sum.splits prod.splits)
  have cs: "core_same s ?s" by (simp add: core_same_def)
  have inv: "kern_inv ?s" "ep_inv ?s" using core_same_inv [OF cs] ep_inv_khist [OF core_same_khist [OF cs] assms(1,2)] assms(1) by simp_all
  note up = start_service_up(4) [OF inv s2(1) refl]
  have k: "keyboard s1 = scdk_keyboard_init (keyboard s)" using more_keyboard [OF start_service_more [OF s2(1)]] by (simp add: s2(2))
  have f: "endpoint_target s1 = endpoint_target s2" "scdk_service_lookup s1 = scdk_service_lookup s2"
    unfolding s2(2) by (rule endpoint_target_frame; simp add: tables_def)+
  obtain oid where "endpoint_target s1 ep = Some (oid, HTty, 0)" using up f by auto
  then show ?thesis using up f(2) poll_all_follows [OF follows_init, of cs "keyboard s"]
    by (auto simp: tty_client_polls k)
qed

text \<open>The kernel before any service runs.\<close>

definition tty_boot :: tty_state where
  "tty_boot = proc_state.extend (file_state.extend (user_ring_state.extend (user_state.extend user_boot
       \<lparr>user_rings = (\<lambda>i. \<lparr>ur_in_use = False, ur_source_task = 0, ur_ring_cap = 0, ur_target_endpoint = 0\<rparr>)\<rparr>)
       \<lparr>initrd = initrd_boot, open_files = (\<lambda>_. \<lparr>tf_object_id = 0, tf_cap = 0, tf_backing = null_initrd_entry, tf_open = False\<rparr>),
        tmpfs_started = False, root_tmpfs_endpoint = 0, vfs_started = False\<rparr>)
       \<lparr>proc_started = False, proc_hhdm_offset = 0\<rparr>)
       \<lparr>keyboard = \<lparr>kq_queue = (\<lambda>_. \<lparr>ev_timestamp = 0, ev_type = 0, ev_keycode = 0, ev_ascii = 0, ev_modifiers = 0, ev_flags = 0\<rparr>),
          kq_head = 0, kq_tail = 0, kq_count = 0, event_clock = 0, keyboard_initialized = False, left_shift_down = False,
          right_shift_down = False, caps_lock_on = False, extended_scancode_pending = False\<rparr>, tty_started = False\<rparr>"

lemma tty_boot_tables: "tables tty_boot = tables user_boot" "object_generations tty_boot = object_generations user_boot"
  by (simp_all add: tty_boot_def tables_def user_state.defs user_ring_state.defs file_state.defs proc_state.defs)

lemma tty_boot_inv: "kern_inv tty_boot" "ep_inv tty_boot"
  by (rule null_tables_inv; use tty_boot_tables user_boot_tables in \<open>simp add: tables_def\<close>)+

theorem tty_delivers_keys_witness:
  "\<exists>s1. scdk_tty_service_init tty_boot = (Inr 0x100000000, s1) \<and>
     map (map_sum (\<lambda>e. e) ev_ascii) (fst (tty_client (\<lambda>h e m c s. (SCDK_OK, m, s)) 0x100000000 s1 [0x2a, 0x1e, 0xaa, 0x1e])) =
       [Inl SCDK_ERR_NOENT, Inr 0x41, Inl SCDK_ERR_NOENT, Inr 0x61]"
proof -
  have "fst (scdk_tty_service_init tty_boot) = Inr 0x100000000" by code_simp
  then obtain s1 where i: "scdk_tty_service_init tty_boot = (Inr 0x100000000, s1)" by (metis prod.collapse)
  have k: "map (\<lambda>k. is_key [0x2a, 0x1e, 0xaa, 0x1e] k) [0..<4] = [False, True, False, True]"
    "map (\<lambda>k. ev_ascii (key_event [0x2a, 0x1e, 0xaa, 0x1e] k)) [0..<4] = [0, 0x41, 0, 0x61]" by code_simp+
  show ?thesis using i tty_delivers_keys [OF tty_boot_inv i, of _ "[0x2a, 0x1e, 0xaa, 0x1e]"] k by (simp add: upt_rec)
qed

end
