(* ===== verification/SCDK_Devices.thy ===== *)
theory SCDK_Devices
  imports SCDK_Input
begin

text \<open>
  The device manager \<^verbatim>\<open>services/devmgr_service.c\<close> and the session service
  \<^verbatim>\<open>services/session_service.c\<close>. Registering a device hands out a capability for it and one for its
  queue; a queue is bound to an endpoint through its capability. The session service is the
  only name space a user program gets.
\<close>

section \<open>The device manager\<close>

definition SCDK_DEVMGR_FAKE_DEVICE_ID :: u64 where [kconst]: "SCDK_DEVMGR_FAKE_DEVICE_ID = 1"

record scdk_devmgr_device =
  dd_object_id :: u64
  dd_cap :: u64
  dd_device_id :: u64
  dd_present :: bool

record scdk_devmgr_queue =
  dq_object_id :: u64
  dq_cap :: u64
  dq_device_id :: u64
  dq_bound_target :: u64
  dq_present :: bool

record dev_state = tty_state +
  devices :: "nat \<Rightarrow> scdk_devmgr_device"
  queues :: "nat \<Rightarrow> scdk_devmgr_queue"
  devmgr_started :: bool
  session_started :: bool

definition alloc_device_slot :: "'a dev_state_scheme \<Rightarrow> nat option" where
  "alloc_device_slot s = first_slot (\<lambda>i. \<not> dd_present (devices s i)) SCDK_DEVMGR_MAX_DEVICES"

definition alloc_queue_slot :: "'a dev_state_scheme \<Rightarrow> nat option" where
  "alloc_queue_slot s = first_slot (\<lambda>i. \<not> dq_present (queues s i)) SCDK_DEVMGR_MAX_QUEUES"

definition devmgr_queue_from_cap :: "'a dev_state_scheme \<Rightarrow> u64 \<Rightarrow> u64 \<Rightarrow> nat res" where
  "devmgr_queue_from_cap s queue_cap required_rights =
     (case scdk_cap_check s queue_cap required_rights SCDK_OBJ_DEVICE_QUEUE of
        Inl e \<Rightarrow> Inl e
      | Inr entry \<Rightarrow>
          (case scdk_object_lookup s (ce_object_id entry) of
             Inl e \<Rightarrow> Inl e
           | Inr object \<Rightarrow>
               (case obj_payload object of
                  PQueue i \<Rightarrow> if dq_object_id (queues s i) \<noteq> ce_object_id entry \<or> \<not> dq_present (queues s i)
                              then Inl SCDK_ERR_NOENT else Inr i
                | _ \<Rightarrow> Inl SCDK_ERR_NOENT)))"

text \<open>The body of \<^verbatim>\<open>devmgr_register_fake_device\<close> after the slots are found: the two capabilities.\<close>

definition register_device :: "'a dev_state_scheme \<Rightarrow> nat \<Rightarrow> nat \<Rightarrow> (u64 \<times> u64) res \<times> 'a dev_state_scheme" where
  "register_device s d q =
     (case scdk_object_create s SCDK_OBJ_DEVICE SCDK_BOOT_CORE 0 (PDevice d) of
        (Inl e, s1) \<Rightarrow> (Inl e, s1)
      | (Inr device_object, s1) \<Rightarrow>
          (case scdk_cap_create s1 device_object (SCDK_RIGHT_READ OR SCDK_RIGHT_BIND OR SCDK_RIGHT_REVOKE) of
             (Inl e, s2) \<Rightarrow> (Inl e, s2)
           | (Inr device_cap, s2) \<Rightarrow>
               (case scdk_object_create s2 SCDK_OBJ_DEVICE_QUEUE SCDK_BOOT_CORE 0 (PQueue q) of
                  (Inl e, s3) \<Rightarrow> (Inl e, s3)
                | (Inr queue_object, s3) \<Rightarrow>
                    (case scdk_cap_create s3 queue_object
                            (SCDK_RIGHT_READ OR SCDK_RIGHT_WRITE OR SCDK_RIGHT_BIND OR SCDK_RIGHT_REVOKE) of
                       (Inl e, s4) \<Rightarrow> (Inl e, s4)
                     | (Inr queue_cap, s4) \<Rightarrow>
                         (Inr (device_cap, queue_cap),
                          s4\<lparr>devices := (devices s4)(d := \<lparr>dd_object_id = device_object, dd_cap = device_cap,
                               dd_device_id = SCDK_DEVMGR_FAKE_DEVICE_ID, dd_present = True\<rparr>),
                             queues := (queues s4)(q := \<lparr>dq_object_id = queue_object, dq_cap = queue_cap,
                               dq_device_id = device_object, dq_bound_target = 0, dq_present = True\<rparr>)\<rparr>)))))"

definition devmgr_register_fake_device ::
  "scdk_message \<Rightarrow> 'a dev_state_scheme \<Rightarrow> scdk_status \<times> scdk_message \<times> 'a dev_state_scheme"
where
  "devmgr_register_fake_device msg s =
     (if arg0 msg \<noteq> SCDK_DEVMGR_FAKE_DEVICE_ID then (SCDK_ERR_INVAL, msg, s)
      else case (alloc_device_slot s, alloc_queue_slot s) of
        (Some d, Some q) \<Rightarrow>
          (case register_device s d q of
             (Inl e, s1) \<Rightarrow> (e, msg, s1)
           | (Inr (device_cap, queue_cap), s1) \<Rightarrow> (SCDK_OK, msg\<lparr>arg0 := device_cap, arg1 := queue_cap\<rparr>, s1))
      | _ \<Rightarrow> (SCDK_ERR_NOMEM, msg, s))"

definition devmgr_bind_queue ::
  "scdk_message \<Rightarrow> 'a dev_state_scheme \<Rightarrow> scdk_status \<times> scdk_message \<times> 'a dev_state_scheme"
where
  "devmgr_bind_queue msg s =
     (if arg0 msg = 0 \<or> arg1 msg = 0 then (SCDK_ERR_INVAL, msg, s)
      else case scdk_cap_check s (arg1 msg) SCDK_RIGHT_SEND SCDK_OBJ_ENDPOINT of
        Inl e \<Rightarrow> (e, msg, s)
      | Inr _ \<Rightarrow>
          (case devmgr_queue_from_cap s (arg0 msg) SCDK_RIGHT_BIND of
             Inl e \<Rightarrow> (e, msg, s)
           | Inr i \<Rightarrow> (SCDK_OK, msg, s\<lparr>queues := (queues s)(i := (queues s i)\<lparr>dq_bound_target := arg1 msg\<rparr>)\<rparr>)))"

definition devmgr_endpoint_handler ::
  "scdk_message \<Rightarrow> 'a dev_state_scheme \<Rightarrow> scdk_status \<times> scdk_message \<times> 'a dev_state_scheme"
where
  "devmgr_endpoint_handler msg s =
     (if mtype msg = SCDK_MSG_DEVICE_REGISTER then devmgr_register_fake_device msg s
      else if mtype msg = SCDK_MSG_DEVICE_QUEUE_BIND then devmgr_bind_queue msg s
      else (SCDK_ERR_NOTSUP, msg, s))"

definition scdk_devmgr_service_init :: "'a dev_state_scheme \<Rightarrow> u64 res \<times> 'a dev_state_scheme" where
  "scdk_devmgr_service_init s =
     (if devmgr_started s then (Inl SCDK_ERR_BUSY, s)
      else case start_service s HDevmgr SCDK_SERVICE_DEVMGR of
        (Inl e, s1) \<Rightarrow> (Inl e, s1)
      | (Inr endpoint, s1) \<Rightarrow> (Inr endpoint, s1\<lparr>devmgr_started := True\<rparr>))"

section \<open>The session service\<close>

definition session_service_allowed :: "u64 \<Rightarrow> bool" where
  "session_service_allowed service_id \<longleftrightarrow>
     service_id = SCDK_SERVICE_CONSOLE \<or> service_id = SCDK_SERVICE_VFS \<or> service_id = SCDK_SERVICE_PROC \<or>
     service_id = SCDK_SERVICE_TTY \<or> service_id = SCDK_SERVICE_GRANT_TEST"

definition session_endpoint_handler ::
  "scdk_message \<Rightarrow> 'a dev_state_scheme \<Rightarrow> scdk_status \<times> scdk_message \<times> 'a dev_state_scheme"
where
  "session_endpoint_handler msg s =
     (if mtype msg = SCDK_MSG_SERVICE_LOOKUP
      then if \<not> session_service_allowed (arg0 msg) then (SCDK_ERR_PERM, msg, s)
           else case scdk_service_lookup s (arg0 msg) of
                  Inl e \<Rightarrow> (e, msg, s)
                | Inr service_endpoint \<Rightarrow> (SCDK_OK, msg\<lparr>arg0 := service_endpoint, arg1 := 0, arg2 := 0, arg3 := 0\<rparr>, s)
      else (SCDK_ERR_NOTSUP, msg, s))"

definition scdk_session_service_init :: "'a dev_state_scheme \<Rightarrow> u64 res \<times> 'a dev_state_scheme" where
  "scdk_session_service_init s =
     (if session_started s then (Inl SCDK_ERR_BUSY, s)
      else case start_service s HSession SCDK_SERVICE_SESSION of
        (Inl e, s1) \<Rightarrow> (Inl e, s1)
      | (Inr endpoint, s1) \<Rightarrow> (Inr endpoint, s1\<lparr>session_started := True\<rparr>))"

section \<open>What a capability designates\<close>

text \<open>The entry of a live capability with the payload of its object.\<close>

definition designated :: "'a cap_state_scheme \<Rightarrow> u64 \<Rightarrow> (scdk_cap_entry \<times> payload) option" where
  "designated s cap =
     (case scdk_cap_lookup s cap of
        Inl _ \<Rightarrow> None
      | Inr e \<Rightarrow> (case scdk_object_lookup s (ce_object_id e) of Inl _ \<Rightarrow> None | Inr ob \<Rightarrow> Some (e, obj_payload ob)))"

lemma designated_Some:
  "designated s cap = Some (e, p) \<longleftrightarrow>
     (\<exists>ob. scdk_cap_lookup s cap = Inr e \<and> scdk_object_lookup s (ce_object_id e) = Inr ob \<and> obj_payload ob = p)"
  by (auto simp: designated_def split: sum.splits)

lemma designated_None: "designated s cap = None \<longleftrightarrow> (\<exists>x. scdk_cap_lookup s cap = Inl x)"
  using cap_lookup_object [of s cap] by (auto simp: designated_def split: sum.splits)

lemma designated_frame:
  assumes "object_table s' = object_table s" "cap_table s' = cap_table s" "cap_generations s' = cap_generations s"
  shows "designated s' = designated s"
  by (intro ext) (simp only: designated_def cap_lookup_frame [OF assms] object_lookup_frame [OF assms(1)])

lemma designated_object_create:
  assumes inv: "kern_inv s" and c: "scdk_object_create s ty core f p = (r, s')"
  shows "designated s' = designated s"
proof
  fix cap
  have l: "scdk_cap_lookup s' cap = scdk_cap_lookup s cap" by (rule object_create_cap_lookup [OF kern_invD(1) [OF inv] c])
  show "designated s' cap = designated s cap"
  proof (cases "scdk_cap_lookup s cap")
    case (Inr e)
    obtain ob where ob: "scdk_object_lookup s (ce_object_id e) = Inr ob" using cap_lookup_object [OF Inr] by blast
    then show ?thesis using object_create_keeps [OF kern_invD(3) [OF inv] c ob] by (simp add: designated_def l Inr)
  qed (simp add: designated_def l)
qed

lemma designated_cap_create:
  assumes inv: "kern_inv s" and c: "scdk_cap_create s oid rights = (Inr cap, s')"
  obtains e ob where "scdk_object_lookup s oid = Inr ob" "ce_object_id e = oid" "ce_object_type e = obj_type ob" "ce_rights e = rights"
    "designated s' = (designated s)(cap := Some (e, obj_payload ob))" "designated s cap = None"
proof -
  note ci = kern_invD(1) [OF inv]
  obtain e ob where e: "scdk_cap_lookup s' cap = Inr e" "scdk_object_lookup s oid = Inr ob" "ce_object_id e = oid"
    "ce_object_type e = obj_type ob" "ce_rights e = rights" using cap_create_look [OF ci c] by blast
  have o: "scdk_object_lookup s' = scdk_object_lookup s" by (rule cap_create_objects(3) [OF c])
  have "designated s' k = (if k = cap then Some (e, obj_payload ob) else designated s k)" for k
  proof (cases "k = cap")
    case False
    have "scdk_cap_lookup s' k = Inr x \<longleftrightarrow> scdk_cap_lookup s k = Inr x" for x using cap_create_other [OF ci c False] by (metis res_opt_Some)
    then have "designated s' k = Some y \<longleftrightarrow> designated s k = Some y" for y by (cases y) (simp add: designated_Some o)
    then show ?thesis using False by (metis not_None_eq)
  qed (simp add: designated_def e o)
  then show ?thesis using that [OF e(2-5)] cap_create_fresh [OF c] by (simp add: designated_None fun_eq_iff)
qed

section \<open>Queues\<close>

text \<open>The queue a capability with the right to bind designates, and the endpoint it is bound to.\<close>

abbreviation queue_slot :: "'a dev_state_scheme \<Rightarrow> u64 \<Rightarrow> nat \<Rightarrow> bool" where
  "queue_slot s cap i \<equiv> devmgr_queue_from_cap s cap SCDK_RIGHT_BIND = Inr i"

definition queue_binding :: "'a dev_state_scheme \<Rightarrow> u64 \<Rightarrow> u64 option" where
  "queue_binding s cap =
     (case devmgr_queue_from_cap s cap SCDK_RIGHT_BIND of Inl _ \<Rightarrow> None | Inr i \<Rightarrow> Some (dq_bound_target (queues s i)))"

lemma queue_binding_Some: "queue_binding s cap = Some t \<longleftrightarrow> (\<exists>i. queue_slot s cap i \<and> dq_bound_target (queues s i) = t)"
  by (auto simp: queue_binding_def split: sum.splits)

lemma queue_slot_iff:
  "queue_slot s cap i \<longleftrightarrow>
     (\<exists>e. designated s cap = Some (e, PQueue i) \<and> ce_object_type e = SCDK_OBJ_DEVICE_QUEUE \<and> ce_rights e AND SCDK_RIGHT_BIND = SCDK_RIGHT_BIND \<and>
        dq_object_id (queues s i) = ce_object_id e \<and> dq_present (queues s i))"
proof -
  have "queue_slot s cap i \<longleftrightarrow>
      (\<exists>e ob. scdk_cap_check s cap SCDK_RIGHT_BIND SCDK_OBJ_DEVICE_QUEUE = Inr e \<and> scdk_object_lookup s (ce_object_id e) = Inr ob \<and>
         obj_payload ob = PQueue i \<and> dq_object_id (queues s i) = ce_object_id e \<and> dq_present (queues s i))"
    by (auto simp: devmgr_queue_from_cap_def split: sum.splits payload.splits if_splits)
  then show ?thesis by (auto simp: designated_Some cap_check_Inr SCDK_RIGHT_BIND_def)
qed

definition dev_inv :: "'a dev_state_scheme \<Rightarrow> bool" where
  "dev_inv s \<longleftrightarrow> kern_inv s \<and> (\<forall>cap i. queue_slot s cap i \<longrightarrow> dq_cap (queues s i) = cap)"

lemma dev_low_frame [kframe]:
  "scdk_object_create s ty c f p = (r, s') \<Longrightarrow> devices s' = devices s \<and> queues s' = queues s"
  "scdk_cap_create s oid rights = (x, s') \<Longrightarrow> devices s' = devices s \<and> queues s' = queues s"
  by (auto elim: object_create_cases cap_create_cases)

text \<open>
  One object of a registration with its capability: the new capability designates the new
  object, and all others designate what they did.
\<close>

definition new_object_cap ::
  "'a dev_state_scheme \<Rightarrow> scdk_object_type \<Rightarrow> payload \<Rightarrow> u64 \<Rightarrow> (u64 \<times> u64) res \<times> 'a dev_state_scheme"
where
  "new_object_cap s ty p rights =
     (case scdk_object_create s ty SCDK_BOOT_CORE 0 p of
        (Inl e, s1) \<Rightarrow> (Inl e, s1)
      | (Inr oid, s1) \<Rightarrow> (case scdk_cap_create s1 oid rights of (Inl e, s2) \<Rightarrow> (Inl e, s2) | (Inr cap, s2) \<Rightarrow> (Inr (oid, cap), s2)))"

lemma register_device_parts:
  "register_device s d q =
     (case new_object_cap s SCDK_OBJ_DEVICE (PDevice d) (SCDK_RIGHT_READ OR SCDK_RIGHT_BIND OR SCDK_RIGHT_REVOKE) of
        (Inl e, s1) \<Rightarrow> (Inl e, s1)
      | (Inr (od, dc), s1) \<Rightarrow>
          (case new_object_cap s1 SCDK_OBJ_DEVICE_QUEUE (PQueue q)
                  (SCDK_RIGHT_READ OR SCDK_RIGHT_WRITE OR SCDK_RIGHT_BIND OR SCDK_RIGHT_REVOKE) of
             (Inl e, s2) \<Rightarrow> (Inl e, s2)
           | (Inr (oq, qc), s2) \<Rightarrow>
               (Inr (dc, qc),
                s2\<lparr>devices := (devices s2)(d := \<lparr>dd_object_id = od, dd_cap = dc, dd_device_id = SCDK_DEVMGR_FAKE_DEVICE_ID, dd_present = True\<rparr>),
                   queues := (queues s2)(q := \<lparr>dq_object_id = oq, dq_cap = qc, dq_device_id = od, dq_bound_target = 0, dq_present = True\<rparr>)\<rparr>)))"
  by (simp add: register_device_def new_object_cap_def split: prod.split sum.split)

lemma new_object_cap_cases:
  assumes inv: "kern_inv s" and c: "new_object_cap s ty p rights = (r, s')" and ok: "payload_ok ty p"
  obtains (failed) e where "r = Inl e" "kern_inv s'" "devices s' = devices s" "queues s' = queues s" "designated s' = designated s" "e \<noteq> SCDK_OK"
  | (made) oid cap e where "r = Inr (oid, cap)" "kern_inv s'" "devices s' = devices s" "queues s' = queues s"
      "ce_object_id e = oid" "ce_object_type e = ty" "ce_rights e = rights" "designated s' = (designated s)(cap := Some (e, p))"
      "designated s cap = None" "\<And>k e' p'. designated s k = Some (e', p') \<Longrightarrow> ce_object_id e' \<noteq> oid"
proof -
  obtain ro s1 where o: "scdk_object_create s ty SCDK_BOOT_CORE 0 p = (ro, s1)" by fastforce
  have i1: "kern_inv s1" by (rule khist_inv [OF kh_object [OF kh_refl o ok] inv])
  have d1: "designated s1 = designated s" by (rule designated_object_create [OF inv o])
  have f1: "devices s1 = devices s" "queues s1 = queues s" using dev_low_frame(1) [OF o] by simp_all
  show thesis
  proof (cases ro)
    case (Inl e)
    with c o have "r = Inl e" "s' = s1" by (simp_all add: new_object_cap_def)
    moreover have "e \<noteq> SCDK_OK" using o unfolding Inl by (cases rule: object_create_cases) auto
    ultimately show ?thesis using failed i1 d1 f1 by simp
  next
    case (Inr oid)
    obtain rc s2 where k: "scdk_cap_create s1 oid rights = (rc, s2)" by fastforce
    have i2: "kern_inv s2" by (rule khist_inv [OF kh_create [OF kh_refl k] i1])
    have f2: "devices s2 = devices s" "queues s2 = queues s" using dev_low_frame(2) [OF k] f1 by simp_all
    show ?thesis
    proof (cases rc)
      case (Inl e)
      with c o Inr k cap_create_refused [of s1 oid rights e s2] have "r = Inl e" "s' = s1"
        by (simp_all add: new_object_cap_def \<open>ro = Inr oid\<close>)
      moreover have "e \<noteq> SCDK_OK" using k unfolding Inl by (cases rule: cap_create_cases) auto
      ultimately show ?thesis using failed i1 d1 f1 by simp
    next
      case (Inr cap)
      have k': "scdk_cap_create s1 oid rights = (Inr cap, s2)" using k Inr by simp
      have s': "s' = s2" "r = Inr (oid, cap)" using c o k' by (simp_all add: new_object_cap_def \<open>ro = Inr oid\<close>)
      have o': "scdk_object_create s ty SCDK_BOOT_CORE 0 p = (Inr oid, s1)" using o \<open>ro = Inr oid\<close> by simp
      obtain ob where ob: "scdk_object_lookup s1 oid = Inr ob" "obj_type ob = ty" "obj_payload ob = p"
        using object_create_look [OF o'] by blast
      show ?thesis
        by (rule designated_cap_create [OF i1 k'], rule made)
          (use ob i2 d1 f2 s' object_create_fresh [OF o'] in \<open>auto simp: designated_Some\<close>)
    qed
  qed
qed

lemma register_cases:
  assumes inv: "kern_inv s" and c: "register_device s d q = (r, s')" and free: "\<not> dq_present (queues s q)"
    and lt: "d < SCDK_DEVMGR_MAX_DEVICES" "q < SCDK_DEVMGR_MAX_QUEUES"
  obtains (failed) e where "r = Inl e" "e \<noteq> SCDK_OK" "kern_inv s'" "queues s' = queues s" "\<And>k i. queue_slot s' k i \<longleftrightarrow> queue_slot s k i"
  | (registered) dc qc v where "r = Inr (dc, qc)" "kern_inv s'" "queues s' = (queues s)(q := v)" "dq_cap v = qc" "dq_bound_target v = 0"
      "\<And>i. \<not> queue_slot s qc i" "queue_slot s' qc q" "\<And>k i. k \<noteq> qc \<Longrightarrow> queue_slot s' k i \<longleftrightarrow> queue_slot s k i"
proof -
  let ?R = "SCDK_RIGHT_READ OR SCDK_RIGHT_BIND OR SCDK_RIGHT_REVOKE"
  let ?Q = "SCDK_RIGHT_READ OR SCDK_RIGHT_WRITE OR SCDK_RIGHT_BIND OR SCDK_RIGHT_REVOKE"
  have ok: "payload_ok SCDK_OBJ_DEVICE (PDevice d)" "payload_ok SCDK_OBJ_DEVICE_QUEUE (PQueue q)" using lt by simp_all
  obtain r1 s1 where n1: "new_object_cap s SCDK_OBJ_DEVICE (PDevice d) ?R = (r1, s1)" by fastforce
  from inv n1 ok(1) show thesis
  proof (cases rule: new_object_cap_cases)
    case (failed e)
    show ?thesis by (rule that(1) [of e]) (use c n1 failed in \<open>simp_all add: register_device_parts queue_slot_iff\<close>)
  next
    case (made od dc e)
    note m1 = made
    have q1: "queue_slot s1 k i \<longleftrightarrow> queue_slot s k i" for k i using m1(6,8,9) by (auto simp: queue_slot_iff m1(4))
    obtain r2 s2 where n2: "new_object_cap s1 SCDK_OBJ_DEVICE_QUEUE (PQueue q) ?Q = (r2, s2)" by fastforce
    from m1(2) n2 ok(2) show ?thesis
    proof (cases rule: new_object_cap_cases)
      case (failed e')
      have "queue_slot s' k i \<longleftrightarrow> queue_slot s1 k i" for k i using c n1 n2 failed m1(1) by (simp add: register_device_parts queue_slot_iff)
      then show ?thesis by (intro that(1) [of e']) (use c n1 n2 failed m1(1,4) q1 in \<open>simp_all add: register_device_parts\<close>)
    next
      case (made oq qc e2)
      let ?v = "\<lparr>dq_object_id = oq, dq_cap = qc, dq_device_id = od, dq_bound_target = 0, dq_present = True\<rparr>"
      let ?w = "\<lparr>dd_object_id = od, dd_cap = dc, dd_device_id = SCDK_DEVMGR_FAKE_DEVICE_ID, dd_present = True\<rparr>"
      have s': "r = Inr (dc, qc)" "s' = s2\<lparr>devices := (devices s2)(d := ?w), queues := (queues s2)(q := ?v)\<rparr>"
        using c n1 n2 m1(1) made(1) by (simp_all add: register_device_parts)
      have f: "object_table s' = object_table s2" "cap_table s' = cap_table s2" "cap_generations s' = cap_generations s2"
        "object_generations s' = object_generations s2" "queues s' = (queues s)(q := ?v)"
        using made(4) m1(4) by (simp_all add: s'(2))
      note des = designated_frame [OF f(1-3)]
      show ?thesis
      proof (rule that(2) [OF s'(1) _ f(5)])
        show "kern_inv s'" using kern_inv_frame [OF f(1,4,2,3)] made(2) by simp
        show "\<not> queue_slot s qc i" for i using made(9) q1 [of qc i] by (simp add: queue_slot_iff)
        show "queue_slot s' qc q" unfolding queue_slot_iff des using made(5-8) by (simp add: f(5) kconst)
        show "queue_slot s' k i \<longleftrightarrow> queue_slot s k i" if "k \<noteq> qc" for k i
          using that made(8,10) free q1 [of k i] by (auto simp: queue_slot_iff des f(5) m1(4) split: if_splits)
      qed simp_all
    qed
  qed
qed

lemma register_message_cases:
  assumes "dev_inv s" and "devmgr_register_fake_device m s = (st, m', s')"
  obtains (refused) "st \<noteq> SCDK_OK" "kern_inv s'" "queues s' = queues s" "\<And>k i. queue_slot s' k i \<longleftrightarrow> queue_slot s k i"
  | (registered) q v where "st = SCDK_OK" "kern_inv s'" "queues s' = (queues s)(q := v)" "dq_cap v = arg1 m'" "dq_bound_target v = 0"
      "\<And>i. \<not> queue_slot s (arg1 m') i" "queue_slot s' (arg1 m') q" "\<And>k i. k \<noteq> arg1 m' \<Longrightarrow> queue_slot s' k i \<longleftrightarrow> queue_slot s k i"
      "\<And>k i. queue_slot s k i \<Longrightarrow> i \<noteq> q"
proof (cases "arg0 m = SCDK_DEVMGR_FAKE_DEVICE_ID \<and> alloc_device_slot s \<noteq> None \<and> alloc_queue_slot s \<noteq> None")
  case True
  then obtain d q where dq: "alloc_device_slot s = Some d" "alloc_queue_slot s = Some q" "arg0 m = SCDK_DEVMGR_FAKE_DEVICE_ID" by blast
  obtain r t where r: "register_device s d q = (r, t)" by fastforce
  have lt: "\<not> dq_present (queues s q)" "d < SCDK_DEVMGR_MAX_DEVICES" "q < SCDK_DEVMGR_MAX_QUEUES"
    using dq(1,2) by (simp_all add: alloc_device_slot_def alloc_queue_slot_def scan_facts)
  have k: "kern_inv s" using assms(1) by (simp add: dev_inv_def)
  from k r lt show ?thesis
  proof (cases rule: register_cases)
    case (failed e)
    show ?thesis by (rule refused) (use assms(2) dq r failed in \<open>auto simp: devmgr_register_fake_device_def\<close>)
  next
    case (registered dc qc v)
    have m': "st = SCDK_OK" "m' = m\<lparr>arg0 := dc, arg1 := qc\<rparr>" "s' = t" using assms(2) dq r registered(1) by (auto simp: devmgr_register_fake_device_def)
    show ?thesis by (rule that(2) [of q v]) (use registered m' lt(1) in \<open>auto simp: queue_slot_iff\<close>)
  qed
next
  case False
  then show ?thesis using assms by (intro refused) (auto simp: devmgr_register_fake_device_def dev_inv_def split: option.splits if_splits)
qed

lemma queue_from_cap_not_OK: "devmgr_queue_from_cap s cap r \<noteq> Inl SCDK_OK"
proof (cases "scdk_cap_check s cap r SCDK_OBJ_DEVICE_QUEUE")
  case (Inl e)
  then show ?thesis using cap_check_Inl_OK by (fastforce simp: devmgr_queue_from_cap_def)
next
  case (Inr e)
  then obtain ob where "scdk_object_lookup s (ce_object_id e) = Inr ob" by (rule cap_check_lookup)
  then show ?thesis using Inr by (simp add: devmgr_queue_from_cap_def split: payload.split)
qed

lemma bind_cases:
  assumes "devmgr_bind_queue m s = (st, m', s')"
  obtains (refused) "st \<noteq> SCDK_OK" "s' = s" "m' = m"
      "queue_binding s (arg0 m) = None \<or> (\<forall>e. scdk_cap_check s (arg1 m) SCDK_RIGHT_SEND SCDK_OBJ_ENDPOINT \<noteq> Inr e)"
  | (bound) e i where "st = SCDK_OK" "m' = m" "scdk_cap_check s (arg1 m) SCDK_RIGHT_SEND SCDK_OBJ_ENDPOINT = Inr e"
      "queue_slot s (arg0 m) i" "s' = s\<lparr>queues := (queues s)(i := (queues s i)\<lparr>dq_bound_target := arg1 m\<rparr>)\<rparr>"
proof (cases "scdk_cap_check s (arg1 m) SCDK_RIGHT_SEND SCDK_OBJ_ENDPOINT")
  case (Inl e)
  then show ?thesis using assms cap_check_Inl_OK [of s "arg1 m" SCDK_RIGHT_SEND SCDK_OBJ_ENDPOINT]
    by (intro refused) (auto simp: devmgr_bind_queue_def split: if_splits)
next
  case e: (Inr e)
  then have nz: "arg1 m \<noteq> 0" by auto
  show ?thesis
  proof (cases "devmgr_queue_from_cap s (arg0 m) SCDK_RIGHT_BIND")
    case (Inl x)
    then have "x \<noteq> SCDK_OK" using queue_from_cap_not_OK by blast
    then show ?thesis using assms e Inl by (intro refused) (auto simp: devmgr_bind_queue_def queue_binding_def split: if_splits)
  next
    case (Inr i)
    have "arg0 m \<noteq> 0"
    proof
      assume "arg0 m = 0"
      with Inr show False by (simp add: devmgr_queue_from_cap_def)
    qed
    then show ?thesis using assms e Inr nz by (intro bound [OF _ _ e Inr]) (auto simp: devmgr_bind_queue_def)
  qed
qed

text \<open>Binding through one queue capability changes the binding of that queue only.\<close>

lemma bind_effect:
  assumes inv: "dev_inv s" and b: "queue_slot s cap i" and s': "s' = s\<lparr>queues := (queues s)(i := (queues s i)\<lparr>dq_bound_target := t\<rparr>)\<rparr>"
  shows "dev_inv s' \<and> queue_binding s' = (queue_binding s)(cap := Some t)"
proof -
  have f: "object_table s' = object_table s" "object_generations s' = object_generations s" "cap_table s' = cap_table s"
    "cap_generations s' = cap_generations s" by (simp_all add: s')
  have qs: "queues s' = (queues s)(i := (queues s i)\<lparr>dq_bound_target := t\<rparr>)" by (simp add: s')
  have q: "queue_slot s' k j \<longleftrightarrow> queue_slot s k j" for k j unfolding queue_slot_iff designated_frame [OF f(1,3,4)] qs by auto
  have only: "k = cap" if "queue_slot s k i" for k using inv b that unfolding dev_inv_def by metis
  have "queue_binding s' k = Some x \<longleftrightarrow> ((queue_binding s)(cap := Some t)) k = Some x" for k x
  proof (cases "k = cap")
    case True
    then show ?thesis using b q by (auto simp: queue_binding_Some qs)
  next
    case False
    then show ?thesis using only q by (auto simp: queue_binding_Some qs)
  qed
  then have "queue_binding s' = (queue_binding s)(cap := Some t)" by (metis ext not_None_eq)
  moreover have "dev_inv s'" using inv q unfolding dev_inv_def kern_inv_frame [OF f] by (simp add: s')
  ultimately show ?thesis by simp
qed

lemma register_effect:
  assumes inv: "dev_inv s" and r: "devmgr_register_fake_device m s = (st, m', s')"
  shows "dev_inv s'" and "st \<noteq> SCDK_OK \<Longrightarrow> queue_binding s' = queue_binding s"
    and "st = SCDK_OK \<Longrightarrow> queue_binding s (arg1 m') = None \<and> queue_binding s' = (queue_binding s)(arg1 m' := Some 0)"
proof -
  have "dev_inv s' \<and> (st \<noteq> SCDK_OK \<longrightarrow> queue_binding s' = queue_binding s) \<and>
      (st = SCDK_OK \<longrightarrow> queue_binding s (arg1 m') = None \<and> queue_binding s' = (queue_binding s)(arg1 m' := Some 0))"
    using inv r
  proof (cases rule: register_message_cases)
    case refused
    have "queue_binding s' k = Some x \<longleftrightarrow> queue_binding s k = Some x" for k x using refused(3,4) by (simp add: queue_binding_Some)
    then have "queue_binding s' = queue_binding s" by (metis ext not_None_eq)
    then show ?thesis using inv refused by (simp add: dev_inv_def)
  next
    case (registered q v)
    have n: "queue_binding s (arg1 m') = None" using registered(6) by (auto simp: queue_binding_def split: sum.splits)
    have "queue_binding s' k = Some x \<longleftrightarrow> ((queue_binding s)(arg1 m' := Some 0)) k = Some x" for k x
    proof (cases "k = arg1 m'")
      case True
      then show ?thesis using registered(3,5,7) by (auto simp: queue_binding_Some)
    next
      case False
      have "queue_slot s' k i \<and> dq_bound_target (queues s' i) = x \<longleftrightarrow> queue_slot s k i \<and> dq_bound_target (queues s i) = x" for i
        using registered(3) registered(8) [OF False, of i] registered(9) [of k i] by (cases "i = q") auto
      then show ?thesis using False by (simp add: queue_binding_Some)
    qed
    then have "queue_binding s' = (queue_binding s)(arg1 m' := Some 0)" by (metis ext not_None_eq)
    moreover have "dq_cap (queues s' i) = k" if "queue_slot s' k i" for k i
    proof (cases "k = arg1 m'")
      case True
      then show ?thesis using that registered(3,4,7) by auto
    next
      case False
      then have "queue_slot s k i" using that registered(8) by simp
      then show ?thesis using inv registered(3,9) by (auto simp: dev_inv_def)
    qed
    ultimately show ?thesis using registered(1,2) n by (simp add: dev_inv_def)
  qed
  then show "dev_inv s'" and "st \<noteq> SCDK_OK \<Longrightarrow> queue_binding s' = queue_binding s"
    and "st = SCDK_OK \<Longrightarrow> queue_binding s (arg1 m') = None \<and> queue_binding s' = (queue_binding s)(arg1 m' := Some 0)" by blast+
qed

text \<open>Queue capabilities are tokens that registration mints.\<close>

definition queue_mint :: "'a dev_state_scheme \<Rightarrow> scdk_message \<Rightarrow> u64 res \<times> 'a dev_state_scheme" where
  "queue_mint s m = (case devmgr_register_fake_device m s of (st, m', s') \<Rightarrow> (if st = SCDK_OK then Inr (arg1 m') else Inl st, s'))"

interpretation devq: token_space dev_inv queue_binding queue_mint "\<lambda>s m v. v = 0"
proof unfold_locales
  fix s :: "'a dev_state_scheme" and m r s' k k' e
  assume i: "dev_inv s"
  obtain st m' t where g: "devmgr_register_fake_device m s = (st, m', t)" by (metis prod_cases3)
  note f = register_effect [OF i g]
  show "dev_inv s'" if "queue_mint s m = (r, s')" using that g f(1) by (simp add: queue_mint_def)
  show "queue_binding s k = None" if "queue_mint s m = (Inr k, s')" using that g f(3) by (auto simp: queue_mint_def split: if_splits)
  show "\<exists>v. queue_binding s' k = Some v \<and> v = 0" if "queue_mint s m = (Inr k, s')"
    using that g f(3) by (auto simp: queue_mint_def split: if_splits)
  show "queue_binding s' k' = queue_binding s k'" if "queue_mint s m = (Inr k, s')" "k' \<noteq> k"
    using that g f(3) by (auto simp: queue_mint_def split: if_splits)
  show "queue_binding s' k' = queue_binding s k'" if "queue_mint s m = (Inl e, s')"
    using that g f(2) by (auto simp: queue_mint_def split: if_splits)
qed

section \<open>Properties\<close>

text \<open>The device manager over a sequence of messages, and the target of the last bind it accepted.\<close>

fun devmgr_serve :: "'a dev_state_scheme \<Rightarrow> scdk_message list \<Rightarrow> 'a dev_state_scheme" where
  "devmgr_serve s [] = s"
| "devmgr_serve s (m # ms) = (case devmgr_endpoint_handler m s of (_, _, s1) \<Rightarrow> devmgr_serve s1 ms)"

fun last_bind :: "'a dev_state_scheme \<Rightarrow> scdk_message list \<Rightarrow> u64 \<Rightarrow> u64 \<Rightarrow> u64" where
  "last_bind s [] cap t = t"
| "last_bind s (m # ms) cap t =
     (case devmgr_endpoint_handler m s of (st, _, s1) \<Rightarrow>
        last_bind s1 ms cap (if st = SCDK_OK \<and> mtype m = SCDK_MSG_DEVICE_QUEUE_BIND \<and> arg0 m = cap then arg1 m else t))"

lemma handler_effect:
  assumes inv: "dev_inv s" and h: "devmgr_endpoint_handler m s = (st, m', s')" and q: "queue_binding s cap = Some t"
  shows "dev_inv s' \<and> queue_binding s' cap =
    Some (if st = SCDK_OK \<and> mtype m = SCDK_MSG_DEVICE_QUEUE_BIND \<and> arg0 m = cap then arg1 m else t)"
proof -
  consider (reg) "mtype m = SCDK_MSG_DEVICE_REGISTER" | (bind) "mtype m = SCDK_MSG_DEVICE_QUEUE_BIND"
    | (other) "mtype m \<noteq> SCDK_MSG_DEVICE_REGISTER" "mtype m \<noteq> SCDK_MSG_DEVICE_QUEUE_BIND" by blast
  then show ?thesis
  proof cases
    case reg
    then have r: "devmgr_register_fake_device m s = (st, m', s')" using h by (simp add: devmgr_endpoint_handler_def)
    note f = register_effect [OF inv r]
    have "mtype m \<noteq> SCDK_MSG_DEVICE_QUEUE_BIND" using reg by (simp add: kconst)
    then show ?thesis using f q by (cases "st = SCDK_OK") auto
  next
    case bind
    then have "devmgr_bind_queue m s = (st, m', s')" using h by (simp add: devmgr_endpoint_handler_def kconst)
    then show ?thesis
    proof (cases rule: bind_cases)
      case (bound e i)
      then show ?thesis using bind_effect [OF inv bound(4,5)] q bind by simp
    qed (use inv q in simp)
  qed (use inv h q in \<open>simp add: devmgr_endpoint_handler_def\<close>)
qed

lemma serve_binding: "dev_inv s \<Longrightarrow> queue_binding s cap = Some t \<Longrightarrow> queue_binding (devmgr_serve s ms) cap = Some (last_bind s ms cap t)"
proof (induction ms arbitrary: s t)
  case (Cons m ms)
  obtain st m' s' where h: "devmgr_endpoint_handler m s = (st, m', s')" by (metis prod_cases3)
  then show ?case using Cons.IH [of s'] handler_effect [OF Cons.prems(1) h Cons.prems(2)] by simp
qed simp

text \<open>
  (C40) A device queue belongs to the capability that registration handed out. A registration
  returns a queue capability that designated no queue before; all other queues keep their
  bindings; whatever messages the device manager then handles, the queue is bound to the target
  of the last message that bound it through this capability, and to nothing if there is none.
  A bind is accepted exactly for a queue capability with the right to bind and a live endpoint
  capability, changes the binding of that queue only, and a refused one changes nothing.
\<close>

theorem device_queue_binding:
  assumes "dev_inv s"
  shows "(devmgr_register_fake_device m s = (SCDK_OK, m1, s1) \<longrightarrow>
      queue_binding s (arg1 m1) = None \<and> (\<forall>c. c \<noteq> arg1 m1 \<longrightarrow> queue_binding s1 c = queue_binding s c) \<and>
      queue_binding (devmgr_serve s1 ms) (arg1 m1) = Some (last_bind s1 ms (arg1 m1) 0)) \<and>
    (devmgr_bind_queue b s = (st, b2, s2) \<longrightarrow>
      (st = SCDK_OK \<longleftrightarrow> queue_binding s (arg0 b) \<noteq> None \<and> (\<exists>e. scdk_cap_check s (arg1 b) SCDK_RIGHT_SEND SCDK_OBJ_ENDPOINT = Inr e)) \<and>
      (if st = SCDK_OK then queue_binding s2 = (queue_binding s)(arg0 b := Some (arg1 b)) else s2 = s))"
proof -
  have "queue_binding (devmgr_serve s1 ms) (arg1 m1) = Some (last_bind s1 ms (arg1 m1) 0)"
    if "devmgr_register_fake_device m s = (SCDK_OK, m1, s1)"
    using register_effect [OF assms that] by (intro serve_binding) simp_all
  moreover have "(st = SCDK_OK \<longleftrightarrow> queue_binding s (arg0 b) \<noteq> None \<and> (\<exists>e. scdk_cap_check s (arg1 b) SCDK_RIGHT_SEND SCDK_OBJ_ENDPOINT = Inr e)) \<and>
      (if st = SCDK_OK then queue_binding s2 = (queue_binding s)(arg0 b := Some (arg1 b)) else s2 = s)"
    if "devmgr_bind_queue b s = (st, b2, s2)"
    using that
  proof (cases rule: bind_cases)
    case (bound e i)
    then show ?thesis using bind_effect [OF assms bound(4,5)] by (auto simp: queue_binding_def)
  qed auto
  ultimately show ?thesis using register_effect(3) [OF assms] by auto
qed

text \<open>The kernel before any service runs, and a system with the device manager.\<close>

definition dev_boot :: dev_state where
  "dev_boot = tty_state.extend tty_boot
     \<lparr>devices = (\<lambda>_. \<lparr>dd_object_id = 0, dd_cap = 0, dd_device_id = 0, dd_present = False\<rparr>),
      queues = (\<lambda>_. \<lparr>dq_object_id = 0, dq_cap = 0, dq_device_id = 0, dq_bound_target = 0, dq_present = False\<rparr>),
      devmgr_started = False, session_started = False\<rparr>"

lemma dev_boot_inv: "kern_inv dev_boot" "ep_inv dev_boot" "\<not> dq_present (queues dev_boot i)" "\<not> devmgr_started dev_boot"
proof -
  have t: "tables dev_boot = tables tty_boot" "object_generations dev_boot = object_generations tty_boot"
    by (simp_all add: dev_boot_def tables_def tty_state.defs)
  show "kern_inv dev_boot" "ep_inv dev_boot"
    by (rule null_tables_inv; use t tty_boot_tables user_boot_tables in \<open>simp add: tables_def\<close>)+
qed (simp_all add: dev_boot_def tty_state.defs)

definition dev_demo :: dev_state where "dev_demo = snd (scdk_devmgr_service_init dev_boot)"

lemma more_queues: "ep_state.more s' = ep_state.more s \<Longrightarrow> queues s' = queues s"
  by (cases s, cases s') simp

lemma dev_demo_inv: "dev_inv dev_demo"
proof -
  obtain r s1 where c: "start_service dev_boot HDevmgr SCDK_SERVICE_DEVMGR = (r, s1)" by fastforce
  have k: "kern_inv s1" by (rule start_service_up(1) [OF dev_boot_inv(1,2) c])
  have q: "queues s1 = queues dev_boot" by (rule more_queues [OF start_service_more [OF c]])
  have d: "dev_demo = s1 \<or> dev_demo = s1\<lparr>devmgr_started := True\<rparr>"
    using c dev_boot_inv(4) by (auto simp: dev_demo_def scdk_devmgr_service_init_def split: sum.split)
  have "kern_inv (s1\<lparr>devmgr_started := True\<rparr>) = kern_inv s1" by (rule kern_inv_frame) simp_all
  then have "kern_inv dev_demo" using d k by auto
  moreover have "queues dev_demo = queues dev_boot" using d q by (elim disjE) (drule arg_cong [where f = queues], simp)+
  ultimately show ?thesis using dev_boot_inv(3) by (simp add: dev_inv_def queue_slot_iff)
qed

theorem device_queue_binding_witness:
  "\<exists>m1 s1. devmgr_register_fake_device ((scdk_message_init 0 0 SCDK_MSG_DEVICE_REGISTER)\<lparr>arg0 := 1\<rparr>) dev_demo = (SCDK_OK, m1, s1) \<and>
     arg1 m1 = 0x100000002 \<and>
     queue_binding (devmgr_serve s1 [(scdk_message_init 0 0 SCDK_MSG_DEVICE_QUEUE_BIND)\<lparr>arg0 := 0x100000002, arg1 := 0x100000000\<rparr>])
       0x100000002 = Some 0x100000000"
proof -
  let ?m = "(scdk_message_init 0 0 SCDK_MSG_DEVICE_REGISTER)\<lparr>arg0 := 1\<rparr>"
  let ?b = "(scdk_message_init 0 0 SCDK_MSG_DEVICE_QUEUE_BIND)\<lparr>arg0 := 0x100000002, arg1 := 0x100000000\<rparr>"
  obtain st m1 s1 where r: "devmgr_register_fake_device ?m dev_demo = (st, m1, s1)" by (metis prod_cases3)
  have "(case devmgr_register_fake_device ?m dev_demo of (st, m1, s1) \<Rightarrow> (st, arg1 m1, last_bind s1 [?b] 0x100000002 0)) =
      (SCDK_OK, 0x100000002, 0x100000000)" by code_simp
  then have x: "st = SCDK_OK" "arg1 m1 = 0x100000002" "last_bind s1 [?b] 0x100000002 0 = 0x100000000" using r by simp_all
  show ?thesis using device_queue_binding [OF dev_demo_inv, of ?m m1 s1 "[?b]"] r x by auto
qed

end
