(* ===== verification/SCDK_Usermode.thy ===== *)
theory SCDK_Usermode
  imports SCDK_Devices
begin

text \<open>
  Entering user mode: \<^verbatim>\<open>arch/x86_64/usermode.c\<close>, and the interrupt table of \<^verbatim>\<open>fault.c\<close>. A program image is copied to fresh pages that are
  mapped into its address space with a stack page, the address space is activated and the
  processor enters ring 3. What the program does until it comes back is the argument \<open>enter\<close>
  (\<^verbatim>\<open>scdk_enter_usermode_asm\<close>): any change of the kernel state. The direct map of physical memory
  at \<^verbatim>\<open>hhdm_offset\<close> is physical memory itself.
\<close>

section \<open>Segments\<close>

definition GDT_ACCESS_KERNEL_CODE :: u8 where [kconst]: "GDT_ACCESS_KERNEL_CODE = 0x9a"
definition GDT_ACCESS_KERNEL_DATA :: u8 where [kconst]: "GDT_ACCESS_KERNEL_DATA = 0x92"
definition GDT_ACCESS_USER_CODE :: u8 where [kconst]: "GDT_ACCESS_USER_CODE = 0xfa"
definition GDT_ACCESS_USER_DATA :: u8 where [kconst]: "GDT_ACCESS_USER_DATA = 0xf2"
definition GDT_ACCESS_TSS :: u64 where [kconst]: "GDT_ACCESS_TSS = 0x89"
definition GDT_FLAGS_LONG_CODE :: u8 where [kconst]: "GDT_FLAGS_LONG_CODE = 0xa"
definition GDT_FLAGS_DATA :: u8 where [kconst]: "GDT_FLAGS_DATA = 0xc"

text \<open>The interrupt descriptor table of \<^verbatim>\<open>fault.c\<close>.\<close>

definition IDT_KERNEL_CODE_SEL :: u16 where [kconst]: "IDT_KERNEL_CODE_SEL = 8"
definition IDT_GATE_INTERRUPT :: u8 where [kconst]: "IDT_GATE_INTERRUPT = 0x8e"

record idt_entry =
  offset_low :: u16
  selector :: u16
  ist :: u8
  type_attr :: u8
  offset_mid :: u16
  offset_high :: u32
  idt_zero :: u32

definition null_gate :: idt_entry where
  "null_gate = \<lparr>offset_low = 0, selector = 0, ist = 0, type_attr = 0, offset_mid = 0, offset_high = 0, idt_zero = 0\<rparr>"

text \<open>
  The two fields of the task-state segment that are not zero, and the addresses of the static
  objects \<^verbatim>\<open>tss\<close> and \<^verbatim>\<open>syscall_stack\<close>, the interrupt entry points and the code between the stub
  labels, which the linker fixes.
\<close>

record um_state = dev_state +
  idt :: "u8 \<Rightarrow> idt_entry"
  fault_initialized :: bool
  isr_invalid_opcode :: u64
  isr_general_protection :: u64
  isr_page_fault :: u64
  gdt :: "nat \<Rightarrow> u64"
  tss_rsp0 :: u64
  tss_iopb_offset :: u16
  usermode_initialized :: bool
  tss_address :: u64
  syscall_stack_address :: u64
  user_test_stub :: "u8 list"
  page_fault_stub :: "u8 list"
  invalid_syscall_stub :: "u8 list"
  bad_pointer_stub :: "u8 list"

definition tss_size :: nat where "tss_size = 104"

definition segment_descriptor :: "u8 \<Rightarrow> u8 \<Rightarrow> u64" where
  "segment_descriptor access flags =
     (let limit = 0xfffff :: u64
      in (limit AND 0xffff) OR push_bit 48 (drop_bit 16 limit) OR push_bit 40 (ucast access) OR push_bit 52 (ucast flags))"

definition set_tss_descriptor :: "(nat \<Rightarrow> u64) \<Rightarrow> nat \<Rightarrow> u64 \<Rightarrow> u32 \<Rightarrow> nat \<Rightarrow> u64" where
  "set_tss_descriptor table index base limit =
     table(index := ucast (limit AND 0xffff) OR push_bit 16 (base AND 0xffffff) OR push_bit 40 GDT_ACCESS_TSS OR
             push_bit 48 (ucast (drop_bit 16 limit AND 0xf)) OR push_bit 56 (drop_bit 24 base AND 0xff),
           index + 1 := drop_bit 32 base)"

definition set_gate :: "'a um_state_scheme \<Rightarrow> u8 \<Rightarrow> u64 \<Rightarrow> 'a um_state_scheme" where
  "set_gate s vector address =
     s\<lparr>idt := (idt s)(vector := \<lparr>offset_low = ucast address, selector = IDT_KERNEL_CODE_SEL, ist = 0, type_attr = IDT_GATE_INTERRUPT,
       offset_mid = ucast (drop_bit 16 address), offset_high = ucast (drop_bit 32 address), idt_zero = 0\<rparr>)\<rparr>"

definition scdk_fault_init :: "'a um_state_scheme \<Rightarrow> scdk_status \<times> 'a um_state_scheme" where
  "scdk_fault_init s =
     (if fault_initialized s then (SCDK_OK, s)
      else let s1 = s\<lparr>idt := (\<lambda>_. null_gate)\<rparr>;
               s2 = set_gate s1 (ucast SCDK_FAULT_INVALID_OPCODE) (isr_invalid_opcode s);
               s3 = set_gate s2 (ucast SCDK_FAULT_GENERAL_PROTECTION) (isr_general_protection s);
               s4 = set_gate s3 (ucast SCDK_FAULT_PAGE) (isr_page_fault s)
           in (SCDK_OK, s4\<lparr>fault_initialized := True\<rparr>))"

definition scdk_fault_install_gate :: "'a um_state_scheme \<Rightarrow> u8 \<Rightarrow> u64 \<Rightarrow> scdk_status \<times> 'a um_state_scheme" where
  "scdk_fault_install_gate s vector handler =
     (if handler = 0 then (SCDK_ERR_INVAL, s)
      else case (if \<not> fault_initialized s then scdk_fault_init s else (SCDK_OK, s)) of
        (status, s1) \<Rightarrow> if status \<noteq> SCDK_OK then (status, s1) else (SCDK_OK, set_gate s1 vector handler))"

definition scdk_usermode_init :: "'a um_state_scheme \<Rightarrow> u64 \<Rightarrow> scdk_status \<times> 'a um_state_scheme" where
  "scdk_usermode_init s syscall_stack_top =
     (if syscall_stack_top = 0 \<or> syscall_stack_top AND 0xf \<noteq> 0 then (SCDK_ERR_INVAL, s)
      else let segments = (\<lambda>_. 0)(1 := segment_descriptor GDT_ACCESS_KERNEL_CODE GDT_FLAGS_LONG_CODE,
                 2 := segment_descriptor GDT_ACCESS_KERNEL_DATA GDT_FLAGS_DATA,
                 3 := segment_descriptor GDT_ACCESS_USER_DATA GDT_FLAGS_DATA,
                 4 := segment_descriptor GDT_ACCESS_USER_DATA GDT_FLAGS_DATA,
                 5 := segment_descriptor GDT_ACCESS_USER_CODE GDT_FLAGS_LONG_CODE);
               s1 = s\<lparr>tss_rsp0 := syscall_stack_top, tss_iopb_offset := of_nat tss_size,
                 gdt := set_tss_descriptor segments 6 (tss_address s) (of_nat tss_size - 1)\<rparr>
           in case scdk_fault_init s1 of
                (status, s2) \<Rightarrow>
                  if status \<noteq> SCDK_OK then (status, s2)
                  else case scdk_syscall_init s2 syscall_stack_top of
                    (status, s3) \<Rightarrow> if status \<noteq> SCDK_OK then (status, s3) else (SCDK_OK, s3\<lparr>usermode_initialized := True\<rparr>))"

section \<open>Images\<close>

text \<open>\<^verbatim>\<open>memcpy\<close> to the direct map of a page.\<close>

fun store_phys :: "'a vmm_state_scheme \<Rightarrow> u64 \<Rightarrow> u8 list \<Rightarrow> 'a vmm_state_scheme" where
  "store_phys m pa [] = m"
| "store_phys m pa (b # bs) = store_phys (set_phys_byte m pa b) (pa + 1) bs"




definition user_stack_page :: u64 where [kconst]: "user_stack_page = SCDK_USER_TEST_STACK_TOP - SCDK_PAGE_SIZE"



text \<open>The label \<^verbatim>\<open>cleanup\<close>.\<close>

abbreviation unmap_user :: "u64 \<Rightarrow> u64 \<Rightarrow> 'a aspace_state_scheme \<Rightarrow> 'a aspace_state_scheme" where
  "unmap_user aspace v s \<equiv> snd (scdk_address_space_unmap s aspace v)"

abbreviation free_page_in :: "'a aspace_state_scheme \<Rightarrow> u64 \<Rightarrow> 'a aspace_state_scheme" where
  "free_page_in s p \<equiv> s\<lparr>mm := snd (scdk_page_free (mm s) p)\<rparr>"

abbreviation free_phys :: "u64 \<Rightarrow> 'a aspace_state_scheme \<Rightarrow> 'a aspace_state_scheme" where
  "free_phys p s \<equiv> if p \<noteq> 0 then free_page_in s p else s"





text \<open>
  The older entry for the built-in test program: the clean-up is inline on every branch. When the
  activation fails or the program does not report its exit, the pages stay mapped.
  \<open>run_stub_pages\<close> goes from the size check of the stub to the end.
\<close>

definition run_stub_pages ::
  "('a um_state_scheme \<Rightarrow> u64 \<Rightarrow> u64 \<Rightarrow> u64 \<Rightarrow> 'a um_state_scheme) \<Rightarrow> 'a um_state_scheme \<Rightarrow> u64 \<Rightarrow> u64 \<Rightarrow> u64 \<Rightarrow> u64 \<Rightarrow> u64
     \<Rightarrow> scdk_status \<times> 'a um_state_scheme"
where
  "run_stub_pages enter s aspace boot_root console_endpoint code_phys stack_phys =
     (let free_both = (\<lambda>s. free_page_in (free_page_in s stack_phys) code_phys)
      in if user_test_stub s = [] \<or> length (user_test_stub s) > 4096 then (SCDK_ERR_BOUNDS, free_both s)
         else case scdk_address_space_map (s\<lparr>mm := store_phys (mm s) code_phys (user_test_stub s)\<rparr>)
                     aspace SCDK_USER_TEST_CODE_VIRT code_phys 0 of (status, s) \<Rightarrow>
           if status \<noteq> SCDK_OK then (status, free_both s)
           else case scdk_address_space_map s aspace user_stack_page stack_phys SCDK_VMM_MAP_WRITE of (status, s) \<Rightarrow>
             if status \<noteq> SCDK_OK then (status, free_both (unmap_user aspace SCDK_USER_TEST_CODE_VIRT s))
             else case scdk_address_space_activate s aspace of (status, s) \<Rightarrow>
               if status \<noteq> SCDK_OK then (status, s)
               else let s = enter s SCDK_USER_TEST_CODE_VIRT SCDK_USER_TEST_STACK_TOP console_endpoint
                    in case scdk_vmm_activate_root (mm s) boot_root of (status, m) \<Rightarrow>
                      (let s = s\<lparr>mm := m\<rparr>
                       in if status \<noteq> SCDK_OK then (status, s)
                          else if \<not> usermode_initialized s \<or> \<not> user_exited s \<or> \<not> endpoint_call_passed s then (SCDK_ERR_BUSY, s)
                          else (SCDK_OK, free_both (unmap_user aspace SCDK_USER_TEST_CODE_VIRT (unmap_user aspace user_stack_page s)))))"

definition run_stub_in_aspace ::
  "('a um_state_scheme \<Rightarrow> u64 \<Rightarrow> u64 \<Rightarrow> u64 \<Rightarrow> 'a um_state_scheme) \<Rightarrow> 'a um_state_scheme \<Rightarrow> u64 \<Rightarrow> u64
     \<Rightarrow> scdk_status \<times> 'a um_state_scheme"
where
  "run_stub_in_aspace enter s aspace hhdm_offset =
     (if aspace = 0 \<or> hhdm_offset = 0 then (SCDK_ERR_INVAL, s)
      else case scdk_usermode_init s (syscall_stack_address s + SCDK_PAGE_SIZE) of (status, s) \<Rightarrow>
        if status \<noteq> SCDK_OK then (status, s)
        else case scdk_vmm_current_root (mm s) of
          Inl e \<Rightarrow> (e, s)
        | Inr boot_root \<Rightarrow>
            (case scdk_service_lookup s SCDK_SERVICE_CONSOLE of
               Inl e \<Rightarrow> (e, s)
             | Inr console_endpoint \<Rightarrow>
                 (case scdk_page_alloc (mm s) of
                    (Inl e, m) \<Rightarrow> (e, s\<lparr>mm := m\<rparr>)
                  | (Inr code_phys, m) \<Rightarrow>
                      (case scdk_page_alloc m of
                         (Inl e, m1) \<Rightarrow> (e, s\<lparr>mm := snd (scdk_page_free m1 code_phys)\<rparr>)
                       | (Inr stack_phys, m1) \<Rightarrow>
                           run_stub_pages enter (s\<lparr>mm := zero_page (zero_page m1 code_phys) stack_phys\<rparr>)
                             aspace boot_root console_endpoint code_phys stack_phys))))"

definition scdk_usermode_run_task_test ::
  "('a um_state_scheme \<Rightarrow> u64 \<Rightarrow> u64 \<Rightarrow> u64 \<Rightarrow> 'a um_state_scheme) \<Rightarrow> 'a um_state_scheme \<Rightarrow> u64 \<Rightarrow> u64 \<Rightarrow> u64
     \<Rightarrow> scdk_status \<times> 'a um_state_scheme"
where
  "scdk_usermode_run_task_test enter s aspace thread hhdm_offset =
     (case scdk_cap_check s thread SCDK_RIGHT_READ SCDK_OBJ_THREAD of
        Inl e \<Rightarrow> (e, s)
      | Inr _ \<Rightarrow> run_stub_in_aspace enter s aspace hhdm_offset)"

definition scdk_usermode_run_builtin_test ::
  "('a um_state_scheme \<Rightarrow> u64 \<Rightarrow> u64 \<Rightarrow> u64 \<Rightarrow> 'a um_state_scheme) \<Rightarrow> 'a um_state_scheme \<Rightarrow> u64 \<Rightarrow> scdk_status \<times> 'a um_state_scheme"
where
  "scdk_usermode_run_builtin_test enter s hhdm_offset =
     (if hhdm_offset = 0 then (SCDK_ERR_INVAL, s)
      else case scdk_address_space_create s of
        (Inl e, s1) \<Rightarrow> (e, s1)
      | (Inr aspace, s1) \<Rightarrow> run_stub_in_aspace enter s1 aspace hhdm_offset)"

section \<open>The address space in use\<close>

text \<open>Whether the memory manager runs and which root is active, which only an activation changes.\<close>

definition root_same :: "'a vmm_state_scheme \<Rightarrow> 'a vmm_state_scheme \<Rightarrow> bool" where
  "root_same m m' \<longleftrightarrow> vmm_initialized m' = vmm_initialized m \<and> active_cr3_phys m' = active_cr3_phys m"

lemma root_same_refl [simp]: "root_same m m" by (simp add: root_same_def)

lemma root_same_trans [trans]: "root_same m m1 \<Longrightarrow> root_same m1 m2 \<Longrightarrow> root_same m m2" by (simp add: root_same_def)

lemma root_same_upd [simp]:
  "root_same m (set_pte m1 t i e) = root_same m m1" "root_same m (zero_page m1 p) = root_same m m1"
  "root_same m (set_phys_byte m1 pa b) = root_same m m1"
  by (simp_all add: root_same_def set_phys_byte_def)

lemma root_same_store [simp]: "root_same m (store_phys m1 pa bs) = root_same m m1"
  by (induction bs arbitrary: m1 pa) simp_all

lemma root_same_alloc: "scdk_page_alloc m = (r, m') \<Longrightarrow> root_same m m'"
  by (drule pmm_alloc_frame) (simp add: root_same_def)

lemma root_same_free [simp]: "root_same m (snd (scdk_page_free m1 p)) = root_same m m1"
  by (auto simp: scdk_page_free_def root_same_def)

lemma root_same_table: "allocate_table m = (r, m') \<Longrightarrow> root_same m m'"
  using root_same_alloc by (fastforce simp: allocate_table_def split: prod.splits sum.splits)

lemma root_same_next: "next_table m t i c f = (r, m') \<Longrightarrow> root_same m m'"
  using root_same_table by (fastforce simp: next_table_def Let_def split: if_splits prod.splits sum.splits)

lemma root_same_leaf: "leaf_table_for_root m root v c f = (r, m') \<Longrightarrow> root_same m m'"
  unfolding leaf_table_for_root_def by (auto split: prod.splits sum.splits dest!: root_same_next elim!: root_same_trans)


lemma root_same_unmap: "scdk_vmm_unmap_page_in_root m root v = (r, m') \<Longrightarrow> root_same m m'"
  using root_same_leaf by (fastforce simp: scdk_vmm_unmap_page_in_root_def Let_def split: if_splits prod.splits sum.splits)



lemma root_same_heap [simp]:
  "root_same m0 (set_magic m b v) = root_same m0 m" "root_same m0 (set_size m b v) = root_same m0 m"
  "root_same m0 (set_free m b f) = root_same m0 m" "root_same m0 (set_prev m b v) = root_same m0 m"
  "root_same m0 (set_next m b v) = root_same m0 m" "root_same m0 (m\<lparr>heap_head := h\<rparr>) = root_same m0 m"
  "root_same m0 (m\<lparr>heap_tail := h\<rparr>) = root_same m0 m" "root_same m0 (m\<lparr>heap_commit_end := h\<rparr>) = root_same m0 m"
  by (simp_all add: root_same_def set_defs)

lemma root_same_blocks [simp]:
  "root_same m0 (block_insert_tail m b) = root_same m0 m" "root_same m0 (block_remove m b) = root_same m0 m"
  "root_same m0 (block_split m b r) = root_same m0 m"
  by (simp_all add: block_insert_tail_def block_remove_def block_split_def Let_def)

lemma root_same_coalesce [simp]: "root_same m0 (block_coalesce_forward m b) = root_same m0 m"
  by (simp add: block_coalesce_forward_def Let_def)

lemma root_same_kfree [simp]: "root_same m0 (scdk_kfree m p) = root_same m0 m"
  by (simp add: scdk_kfree_def Let_def)




lemma root_same_aspace_unmap [simp]: "root_same m (mm (unmap_user c v s)) = root_same m (mm s)"
proof -
  have "root_same (mm s) (mm (unmap_user c v s))"
    unfolding scdk_address_space_unmap_def by (auto split: sum.splits if_splits prod.splits dest!: root_same_unmap)
  then show ?thesis by (simp add: root_same_def)
qed




lemma activate_init: "vmm_initialized (snd (scdk_vmm_activate_root m r)) = vmm_initialized m"
  by (simp add: scdk_vmm_activate_root_def Let_def)





lemma root_same_free_phys [simp]: "root_same m (mm (free_phys p s)) = root_same m (mm s)" by simp

lemma restore_mm [simp]: "mm (scdk_syscall_restore_task_state s st) = mm s"
  by (simp add: scdk_syscall_restore_task_state_def)





section \<open>Properties\<close>













end
