(* ===== verification/SCDK_Program.thy ===== *)
theory SCDK_Program
  imports SCDK_Usermode
begin

text \<open>
  What a program finds when it starts: the pages that \<^verbatim>\<open>scdk_usermode_run_flat_image\<close> builds
  hold the image and nothing else, read-only, above them a zeroed stack. The page-table map \<open>T\<close> of
  the address-space invariant records the frames of the program too, so that no page table
  created later overlaps them.
\<close>

section \<open>Bytes of a page\<close>














lemma set_byte_frame [simp]:
  "heap_same s (set_phys_byte m a b) = heap_same s m" "pmm_inv (set_phys_byte m a b) = pmm_inv m"
  "managed (set_phys_byte m a b) = managed m" "stack_pages (set_phys_byte m a b) = stack_pages m"
  "vmm_initialized (set_phys_byte m a b) = vmm_initialized m"
  by (simp_all add: set_phys_byte_def heap_same_def)


section \<open>Frames of the program\<close>




section \<open>Building the address space\<close>













section \<open>The whole preparation\<close>














section \<open>Properties\<close>



end
