(* ===== verification/SCDK_Timer.thy ===== *)
theory SCDK_Timer
  imports SCDK_Usermode
begin

text \<open>
  The timer, \<^verbatim>\<open>arch/x86_64/timer.c\<close>: programming of the interrupt controller and of the interval
  timer, the tick counter and preemption. Writes to I/O ports are recorded in the order they are
  made.
\<close>

definition PIT_BASE_HZ :: u32 where [kconst]: "PIT_BASE_HZ = 1193182"
definition PIT_CHANNEL0 :: u16 where [kconst]: "PIT_CHANNEL0 = 0x40"
definition PIT_COMMAND :: u16 where [kconst]: "PIT_COMMAND = 0x43"
definition PIT_MODE_RATE_LOHI :: u8 where [kconst]: "PIT_MODE_RATE_LOHI = 0x34"
definition PIC1_COMMAND :: u16 where [kconst]: "PIC1_COMMAND = 0x20"
definition PIC1_DATA :: u16 where [kconst]: "PIC1_DATA = 0x21"
definition PIC2_COMMAND :: u16 where [kconst]: "PIC2_COMMAND = 0xa0"
definition PIC2_DATA :: u16 where [kconst]: "PIC2_DATA = 0xa1"
definition PIC_EOI :: u8 where [kconst]: "PIC_EOI = 0x20"
definition PIC_ICW1_INIT :: u8 where [kconst]: "PIC_ICW1_INIT = 0x10"
definition PIC_ICW1_ICW4 :: u8 where [kconst]: "PIC_ICW1_ICW4 = 1"
definition PIC_ICW4_8086 :: u8 where [kconst]: "PIC_ICW4_8086 = 1"
definition IRQ0_VECTOR :: u8 where [kconst]: "IRQ0_VECTOR = 32"

record timer_state = um_state +
  timer_ticks :: u64
  timer_preemption_enabled :: bool
  timer_initialized :: bool
  interrupts_enabled :: bool
  timer_irq_entry :: u64
  port_writes :: "(u16 \<times> u8) list"

definition outb :: "u16 \<Rightarrow> u8 \<Rightarrow> 'a timer_state_scheme \<Rightarrow> 'a timer_state_scheme" where
  "outb port v s = s\<lparr>port_writes := port_writes s @ [(port, v)]\<rparr>"

definition io_wait :: "'a timer_state_scheme \<Rightarrow> 'a timer_state_scheme" where
  "io_wait s = outb 0x80 0 s"

definition sti :: "'a timer_state_scheme \<Rightarrow> 'a timer_state_scheme" where
  "sti s = s\<lparr>interrupts_enabled := True\<rparr>"

definition pic_remap_for_timer :: "'a timer_state_scheme \<Rightarrow> 'a timer_state_scheme" where
  "pic_remap_for_timer s =
     (let s = outb PIC2_DATA 0xff (outb PIC1_DATA 0xff s);
          s = io_wait (outb PIC1_COMMAND (PIC_ICW1_INIT OR PIC_ICW1_ICW4) s);
          s = io_wait (outb PIC2_COMMAND (PIC_ICW1_INIT OR PIC_ICW1_ICW4) s);
          s = io_wait (outb PIC1_DATA 0x20 s);
          s = io_wait (outb PIC2_DATA 0x28 s);
          s = io_wait (outb PIC1_DATA 0x04 s);
          s = io_wait (outb PIC2_DATA 0x02 s);
          s = io_wait (outb PIC1_DATA PIC_ICW4_8086 s);
          s = io_wait (outb PIC2_DATA PIC_ICW4_8086 s)
      in outb PIC2_DATA 0xff (outb PIC1_DATA 0xfe s))"

definition pit_program :: "'a timer_state_scheme \<Rightarrow> u32 \<Rightarrow> scdk_status \<times> 'a timer_state_scheme" where
  "pit_program s hz =
     (if hz = 0 \<or> hz > PIT_BASE_HZ then (SCDK_ERR_INVAL, s)
      else let divisor = PIT_BASE_HZ div hz
           in if divisor = 0 \<or> divisor > 0xffff then (SCDK_ERR_INVAL, s)
              else (SCDK_OK, outb PIT_CHANNEL0 (ucast (drop_bit 8 divisor AND 0xff))
                     (outb PIT_CHANNEL0 (ucast (divisor AND 0xff)) (outb PIT_COMMAND PIT_MODE_RATE_LOHI s))))"

definition scdk_timer_init :: "'a timer_state_scheme \<Rightarrow> u32 \<Rightarrow> scdk_status \<times> 'a timer_state_scheme" where
  "scdk_timer_init s hz =
     (if timer_initialized s then (SCDK_OK, s)
      else case scdk_fault_init s of (status, s) \<Rightarrow>
        if status \<noteq> SCDK_OK then (status, s)
        else case scdk_fault_install_gate s IRQ0_VECTOR (timer_irq_entry s) of (status, s) \<Rightarrow>
          if status \<noteq> SCDK_OK then (status, s)
          else case pit_program (pic_remap_for_timer s) hz of (status, s) \<Rightarrow>
            if status \<noteq> SCDK_OK then (status, s)
            else (SCDK_OK, s\<lparr>timer_ticks := 0, timer_preemption_enabled := False, timer_initialized := True\<rparr>))"

definition scdk_timer_enable_preemption :: "'a timer_state_scheme \<Rightarrow> 'a timer_state_scheme" where
  "scdk_timer_enable_preemption s = sti (s\<lparr>timer_preemption_enabled := True\<rparr>)"

definition scdk_timer_disable_preemption :: "'a timer_state_scheme \<Rightarrow> 'a timer_state_scheme" where
  "scdk_timer_disable_preemption s = s\<lparr>timer_preemption_enabled := False\<rparr>"

definition scdk_timer_tick_seen :: "'a timer_state_scheme \<Rightarrow> bool" where
  "scdk_timer_tick_seen s \<longleftrightarrow> timer_ticks s \<noteq> 0"

definition scdk_timer_interrupt :: "'a timer_state_scheme \<Rightarrow> 'a timer_state_scheme" where
  "scdk_timer_interrupt s =
     (let s = outb PIC1_COMMAND PIC_EOI (s\<lparr>timer_ticks := timer_ticks s + 1\<rparr>)
      in if timer_preemption_enabled s then scdk_yield (sti s) else s)"

section \<open>What is programmed\<close>

lemma byte_split: "unat (w :: u32) < 65536 \<Longrightarrow> unat (ucast (w AND 0xff) :: u8) + 256 * unat (ucast (drop_bit 8 w AND 0xff) :: u8) = unat w"
proof -
  assume w: "unat w < 65536"
  have m: "(0xff :: u32) = mask 8" by (simp add: mask_eq_exp_minus_1)
  have b: "unat (ucast (v AND mask 8 :: u32) :: u8) = unat v mod 256" for v :: u32
    unfolding take_bit_eq_mask [symmetric] unsigned_ucast_eq unsigned_take_bit_eq by (simp add: take_bit_eq_mod)
  have d: "unat (drop_bit 8 w) = unat w div 256" by (simp add: drop_bit_eq_div unat_div)
  show ?thesis unfolding m b d using w by simp
qed

lemma pit_divisor:
  "fst (pit_program s hz) = (if 19 \<le> unat hz \<and> unat hz \<le> 1193182 then SCDK_OK else SCDK_ERR_INVAL)"
  "fst (pit_program s hz) = SCDK_OK \<Longrightarrow> \<exists>lo hi. unat lo + 256 * unat hi = 1193182 div unat hz \<and>
     port_writes (snd (pit_program s hz)) = port_writes s @ [(PIT_COMMAND, PIT_MODE_RATE_LOHI), (PIT_CHANNEL0, lo), (PIT_CHANNEL0, hi)]"
proof -
  let ?d = "PIT_BASE_HZ div hz"
  have d: "unat ?d = 1193182 div unat hz" by (simp add: unat_div kconst)
  have big: "?d > 0xffff \<longleftrightarrow> 65535 < 1193182 div unat hz" by (simp add: word_less_nat_alt d)
  have hz: "hz > PIT_BASE_HZ \<longleftrightarrow> 1193182 < unat hz" by (simp add: word_less_nat_alt kconst)
  have z: "hz = 0 \<longleftrightarrow> unat hz = 0" by (simp add: unat_eq_0)
  have dz: "?d = 0 \<longleftrightarrow> 1193182 div unat hz = 0" unfolding d [symmetric] by (simp add: unat_eq_0)
  have low: "65535 < 1193182 div unat hz \<longleftrightarrow> unat hz < 19" if "unat hz \<noteq> 0"
    using that by (auto simp: less_eq_div_iff_mult_less_eq Suc_le_eq [symmetric])
  have one: "1193182 div unat hz = 0 \<longleftrightarrow> 1193182 < unat hz" if "unat hz \<noteq> 0" using that by (simp add: div_eq_0_iff)
  show f: "fst (pit_program s hz) = (if 19 \<le> unat hz \<and> unat hz \<le> 1193182 then SCDK_OK else SCDK_ERR_INVAL)"
    unfolding pit_program_def Let_def z hz dz big using low one by auto
  show "\<exists>lo hi. unat lo + 256 * unat hi = 1193182 div unat hz \<and>
     port_writes (snd (pit_program s hz)) = port_writes s @ [(PIT_COMMAND, PIT_MODE_RATE_LOHI), (PIT_CHANNEL0, lo), (PIT_CHANNEL0, hi)]"
    if ok: "fst (pit_program s hz) = SCDK_OK"
  proof (intro exI conjI)
    have "\<not> ?d > 0xffff" using ok by (auto simp: pit_program_def Let_def split: if_splits)
    then show "unat (ucast (?d AND 0xff) :: u8) + 256 * unat (ucast (drop_bit 8 ?d AND 0xff) :: u8) = 1193182 div unat hz"
      using byte_split [of ?d] d by (simp add: word_less_nat_alt)
    show "port_writes (snd (pit_program s hz)) =
        port_writes s @ [(PIT_COMMAND, PIT_MODE_RATE_LOHI), (PIT_CHANNEL0, ucast (?d AND 0xff)), (PIT_CHANNEL0, ucast (drop_bit 8 ?d AND 0xff))]"
      using ok by (auto simp: pit_program_def outb_def Let_def split: if_splits)
  qed
qed

text \<open>
  The timer starts exactly for the frequencies the 16-bit divisor can express, the last bytes sent
  to the interval timer are that divisor, and interrupt 32 leads to the timer entry.
\<close>

theorem timer_init_exact:
  assumes "\<not> timer_initialized s" and "timer_irq_entry s \<noteq> 0" and "scdk_timer_init s hz = (st, s')"
  shows "st = (if 19 \<le> unat hz \<and> unat hz \<le> 1193182 then SCDK_OK else SCDK_ERR_INVAL) \<and>
    (st = SCDK_OK \<longrightarrow> timer_initialized s' \<and>
      (\<exists>ws lo hi. unat lo + 256 * unat hi = 1193182 div unat hz \<and>
         port_writes s' = ws @ [(PIT_COMMAND, PIT_MODE_RATE_LOHI), (PIT_CHANNEL0, lo), (PIT_CHANNEL0, hi)]))"
proof -
  obtain s1 where f: "scdk_fault_init s = (SCDK_OK, s1)" "timer_irq_entry s1 = timer_irq_entry s"
    by (cases "scdk_fault_init s") (auto simp: scdk_fault_init_def set_gate_def Let_def split: if_splits)
  obtain s2 where g: "scdk_fault_install_gate s1 IRQ0_VECTOR (timer_irq_entry s1) = (SCDK_OK, s2)"
    using assms(2) f(2)
    by (cases "scdk_fault_install_gate s1 IRQ0_VECTOR (timer_irq_entry s1)")
      (auto simp: scdk_fault_install_gate_def scdk_fault_init_def Let_def split: if_splits)
  obtain r s3 where p: "pit_program (pic_remap_for_timer s2) hz = (r, s3)" by fastforce
  have "st = r" "st = SCDK_OK \<Longrightarrow> timer_initialized s' \<and> port_writes s' = port_writes s3"
    using assms(1,3) f(1) g p by (auto simp: scdk_timer_init_def split: if_splits)
  then show ?thesis using pit_divisor [of "pic_remap_for_timer s2" hz] p by auto
qed

end
