(* ===== verification/Spec2Isabelle.thy ===== *)
theory Spec2Isabelle
  imports SCDK_Program SCDK_Timer
begin

text \<open>
  A verification development for SCDK, a capability-based x86-64 kernel written in
  C. The code under verification is in \<^verbatim>\<open>src/src/\<close> (\<^verbatim>\<open>core\<close>, \<^verbatim>\<open>ipc\<close>, \<^verbatim>\<open>mm\<close>, \<^verbatim>\<open>services\<close>,
  \<^verbatim>\<open>drivers\<close>, \<^verbatim>\<open>arch/x86_64\<close>) with its headers in \<^verbatim>\<open>src/src/include/scdk\<close>.
\<close>

end
